(* ===== verification/Prelude_Base.thy ===== *)
theory Prelude_Base
  imports Main "HOL-Library.Word" "HOL-Library.Multiset"
begin

text \<open>
  Shared vocabulary of the development: bytes, Go results, the collections of rewrite rules the
  component theories use, and the generic facts on lists and maps they share.
\<close>

unbundle bit_operations_syntax

text \<open>
  Go's \<^verbatim>\<open>byte\<close>, \<^verbatim>\<open>uint16\<close> and \<^verbatim>\<open>uint32\<close> are words of their width. Go's \<^verbatim>\<open>rune\<close> is an
  \<^verbatim>\<open>int32\<close>; the values handled here are code points and the sentinel \<open>-1\<close>, so it is an
  \<^typ>\<open>int\<close>. Counters and lengths of slices never go below zero and are \<^typ>\<open>nat\<close>.
\<close>

type_synonym byte = "8 word"
type_synonym u16 = "16 word"
type_synonym u32 = "32 word"
type_synonym bytes = "byte list"
type_synonym rune = int

text \<open>The bytes of a Go string literal.\<close>

definition str :: "string \<Rightarrow> bytes" where
  "str s = map of_char s"

named_theorems frame_simps \<open>fields an operation leaves unchanged\<close>
named_theorems inv_intros \<open>introduction rules for the invariants of the components\<close>

subsection \<open>Lists\<close>


lemma list_cases4:
  obtains "xs = []" | a where "xs = [a]" | a b where "xs = [a, b]"
  | a b c ys where "xs = a # b # c # ys"
proof (cases xs)
  case (Cons a xs1)
  note C1 = Cons
  show ?thesis
  proof (cases xs1)
    case (Cons b xs2)
    with C1 that show ?thesis by (cases xs2) auto
  qed (use C1 that in auto)
qed (use that in auto)

lemma drop_append_le: "n \<le> length xs \<Longrightarrow> drop n (xs @ ys) = drop n xs @ ys"
  by simp

lemma length_filter_partition:
  "length (filter P xs) + length (filter (\<lambda>x. \<not> P x) xs) = length xs"
  by (induction xs) auto

lemma length_filter_mono:
  "(\<And>x. x \<in> set xs \<Longrightarrow> P x \<Longrightarrow> Q x) \<Longrightarrow> length (filter P xs) \<le> length (filter Q xs)"
  by (induction xs) (auto intro: le_SucI)

lemma sum_list_filter_le:
  fixes f :: "'a \<Rightarrow> nat"
  shows "sum_list (map f (filter P xs)) \<le> sum_list (map f xs)"
  by (induction xs) auto

end
