(* ===== verification/Go_Utf8.thy ===== *)
theory Go_Utf8
  imports Prelude_Base
begin

text \<open>
  The part of Go's \<^verbatim>\<open>unicode/utf8\<close> the program uses: \<^verbatim>\<open>ValidRune\<close>, \<^verbatim>\<open>RuneLen\<close>, \<^verbatim>\<open>EncodeRune\<close>,
  \<^verbatim>\<open>DecodeRune\<close>, \<^verbatim>\<open>FullRune\<close>, \<^verbatim>\<open>Valid\<close> and \<^verbatim>\<open>RuneStart\<close>, with the facts the transformers and the
  chunked readers need: decoding inverts encoding, and a full rune decodes the same whatever
  follows it.
\<close>

definition rune_error :: rune where
  "rune_error = 0xFFFD"

definition max_rune :: rune where
  "max_rune = 0x10FFFF"

definition valid_rune :: "rune \<Rightarrow> bool" where
  "valid_rune r \<longleftrightarrow> 0 \<le> r \<and> r \<le> max_rune \<and> \<not> (0xD800 \<le> r \<and> r \<le> 0xDFFF)"

definition rune_len :: "rune \<Rightarrow> int" where
  "rune_len r =
     (if r < 0 then -1
      else if r \<le> 0x7F then 1
      else if r \<le> 0x7FF then 2
      else if 0xD800 \<le> r \<and> r \<le> 0xDFFF then -1
      else if r \<le> 0xFFFF then 3
      else if r \<le> max_rune then 4
      else -1)"

text \<open>The shifts and masks of the Go source are the divisions and remainders by powers of two.\<close>

definition byte_of :: "int \<Rightarrow> byte" where
  "byte_of k = word_of_int k"

definition encode_scalar :: "rune \<Rightarrow> bytes" where
  "encode_scalar r =
     (if r \<le> 0x7F then [byte_of r]
      else if r \<le> 0x7FF then [byte_of (0xC0 + r div 64), byte_of (0x80 + r mod 64)]
      else if r \<le> 0xFFFF then
        [byte_of (0xE0 + r div 4096), byte_of (0x80 + r div 64 mod 64),
         byte_of (0x80 + r mod 64)]
      else
        [byte_of (0xF0 + r div 262144), byte_of (0x80 + r div 4096 mod 64),
         byte_of (0x80 + r div 64 mod 64), byte_of (0x80 + r mod 64)])"

definition encode_rune :: "rune \<Rightarrow> bytes" where
  "encode_rune r = encode_scalar (if valid_rune r then r else rune_error)"

text \<open>
  The table \<^verbatim>\<open>first\<close> of the Go source: the length a lead byte announces and the range its second
  byte must lie in; \<^term>\<open>None\<close> for a byte that cannot start a sequence.
\<close>

definition utf8_lead :: "byte \<Rightarrow> (nat \<times> byte \<times> byte) option" where
  "utf8_lead b =
     (if b \<le> 0x7F then Some (1, 0, 0)
      else if b < 0xC2 then None
      else if b \<le> 0xDF then Some (2, 0x80, 0xBF)
      else if b = 0xE0 then Some (3, 0xA0, 0xBF)
      else if b = 0xED then Some (3, 0x80, 0x9F)
      else if b \<le> 0xEF then Some (3, 0x80, 0xBF)
      else if b = 0xF0 then Some (4, 0x90, 0xBF)
      else if b \<le> 0xF3 then Some (4, 0x80, 0xBF)
      else if b = 0xF4 then Some (4, 0x80, 0x8F)
      else None)"

definition in_range :: "byte \<Rightarrow> byte \<Rightarrow> byte \<Rightarrow> bool" where
  "in_range lo hi b \<longleftrightarrow> lo \<le> b \<and> b \<le> hi"

definition tail6 :: "byte \<Rightarrow> int" where
  "tail6 b = uint b mod 64"

definition decode_rune :: "bytes \<Rightarrow> rune \<times> nat" where
  "decode_rune p =
     (case p of
        [] \<Rightarrow> (rune_error, 0)
      | p0 # ps \<Rightarrow>
          (case utf8_lead p0 of
             None \<Rightarrow> (rune_error, 1)
           | Some (sz, lo, hi) \<Rightarrow>
               if sz = 1 then (uint p0, 1)
               else if length p < sz then (rune_error, 1)
               else if \<not> in_range lo hi (p ! 1) then (rune_error, 1)
               else if sz = 2 then (uint p0 mod 32 * 64 + tail6 (p ! 1), 2)
               else if \<not> in_range 0x80 0xBF (p ! 2) then (rune_error, 1)
               else if sz = 3 then (uint p0 mod 16 * 4096 + tail6 (p ! 1) * 64 + tail6 (p ! 2), 3)
               else if \<not> in_range 0x80 0xBF (p ! 3) then (rune_error, 1)
               else (uint p0 mod 8 * 262144 + tail6 (p ! 1) * 4096 + tail6 (p ! 2) * 64
                       + tail6 (p ! 3), 4)))"

definition full_rune :: "bytes \<Rightarrow> bool" where
  "full_rune p =
     (case p of
        [] \<Rightarrow> False
      | p0 # ps \<Rightarrow>
          (case utf8_lead p0 of
             None \<Rightarrow> True
           | Some (sz, lo, hi) \<Rightarrow>
               sz \<le> length p
               \<or> (1 < length p \<and> \<not> in_range lo hi (p ! 1))
               \<or> (2 < length p \<and> \<not> in_range 0x80 0xBF (p ! 2))))"

definition rune_start :: "byte \<Rightarrow> bool" where
  "rune_start b \<longleftrightarrow> b AND 0xC0 \<noteq> 0x80"

subsection \<open>Sizes\<close>

lemma utf8_lead_size: "utf8_lead b = Some (sz, lo, hi) \<Longrightarrow> 1 \<le> sz \<and> sz \<le> 4"
  by (auto simp: utf8_lead_def split: if_splits)

lemma decode_rune_Nil [simp]: "decode_rune [] = (rune_error, 0)"
  by (simp add: decode_rune_def)

lemma full_rune_Nil [simp]: "\<not> full_rune []"
  by (simp add: full_rune_def)

lemma decode_rune_Some:
  "utf8_lead p0 = Some (sz, lo, hi) \<Longrightarrow>
   decode_rune (p0 # ps) =
     (let p = p0 # ps in
      if sz = 1 then (uint p0, 1)
      else if length p < sz then (rune_error, 1)
      else if \<not> in_range lo hi (p ! 1) then (rune_error, 1)
      else if sz = 2 then (uint p0 mod 32 * 64 + tail6 (p ! 1), 2)
      else if \<not> in_range 0x80 0xBF (p ! 2) then (rune_error, 1)
      else if sz = 3 then (uint p0 mod 16 * 4096 + tail6 (p ! 1) * 64 + tail6 (p ! 2), 3)
      else if \<not> in_range 0x80 0xBF (p ! 3) then (rune_error, 1)
      else (uint p0 mod 8 * 262144 + tail6 (p ! 1) * 4096 + tail6 (p ! 2) * 64
              + tail6 (p ! 3), 4))"
  by (simp add: decode_rune_def Let_def)

lemma decode_rune_None: "utf8_lead p0 = None \<Longrightarrow> decode_rune (p0 # ps) = (rune_error, 1)"
  by (simp add: decode_rune_def)

lemma full_rune_Some:
  "utf8_lead p0 = Some (sz, lo, hi) \<Longrightarrow>
   full_rune (p0 # ps) \<longleftrightarrow>
     sz \<le> length (p0 # ps)
     \<or> (1 < length (p0 # ps) \<and> \<not> in_range lo hi ((p0 # ps) ! 1))
     \<or> (2 < length (p0 # ps) \<and> \<not> in_range 0x80 0xBF ((p0 # ps) ! 2))"
  by (simp add: full_rune_def)

lemma full_rune_None: "utf8_lead p0 = None \<Longrightarrow> full_rune (p0 # ps)"
  by (simp add: full_rune_def)

lemma utf8_lead_cases:
  obtains "utf8_lead b = None"
  | sz lo hi where "utf8_lead b = Some (sz, lo, hi)" "sz = 1 \<or> sz = 2 \<or> sz = 3 \<or> sz = 4"
proof (cases "utf8_lead b")
  case (Some e)
  obtain sz lo hi where e: "e = (sz, lo, hi)" by (cases e)
  have "sz = 1 \<or> sz = 2 \<or> sz = 3 \<or> sz = 4"
    using utf8_lead_size [of b sz lo hi] Some e by auto
  with Some e that show ?thesis by blast
qed (use that in auto)

lemma decode_rune_size_Cons:
  "1 \<le> snd (decode_rune (p0 # ps)) \<and> snd (decode_rune (p0 # ps)) \<le> length (p0 # ps)
   \<and> snd (decode_rune (p0 # ps)) \<le> 4"
proof (cases p0 rule: utf8_lead_cases)
  case 1
  then show ?thesis by (simp add: decode_rune_None)
next
  case (2 sz lo hi)
  then show ?thesis
    by (cases ps rule: list_cases4) (auto simp: decode_rune_Some Let_def)
qed

lemma decode_rune_size:
  assumes "p \<noteq> []"
  shows "1 \<le> snd (decode_rune p)" "snd (decode_rune p) \<le> length p" "snd (decode_rune p) \<le> 4"
  using assms decode_rune_size_Cons by (cases p; blast)+

lemma decode_rune_step_measure:
  "p \<noteq> [] \<Longrightarrow> length (drop (snd (decode_rune p)) p) < length p"
  using decode_rune_size(1) [of p] by (cases p) auto

function utf8_valid :: "bytes \<Rightarrow> bool" where
  "utf8_valid p =
     (if p = [] then True
      else if decode_rune p = (rune_error, 1) then False
      else utf8_valid (drop (snd (decode_rune p)) p))"
  by pat_completeness auto
termination
  by (relation "measure length") (auto simp del: length_drop intro: decode_rune_step_measure)

declare utf8_valid.simps [simp del]

lemma utf8_valid_Nil [simp]: "utf8_valid []"
  by (simp add: utf8_valid.simps)

lemma utf8_valid_step:
  "p \<noteq> [] \<Longrightarrow>
   utf8_valid p \<longleftrightarrow>
     decode_rune p \<noteq> (rune_error, 1) \<and> utf8_valid (drop (snd (decode_rune p)) p)"
  by (subst utf8_valid.simps) simp

subsection \<open>A full rune decodes the same whatever follows\<close>

lemma full_rune_append:
  assumes "full_rune p"
  shows "full_rune (p @ q)"
proof (cases p)
  case (Cons p0 ps)
  show ?thesis
  proof (cases p0 rule: utf8_lead_cases)
    case 1
    then show ?thesis by (simp add: Cons full_rune_None)
  next
    case (2 sz lo hi)
    then show ?thesis using assms unfolding Cons
      by (cases ps rule: list_cases4) (auto simp: full_rune_Some)
  qed
qed (use assms in simp)

lemma decode_rune_append:
  assumes "full_rune p"
  shows "decode_rune (p @ q) = decode_rune p"
proof (cases p)
  case (Cons p0 ps)
  show ?thesis
  proof (cases p0 rule: utf8_lead_cases)
    case 1
    then show ?thesis by (simp add: Cons decode_rune_None)
  next
    case (2 sz lo hi)
    then show ?thesis using assms unfolding Cons
      by (cases ps rule: list_cases4) (auto simp: full_rune_Some decode_rune_Some Let_def)
  qed
qed (use assms in simp)

lemma decode_rune_size_full:
  assumes "full_rune p"
  shows "1 \<le> snd (decode_rune p)" "snd (decode_rune p) \<le> length p"
proof -
  have "p \<noteq> []" using assms by auto
  then show "1 \<le> snd (decode_rune p)" "snd (decode_rune p) \<le> length p"
    by (rule decode_rune_size)+
qed

subsection \<open>Decoding inverts encoding\<close>

lemma uint_byte_of: "0 \<le> k \<Longrightarrow> k < 256 \<Longrightarrow> uint (byte_of k) = k"
  by (simp add: byte_of_def uint_word_of_int)

lemma uint_byte_of_tail: "uint (byte_of (0x80 + r mod 64)) = 0x80 + r mod 64"
proof -
  have "0 \<le> r mod 64" "r mod 64 < 64" by auto
  then show ?thesis by (intro uint_byte_of) linarith+
qed

lemma tail6_byte_of: "tail6 (byte_of (0x80 + r mod 64)) = r mod 64"
proof -
  have "(64 * 2 + r mod 64) mod 64 = r mod 64" by (subst mod_mult_self4) simp
  then show ?thesis unfolding tail6_def uint_byte_of_tail by simp
qed

lemma in_range_tail: "in_range 0x80 0xBF (byte_of (0x80 + r mod 64))"
proof -
  have "0 \<le> r mod 64" "r mod 64 < 64" by auto
  then show ?thesis
    unfolding in_range_def word_le_def uint_byte_of_tail by simp
qed

lemma byte_of_uint: "byte_of (uint b) = b"
  by (simp add: byte_of_def)

lemma utf8_lead_uint:
  "utf8_lead b =
     (if uint b \<le> 0x7F then Some (1, 0, 0)
      else if uint b < 0xC2 then None
      else if uint b \<le> 0xDF then Some (2, 0x80, 0xBF)
      else if uint b = 0xE0 then Some (3, 0xA0, 0xBF)
      else if uint b = 0xED then Some (3, 0x80, 0x9F)
      else if uint b \<le> 0xEF then Some (3, 0x80, 0xBF)
      else if uint b = 0xF0 then Some (4, 0x90, 0xBF)
      else if uint b \<le> 0xF3 then Some (4, 0x80, 0xBF)
      else if uint b = 0xF4 then Some (4, 0x80, 0x8F)
      else None)"
  unfolding utf8_lead_def word_le_def word_less_def word_uint_eq_iff by simp

lemma in_range_uint: "in_range lo hi b \<longleftrightarrow> uint lo \<le> uint b \<and> uint b \<le> uint hi"
  by (simp add: in_range_def word_le_def)

lemma valid_rune_bounds:
  "valid_rune r \<Longrightarrow> 0 \<le> r" "valid_rune r \<Longrightarrow> r \<le> 0x10FFFF"
  "valid_rune r \<Longrightarrow> r < 0xD800 \<or> 0xDFFF < r"
  by (auto simp: valid_rune_def max_rune_def)

text \<open>A code point in base 64: its digits are what the continuation bytes carry.\<close>

lemma base64_digits:
  fixes r :: int
  shows "r = 64 * (r div 64) + r mod 64"
    and "r div 64 = 64 * (r div 4096) + r div 64 mod 64"
    and "r div 4096 = 64 * (r div 262144) + r div 4096 mod 64"
    and "0 \<le> r mod 64" "r mod 64 < 64" "0 \<le> r div 64 mod 64" "r div 64 mod 64 < 64"
    and "0 \<le> r div 4096 mod 64" "r div 4096 mod 64 < 64"
proof -
  show "r div 64 = 64 * (r div 4096) + r div 64 mod 64"
    using zdiv_zmult2_eq [of 64 r 64] mult_div_mod_eq [of 64 "r div 64"] by simp
  show "r div 4096 = 64 * (r div 262144) + r div 4096 mod 64"
    using zdiv_zmult2_eq [of 64 r 4096] mult_div_mod_eq [of 64 "r div 4096"] by simp
qed auto

lemma lead_mod:
  fixes d :: int
  shows "0 \<le> d \<Longrightarrow> d < 32 \<Longrightarrow> (192 + d) mod 32 = d"
    and "0 \<le> d \<Longrightarrow> d < 16 \<Longrightarrow> (224 + d) mod 16 = d"
    and "0 \<le> d \<Longrightarrow> d < 8 \<Longrightarrow> (240 + d) mod 8 = d"
  by presburger+

lemma decode_encode_1:
  "0 \<le> r \<Longrightarrow> r \<le> 0x7F \<Longrightarrow> decode_rune (encode_scalar r @ q) = (r, 1)"
  by (simp add: encode_scalar_def decode_rune_def utf8_lead_uint uint_byte_of)

lemma decode_encode_2:
  assumes "0x7F < r" "r \<le> 0x7FF"
  shows "decode_rune (encode_scalar r @ q) = (r, 2)"
proof -
  note dg = base64_digits [of r]
  have q: "2 \<le> r div 64" "r div 64 < 32" using assms dg by linarith+
  have lead: "uint (byte_of (0xC0 + r div 64)) = 0xC0 + r div 64"
    using q by (intro uint_byte_of) linarith+
  have "utf8_lead (byte_of (0xC0 + r div 64)) = Some (2, 0x80, 0xBF)"
    using q by (simp add: utf8_lead_uint lead)
  moreover have "(0xC0 + r div 64) mod 32 = r div 64" using q by (intro lead_mod) auto
  ultimately show ?thesis
    using assms
    by (simp add: encode_scalar_def decode_rune_Some Let_def in_range_tail lead tail6_byte_of)
qed

lemma lead_3:
  assumes "0xE0 \<le> uint b" "uint b \<le> 0xEF"
    and "uint b = 0xE0 \<Longrightarrow> 0xA0 \<le> uint c" "uint b = 0xED \<Longrightarrow> uint c \<le> 0x9F"
    and "0x80 \<le> uint c" "uint c \<le> 0xBF"
  shows "\<exists>lo hi. utf8_lead b = Some (3, lo, hi) \<and> in_range lo hi c"
  using assms by (auto simp: utf8_lead_uint in_range_uint)

lemma lead_4:
  assumes "0xF0 \<le> uint b" "uint b \<le> 0xF4"
    and "uint b = 0xF0 \<Longrightarrow> 0x90 \<le> uint c" "uint b = 0xF4 \<Longrightarrow> uint c \<le> 0x8F"
    and "0x80 \<le> uint c" "uint c \<le> 0xBF"
  shows "\<exists>lo hi. utf8_lead b = Some (4, lo, hi) \<and> in_range lo hi c"
  using assms by (auto simp: utf8_lead_uint in_range_uint)

lemma decode_encode_3:
  assumes "0x7FF < r" "r \<le> 0xFFFF" "r < 0xD800 \<or> 0xDFFF < r"
  shows "decode_rune (encode_scalar r @ q) = (r, 3)"
proof -
  note dg = base64_digits [of r]
  have q: "0 \<le> r div 4096" "r div 4096 < 16" using assms dg by linarith+
  let ?b = "byte_of (0xE0 + r div 4096)" and ?c = "byte_of (0x80 + r div 64 mod 64)"
  have lead: "uint ?b = 0xE0 + r div 4096"
    using q by (intro uint_byte_of) linarith+
  have "\<exists>lo hi. utf8_lead ?b = Some (3, lo, hi) \<and> in_range lo hi ?c"
    by (rule lead_3; unfold lead uint_byte_of_tail; use assms q dg in linarith)
  then obtain lo hi where ld: "utf8_lead ?b = Some (3, lo, hi)" and rng: "in_range lo hi ?c"
    by blast
  have enc: "encode_scalar r = [?b, ?c, byte_of (0x80 + r mod 64)]"
    using assms by (simp add: encode_scalar_def)
  have "decode_rune (encode_scalar r @ q)
      = (uint ?b mod 16 * 4096 + tail6 ?c * 64 + tail6 (byte_of (0x80 + r mod 64)), 3)"
    unfolding enc append_Cons decode_rune_Some [OF ld] Let_def using rng
    by (simp add: in_range_tail)
  moreover have "uint ?b mod 16 = r div 4096" unfolding lead using q by (intro lead_mod) auto
  moreover have "r div 4096 * 4096 + r div 64 mod 64 * 64 + r mod 64 = r"
    using dg by linarith
  ultimately show ?thesis
    unfolding tail6_byte_of by (simp only: )
qed

lemma decode_encode_4:
  assumes "0xFFFF < r" "r \<le> 0x10FFFF"
  shows "decode_rune (encode_scalar r @ q) = (r, 4)"
proof -
  note dg = base64_digits [of r]
  have q: "0 \<le> r div 262144" "r div 262144 < 5" using assms dg by linarith+
  let ?b = "byte_of (0xF0 + r div 262144)" and ?c = "byte_of (0x80 + r div 4096 mod 64)"
  have lead: "uint ?b = 0xF0 + r div 262144"
    using q by (intro uint_byte_of) linarith+
  have "\<exists>lo hi. utf8_lead ?b = Some (4, lo, hi) \<and> in_range lo hi ?c"
    by (rule lead_4; unfold lead uint_byte_of_tail; use assms q dg in linarith)
  then obtain lo hi where ld: "utf8_lead ?b = Some (4, lo, hi)" and rng: "in_range lo hi ?c"
    by blast
  have enc: "encode_scalar r
      = [?b, ?c, byte_of (0x80 + r div 64 mod 64), byte_of (0x80 + r mod 64)]"
    using assms by (simp add: encode_scalar_def)
  have "decode_rune (encode_scalar r @ q)
      = (uint ?b mod 8 * 262144 + tail6 ?c * 4096 + tail6 (byte_of (0x80 + r div 64 mod 64)) * 64
           + tail6 (byte_of (0x80 + r mod 64)), 4)"
    unfolding enc append_Cons decode_rune_Some [OF ld] Let_def using rng
    by (simp add: in_range_tail)
  moreover have "uint ?b mod 8 = r div 262144" unfolding lead using q by (intro lead_mod) auto
  moreover have "r div 262144 * 262144 + r div 4096 mod 64 * 4096 + r div 64 mod 64 * 64
      + r mod 64 = r"
    using dg by linarith
  ultimately show ?thesis
    unfolding tail6_byte_of by (simp only: )
qed

lemma length_encode_scalar:
  "length (encode_scalar r) = (if r \<le> 0x7F then 1 else if r \<le> 0x7FF then 2
     else if r \<le> 0xFFFF then 3 else 4)"
  by (simp add: encode_scalar_def)

lemma decode_encode_scalar:
  assumes "valid_rune r"
  shows "decode_rune (encode_scalar r @ q) = (r, length (encode_scalar r))"
proof -
  note vb = valid_rune_bounds [OF assms]
  consider "r \<le> 0x7F" | "0x7F < r" "r \<le> 0x7FF" | "0x7FF < r" "r \<le> 0xFFFF" | "0xFFFF < r"
    by linarith
  then show ?thesis
  proof cases
    case 1
    then show ?thesis using vb by (simp add: decode_encode_1 length_encode_scalar)
  next
    case 2
    then show ?thesis by (simp add: decode_encode_2 length_encode_scalar)
  next
    case 3
    then show ?thesis using vb by (simp add: decode_encode_3 length_encode_scalar)
  next
    case 4
    then show ?thesis using vb by (simp add: decode_encode_4 length_encode_scalar)
  qed
qed

lemma decode_encode_rune:
  "valid_rune r \<Longrightarrow> decode_rune (encode_rune r @ q) = (r, length (encode_rune r))"
  by (simp add: encode_rune_def decode_encode_scalar)

lemma length_encode_rune: "1 \<le> length (encode_rune r)" "length (encode_rune r) \<le> 4"
  by (auto simp: encode_rune_def length_encode_scalar)

lemma encode_rune_nonempty [simp]: "encode_rune r \<noteq> []"
  using length_encode_rune(1) [of r] by auto

lemma rune_len_encode: "valid_rune r \<Longrightarrow> rune_len r = int (length (encode_rune r))"
  by (auto simp: rune_len_def encode_rune_def length_encode_scalar valid_rune_def max_rune_def)

lemma decode_encode_not_error:
  assumes "valid_rune r"
  shows "decode_rune (encode_rune r @ q) \<noteq> (rune_error, 1)"
proof -
  have "r = rune_error \<Longrightarrow> length (encode_rune r) = 3"
    by (simp add: encode_rune_def length_encode_scalar rune_error_def)
  with assms show ?thesis by (auto simp: decode_encode_rune)
qed

lemma utf8_valid_encode_rune [simp]:
  assumes "valid_rune r"
  shows "utf8_valid (encode_rune r @ q) = utf8_valid q"
  using decode_encode_not_error [OF assms, of q]
  by (subst utf8_valid_step) (simp_all add: decode_encode_rune [OF assms])

subsection \<open>Encoding inverts decoding\<close>

lemma digit_split:
  fixes a d :: int
  assumes "0 \<le> d" "d < 64"
  shows "(a * 64 + d) div 64 = a" "(a * 64 + d) mod 64 = d"
  using assms by auto

lemma tail6_uint: "in_range 0x80 0xBF b \<Longrightarrow> tail6 b = uint b - 128"
proof -
  assume "in_range 0x80 0xBF b"
  then have "128 \<le> uint b" "uint b \<le> 191" by (simp_all add: in_range_uint)
  then show ?thesis unfolding tail6_def by presburger
qed

lemma in_range_weaken:
  "in_range lo hi b \<Longrightarrow> 0x80 \<le> lo \<Longrightarrow> hi \<le> 0xBF \<Longrightarrow> in_range 0x80 0xBF b"
  by (meson in_range_def order.trans)

lemma byte_of_eqI: "uint b = k \<Longrightarrow> byte_of k = b"
  using byte_of_uint [of b] by simp

lemma decode_2_encode:
  assumes "0xC2 \<le> uint b0" "uint b0 \<le> 0xDF" "in_range 0x80 0xBF b1"
    and r: "r = uint b0 mod 32 * 64 + tail6 b1"
  shows "valid_rune r \<and> encode_rune r = [b0, b1]"
proof -
  have b1: "128 \<le> uint b1" "uint b1 \<le> 191" using assms(3) by (simp_all add: in_range_uint)
  have m: "uint b0 mod 32 = uint b0 - 192" using assms(1,2) by presburger
  have r': "r = (uint b0 - 192) * 64 + (uint b1 - 128)"
    using r m tail6_uint [OF assms(3)] by simp
  have "r = uint b0 * 64 + uint b1 - 12416" using r' by simp
  then have rng: "0x7F < r" "r \<le> 0x7FF" using assms(1,2) b1 by linarith+
  have d: "r div 64 = uint b0 - 192" "r mod 64 = uint b1 - 128"
    unfolding r' using b1 by (intro digit_split; linarith)+
  have "valid_rune r" using rng by (simp add: valid_rune_def max_rune_def)
  moreover have "encode_scalar r = [b0, b1]"
    using rng by (simp add: encode_scalar_def d byte_of_eqI)
  ultimately show ?thesis by (simp add: encode_rune_def)
qed

lemma decode_3_encode:
  assumes "0xE0 \<le> uint b0" "uint b0 \<le> 0xEF"
    and "in_range 0x80 0xBF b1" "in_range 0x80 0xBF b2"
    and e0: "uint b0 = 0xE0 \<Longrightarrow> 0xA0 \<le> uint b1" and ed: "uint b0 = 0xED \<Longrightarrow> uint b1 \<le> 0x9F"
    and r: "r = uint b0 mod 16 * 4096 + tail6 b1 * 64 + tail6 b2"
  shows "valid_rune r \<and> encode_rune r = [b0, b1, b2]"
proof -
  have b1: "128 \<le> uint b1" "uint b1 \<le> 191" using assms(3) by (simp_all add: in_range_uint)
  have b2: "128 \<le> uint b2" "uint b2 \<le> 191" using assms(4) by (simp_all add: in_range_uint)
  have m: "uint b0 mod 16 = uint b0 - 224" using assms(1,2) by presburger
  have r': "r = ((uint b0 - 224) * 64 + (uint b1 - 128)) * 64 + (uint b2 - 128)"
    using r m tail6_uint [OF assms(3)] tail6_uint [OF assms(4)] by simp
  have "r = uint b0 * 4096 + uint b1 * 64 + uint b2 - 925824" using r' by simp
  moreover have "uint b0 = 0xE0 \<and> 0xA0 \<le> uint b1 \<or> uint b0 = 0xED \<and> uint b1 \<le> 0x9F
      \<or> 0xE1 \<le> uint b0 \<and> uint b0 \<le> 0xEC \<or> 0xEE \<le> uint b0"
    using e0 ed assms(1) by linarith
  ultimately have rng: "0x7FF < r" "r \<le> 0xFFFF" "r < 0xD800 \<or> 0xDFFF < r"
    using assms(2) b1 b2 by linarith+
  have d64: "r div 64 = (uint b0 - 224) * 64 + (uint b1 - 128)" and d: "r mod 64 = uint b2 - 128"
    unfolding r' using b2 by (intro digit_split; linarith)+
  have "r div 64 div 64 = uint b0 - 224" and d2: "r div 64 mod 64 = uint b1 - 128"
    unfolding d64 using b1 by (intro digit_split; linarith)+
  then have d3: "r div 4096 = uint b0 - 224" by (simp add: zdiv_zmult2_eq [of 64 r 64, simplified])
  have "valid_rune r" using rng by (auto simp: valid_rune_def max_rune_def)
  moreover have "encode_scalar r = [b0, b1, b2]"
    using rng by (simp add: encode_scalar_def d d2 d3 byte_of_eqI)
  ultimately show ?thesis by (simp add: encode_rune_def)
qed

lemma decode_4_encode:
  assumes "0xF0 \<le> uint b0" "uint b0 \<le> 0xF4"
    and "in_range 0x80 0xBF b1" "in_range 0x80 0xBF b2" "in_range 0x80 0xBF b3"
    and f0: "uint b0 = 0xF0 \<Longrightarrow> 0x90 \<le> uint b1" and f4: "uint b0 = 0xF4 \<Longrightarrow> uint b1 \<le> 0x8F"
    and r: "r = uint b0 mod 8 * 262144 + tail6 b1 * 4096 + tail6 b2 * 64 + tail6 b3"
  shows "valid_rune r \<and> encode_rune r = [b0, b1, b2, b3]"
proof -
  have b1: "128 \<le> uint b1" "uint b1 \<le> 191" using assms(3) by (simp_all add: in_range_uint)
  have b2: "128 \<le> uint b2" "uint b2 \<le> 191" using assms(4) by (simp_all add: in_range_uint)
  have b3: "128 \<le> uint b3" "uint b3 \<le> 191" using assms(5) by (simp_all add: in_range_uint)
  have m: "uint b0 mod 8 = uint b0 - 240" using assms(1,2) by presburger
  have r': "r = (((uint b0 - 240) * 64 + (uint b1 - 128)) * 64 + (uint b2 - 128)) * 64
      + (uint b3 - 128)"
    using r m tail6_uint [OF assms(3)] tail6_uint [OF assms(4)] tail6_uint [OF assms(5)] by simp
  have "r = uint b0 * 262144 + uint b1 * 4096 + uint b2 * 64 + uint b3 - 63447168"
    using r' by simp
  moreover have "uint b0 = 0xF0 \<and> 0x90 \<le> uint b1 \<or> uint b0 = 0xF4 \<and> uint b1 \<le> 0x8F
      \<or> 0xF1 \<le> uint b0 \<and> uint b0 \<le> 0xF3"
    using f0 f4 assms(1,2) by linarith
  ultimately have rng: "0xFFFF < r" "r \<le> 0x10FFFF"
    using b1 b2 b3 by linarith+
  have d64: "r div 64 = ((uint b0 - 240) * 64 + (uint b1 - 128)) * 64 + (uint b2 - 128)"
    and d: "r mod 64 = uint b3 - 128"
    unfolding r' using b3 by (intro digit_split; linarith)+
  have "r div 64 div 64 = (uint b0 - 240) * 64 + (uint b1 - 128)"
    and d2: "r div 64 mod 64 = uint b2 - 128"
    unfolding d64 using b2 by (intro digit_split; linarith)+
  then have d4: "r div 4096 = (uint b0 - 240) * 64 + (uint b1 - 128)"
    by (simp add: zdiv_zmult2_eq [of 64 r 64, simplified])
  have "r div 4096 div 64 = uint b0 - 240" and d3: "r div 4096 mod 64 = uint b1 - 128"
    unfolding d4 using b1 by (intro digit_split; linarith)+
  then have d5: "r div 262144 = uint b0 - 240"
    by (simp add: zdiv_zmult2_eq [of 64 r 4096, simplified])
  have "valid_rune r" using rng by (auto simp: valid_rune_def max_rune_def)
  moreover have "encode_scalar r = [b0, b1, b2, b3]"
    using rng by (simp add: encode_scalar_def d d2 d3 d5 byte_of_eqI)
  ultimately show ?thesis by (simp add: encode_rune_def)
qed

lemma encode_decode_rune:
  assumes "p \<noteq> []" and dec: "decode_rune p = (r, n)" and ok: "(r, n) \<noteq> (rune_error, 1)"
  shows "valid_rune r \<and> encode_rune r = take n p"
proof -
  obtain b0 ps where p: "p = b0 # ps" using assms(1) by (cases p) auto
  obtain sz lo hi where ld: "utf8_lead b0 = Some (sz, lo, hi)"
    and sz: "sz = 1 \<or> sz = 2 \<or> sz = 3 \<or> sz = 4"
    using dec ok by (cases b0 rule: utf8_lead_cases) (auto simp: p decode_rune_None)
  note d = dec [unfolded p decode_rune_Some [OF ld] Let_def]
  from sz consider "sz = 1" | "sz = 2" | "sz = 3" | "sz = 4" by blast
  then show ?thesis
  proof cases
    case 1
    then have "uint b0 \<le> 0x7F" "r = uint b0" "n = 1"
      using ld d by (auto simp: utf8_lead_uint split: if_splits)
    then show ?thesis
      by (simp add: p valid_rune_def max_rune_def encode_rune_def encode_scalar_def byte_of_uint)
  next
    case 2
    then have b0: "0xC2 \<le> uint b0 \<and> uint b0 \<le> 0xDF \<and> lo = 0x80 \<and> hi = 0xBF"
      using ld by (auto simp: utf8_lead_uint split: if_splits)
    have len: "2 \<le> length p" and i1: "in_range lo hi (p ! 1)"
      and r: "r = uint b0 mod 32 * 64 + tail6 (p ! 1)" and n: "n = 2"
      using d 2 ok by (auto simp: p Suc_le_eq split: if_splits)
    obtain b1 qs where ps: "ps = b1 # qs" using len p by (cases ps) auto
    show ?thesis using decode_2_encode [of b0 b1 r] b0 i1 r n by (simp add: p ps)
  next
    case 3
    then have b0: "0xE0 \<le> uint b0 \<and> uint b0 \<le> 0xEF \<and> 0x80 \<le> lo \<and> hi \<le> 0xBF
        \<and> (uint b0 = 0xE0 \<longrightarrow> lo = 0xA0) \<and> (uint b0 = 0xED \<longrightarrow> hi = 0x9F)"
      using ld by (auto simp: utf8_lead_uint split: if_splits)
    have len: "3 \<le> length p" and i1: "in_range lo hi (p ! 1)" and i2: "in_range 0x80 0xBF (p ! 2)"
      and r: "r = uint b0 mod 16 * 4096 + tail6 (p ! 1) * 64 + tail6 (p ! 2)" and n: "n = 3"
      using d 3 ok by (auto simp: p split: if_splits)
    obtain b1 b2 qs where ps: "ps = b1 # b2 # qs"
      using len p by (cases ps rule: list_cases4) auto
    have "in_range 0x80 0xBF b1" using i1 b0 by (auto simp: p ps intro: in_range_weaken)
    moreover have "uint b0 = 0xE0 \<longrightarrow> 0xA0 \<le> uint b1" "uint b0 = 0xED \<longrightarrow> uint b1 \<le> 0x9F"
      using i1 b0 by (auto simp: p ps in_range_uint)
    ultimately show ?thesis using decode_3_encode [of b0 b1 b2 r] b0 i2 r n
      by (simp add: p ps)
  next
    case 4
    then have b0: "0xF0 \<le> uint b0 \<and> uint b0 \<le> 0xF4 \<and> 0x80 \<le> lo \<and> hi \<le> 0xBF
        \<and> (uint b0 = 0xF0 \<longrightarrow> lo = 0x90) \<and> (uint b0 = 0xF4 \<longrightarrow> hi = 0x8F)"
      using ld by (auto simp: utf8_lead_uint split: if_splits)
    have len: "4 \<le> length p" and i1: "in_range lo hi (p ! 1)" and i2: "in_range 0x80 0xBF (p ! 2)"
      and i3: "in_range 0x80 0xBF (p ! 3)"
      and r: "r = uint b0 mod 8 * 262144 + tail6 (p ! 1) * 4096 + tail6 (p ! 2) * 64
        + tail6 (p ! 3)" and n: "n = 4"
      using d 4 ok by (auto simp: p split: if_splits)
    obtain b1 b2 b3 qs where ps: "ps = b1 # b2 # b3 # qs"
      using len p by (cases ps rule: list_cases4) auto
    have "in_range 0x80 0xBF b1" using i1 b0 by (auto simp: p ps intro: in_range_weaken)
    moreover have "uint b0 = 0xF0 \<longrightarrow> 0x90 \<le> uint b1" "uint b0 = 0xF4 \<longrightarrow> uint b1 \<le> 0x8F"
      using i1 b0 by (auto simp: p ps in_range_uint)
    ultimately show ?thesis using decode_4_encode [of b0 b1 b2 b3 r] b0 i2 i3 r n
      by (simp add: p ps)
  qed
qed

end
