(* ===== verification/Line_Endings.thy ===== *)
theory Line_Endings
  imports Go_Utf8
begin

text \<open>
  The streaming line-ending converter of \<^verbatim>\<open>internal/textstream/line_endings.go\<close>: a reader that
  pulls arbitrarily cut blocks from its source, converts CR LF and LF endings to the requested
  target in single-byte, HZ, UTF-16 and UTF-32 text, and hands the converted bytes out in pieces
  of whatever size the caller asks for.

  The source is the list of results its next \<^verbatim>\<open>Read\<close> calls return, a block of data with an
  optional error; after the list it returns \<^verbatim>\<open>io.EOF\<close> forever.
\<close>

datatype line_error =
    EOF
  | ErrNoProgress
  | SourceError string
  | OddUTF16Length
  | OddUTF32Length
  | InvalidTarget bytes
  | SameCRLFBytes

record line_ending_stats =
  CRLFCount :: nat
  LFCount :: nat

record line_ending_reader =
  source :: "(bytes \<times> line_error option) list"
  targetCRLF :: bool
  utf16 :: bool
  utf32 :: bool
  littleEndian :: bool
  stats :: line_ending_stats
  out :: bytes
  pendingErr :: "line_error option"
  pendingCR :: bool
  pendingByte :: byte
  hasPendingByte :: bool
  pendingUnit :: bytes
  crByte :: byte
  lfByte :: byte
  hz :: bool
  hzPendingTilde :: bool

text \<open>
  \<^term>\<open>out\<close> is the part of the Go output buffer from \<^verbatim>\<open>outputOffset\<close> on, \<^term>\<open>pendingUnit\<close> the
  first \<^verbatim>\<open>pendingUnitLen\<close> bytes of the Go array.
\<close>

definition zero_reader :: "(bytes \<times> line_error option) list \<Rightarrow> line_ending_reader" where
  "zero_reader src =
     \<lparr>source = src, targetCRLF = False, utf16 = False, utf32 = False, littleEndian = False,
      stats = \<lparr>CRLFCount = 0, LFCount = 0\<rparr>, out = [], pendingErr = None, pendingCR = False,
      pendingByte = 0, hasPendingByte = False, pendingUnit = [], crByte = 0, lfByte = 0,
      hz = False, hzPendingTilde = False\<rparr>"

definition parseLineEndingTarget :: "bytes \<Rightarrow> line_error + bool" where
  "parseLineEndingTarget target =
     (if target = str ''lf'' then Inr False
      else if target = str ''crlf'' then Inr True
      else Inl (InvalidTarget target))"

definition NewSingleByteLineEndingReader ::
  "(bytes \<times> line_error option) list \<Rightarrow> bytes \<Rightarrow> byte \<Rightarrow> byte \<Rightarrow> line_error + line_ending_reader"
where
  "NewSingleByteLineEndingReader src target cr lf =
     (case parseLineEndingTarget target of
        Inl e \<Rightarrow> Inl e
      | Inr t \<Rightarrow>
          if cr = lf then Inl SameCRLFBytes
          else Inr ((zero_reader src)\<lparr>targetCRLF := t, crByte := cr, lfByte := lf\<rparr>))"

definition NewByteLineEndingReader ::
  "(bytes \<times> line_error option) list \<Rightarrow> bytes \<Rightarrow> line_error + line_ending_reader"
where
  "NewByteLineEndingReader src target = NewSingleByteLineEndingReader src target 0x0D 0x0A"

definition NewHZLineEndingReader ::
  "(bytes \<times> line_error option) list \<Rightarrow> bytes \<Rightarrow> line_error + line_ending_reader"
where
  "NewHZLineEndingReader src target =
     (case NewSingleByteLineEndingReader src target 0x0D 0x0A of
        Inl e \<Rightarrow> Inl e
      | Inr r \<Rightarrow> Inr (r\<lparr>hz := True\<rparr>))"

definition NewUTF16LineEndingReader ::
  "(bytes \<times> line_error option) list \<Rightarrow> bytes \<Rightarrow> bool \<Rightarrow> line_error + line_ending_reader"
where
  "NewUTF16LineEndingReader src target le =
     (case parseLineEndingTarget target of
        Inl e \<Rightarrow> Inl e
      | Inr t \<Rightarrow> Inr ((zero_reader src)\<lparr>targetCRLF := t, utf16 := True, littleEndian := le\<rparr>))"

definition NewUTF32LineEndingReader ::
  "(bytes \<times> line_error option) list \<Rightarrow> bytes \<Rightarrow> bool \<Rightarrow> line_error + line_ending_reader"
where
  "NewUTF32LineEndingReader src target le =
     (case parseLineEndingTarget target of
        Inl e \<Rightarrow> Inl e
      | Inr t \<Rightarrow> Inr ((zero_reader src)\<lparr>targetCRLF := t, utf32 := True, littleEndian := le\<rparr>))"

subsection \<open>Appending to the output\<close>

definition emit :: "bytes \<Rightarrow> line_ending_reader \<Rightarrow> line_ending_reader" where
  "emit bs r = r\<lparr>out := out r @ bs\<rparr>"

definition countCRLF :: "line_ending_reader \<Rightarrow> line_ending_reader" where
  "countCRLF r = r\<lparr>stats := (stats r)\<lparr>CRLFCount := Suc (CRLFCount (stats r))\<rparr>\<rparr>"

definition countLF :: "line_ending_reader \<Rightarrow> line_ending_reader" where
  "countLF r = r\<lparr>stats := (stats r)\<lparr>LFCount := Suc (LFCount (stats r))\<rparr>\<rparr>"

definition put16 :: "bool \<Rightarrow> u16 \<Rightarrow> bytes" where
  "put16 le u = (if le then [ucast u, ucast (drop_bit 8 u)] else [ucast (drop_bit 8 u), ucast u])"

definition put32 :: "bool \<Rightarrow> u32 \<Rightarrow> bytes" where
  "put32 le u =
     (let b = [ucast u, ucast (drop_bit 8 u), ucast (drop_bit 16 u), ucast (drop_bit 24 u)]
      in if le then b else rev b)"

definition get16 :: "bool \<Rightarrow> byte \<Rightarrow> byte \<Rightarrow> u16" where
  "get16 le a b =
     (if le then ucast a OR push_bit 8 (ucast b) else push_bit 8 (ucast a) OR ucast b)"

definition get32 :: "bool \<Rightarrow> byte \<Rightarrow> byte \<Rightarrow> byte \<Rightarrow> byte \<Rightarrow> u32" where
  "get32 le a b c d =
     (if le then ucast a OR push_bit 8 (ucast b) OR push_bit 16 (ucast c) OR push_bit 24 (ucast d)
      else push_bit 24 (ucast a) OR push_bit 16 (ucast b) OR push_bit 8 (ucast c) OR ucast d)"

definition appendTargetEnding :: "line_ending_reader \<Rightarrow> line_ending_reader" where
  "appendTargetEnding r =
     emit [lfByte r] (if targetCRLF r then emit [crByte r] r else r)"

definition appendUTF16Unit :: "u16 \<Rightarrow> line_ending_reader \<Rightarrow> line_ending_reader" where
  "appendUTF16Unit u r = emit (put16 (littleEndian r) u) r"

definition appendTargetUTF16Ending :: "line_ending_reader \<Rightarrow> line_ending_reader" where
  "appendTargetUTF16Ending r =
     appendUTF16Unit 0x0A (if targetCRLF r then appendUTF16Unit 0x0D r else r)"

definition appendUTF32Unit :: "u32 \<Rightarrow> line_ending_reader \<Rightarrow> line_ending_reader" where
  "appendUTF32Unit u r = emit (put32 (littleEndian r) u) r"

definition appendTargetUTF32Ending :: "line_ending_reader \<Rightarrow> line_ending_reader" where
  "appendTargetUTF32Ending r =
     appendUTF32Unit 0x0A (if targetCRLF r then appendUTF32Unit 0x0D r else r)"

subsection \<open>One input byte or code unit\<close>

definition byteSwitch :: "byte \<Rightarrow> line_ending_reader \<Rightarrow> line_ending_reader" where
  "byteSwitch c r =
     (if c = crByte r then r\<lparr>pendingCR := True\<rparr>
      else if c = lfByte r then appendTargetEnding (countLF r)
      else emit [c] r)"

definition transformByte :: "byte \<Rightarrow> line_ending_reader \<Rightarrow> line_ending_reader" where
  "transformByte c r =
     (if hz r \<and> hzPendingTilde r then (emit [0x7E, c] r)\<lparr>hzPendingTilde := False\<rparr>
      else if hz r \<and> c = 0x7E then r\<lparr>hzPendingTilde := True\<rparr>
      else if pendingCR r then
        (if c = lfByte r then (appendTargetEnding (countCRLF r))\<lparr>pendingCR := False\<rparr>
         else byteSwitch c ((emit [crByte r] r)\<lparr>pendingCR := False\<rparr>))
      else byteSwitch c r)"

definition transformBytes :: "bytes \<Rightarrow> line_ending_reader \<Rightarrow> line_ending_reader" where
  "transformBytes data r = fold transformByte data r"

definition unitSwitch :: "u16 \<Rightarrow> line_ending_reader \<Rightarrow> line_ending_reader" where
  "unitSwitch u r =
     (if u = 0x0D then r\<lparr>pendingCR := True\<rparr>
      else if u = 0x0A then appendTargetUTF16Ending (countLF r)
      else appendUTF16Unit u r)"

definition transformUnit :: "u16 \<Rightarrow> line_ending_reader \<Rightarrow> line_ending_reader" where
  "transformUnit u r =
     (if pendingCR r then
        (if u = 0x0A then (appendTargetUTF16Ending (countCRLF r))\<lparr>pendingCR := False\<rparr>
         else unitSwitch u ((appendUTF16Unit 0x0D r)\<lparr>pendingCR := False\<rparr>))
      else unitSwitch u r)"

definition transformUTF16Byte :: "byte \<Rightarrow> line_ending_reader \<Rightarrow> line_ending_reader" where
  "transformUTF16Byte c r =
     (if \<not> hasPendingByte r then r\<lparr>pendingByte := c, hasPendingByte := True\<rparr>
      else transformUnit (get16 (littleEndian r) (pendingByte r) c) (r\<lparr>hasPendingByte := False\<rparr>))"

definition transformUTF16 :: "bytes \<Rightarrow> line_ending_reader \<Rightarrow> line_ending_reader" where
  "transformUTF16 data r = fold transformUTF16Byte data r"

definition unit32Switch :: "u32 \<Rightarrow> line_ending_reader \<Rightarrow> line_ending_reader" where
  "unit32Switch u r =
     (if u = 0x0D then r\<lparr>pendingCR := True\<rparr>
      else if u = 0x0A then appendTargetUTF32Ending (countLF r)
      else appendUTF32Unit u r)"

definition transformUTF32Unit :: "u32 \<Rightarrow> line_ending_reader \<Rightarrow> line_ending_reader" where
  "transformUTF32Unit u r =
     (if pendingCR r then
        (if u = 0x0A then (appendTargetUTF32Ending (countCRLF r))\<lparr>pendingCR := False\<rparr>
         else unit32Switch u ((appendUTF32Unit 0x0D r)\<lparr>pendingCR := False\<rparr>))
      else unit32Switch u r)"

definition transformUTF32Byte :: "byte \<Rightarrow> line_ending_reader \<Rightarrow> line_ending_reader" where
  "transformUTF32Byte c r =
     (case pendingUnit r @ [c] of
        [a, b, e, d] \<Rightarrow>
          (transformUTF32Unit (get32 (littleEndian r) a b e d) r)\<lparr>pendingUnit := []\<rparr>
      | p \<Rightarrow> r\<lparr>pendingUnit := p\<rparr>)"

definition transformUTF32 :: "bytes \<Rightarrow> line_ending_reader \<Rightarrow> line_ending_reader" where
  "transformUTF32 data r = fold transformUTF32Byte data r"

subsection \<open>End of input, filling and reading\<close>

text \<open>The four tests of \<^verbatim>\<open>finish\<close>, in the order of the code.\<close>

definition finishTilde :: "line_ending_reader \<Rightarrow> line_ending_reader" where
  "finishTilde r =
     (if hzPendingTilde r then (emit [0x7E] r)\<lparr>hzPendingTilde := False\<rparr> else r)"

definition finishUTF16 :: "line_ending_reader \<Rightarrow> line_ending_reader" where
  "finishUTF16 r =
     (if utf16 r \<and> hasPendingByte r
      then r\<lparr>pendingErr := Some OddUTF16Length, hasPendingByte := False\<rparr> else r)"

definition finishUTF32 :: "line_ending_reader \<Rightarrow> line_ending_reader" where
  "finishUTF32 r =
     (if utf32 r \<and> pendingUnit r \<noteq> []
      then r\<lparr>pendingErr := Some OddUTF32Length, pendingUnit := []\<rparr> else r)"

definition finishCR :: "line_ending_reader \<Rightarrow> line_ending_reader" where
  "finishCR r =
     (if pendingCR r
      then (if utf32 r then appendUTF32Unit 0x0D r
            else if utf16 r then appendUTF16Unit 0x0D r
            else emit [crByte r] r)\<lparr>pendingCR := False\<rparr>
      else r)"

definition finish :: "line_ending_reader \<Rightarrow> line_ending_reader" where
  "finish r = finishCR (finishUTF32 (finishUTF16 (finishTilde r)))"

lemmas finish_defs = finish_def finishTilde_def finishUTF16_def finishUTF32_def finishCR_def

definition transformBlock :: "bytes \<Rightarrow> line_ending_reader \<Rightarrow> line_ending_reader" where
  "transformBlock data r =
     (if utf32 r then transformUTF32 data r
      else if utf16 r then transformUTF16 data r
      else transformBytes data r)"

definition sourceRead ::
  "line_ending_reader \<Rightarrow> bytes \<times> line_error option \<times> line_ending_reader"
where
  "sourceRead r =
     (case source r of
        [] \<Rightarrow> ([], Some EOF, r)
      | (data, err) # rest \<Rightarrow> (data, err, r\<lparr>source := rest\<rparr>))"

definition fill :: "line_ending_reader \<Rightarrow> line_ending_reader" where
  "fill r0 =
     (let (data, err, r1) = sourceRead r0;
          r2 = (if data \<noteq> [] then transformBlock data r1 else r1)
      in case err of
           Some EOF \<Rightarrow>
             (let r3 = finish r2
              in if pendingErr r3 = None then r3\<lparr>pendingErr := Some EOF\<rparr> else r3)
         | Some e \<Rightarrow> r2\<lparr>pendingErr := Some e\<rparr>
         | None \<Rightarrow> if data = [] then r2\<lparr>pendingErr := Some ErrNoProgress\<rparr> else r2)"

subsection \<open>Frames\<close>

lemmas reader_defs =
  emit_def countCRLF_def countLF_def appendTargetEnding_def appendUTF16Unit_def
  appendTargetUTF16Ending_def appendUTF32Unit_def appendTargetUTF32Ending_def
  byteSwitch_def transformByte_def unitSwitch_def transformUnit_def transformUTF16Byte_def
  unit32Switch_def transformUTF32Unit_def

lemma fold_frame:
  assumes "\<And>c r. f (step c r) = f r"
  shows "f (fold step cs r) = f r"
  by (induction cs arbitrary: r) (simp_all add: assms)

lemma transformByte_frame:
  "source (transformByte c r) = source r" "pendingErr (transformByte c r) = pendingErr r"
  "targetCRLF (transformByte c r) = targetCRLF r" "crByte (transformByte c r) = crByte r"
  "lfByte (transformByte c r) = lfByte r" "hz (transformByte c r) = hz r"
  "utf16 (transformByte c r) = utf16 r" "utf32 (transformByte c r) = utf32 r"
  "littleEndian (transformByte c r) = littleEndian r"
  by (simp_all add: reader_defs)

lemma transformUTF16Byte_frame:
  "source (transformUTF16Byte c r) = source r"
  "pendingErr (transformUTF16Byte c r) = pendingErr r"
  "targetCRLF (transformUTF16Byte c r) = targetCRLF r"
  "utf16 (transformUTF16Byte c r) = utf16 r" "utf32 (transformUTF16Byte c r) = utf32 r"
  "littleEndian (transformUTF16Byte c r) = littleEndian r"
  "hzPendingTilde (transformUTF16Byte c r) = hzPendingTilde r"
  by (simp_all add: reader_defs)

lemma transformUTF32Unit_frame:
  "source (transformUTF32Unit u r) = source r"
  "pendingErr (transformUTF32Unit u r) = pendingErr r"
  "targetCRLF (transformUTF32Unit u r) = targetCRLF r"
  "utf16 (transformUTF32Unit u r) = utf16 r" "utf32 (transformUTF32Unit u r) = utf32 r"
  "littleEndian (transformUTF32Unit u r) = littleEndian r"
  "hzPendingTilde (transformUTF32Unit u r) = hzPendingTilde r"
  by (simp_all add: reader_defs)

lemma transformUTF32Byte_frame:
  "source (transformUTF32Byte c r) = source r"
  "pendingErr (transformUTF32Byte c r) = pendingErr r"
  "targetCRLF (transformUTF32Byte c r) = targetCRLF r"
  "utf16 (transformUTF32Byte c r) = utf16 r" "utf32 (transformUTF32Byte c r) = utf32 r"
  "littleEndian (transformUTF32Byte c r) = littleEndian r"
  "hzPendingTilde (transformUTF32Byte c r) = hzPendingTilde r"
  by (simp_all add: transformUTF32Byte_def transformUTF32Unit_frame split: list.splits)

declare transformByte_frame [simp] transformUTF16Byte_frame [simp] transformUTF32Byte_frame [simp]

lemma transformBlock_frame [simp]:
  "source (transformBlock data r) = source r"
  "pendingErr (transformBlock data r) = pendingErr r"
  "utf16 (transformBlock data r) = utf16 r" "utf32 (transformBlock data r) = utf32 r"
  by (simp_all add: transformBlock_def transformBytes_def transformUTF16_def transformUTF32_def
        fold_frame)

lemma finish_frame [simp]: "source (finish r) = source r"
  by (simp add: finish_defs reader_defs)

text \<open>The refill loop of \<^verbatim>\<open>Read\<close>; every round without an error consumes one source block.\<close>

definition fillMeasure :: "line_ending_reader \<Rightarrow> nat" where
  "fillMeasure r = (if pendingErr r = None then Suc (length (source r)) else 0)"

lemma fill_decreases: "pendingErr r = None \<Longrightarrow> fillMeasure (fill r) < fillMeasure r"
  by (auto simp: fillMeasure_def fill_def sourceRead_def Let_def
        split: list.splits option.splits line_error.splits)

function refill :: "line_ending_reader \<Rightarrow> line_ending_reader" where
  "refill r = (if out r = [] \<and> pendingErr r = None then refill (fill r) else r)"
  by pat_completeness auto
termination
  by (relation "measure fillMeasure") (auto intro: fill_decreases)

declare refill.simps [simp del]

definition Read :: "nat \<Rightarrow> line_ending_reader \<Rightarrow> bytes \<times> line_error option \<times> line_ending_reader"
where
  "Read n r =
     (let r1 = refill r
      in if out r1 \<noteq> [] then (take n (out r1), None, r1\<lparr>out := drop n (out r1)\<rparr>)
         else (case pendingErr r1 of
                 Some e \<Rightarrow> ([], Some e, r1\<lparr>pendingErr := None\<rparr>)
               | None \<Rightarrow> ([], Some EOF, r1)))"

text \<open>A consumer that reads with buffers of the given sizes until it sees an error.\<close>

fun drain :: "nat list \<Rightarrow> line_ending_reader \<Rightarrow> bytes \<times> line_error option" where
  "drain [] r = ([], None)"
| "drain (n # ns) r =
     (case Read n r of
        (b, Some e, r') \<Rightarrow> (b, Some e)
      | (b, None, r') \<Rightarrow> (case drain ns r' of (bs, e) \<Rightarrow> (b @ bs, e)))"

subsection \<open>Output only grows, and never steers the machine\<close>

definition withOut :: "bytes \<Rightarrow> line_ending_reader \<Rightarrow> line_ending_reader" where
  "withOut p r = r\<lparr>out := p @ out r\<rparr>"

lemma withOut_sel [simp]:
  "out (withOut p r) = p @ out r" "source (withOut p r) = source r"
  "pendingErr (withOut p r) = pendingErr r" "pendingCR (withOut p r) = pendingCR r"
  "stats (withOut p r) = stats r"
  by (simp_all add: withOut_def)

lemma fold_withOut:
  assumes "\<And>c r. step c (withOut p r) = withOut p (step c r)"
  shows "fold step cs (withOut p r) = withOut p (fold step cs r)"
  by (induction cs arbitrary: r) (simp_all add: assms)

lemma step_withOut:
  "transformByte c (withOut p r) = withOut p (transformByte c r)"
  "transformUTF16Byte c (withOut p r) = withOut p (transformUTF16Byte c r)"
  "transformUTF32Unit u (withOut p r) = withOut p (transformUTF32Unit u r)"
  by (simp_all add: withOut_def reader_defs)

lemma emit_withOut: "emit b (withOut p r) = withOut p (emit b r)"
  by (simp add: emit_def withOut_def)

lemma withOut_more [simp]:
  "hzPendingTilde (withOut p r) = hzPendingTilde r" "utf16 (withOut p r) = utf16 r"
  "utf32 (withOut p r) = utf32 r" "hasPendingByte (withOut p r) = hasPendingByte r"
  "pendingUnit (withOut p r) = pendingUnit r" "crByte (withOut p r) = crByte r"
  "littleEndian (withOut p r) = littleEndian r"
  by (simp_all add: withOut_def)

lemma withOut_upd:
  "(withOut p r)\<lparr>hzPendingTilde := b\<rparr> = withOut p (r\<lparr>hzPendingTilde := b\<rparr>)"
  "(withOut p r)\<lparr>pendingErr := e\<rparr> = withOut p (r\<lparr>pendingErr := e\<rparr>)"
  "(withOut p r)\<lparr>hasPendingByte := b\<rparr> = withOut p (r\<lparr>hasPendingByte := b\<rparr>)"
  "(withOut p r)\<lparr>pendingUnit := u\<rparr> = withOut p (r\<lparr>pendingUnit := u\<rparr>)"
  "(withOut p r)\<lparr>pendingCR := b\<rparr> = withOut p (r\<lparr>pendingCR := b\<rparr>)"
  "(withOut p r)\<lparr>source := q\<rparr> = withOut p (r\<lparr>source := q\<rparr>)"
  by (simp_all add: withOut_def)

lemma transformUTF32Byte_withOut:
  "transformUTF32Byte c (withOut p r) = withOut p (transformUTF32Byte c r)"
  by (simp add: transformUTF32Byte_def step_withOut withOut_upd split: list.split)

lemma transformBlock_withOut: "transformBlock d (withOut p r) = withOut p (transformBlock d r)"
  by (simp add: transformBlock_def transformBytes_def transformUTF16_def transformUTF32_def
        fold_withOut step_withOut transformUTF32Byte_withOut)

lemma finish_stages_withOut:
  "finishTilde (withOut p r) = withOut p (finishTilde r)"
  "finishUTF16 (withOut p r) = withOut p (finishUTF16 r)"
  "finishUTF32 (withOut p r) = withOut p (finishUTF32 r)"
  "finishCR (withOut p r) = withOut p (finishCR r)"
  by (simp_all add: finish_defs emit_withOut withOut_upd appendUTF16Unit_def appendUTF32Unit_def)

lemma finish_withOut: "finish (withOut p r) = withOut p (finish r)"
  by (simp add: finish_def finish_stages_withOut)

lemma fill_withOut: "fill (withOut p r) = withOut p (fill r)"
  by (simp add: fill_def sourceRead_def Let_def withOut_upd transformBlock_withOut finish_withOut
        split: list.split option.split line_error.split)

subsection \<open>Everything the reader has still to give\<close>

function flush :: "line_ending_reader \<Rightarrow> line_ending_reader" where
  "flush r = (if pendingErr r = None then flush (fill r) else r)"
  by pat_completeness auto
termination
  by (relation "measure fillMeasure") (auto intro: fill_decreases)

declare flush.simps [simp del]

lemma flush_ended: "pendingErr r \<noteq> None \<Longrightarrow> flush r = r"
  by (subst flush.simps) (simp only: if_False)

lemma flush_fill: "pendingErr r = None \<Longrightarrow> flush (fill r) = flush r"
  by (subst flush.simps [of r]) simp

lemma flush_withOut: "flush (withOut p r) = withOut p (flush r)"
proof (induction r rule: flush.induct)
  case (1 r)
  show ?case
  proof (cases "pendingErr r = None")
    case True
    then have "flush (withOut p r) = flush (fill (withOut p r))"
      by (simp add: flush_fill)
    also have "\<dots> = withOut p (flush (fill r))"
      using 1 True by (simp add: fill_withOut)
    finally show ?thesis using True by (simp add: flush_fill)
  qed (simp add: flush_ended)
qed

lemma flush_error: "pendingErr (flush r) \<noteq> None"
proof (induction r rule: flush.induct)
  case (1 r)
  then show ?case by (subst flush.simps) auto
qed

lemma flush_refill: "flush (refill r) = flush r"
proof (induction r rule: refill.induct)
  case (1 r)
  show ?case
  proof (cases "out r = [] \<and> pendingErr r = None")
    case True
    then show ?thesis using 1 by (subst refill.simps) (simp add: flush_fill)
  next
    case False
    then show ?thesis by (subst refill.simps) (simp only: if_False)
  qed
qed

lemma refill_ready: "out (refill r) \<noteq> [] \<or> pendingErr (refill r) \<noteq> None"
proof (induction r rule: refill.induct)
  case (1 r)
  show ?case
  proof (cases "out r = [] \<and> pendingErr r = None")
    case True
    then show ?thesis using 1 by (subst (1 2) refill.simps) simp
  next
    case False
    then have "refill r = r" by (subst refill.simps) (simp only: if_False)
    with False show ?thesis by simp
  qed
qed

lemma Read_some:
  assumes "Read n r = (b, None, r')"
  shows "out (flush r) = b @ out (flush r')" "pendingErr (flush r') = pendingErr (flush r)"
    "0 < n \<Longrightarrow> b \<noteq> []"
proof -
  let ?q = "refill r"
  have o: "out ?q \<noteq> []" and b: "b = take n (out ?q)" and r': "r' = ?q\<lparr>out := drop n (out ?q)\<rparr>"
    using assms refill_ready [of r] by (auto simp: Read_def Let_def split: if_splits option.splits)
  have "?q = withOut b r'" by (simp add: b r' withOut_def)
  then have "flush r = withOut b (flush r')"
    by (metis flush_refill flush_withOut)
  then show "out (flush r) = b @ out (flush r')" "pendingErr (flush r') = pendingErr (flush r)"
    by simp_all
  show "0 < n \<Longrightarrow> b \<noteq> []" using o b by simp
qed

lemma Read_error:
  assumes "Read n r = (b, Some e, r')"
  shows "b = []" "out (flush r) = []" "pendingErr (flush r) = Some e"
proof -
  let ?q = "refill r"
  have q: "out ?q = []" "pendingErr ?q = Some e" and b: "b = []"
    using assms refill_ready [of r] by (auto simp: Read_def Let_def split: if_splits option.splits)
  then have "flush r = ?q" by (metis flush_ended flush_refill option.discI)
  then show "b = []" "out (flush r) = []" "pendingErr (flush r) = Some e"
    using q b by simp_all
qed

lemma drain_flush:
  "drain ns r = (bs, Some e) \<Longrightarrow> bs = out (flush r) \<and> pendingErr (flush r) = Some e"
proof (induction ns arbitrary: r bs)
  case (Cons n ns)
  obtain b oe r' where R: "Read n r = (b, oe, r')" by (cases "Read n r")
  show ?case
  proof (cases oe)
    case None
    obtain cs e' where D: "drain ns r' = (cs, e')" by (cases "drain ns r'")
    with Cons.prems R None have "e' = Some e" "bs = b @ cs" by simp_all
    with Cons.IH [of r' cs] D Read_some(1,2) [OF R [unfolded None]] show ?thesis by simp
  next
    case (Some x)
    with Cons.prems R Read_error [OF R [unfolded Some]] show ?thesis by simp
  qed
qed simp

lemma drain_ends:
  assumes "\<forall>n \<in> set ns. 0 < n" "length (out (flush r)) < length ns"
  shows "\<exists>bs e. drain ns r = (bs, Some e)"
  using assms
proof (induction ns arbitrary: r)
  case (Cons n ns)
  obtain b oe r' where R: "Read n r = (b, oe, r')" by (cases "Read n r")
  show ?case
  proof (cases oe)
    case None
    note rs = Read_some [OF R [unfolded None]]
    have "0 < n" using Cons.prems(1) by simp
    then have "b \<noteq> []" by (rule rs(3))
    then have "length (out (flush r')) < length ns"
      using Cons.prems(2) rs(1) by (cases b) auto
    with Cons.IH [of r'] Cons.prems(1) obtain bs e where "drain ns r' = (bs, Some e)" by auto
    with R None show ?thesis by simp
  qed (use R in simp)
qed simp

subsection \<open>What the conversion is, as a function of the whole text\<close>

definition targetEnding :: "'u \<Rightarrow> 'u \<Rightarrow> bool \<Rightarrow> 'u list" where
  "targetEnding cr lf t = (if t then [cr, lf] else [lf])"

fun convertEndings :: "'u \<Rightarrow> 'u \<Rightarrow> bool \<Rightarrow> 'u list \<Rightarrow> 'u list" where
  "convertEndings cr lf t [] = []"
| "convertEndings cr lf t [x] = (if x = lf then targetEnding cr lf t else [x])"
| "convertEndings cr lf t (x # y # xs) =
     (if x = cr \<and> y = lf then targetEnding cr lf t @ convertEndings cr lf t xs
      else if x = lf then targetEnding cr lf t @ convertEndings cr lf t (y # xs)
      else x # convertEndings cr lf t (y # xs))"

text \<open>How many CR LF pairs and how many other line feeds the text holds.\<close>

fun countEndings :: "'u \<Rightarrow> 'u \<Rightarrow> 'u list \<Rightarrow> nat \<times> nat" where
  "countEndings cr lf [] = (0, 0)"
| "countEndings cr lf [x] = (if x = lf then (0, 1) else (0, 0))"
| "countEndings cr lf (x # y # xs) =
     (if x = cr \<and> y = lf then (case countEndings cr lf xs of (a, b) \<Rightarrow> (Suc a, b))
      else if x = lf then (case countEndings cr lf (y # xs) of (a, b) \<Rightarrow> (a, Suc b))
      else countEndings cr lf (y # xs))"

lemma convertEndings_lf:
  "convertEndings cr lf t (lf # xs) = targetEnding cr lf t @ convertEndings cr lf t xs"
  if "cr \<noteq> lf"
  using that by (cases xs) auto

lemma convertEndings_other:
  "convertEndings cr lf t (x # xs) = x # convertEndings cr lf t xs" if "x \<noteq> cr" "x \<noteq> lf"
  using that by (cases xs) auto

lemma convertEndings_cr:
  "convertEndings cr lf t (cr # x # xs) =
     (if x = lf then targetEnding cr lf t @ convertEndings cr lf t xs
      else cr # convertEndings cr lf t (x # xs))" if "cr \<noteq> lf"
  using that by simp

lemma countEndings_lf:
  "countEndings cr lf (lf # xs) = (fst (countEndings cr lf xs), Suc (snd (countEndings cr lf xs)))"
  if "cr \<noteq> lf"
  using that by (cases xs) (auto split: prod.splits)

lemma countEndings_other: "countEndings cr lf (x # xs) = countEndings cr lf xs" if "x \<noteq> cr" "x \<noteq> lf"
  using that by (cases xs) auto

subsection \<open>The machine that converts, whatever its unit\<close>

text \<open>
  The three loops of the code differ in the width of the unit and in how a unit is appended.
  What they share is this contract: a step looks only at whether a CR is pending.
\<close>

locale ending_machine =
  fixes step :: "'u \<Rightarrow> line_ending_reader \<Rightarrow> line_ending_reader"
    and enc :: "'u \<Rightarrow> bytes" and cr lf :: 'u and target :: bool
    and good :: "line_ending_reader \<Rightarrow> bool"
  assumes cr_lf: "cr \<noteq> lf"
    and step_good: "good r \<Longrightarrow> good (step u r)"
    and step_out: "good r \<Longrightarrow>
      out (step u r) = out r @
        (if pendingCR r \<and> u = lf then concat (map enc (targetEnding cr lf target))
         else (if pendingCR r then enc cr else [])
              @ (if u = cr then []
                 else if u = lf then concat (map enc (targetEnding cr lf target)) else enc u))"
    and step_cr: "good r \<Longrightarrow> pendingCR (step u r) = (u = cr)"
    and step_stats: "good r \<Longrightarrow> stats (step u r) = (stats r)
      \<lparr>CRLFCount := CRLFCount (stats r) + (if pendingCR r \<and> u = lf then 1 else 0),
       LFCount := LFCount (stats r) + (if \<not> pendingCR r \<and> u = lf then 1 else 0)\<rparr>"
begin

lemma run_good: "good r \<Longrightarrow> good (fold step us r)"
  by (induction us arbitrary: r) (auto intro: step_good)

lemma run_out:
  "good r \<Longrightarrow>
   out (fold step us r) @ (if pendingCR (fold step us r) then enc cr else []) =
   out r @ concat (map enc (convertEndings cr lf target
     ((if pendingCR r then [cr] else []) @ us)))"
proof (induction us arbitrary: r)
  case Nil
  then show ?case using cr_lf by simp
next
  case (Cons u us)
  note IH = Cons.IH [OF step_good [OF Cons.prems, of u]]
  consider (cr) "u = cr" | (lf) "u = lf" | (other) "u \<noteq> cr" "u \<noteq> lf" by blast
  then show ?case
  proof cases
    case cr
    then show ?thesis using IH cr_lf
      by (simp add: step_out [OF Cons.prems] step_cr [OF Cons.prems])
  next
    case lf
    then show ?thesis using IH cr_lf
      by (simp add: step_out [OF Cons.prems] step_cr [OF Cons.prems] convertEndings_lf)
  next
    case other
    then show ?thesis using IH cr_lf
      by (simp add: step_out [OF Cons.prems] step_cr [OF Cons.prems] convertEndings_other)
  qed
qed

lemma run_stats:
  "good r \<Longrightarrow>
   stats (fold step us r) = (stats r)
     \<lparr>CRLFCount := CRLFCount (stats r)
        + fst (countEndings cr lf ((if pendingCR r then [cr] else []) @ us)),
      LFCount := LFCount (stats r)
        + snd (countEndings cr lf ((if pendingCR r then [cr] else []) @ us))\<rparr>"
proof (induction us arbitrary: r)
  case Nil
  then show ?case using cr_lf by simp
next
  case (Cons u us)
  note IH = Cons.IH [OF step_good [OF Cons.prems, of u]]
  consider (cr) "u = cr" | (lf) "u = lf" | (other) "u \<noteq> cr" "u \<noteq> lf" by blast
  then show ?case
  proof cases
    case cr
    then show ?thesis using IH cr_lf
      by (simp add: step_stats [OF Cons.prems] step_cr [OF Cons.prems])
  next
    case lf
    then show ?thesis using IH cr_lf
      by (cases us) (auto simp: step_stats [OF Cons.prems] step_cr [OF Cons.prems] countEndings_lf
        split: prod.splits)
  next
    case other
    then show ?thesis using IH cr_lf
      by (simp add: step_stats [OF Cons.prems] step_cr [OF Cons.prems] countEndings_other)
  qed
qed

end

text \<open>The three machines of the code meet the contract.\<close>

definition goodBytes :: "byte \<Rightarrow> byte \<Rightarrow> bool \<Rightarrow> line_ending_reader \<Rightarrow> bool" where
  "goodBytes cr lf t r \<longleftrightarrow>
     cr \<noteq> lf \<and> crByte r = cr \<and> lfByte r = lf \<and> targetCRLF r = t \<and> \<not> hz r \<and> \<not> hzPendingTilde r"

definition goodUnits :: "bool \<Rightarrow> bool \<Rightarrow> line_ending_reader \<Rightarrow> bool" where
  "goodUnits le t r \<longleftrightarrow> littleEndian r = le \<and> targetCRLF r = t"

interpretation byteMachine: ending_machine
  transformByte "\<lambda>b. [b]" "0x0D :: byte" "0x0A :: byte" t "goodBytes 0x0D 0x0A t"
  for t
  by unfold_locales (auto simp: goodBytes_def reader_defs targetEnding_def)

interpretation utf16Machine: ending_machine
  transformUnit "put16 le" "0x0D :: u16" "0x0A :: u16" t "goodUnits le t"
  for le t
  by unfold_locales (auto simp: goodUnits_def reader_defs targetEnding_def)

interpretation utf32Machine: ending_machine
  transformUTF32Unit "put32 le" "0x0D :: u32" "0x0A :: u32" t "goodUnits le t"
  for le t
  by unfold_locales (auto simp: goodUnits_def reader_defs targetEnding_def)

subsection \<open>A source that ends cleanly\<close>

lemma step_withSource:
  "transformByte c (r\<lparr>source := s\<rparr>) = (transformByte c r)\<lparr>source := s\<rparr>"
  "transformUTF16Byte c (r\<lparr>source := s\<rparr>) = (transformUTF16Byte c r)\<lparr>source := s\<rparr>"
  "transformUTF32Unit u (r\<lparr>source := s\<rparr>) = (transformUTF32Unit u r)\<lparr>source := s\<rparr>"
  by (simp_all add: reader_defs)

lemma transformUTF32Byte_withSource:
  "transformUTF32Byte c (r\<lparr>source := s\<rparr>) = (transformUTF32Byte c r)\<lparr>source := s\<rparr>"
  by (simp add: transformUTF32Byte_def step_withSource split: list.split)

lemma fold_withSource:
  assumes "\<And>c r. step c (r\<lparr>source := s\<rparr>) = (step c r)\<lparr>source := s\<rparr>"
  shows "fold step cs (r\<lparr>source := s\<rparr>) = (fold step cs r)\<lparr>source := s\<rparr>"
  by (induction cs arbitrary: r) (simp_all add: assms)

lemma transformBlock_withSource:
  "transformBlock d (r\<lparr>source := s\<rparr>) = (transformBlock d r)\<lparr>source := s\<rparr>"
  by (simp add: transformBlock_def transformBytes_def transformUTF16_def transformUTF32_def
        fold_withSource step_withSource transformUTF32Byte_withSource)

lemma transformBlock_append: "transformBlock (a @ b) r = transformBlock b (transformBlock a r)"
proof -
  have "utf16 (fold transformUTF16Byte a r) = utf16 r" "utf32 (fold transformUTF16Byte a r) = utf32 r"
    "utf32 (fold transformUTF32Byte a r) = utf32 r" "utf16 (fold transformByte a r) = utf16 r"
    "utf32 (fold transformByte a r) = utf32 r"
    by (simp_all add: fold_frame)
  then show ?thesis
    by (simp add: transformBlock_def transformBytes_def transformUTF16_def transformUTF32_def)
qed

lemma transformBlock_Nil [simp]: "transformBlock [] r = r"
  by (simp add: transformBlock_def transformBytes_def transformUTF16_def transformUTF32_def)

definition atEnd :: "line_ending_reader \<Rightarrow> line_ending_reader" where
  "atEnd r = (let r3 = finish r in if pendingErr r3 = None then r3\<lparr>pendingErr := Some EOF\<rparr> else r3)"

definition blocks :: "bytes list \<Rightarrow> (bytes \<times> line_error option) list" where
  "blocks ds = map (\<lambda>d. (d, None)) ds"

lemma fill_Nil: "source r = [] \<Longrightarrow> fill r = atEnd r"
  by (simp add: fill_def sourceRead_def atEnd_def)

lemma fill_block:
  "source r = (d, None) # s \<Longrightarrow> d \<noteq> [] \<Longrightarrow> fill r = (transformBlock d r)\<lparr>source := s\<rparr>"
  by (simp add: fill_def sourceRead_def transformBlock_withSource)

lemma atEnd_error: "pendingErr (atEnd r) \<noteq> None"
  by (simp add: atEnd_def Let_def)

lemma flush_blocks:
  assumes "pendingErr r = None" "source r = blocks ds" "[] \<notin> set ds"
  shows "flush r = atEnd (transformBlock (concat ds) (r\<lparr>source := []\<rparr>))"
  using assms
proof (induction ds arbitrary: r)
  case Nil
  then have s: "source r = []" by (simp add: blocks_def)
  then have "r\<lparr>source := []\<rparr> = r" by simp
  moreover have "flush r = flush (atEnd r)" using Nil.prems(1) s by (metis fill_Nil flush_fill)
  moreover have "flush (atEnd r) = atEnd r" by (rule flush_ended [OF atEnd_error])
  ultimately show ?case by (simp only: list.map concat.simps transformBlock_Nil)
next
  case (Cons d ds)
  let ?r = "(transformBlock d r)\<lparr>source := blocks ds\<rparr>"
  have "fill r = ?r" using Cons.prems by (intro fill_block) (auto simp: blocks_def)
  then have "flush r = flush ?r" using Cons.prems(1) flush_fill by metis
  also have "\<dots> = atEnd (transformBlock (concat ds) (?r\<lparr>source := []\<rparr>))"
    using Cons.prems by (intro Cons.IH) auto
  finally show ?case by (simp add: transformBlock_append transformBlock_withSource)
qed

text \<open>A consumer that reads with non-empty buffers, often enough, gets exactly the rest.\<close>

lemma drain_blocks:
  assumes "pendingErr r = None" "source r = blocks ds" "[] \<notin> set ds"
    and fin: "atEnd (transformBlock (concat ds) (r\<lparr>source := []\<rparr>)) = r'"
    and o: "out r' = bs" "pendingErr r' = Some e"
    and ns: "\<forall>n \<in> set ns. 0 < n" "length bs < length ns"
  shows "drain ns r = (bs, Some e)"
proof -
  have f: "flush r = r'" using flush_blocks [OF assms(1-3)] fin by simp
  with ns o obtain cs e' where D: "drain ns r = (cs, Some e')" using drain_ends by blast
  with drain_flush [OF D] f o show ?thesis by simp
qed

lemma byte_ending_machine:
  "cr \<noteq> lf \<Longrightarrow> ending_machine transformByte (\<lambda>b. [b]) cr lf t (goodBytes cr lf t)"
  by unfold_locales (auto simp: goodBytes_def reader_defs targetEnding_def)

lemma concat_singletons [simp]: "concat (map (\<lambda>b. [b]) xs) = xs"
  by (induction xs) auto

lemma parse_target:
  "parseLineEndingTarget target = Inr t \<Longrightarrow> t = (target = str ''crlf'') \<and> target \<in> {str ''lf'', str ''crlf''}"
  by (auto simp: parseLineEndingTarget_def str_def split: if_splits)

lemma atEnd_bytes:
  assumes "goodBytes cr lf t r" "\<not> utf16 r" "\<not> utf32 r" "pendingErr r = None"
  shows "out (atEnd r) = out r @ (if pendingCR r then [cr] else [])"
    and "pendingErr (atEnd r) = Some EOF"
  using assms by (auto simp: atEnd_def Let_def finish_defs goodBytes_def emit_def)

lemma single_byte_reader:
  assumes R: "NewSingleByteLineEndingReader (blocks ds) target cr lf = Inr r"
    and ds: "[] \<notin> set ds"
    and ns: "\<forall>n \<in> set ns. 0 < n"
      "length (convertEndings cr lf (target = str ''crlf'') (concat ds)) < length ns"
  shows "drain ns r = (convertEndings cr lf (target = str ''crlf'') (concat ds), Some EOF)"
proof -
  let ?t = "target = str ''crlf''"
  obtain r0: "r = (zero_reader (blocks ds))\<lparr>targetCRLF := ?t, crByte := cr, lfByte := lf\<rparr>"
    and ne: "cr \<noteq> lf"
    using R parse_target [of target]
    by (auto simp: NewSingleByteLineEndingReader_def split: sum.splits if_splits)
  let ?r = "r\<lparr>source := []\<rparr>" and ?q = "fold transformByte (concat ds) (r\<lparr>source := []\<rparr>)"
  have g: "goodBytes cr lf ?t ?r" using ne by (simp add: r0 goodBytes_def zero_reader_def)
  note m = byte_ending_machine [OF ne, of ?t]
  have gq: "goodBytes cr lf ?t ?q" by (rule ending_machine.run_good [OF m g])
  have tb: "transformBlock (concat ds) ?r = ?q"
    by (simp add: transformBlock_def transformBytes_def r0 zero_reader_def)
  have fr: "\<not> utf16 ?q" "\<not> utf32 ?q" "pendingErr ?q = None"
    by (simp_all add: fold_frame r0 zero_reader_def)
  have "out ?q @ (if pendingCR ?q then [cr] else []) = convertEndings cr lf ?t (concat ds)"
    using ending_machine.run_out [OF m g, of "concat ds"] by (simp add: r0 zero_reader_def)
  then have "out (atEnd ?q) = convertEndings cr lf ?t (concat ds)" "pendingErr (atEnd ?q) = Some EOF"
    using atEnd_bytes [OF gq fr] by simp_all
  moreover have "pendingErr r = None" "source r = blocks ds" by (simp_all add: r0 zero_reader_def)
  ultimately show ?thesis
    using drain_blocks [of r ds "atEnd ?q"] ds ns tb by simp
qed

subsection \<open>UTF-16 and UTF-32\<close>

fun units16 :: "bool \<Rightarrow> bytes \<Rightarrow> u16 list" where
  "units16 le (a # b # bs) = get16 le a b # units16 le bs"
| "units16 le _ = []"

fun units32 :: "bool \<Rightarrow> bytes \<Rightarrow> u32 list" where
  "units32 le (a # b # c # d # bs) = get32 le a b c d # units32 le bs"
| "units32 le _ = []"

lemma transformUnit_dead:
  "transformUnit u (r\<lparr>pendingByte := x, hasPendingByte := h\<rparr>)
     = (transformUnit u r)\<lparr>pendingByte := x, hasPendingByte := h\<rparr>"
  "transformUTF32Unit v (r\<lparr>pendingUnit := p\<rparr>) = (transformUTF32Unit v r)\<lparr>pendingUnit := p\<rparr>"
  by (simp_all add: reader_defs)

lemma transformUnit_frame [simp]:
  "littleEndian (transformUnit u r) = littleEndian r"
  "hasPendingByte (transformUnit u r) = hasPendingByte r"
  "targetCRLF (transformUnit u r) = targetCRLF r" "utf16 (transformUnit u r) = utf16 r"
  "utf32 (transformUnit u r) = utf32 r" "pendingErr (transformUnit u r) = pendingErr r"
  "hzPendingTilde (transformUnit u r) = hzPendingTilde r"
  by (simp_all add: reader_defs)

lemma reader_id: "r\<lparr>pendingByte := pendingByte r, hasPendingByte := hasPendingByte r\<rparr> = r"
  by simp

lemma reader_pending:
  "\<not> hasPendingByte r \<Longrightarrow> \<exists>x. r = r\<lparr>pendingByte := x, hasPendingByte := False\<rparr>"
  by (intro exI [of _ "pendingByte r"]) simp

lemma transformUTF16_pairs:
  "\<not> hasPendingByte r \<Longrightarrow>
   \<exists>x. fold transformUTF16Byte bs r =
     (fold transformUnit (units16 (littleEndian r) bs) r)
       \<lparr>pendingByte := x, hasPendingByte := odd (length bs)\<rparr>"
proof (induction "littleEndian r" bs arbitrary: r rule: units16.induct)
  case (1 a b bs)
  let ?q = "transformUnit (get16 (littleEndian r) a b) r"
  have "transformUTF16Byte b (transformUTF16Byte a r)
      = transformUnit (get16 (littleEndian r) a b) (r\<lparr>pendingByte := a, hasPendingByte := False\<rparr>)"
    using 1(2) by (simp add: transformUTF16Byte_def)
  then have two: "transformUTF16Byte b (transformUTF16Byte a r)
      = ?q\<lparr>pendingByte := a, hasPendingByte := False\<rparr>"
    by (simp only: transformUnit_dead)
  have dead: "fold transformUnit us (q\<lparr>pendingByte := y, hasPendingByte := h\<rparr>)
      = (fold transformUnit us q)\<lparr>pendingByte := y, hasPendingByte := h\<rparr>" for us q y h
    by (induction us arbitrary: q) (simp_all add: transformUnit_dead)
  obtain x where "fold transformUTF16Byte bs (?q\<lparr>pendingByte := a, hasPendingByte := False\<rparr>) =
     (fold transformUnit (units16 (littleEndian r) bs) (?q\<lparr>pendingByte := a, hasPendingByte := False\<rparr>))
       \<lparr>pendingByte := x, hasPendingByte := odd (length bs)\<rparr>"
    using 1(1) [of "?q\<lparr>pendingByte := a, hasPendingByte := False\<rparr>"] by auto
  then show ?case by (auto simp: two dead)
qed (auto simp: transformUTF16Byte_def intro: reader_pending)

lemma transformUTF32_quads:
  "pendingUnit r = [] \<Longrightarrow>
   fold transformUTF32Byte bs r =
     (fold transformUTF32Unit (units32 (littleEndian r) bs) r)
       \<lparr>pendingUnit := drop (length bs div 4 * 4) bs\<rparr>"
proof (induction "littleEndian r" bs arbitrary: r rule: units32.induct)
  case (1 a b c d bs)
  let ?q = "transformUTF32Unit (get32 (littleEndian r) a b c d) r"
  have dead: "transformUTF32Unit v (r\<lparr>pendingUnit := p\<rparr>) = (transformUTF32Unit v r)\<lparr>pendingUnit := p\<rparr>"
    for v p by (rule transformUnit_dead)
  have four: "fold transformUTF32Byte [a, b, c, d] r = ?q\<lparr>pendingUnit := []\<rparr>"
    using 1(2) by (simp add: transformUTF32Byte_def dead)
  have dead: "fold transformUTF32Unit us (q\<lparr>pendingUnit := p\<rparr>)
      = (fold transformUTF32Unit us q)\<lparr>pendingUnit := p\<rparr>" for us q p
    by (induction us arbitrary: q) (simp_all add: transformUnit_dead)
  have "fold transformUTF32Byte (a # b # c # d # bs) r
      = fold transformUTF32Byte bs (?q\<lparr>pendingUnit := []\<rparr>)"
    using four by simp
  also have "\<dots> = (fold transformUTF32Unit (units32 (littleEndian r) bs) (?q\<lparr>pendingUnit := []\<rparr>))
       \<lparr>pendingUnit := drop (length bs div 4 * 4) bs\<rparr>"
    using 1(1) [of "?q\<lparr>pendingUnit := []\<rparr>"] by (simp add: transformUTF32Unit_frame)
  also have "\<dots> = (fold transformUTF32Unit (units32 (littleEndian r) bs) ?q)
       \<lparr>pendingUnit := drop (length bs div 4 * 4) bs\<rparr>"
    by (simp add: dead)
  finally have fin: "fold transformUTF32Byte (a # b # c # d # bs) r
      = (fold transformUTF32Unit (units32 (littleEndian r) bs) ?q)
       \<lparr>pendingUnit := drop (length bs div 4 * 4) bs\<rparr>" .
  have "length (a # b # c # d # bs) div 4 * 4 = length bs div 4 * 4 + 4"
    by (simp add: div_add_self1)
  then have dr: "drop (length (a # b # c # d # bs) div 4 * 4) (a # b # c # d # bs)
      = drop (length bs div 4 * 4) bs"
    by (simp del: drop_drop flip: drop_drop)
  show ?case using fin by (simp only: units32.simps fold_simps dr)
qed (auto simp: transformUTF32Byte_def)

lemma length_units16: "length (units16 le bs) = length bs div 2"
  by (induction le bs rule: units16.induct) auto

lemma byte_high_bit: "8 \<le> n \<Longrightarrow> \<not> bit (a :: byte) n"
  by (auto dest: bit_imp_le_length)

lemma put_get16: "put16 le (get16 le a b) = [a, b]"
  by (auto simp: get16_def put16_def bit_eq_iff bit_simps byte_high_bit)

lemma put_get32: "put32 le (get32 le a b c d) = [a, b, c, d]"
  by (auto simp: get32_def put32_def bit_eq_iff bit_simps byte_high_bit Let_def)

text \<open>Cutting even data into units and writing the units back gives the data.\<close>

lemma put_units16: "even (length bs) \<Longrightarrow> concat (map (put16 le) (units16 le bs)) = bs"
  by (induction le bs rule: units16.induct) (auto simp: put_get16)

lemma put_units32: "length bs mod 4 = 0 \<Longrightarrow> concat (map (put32 le) (units32 le bs)) = bs"
proof (induction le bs rule: units32.induct)
  case (1 le a b c d bs)
  have "length (a # b # c # d # bs) = length bs + 4" by simp
  then have "length (a # b # c # d # bs) mod 4 = length bs mod 4" by (simp only: mod_add_self2)
  with 1 have "concat (map (put32 le) (units32 le bs)) = bs" by (simp only: )
  then show ?case by (simp add: put_get32)
qed simp_all

lemma drop_quads: "drop (length xs div 4 * 4) xs = [] \<longleftrightarrow> length xs mod 4 = 0"
proof -
  have "(n :: nat) \<le> n div 4 * 4 \<longleftrightarrow> n mod 4 = 0" for n by presburger
  then show ?thesis by simp
qed

lemma atEnd_units16:
  assumes "utf16 r" "\<not> utf32 r" "\<not> hzPendingTilde r" "pendingErr r = None"
  shows "out (atEnd r) = out r @ (if pendingCR r then put16 (littleEndian r) 0x0D else [])"
    and "pendingErr (atEnd r) = Some (if hasPendingByte r then OddUTF16Length else EOF)"
  using assms by (auto simp: atEnd_def Let_def finish_defs emit_def appendUTF16Unit_def)

lemma atEnd_units32:
  assumes "utf32 r" "\<not> utf16 r" "\<not> hzPendingTilde r" "pendingErr r = None"
  shows "out (atEnd r) = out r @ (if pendingCR r then put32 (littleEndian r) 0x0D else [])"
    and "pendingErr (atEnd r) = Some (if pendingUnit r \<noteq> [] then OddUTF32Length else EOF)"
  using assms by (auto simp: atEnd_def Let_def finish_defs emit_def appendUTF32Unit_def)

lemma utf16_reader:
  fixes ds :: "bytes list" and le :: bool and target :: bytes
  defines "res \<equiv> concat (map (put16 le)
      (convertEndings 0x0D 0x0A (target = str ''crlf'') (units16 le (concat ds))))"
  assumes R: "NewUTF16LineEndingReader (blocks ds) target le = Inr r"
    and ds: "[] \<notin> set ds" and ns: "\<forall>n \<in> set ns. 0 < n" "length res < length ns"
  shows "drain ns r = (res, Some (if even (length (concat ds)) then EOF else OddUTF16Length))"
proof -
  let ?t = "target = str ''crlf''" and ?us = "units16 le (concat ds)"
  let ?r = "r\<lparr>source := []\<rparr>"
  have r0: "r = (zero_reader (blocks ds))\<lparr>targetCRLF := ?t, utf16 := True, littleEndian := le\<rparr>"
    using R parse_target [of target] by (auto simp: NewUTF16LineEndingReader_def split: sum.splits)
  let ?q = "fold transformUnit ?us ?r"
  have g: "goodUnits le ?t ?r" by (simp add: r0 goodUnits_def zero_reader_def)
  obtain x where q: "fold transformUTF16Byte (concat ds) ?r
      = ?q\<lparr>pendingByte := x, hasPendingByte := odd (length (concat ds))\<rparr>"
    using transformUTF16_pairs [of ?r "concat ds"] by (auto simp: r0 zero_reader_def)
  let ?e = "fold transformUTF16Byte (concat ds) ?r"
  have tb: "transformBlock (concat ds) ?r = ?e"
    by (simp add: transformBlock_def transformUTF16_def r0 zero_reader_def)
  have fr: "utf16 ?e" "\<not> utf32 ?e" "\<not> hzPendingTilde ?e" "pendingErr ?e = None" "littleEndian ?e = le"
    by (simp_all add: fold_frame r0 zero_reader_def)
  have eq: "out ?e = out ?q" "pendingCR ?e = pendingCR ?q"
    "hasPendingByte ?e = odd (length (concat ds))"
    by (simp_all add: q)
  note o1 = atEnd_units16(1) [OF fr(1-4), unfolded fr(5)]
    and o2 = atEnd_units16(2) [OF fr(1-4)]
  have "out ?q @ (if pendingCR ?q then put16 le 0x0D else []) = res"
    using utf16Machine.run_out [OF g, of ?us] by (simp add: res_def r0 zero_reader_def)
  then have "out (atEnd ?e) = res"
    "pendingErr (atEnd ?e) = Some (if even (length (concat ds)) then EOF else OddUTF16Length)"
    using o1 o2 eq by simp_all
  moreover have "pendingErr r = None" "source r = blocks ds" by (simp_all add: r0 zero_reader_def)
  ultimately show ?thesis
    using drain_blocks [of r ds "atEnd ?e"] ds ns tb by simp
qed

lemma utf32_reader:
  fixes ds :: "bytes list" and le :: bool and target :: bytes
  defines "res \<equiv> concat (map (put32 le)
      (convertEndings 0x0D 0x0A (target = str ''crlf'') (units32 le (concat ds))))"
  assumes R: "NewUTF32LineEndingReader (blocks ds) target le = Inr r"
    and ds: "[] \<notin> set ds" and ns: "\<forall>n \<in> set ns. 0 < n" "length res < length ns"
  shows "drain ns r = (res, Some (if length (concat ds) mod 4 = 0 then EOF else OddUTF32Length))"
proof -
  let ?t = "target = str ''crlf''" and ?us = "units32 le (concat ds)"
  let ?r = "r\<lparr>source := []\<rparr>" and ?n = "length (concat ds)"
  have r0: "r = (zero_reader (blocks ds))\<lparr>targetCRLF := ?t, utf32 := True, littleEndian := le\<rparr>"
    using R parse_target [of target] by (auto simp: NewUTF32LineEndingReader_def split: sum.splits)
  let ?q = "fold transformUTF32Unit ?us ?r"
  have g: "goodUnits le ?t ?r" by (simp add: r0 goodUnits_def zero_reader_def)
  let ?e = "fold transformUTF32Byte (concat ds) ?r"
  have q: "?e = ?q\<lparr>pendingUnit := drop (?n div 4 * 4) (concat ds)\<rparr>"
    using transformUTF32_quads [of ?r "concat ds"] by (simp add: r0 zero_reader_def)
  have tb: "transformBlock (concat ds) ?r = ?e"
    by (simp add: transformBlock_def transformUTF32_def r0 zero_reader_def)
  have fr: "utf32 ?e" "\<not> utf16 ?e" "\<not> hzPendingTilde ?e" "pendingErr ?e = None" "littleEndian ?e = le"
    by (simp_all add: fold_frame r0 zero_reader_def)
  have eq: "out ?e = out ?q" "pendingCR ?e = pendingCR ?q"
    "pendingUnit ?e = drop (?n div 4 * 4) (concat ds)"
    by (simp_all add: q)
  note o1 = atEnd_units32(1) [OF fr(1-4), unfolded fr(5)]
    and o2 = atEnd_units32(2) [OF fr(1-4)]
  have "out ?q @ (if pendingCR ?q then put32 le 0x0D else []) = res"
    using utf32Machine.run_out [OF g, of ?us] by (simp add: res_def r0 zero_reader_def)
  moreover have "drop (?n div 4 * 4) (concat ds) = [] \<longleftrightarrow> ?n mod 4 = 0"
    by (rule drop_quads)
  ultimately have "out (atEnd ?e) = res"
    "pendingErr (atEnd ?e) = Some (if ?n mod 4 = 0 then EOF else OddUTF32Length)"
    using o1 o2 eq by simp_all
  moreover have "pendingErr r = None" "source r = blocks ds" by (simp_all add: r0 zero_reader_def)
  ultimately show ?thesis
    using drain_blocks [of r ds "atEnd ?e"] ds ns tb by simp
qed

subsection \<open>HZ text\<close>

text \<open>
  In HZ a tilde starts a two-byte escape that must pass unchanged; \<^verbatim>\<open>~\n\<close> is a continuation, not
  a line ending. The conversion below keeps every escape and converts the endings around them.
\<close>

fun hzConvert :: "bool \<Rightarrow> bytes \<Rightarrow> bytes" where
  "hzConvert t [] = []"
| "hzConvert t [x] = (if x = 0x0A then targetEnding 0x0D 0x0A t else [x])"
| "hzConvert t (x # y # xs) =
     (if x = 0x7E then x # y # hzConvert t xs
      else if x = 0x0D \<and> y = 0x0A then targetEnding 0x0D 0x0A t @ hzConvert t xs
      else if x = 0x0A then targetEnding 0x0D 0x0A t @ hzConvert t (y # xs)
      else x # hzConvert t (y # xs))"

text \<open>No carriage return stands directly before an escape.\<close>

fun hzSafe :: "bytes \<Rightarrow> bool" where
  "hzSafe (x # y # xs) =
     (if x = 0x7E then hzSafe xs
      else if x = 0x0D \<and> y = 0x7E then False
      else if x = 0x0D \<and> y = 0x0A then hzSafe xs
      else hzSafe (y # xs))"
| "hzSafe _ = True"

lemma hz_lf:
  "hzConvert t (0x0A # xs) = targetEnding 0x0D 0x0A t @ hzConvert t xs"
  "hzSafe (0x0A # xs) = hzSafe xs"
  by (cases xs; simp)+

lemma hz_other:
  assumes "x \<noteq> 0x7E" "x \<noteq> 0x0D" "x \<noteq> 0x0A"
  shows "hzConvert t (x # xs) = x # hzConvert t xs" "hzSafe (x # xs) = hzSafe xs"
  using assms by (cases xs; simp)+

definition goodHZ :: "bool \<Rightarrow> line_ending_reader \<Rightarrow> bool" where
  "goodHZ t r \<longleftrightarrow> hz r \<and> crByte r = 0x0D \<and> lfByte r = 0x0A \<and> targetCRLF r = t"

text \<open>The bytes of the text the machine has read and not yet appended.\<close>

definition held :: "line_ending_reader \<Rightarrow> bytes" where
  "held r = (if hzPendingTilde r then [0x7E] else if pendingCR r then [0x0D] else [])"

lemma hz_step:
  assumes g: "goodHZ t r" and two: "\<not> (hzPendingTilde r \<and> pendingCR r)"
    and safe: "hzSafe (held r @ c # xs)"
  defines "q \<equiv> transformByte c r"
  shows "goodHZ t q \<and> \<not> (hzPendingTilde q \<and> pendingCR q) \<and> hzSafe (held q @ xs) \<and>
    out q @ hzConvert t (held q @ xs) = out r @ hzConvert t (held r @ c # xs)"
proof -
  have g': "hz r" "crByte r = 0x0D" "lfByte r = 0x0A" "targetCRLF r = t"
    using g by (simp_all add: goodHZ_def)
  have gq: "goodHZ t q" using g' by (simp add: q_def goodHZ_def)
  consider (tilde) "hzPendingTilde r" "\<not> pendingCR r" | (cr) "\<not> hzPendingTilde r" "pendingCR r"
    | (plain) "\<not> hzPendingTilde r" "\<not> pendingCR r" using two by blast
  then show ?thesis
  proof cases
    case tilde
    then show ?thesis using g' gq safe by (simp add: q_def reader_defs held_def)
  next
    case cr
    then have "c \<noteq> 0x7E" using safe by (auto simp: held_def)
    then show ?thesis using cr g' gq safe
      by (auto simp: q_def reader_defs held_def targetEnding_def hz_lf hz_other)
  next
    case plain
    then show ?thesis using g' gq safe
      by (auto simp: q_def reader_defs held_def targetEnding_def hz_lf hz_other)
  qed
qed

lemma hz_run:
  assumes "goodHZ t r" "\<not> (hzPendingTilde r \<and> pendingCR r)" "hzSafe (held r @ xs)"
  shows "out (fold transformByte xs r) @ held (fold transformByte xs r)
      = out r @ hzConvert t (held r @ xs)
    \<and> goodHZ t (fold transformByte xs r)
    \<and> \<not> (hzPendingTilde (fold transformByte xs r) \<and> pendingCR (fold transformByte xs r))"
  using assms
proof (induction xs arbitrary: r)
  case Nil
  then show ?case by (simp add: held_def)
next
  case (Cons c xs)
  note s = hz_step [OF Cons.prems]
  with Cons.IH [of "transformByte c r"] show ?case by simp
qed

lemma atEnd_hz:
  assumes "goodHZ t r" "\<not> utf16 r" "\<not> utf32 r" "pendingErr r = None"
    "\<not> (hzPendingTilde r \<and> pendingCR r)"
  shows "out (atEnd r) = out r @ held r" "pendingErr (atEnd r) = Some EOF"
  using assms by (auto simp: atEnd_def Let_def finish_defs goodHZ_def emit_def held_def)

lemma hz_reader:
  assumes R: "NewHZLineEndingReader (blocks ds) target = Inr r"
    and ds: "[] \<notin> set ds" and safe: "hzSafe (concat ds)"
    and ns: "\<forall>n \<in> set ns. 0 < n"
      "length (hzConvert (target = str ''crlf'') (concat ds)) < length ns"
  shows "drain ns r = (hzConvert (target = str ''crlf'') (concat ds), Some EOF)"
proof -
  let ?t = "target = str ''crlf''"
  have r0: "r = (zero_reader (blocks ds))\<lparr>targetCRLF := ?t, crByte := 0x0D, lfByte := 0x0A,
      hz := True\<rparr>"
    using R parse_target [of target]
    by (auto simp: NewHZLineEndingReader_def NewSingleByteLineEndingReader_def split: sum.splits)
  let ?r = "r\<lparr>source := []\<rparr>" and ?q = "fold transformByte (concat ds) (r\<lparr>source := []\<rparr>)"
  have g: "goodHZ ?t ?r" by (simp add: r0 goodHZ_def zero_reader_def)
  have h: "held ?r = []" "out ?r = []" "\<not> (hzPendingTilde ?r \<and> pendingCR ?r)"
    by (simp_all add: r0 held_def zero_reader_def)
  have tb: "transformBlock (concat ds) ?r = ?q"
    by (simp add: transformBlock_def transformBytes_def r0 zero_reader_def)
  have fr: "\<not> utf16 ?q" "\<not> utf32 ?q" "pendingErr ?q = None"
    by (simp_all add: fold_frame r0 zero_reader_def)
  have run: "out ?q @ held ?q = hzConvert ?t (concat ds)" "goodHZ ?t ?q"
    "\<not> (hzPendingTilde ?q \<and> pendingCR ?q)"
    using hz_run [OF g h(3), of "concat ds"] safe h by simp_all
  have "out (atEnd ?q) = hzConvert ?t (concat ds)" "pendingErr (atEnd ?q) = Some EOF"
    using atEnd_hz [OF run(2) fr run(3)] run(1) by simp_all
  moreover have "pendingErr r = None" "source r = blocks ds" by (simp_all add: r0 zero_reader_def)
  ultimately show ?thesis
    using drain_blocks [of r ds "atEnd ?q"] ds ns tb by simp
qed

subsection \<open>Algebra of the conversion\<close>

lemma convertEndings_head_lf:
  "cr \<noteq> lf \<Longrightarrow> convertEndings cr lf t xs = lf # ys \<Longrightarrow> \<not> t"
  by (induction cr lf t xs arbitrary: ys rule: convertEndings.induct)
    (auto simp: targetEnding_def split: if_splits)

lemma convertEndings_step:
  assumes "cr \<noteq> lf"
  shows "convertEndings cr lf t (x # convertEndings cr lf True (y # xs)) =
    (if x = lf then targetEnding cr lf t @ convertEndings cr lf t (convertEndings cr lf True (y # xs))
     else x # convertEndings cr lf t (convertEndings cr lf True (y # xs)))"
  using assms convertEndings_head_lf [OF assms, of True "y # xs"]
  by (cases "convertEndings cr lf True (y # xs)") (auto simp: targetEnding_def)

lemma convertEndings_after_crlf:
  "cr \<noteq> lf \<Longrightarrow>
   convertEndings cr lf t (convertEndings cr lf True xs) = convertEndings cr lf t xs"
proof (induction cr lf True xs rule: convertEndings.induct)
  case (3 cr lf x y xs)
  consider (pair) "x = cr" "y = lf" | (lf) "x = lf" | (other) "x \<noteq> lf" "\<not> (x = cr \<and> y = lf)"
    by blast
  then show ?case
  proof cases
    case pair
    then show ?thesis using 3 by (simp add: targetEnding_def)
  next
    case lf
    then show ?thesis using 3 by (simp add: targetEnding_def)
  next
    case other
    then show ?thesis using 3 by (auto simp: convertEndings_step)
  qed
qed (auto simp: targetEnding_def)

lemma countEndings_after_crlf:
  "cr \<noteq> lf \<Longrightarrow> countEndings cr lf (convertEndings cr lf True xs)
     = (fst (countEndings cr lf xs) + snd (countEndings cr lf xs), 0)"
proof (induction cr lf True xs rule: convertEndings.induct)
  case (3 cr lf x y xs)
  note ne = 3(4)
  have head: "countEndings cr lf (x # convertEndings cr lf True (y # xs))
      = countEndings cr lf (convertEndings cr lf True (y # xs))" if "x \<noteq> lf"
    using that ne convertEndings_head_lf [OF ne, of True "y # xs"]
    by (cases "convertEndings cr lf True (y # xs)") auto
  consider (pair) "x = cr" "y = lf" | (lf) "x = lf" | (other) "x \<noteq> lf" "\<not> (x = cr \<and> y = lf)"
    by blast
  then show ?case
  proof cases
    case pair
    then show ?thesis using 3 by (simp add: targetEnding_def split: prod.splits)
  next
    case lf
    then show ?thesis using 3 by (simp add: targetEnding_def split: prod.splits)
  next
    case other
    then show ?thesis using 3 head by (auto split: prod.splits)
  qed
qed (auto simp: targetEnding_def)

subsection \<open>What a consumer of the readers sees\<close>

text \<open>The counters once the source has ended.\<close>

definition statsAtEnd :: "line_ending_reader \<Rightarrow> nat \<times> nat" where
  "statsAtEnd r = (CRLFCount (stats (flush r)), LFCount (stats (flush r)))"

lemma finish_stats: "stats (finish r) = stats r"
  by (simp add: finish_defs emit_def appendUTF16Unit_def appendUTF32Unit_def)

lemma atEnd_stats: "stats (atEnd r) = stats r"
  by (simp add: atEnd_def Let_def finish_stats)

lemma single_byte_stats:
  assumes R: "NewSingleByteLineEndingReader (blocks ds) target cr lf = Inr r"
    and ds: "[] \<notin> set ds"
  shows "statsAtEnd r = countEndings cr lf (concat ds)"
proof -
  let ?t = "target = str ''crlf''"
  obtain r0: "r = (zero_reader (blocks ds))\<lparr>targetCRLF := ?t, crByte := cr, lfByte := lf\<rparr>"
    and ne: "cr \<noteq> lf"
    using R parse_target [of target]
    by (auto simp: NewSingleByteLineEndingReader_def split: sum.splits if_splits)
  let ?r = "r\<lparr>source := []\<rparr>" and ?q = "fold transformByte (concat ds) (r\<lparr>source := []\<rparr>)"
  have g: "goodBytes cr lf ?t ?r" using ne by (simp add: r0 goodBytes_def zero_reader_def)
  have tb: "transformBlock (concat ds) ?r = ?q"
    by (simp add: transformBlock_def transformBytes_def r0 zero_reader_def)
  have "pendingErr r = None" "source r = blocks ds" by (simp_all add: r0 zero_reader_def)
  then have "flush r = atEnd ?q" using flush_blocks [of r ds] ds tb by simp
  moreover have "stats ?q = \<lparr>CRLFCount = fst (countEndings cr lf (concat ds)),
      LFCount = snd (countEndings cr lf (concat ds))\<rparr>"
    using ending_machine.run_stats [OF byte_ending_machine [OF ne, of ?t] g, of "concat ds"]
    by (simp add: r0 zero_reader_def)
  ultimately show ?thesis by (simp add: statsAtEnd_def atEnd_stats)
qed

text \<open>C32: reading a single-byte text through the converter, with the source cut into any blocks and
  the consumer's buffers of any sizes, yields exactly the text with its endings converted, and
  then \<^verbatim>\<open>io.EOF\<close>. It holds for every pair of CR and LF bytes, EBCDIC ones too.\<close>

theorem single_byte_reader_converts:
  assumes "NewSingleByteLineEndingReader (blocks ds) target cr lf = Inr r" and "[] \<notin> set ds"
    and "\<forall>n \<in> set ns. 0 < n"
    and "length (convertEndings cr lf (target = str ''crlf'') (concat ds)) < length ns"
  shows "drain ns r = (convertEndings cr lf (target = str ''crlf'') (concat ds), Some EOF)"
  using assms by (rule single_byte_reader)

lemma single_byte_reader_converts_witness:
  "drain [2, 1, 3, 2, 2, 5, 1]
     (projr (NewSingleByteLineEndingReader (blocks [[0x61, 0x0D], [0x0A, 0x62, 0x0A]])
        (str ''crlf'') 0x0D 0x0A))
   = ([0x61, 0x0D, 0x0A, 0x62, 0x0D, 0x0A], Some EOF)"
proof -
  have 1: "NewSingleByteLineEndingReader (blocks [[0x61, 0x0D], [0x0A, 0x62, 0x0A]])
        (str ''crlf'') 0x0D 0x0A
      = Inr (projr (NewSingleByteLineEndingReader (blocks [[0x61, 0x0D], [0x0A, 0x62, 0x0A]])
        (str ''crlf'') 0x0D 0x0A))" by code_simp
  have 2: "convertEndings 0x0D 0x0A (str ''crlf'' = str ''crlf'')
      (concat [[0x61, 0x0D], [0x0A, 0x62, 0x0A]])
      = [0x61, 0x0D, 0x0A, 0x62, 0x0D, 0x0A :: byte]" by code_simp
  show ?thesis
    using single_byte_reader_converts [OF 1, of "[2, 1, 3, 2, 2, 5, 1]", unfolded 2] by simp
qed

text \<open>The counters the reader reports at the end of its source are the numbers of CR LF pairs
  and of other line feeds of the whole text, however the source cuts it into blocks.\<close>

theorem single_byte_reader_counts:
  assumes "NewSingleByteLineEndingReader (blocks ds) target cr lf = Inr r" and "[] \<notin> set ds"
  shows "statsAtEnd r = countEndings cr lf (concat ds)"
  using assms by (rule single_byte_stats)

lemma single_byte_reader_counts_witness:
  "statsAtEnd (projr (NewSingleByteLineEndingReader (blocks [[0x61, 0x0D], [0x0A, 0x62, 0x0A]])
     (str ''lf'') 0x0D 0x0A)) = (1, 1)"
proof -
  have 1: "NewSingleByteLineEndingReader (blocks [[0x61, 0x0D], [0x0A, 0x62, 0x0A]])
        (str ''lf'') 0x0D 0x0A
      = Inr (projr (NewSingleByteLineEndingReader (blocks [[0x61, 0x0D], [0x0A, 0x62, 0x0A]])
        (str ''lf'') 0x0D 0x0A))" by code_simp
  show ?thesis using single_byte_reader_counts [OF 1] by simp
qed

text \<open>C33: UTF-16 text of either byte order is converted unit by unit, wherever a block boundary
  cuts a unit; a trailing odd byte is not output and the read ends with an error.\<close>

theorem utf16_reader_converts:
  assumes "NewUTF16LineEndingReader (blocks ds) target le = Inr r" and "[] \<notin> set ds"
    and "\<forall>n \<in> set ns. 0 < n"
    and "length (concat (map (put16 le) (convertEndings 0x0D 0x0A (target = str ''crlf'')
           (units16 le (concat ds))))) < length ns"
  shows "drain ns r =
    (concat (map (put16 le) (convertEndings 0x0D 0x0A (target = str ''crlf'')
       (units16 le (concat ds)))),
     Some (if even (length (concat ds)) then EOF else OddUTF16Length))"
  using assms by (rule utf16_reader)

lemma utf16_reader_converts_witness:
  "drain [1, 3, 2, 2, 5] (projr (NewUTF16LineEndingReader
      (blocks [[0x0D], [0x00, 0x0A, 0x00, 0x61]]) (str ''lf'') True))
   = ([0x0A, 0x00], Some OddUTF16Length)"
proof -
  have 1: "NewUTF16LineEndingReader (blocks [[0x0D], [0x00, 0x0A, 0x00, 0x61]]) (str ''lf'') True
      = Inr (projr (NewUTF16LineEndingReader (blocks [[0x0D], [0x00, 0x0A, 0x00, 0x61]])
          (str ''lf'') True))" by code_simp
  have 2: "concat (map (put16 True) (convertEndings 0x0D 0x0A (str ''lf'' = str ''crlf'')
      (units16 True (concat [[0x0D], [0x00, 0x0A, 0x00, 0x61]])))) = [0x0A, 0x00]" by code_simp
  show ?thesis
    using utf16_reader_converts [OF 1, of "[1, 3, 2, 2, 5]", unfolded 2] by simp
qed

text \<open>The same for UTF-32 text, whose length must be a multiple of four bytes.\<close>

theorem utf32_reader_converts:
  assumes "NewUTF32LineEndingReader (blocks ds) target le = Inr r" and "[] \<notin> set ds"
    and "\<forall>n \<in> set ns. 0 < n"
    and "length (concat (map (put32 le) (convertEndings 0x0D 0x0A (target = str ''crlf'')
           (units32 le (concat ds))))) < length ns"
  shows "drain ns r =
    (concat (map (put32 le) (convertEndings 0x0D 0x0A (target = str ''crlf'')
       (units32 le (concat ds)))),
     Some (if length (concat ds) mod 4 = 0 then EOF else OddUTF32Length))"
  using assms by (rule utf32_reader)

lemma utf32_reader_converts_witness:
  "drain [4, 3, 2, 2, 5, 1, 1, 1, 1] (projr (NewUTF32LineEndingReader
      (blocks [[0x00, 0x00], [0x00, 0x0A]]) (str ''crlf'') False))
   = ([0x00, 0x00, 0x00, 0x0D, 0x00, 0x00, 0x00, 0x0A], Some EOF)"
proof -
  have 1: "NewUTF32LineEndingReader (blocks [[0x00, 0x00], [0x00, 0x0A]]) (str ''crlf'') False
      = Inr (projr (NewUTF32LineEndingReader (blocks [[0x00, 0x00], [0x00, 0x0A]])
          (str ''crlf'') False))" by code_simp
  have 2: "concat (map (put32 False) (convertEndings 0x0D 0x0A (str ''crlf'' = str ''crlf'')
      (units32 False (concat [[0x00, 0x00], [0x00, 0x0A]]))))
      = [0x00, 0x00, 0x00, 0x0D, 0x00, 0x00, 0x00, 0x0A]" by code_simp
  show ?thesis
    using utf32_reader_converts [OF 1, of "[4, 3, 2, 2, 5, 1, 1, 1, 1]", unfolded 2] by simp
qed

text \<open>In HZ text every two-byte tilde escape passes unchanged and the endings around the escapes
  are converted, provided no carriage return stands directly before an escape.\<close>

theorem hz_reader_converts:
  assumes "NewHZLineEndingReader (blocks ds) target = Inr r" and "[] \<notin> set ds"
    and "hzSafe (concat ds)" and "\<forall>n \<in> set ns. 0 < n"
    and "length (hzConvert (target = str ''crlf'') (concat ds)) < length ns"
  shows "drain ns r = (hzConvert (target = str ''crlf'') (concat ds), Some EOF)"
  using assms by (rule hz_reader)

lemma hz_reader_converts_witness:
  "drain [1, 3, 2, 2, 5] (projr (NewHZLineEndingReader
      (blocks [[0x7E], [0x0A, 0x0D], [0x0A]]) (str ''lf'')))
   = ([0x7E, 0x0A, 0x0A], Some EOF)"
proof -
  have 1: "NewHZLineEndingReader (blocks [[0x7E], [0x0A, 0x0D], [0x0A]]) (str ''lf'')
      = Inr (projr (NewHZLineEndingReader (blocks [[0x7E], [0x0A, 0x0D], [0x0A]]) (str ''lf'')))"
    by code_simp
  have 2: "hzConvert (str ''lf'' = str ''crlf'') (concat [[0x7E], [0x0A, 0x0D], [0x0A]])
      = [0x7E, 0x0A, 0x0A]" by code_simp
  have 3: "hzSafe (concat [[0x7E], [0x0A, 0x0D], [0x0A]])" by code_simp
  show ?thesis
    using hz_reader_converts [OF 1 _ 3, of "[1, 3, 2, 2, 5]", unfolded 2] by simp
qed

text \<open>The proviso of the HZ property is needed: a carriage return that stands before an escape is
  still pending when the escape is copied and is written after it, so the text CR ~ ~ comes out as
  ~ ~ CR.\<close>

theorem hz_reader_reorders:
  "map_sum id (drain [8, 8, 8]) (NewHZLineEndingReader (blocks [[0x0D, 0x7E, 0x7E]]) (str ''lf''))
     = Inr ([0x7E, 0x7E, 0x0D], Some EOF)"
  by code_simp

text \<open>Converting to CR LF loses nothing a later conversion needs: reading a text through a CR LF
  reader and its output through a reader for either target gives what one reader gives.\<close>

theorem reconversion:
  assumes "NewSingleByteLineEndingReader (blocks ds) (str ''crlf'') cr lf = Inr r1"
    and "drain ns1 r1 = (mid, Some EOF)" and "mid \<noteq> []"
    and "NewSingleByteLineEndingReader (blocks [mid]) target cr lf = Inr r2"
    and "[] \<notin> set ds" and "\<forall>n \<in> set ns1. 0 < n" and "\<forall>n \<in> set ns2. 0 < n"
    and "length (convertEndings cr lf True (concat ds)) < length ns1"
    and "length (convertEndings cr lf (target = str ''crlf'') (concat ds)) < length ns2"
  shows "drain ns2 r2 = (convertEndings cr lf (target = str ''crlf'') (concat ds), Some EOF)"
proof -
  have ne: "cr \<noteq> lf" using assms(1)
    by (auto simp: NewSingleByteLineEndingReader_def split: sum.splits if_splits)
  have "mid = convertEndings cr lf True (concat ds)"
    using single_byte_reader [OF assms(1,5,6)] assms(2,8) by simp
  then show ?thesis
    using single_byte_reader [OF assms(4) _ assms(7)] assms(3,9)
    by (simp add: convertEndings_after_crlf [OF ne])
qed

lemma reconversion_witness:
  "drain [2, 2, 2] (projr (NewSingleByteLineEndingReader (blocks [[0x61, 0x0D, 0x0A]]) (str ''lf'') 0x0D 0x0A))
   = ([0x61, 0x0A], Some EOF)"
proof -
  let ?R1 = "NewSingleByteLineEndingReader (blocks [[0x61, 0x0A]]) (str ''crlf'') 0x0D 0x0A"
  let ?R2 = "NewSingleByteLineEndingReader (blocks [[0x61, 0x0D, 0x0A]]) (str ''lf'') 0x0D 0x0A"
  have 1: "?R1 = Inr (projr ?R1)" "?R2 = Inr (projr ?R2)" by code_simp+
  have 2: "drain [4, 4, 4, 4] (projr ?R1) = ([0x61, 0x0D, 0x0A], Some EOF)" by code_simp
  have 3: "convertEndings 0x0D 0x0A (str ''lf'' = str ''crlf'') (concat [[0x61, 0x0A]])
     = [0x61, 0x0A :: byte]"
    "convertEndings 0x0D 0x0A True (concat [[0x61, 0x0A]])
     = [0x61, 0x0D, 0x0A :: byte]" by code_simp+
  show ?thesis
    using reconversion [OF 1(1) 2 _ 1(2), of "[2, 2, 2]", unfolded 3] by simp
qed

end
