(* ===== verification/Transform.thy ===== *)
theory Transform
  imports Go_Utf8
begin

text \<open>
  What the transformers of \<^verbatim>\<open>internal/encoding\<close> share. Every one of them has a \<^verbatim>\<open>Transform\<close> method of
  the same shape: a loop that looks at the rest of the source, decides on one unit, checks that the
  destination has room for its output, appends the output and moves on. The loop is modelled once,
  over the step that takes the decision; the step of each transformer is in the theory of its file.

  The theory also models the reader of \<^verbatim>\<open>validation_reader.go\<close>, which feeds the bytes it passes
  through to a transformer, and proves its correctness from the contract the steps meet.
\<close>

datatype transform_error =
    ErrShortDst
  | ErrShortSrc
  | ErrInvalidEncodedSequence string
  | ErrInvalidUTF8
  | NotRepresentable rune
  | Panic string

text \<open>
  \<^verbatim>\<open>Emit out need n s\<close>: append \<^verbatim>\<open>out\<close> if the destination has at least \<^verbatim>\<open>need\<close> bytes left, consume \<^verbatim>\<open>n\<close>
  bytes and go on in state \<^verbatim>\<open>s\<close>. \<^verbatim>\<open>Stop need e\<close>: return the error \<^verbatim>\<open>e\<close>; \<^verbatim>\<open>need\<close> is positive where the
  code checks the room in the destination before it finds the error.
\<close>

datatype 's step_result =
    Emit bytes int nat 's
  | Stop int transform_error

type_synonym 's step = "'s \<Rightarrow> bool \<Rightarrow> bytes \<Rightarrow> 's step_result"

text \<open>
  The loop of \<^verbatim>\<open>Transform(dst, src, atEOF)\<close> with \<^verbatim>\<open>cap\<close> bytes of \<^verbatim>\<open>dst\<close> left: the bytes written, the
  number of source bytes consumed, the error, and the state kept for the next call. Writing past
  the destination and a step that consumes nothing are panics.
\<close>

function transform_loop ::
  "'s step \<Rightarrow> nat \<Rightarrow> 's \<Rightarrow> bool \<Rightarrow> bytes \<Rightarrow> bytes \<times> nat \<times> transform_error option \<times> 's"
where
  "transform_loop step cap s eof src =
     (if src = [] then ([], 0, None, s)
      else (case step s eof src of
          Stop need e \<Rightarrow> ([], 0, Some (if int cap < need then ErrShortDst else e), s)
        | Emit bs need n s' \<Rightarrow>
            if int cap < need then ([], 0, Some ErrShortDst, s)
            else if cap < length bs then ([], 0, Some (Panic ''index out of range''), s)
            else if n = 0 then ([], 0, Some (Panic ''no progress''), s)
            else (case transform_loop step (cap - length bs) s' eof (drop n src) of
                (bs', k, e, s'') \<Rightarrow> (bs @ bs', n + k, e, s''))))"
  by pat_completeness auto
termination
  by (relation "measure (\<lambda>(step, cap, s, eof, src). length src)") auto

declare transform_loop.simps [simp del]

text \<open>The whole text at once, into a destination that is always large enough.\<close>

function run_all :: "'s step \<Rightarrow> 's \<Rightarrow> bytes \<Rightarrow> bytes \<times> transform_error option" where
  "run_all step s src =
     (if src = [] then ([], None)
      else (case step s True src of
          Stop need e \<Rightarrow> ([], Some e)
        | Emit bs need n s' \<Rightarrow>
            if n = 0 then ([], Some (Panic ''no progress''))
            else (case run_all step s' (drop n src) of (bs', e) \<Rightarrow> (bs @ bs', e))))"
  by pat_completeness auto
termination
  by (relation "measure (\<lambda>(step, s, src). length src)") auto

declare run_all.simps [simp del]

lemma run_all_Nil [simp]: "run_all step s [] = ([], None)"
  by (simp add: run_all.simps)

lemma transform_loop_Nil [simp]: "transform_loop step cap s eof [] = ([], 0, None, s)"
  by (simp add: transform_loop.simps)

lemma run_all_Emit:
  "src \<noteq> [] \<Longrightarrow> step s True src = Emit bs need n s' \<Longrightarrow> 0 < n \<Longrightarrow>
   run_all step s src = (bs @ fst (run_all step s' (drop n src)), snd (run_all step s' (drop n src)))"
  by (subst run_all.simps) (simp split: prod.splits)

lemma run_all_Stop:
  "src \<noteq> [] \<Longrightarrow> step s True src = Stop need e \<Longrightarrow> run_all step s src = ([], Some e)"
  by (subst run_all.simps) simp

subsection \<open>The contract of a step\<close>

text \<open>
  A step makes progress, asks for exactly the room it fills, is settled by what it has seen once it
  decides before the end of the source, and does not ask for more at the end.
\<close>

locale stream_step =
  fixes step :: "'s step"
  assumes progress: "src \<noteq> [] \<Longrightarrow> step s eof src = Emit bs need n s' \<Longrightarrow>
      0 < n \<and> n \<le> length src \<and> need = int (length bs)"
    and emit_settled: "src \<noteq> [] \<Longrightarrow> step s False src = Emit bs need n s' \<Longrightarrow>
      step s True (src @ ext) = Emit bs need n s'"
    and stop_settled: "src \<noteq> [] \<Longrightarrow> step s False src = Stop need e \<Longrightarrow> e \<noteq> ErrShortSrc \<Longrightarrow>
      step s True (src @ ext) = Stop need e"
    and eof_decides: "src \<noteq> [] \<Longrightarrow> step s True src \<noteq> Stop need ErrShortSrc"
    and no_short_dst: "src \<noteq> [] \<Longrightarrow> step s eof src \<noteq> Stop need ErrShortDst"
begin

lemma step_extends:
  assumes "src \<noteq> []" "eof \<longrightarrow> ext = []"
  shows "step s eof src = Emit bs need n s' \<Longrightarrow> step s True (src @ ext) = Emit bs need n s'"
    and "step s eof src = Stop need e \<Longrightarrow> e \<noteq> ErrShortSrc \<Longrightarrow> step s True (src @ ext) = Stop need e"
  using assms emit_settled stop_settled by (cases eof; auto)+

text \<open>
  A call that stops for room or for more source, or that consumes everything, can be resumed: what
  is still to come is what the whole text gives after what was written. A call that fails fails
  with the error the whole text gives.
\<close>

lemma loop_resumes:
  assumes "transform_loop step cap s eof src = (bs, k, e, s')" "eof \<longrightarrow> ext = []"
  shows "k \<le> length src \<and>
    (e = None \<longrightarrow> k = length src) \<and>
    (e = Some ErrShortSrc \<longrightarrow> \<not> eof \<and> k < length src) \<and>
    (if e \<in> {None, Some ErrShortSrc, Some ErrShortDst}
     then run_all step s (src @ ext) =
       (bs @ fst (run_all step s' (drop k src @ ext)), snd (run_all step s' (drop k src @ ext)))
     else run_all step s (src @ ext) = (bs, e))"
  using assms
proof (induction src arbitrary: cap s bs k e s' rule: length_induct)
  case (1 src)
  show ?case
  proof (cases "src = []")
    case True
    then show ?thesis using 1 by auto
  next
    case False
    show ?thesis
    proof (cases "step s eof src")
      case (Stop need x)
      have "x \<noteq> ErrShortSrc \<Longrightarrow> run_all step s (src @ ext) = ([], Some x)"
        using step_extends(2) [OF False 1(3) Stop] False by (simp add: run_all_Stop)
      moreover have "x = ErrShortSrc \<Longrightarrow> \<not> eof" using eof_decides [OF False] Stop by (cases eof) auto
      moreover have "x \<noteq> ErrShortDst" using no_short_dst [OF False] Stop by auto
      ultimately show ?thesis using 1(2) False Stop
        by (auto simp: transform_loop.simps [of step cap] split: if_splits)
    next
      case (Emit b need n q)
      note p = progress [OF False Emit]
      have whole: "run_all step s (src @ ext)
          = (b @ fst (run_all step q (drop n src @ ext)), snd (run_all step q (drop n src @ ext)))"
        using step_extends(1) [OF False 1(3) Emit] False p run_all_Emit [of "src @ ext" step s b need n q]
        by simp
      show ?thesis
      proof (cases "cap < length b")
        case True
        then show ?thesis using 1(2) False Emit p
          by (auto simp: transform_loop.simps [of step cap])
      next
        case room: False
        obtain b' k' e' q' where rec: "transform_loop step (cap - length b) q eof (drop n src) = (b', k', e', q')"
          by (metis prod_cases4)
        have r: "bs = b @ b'" "k = n + k'" "e = e'" "s' = q'"
          using 1(2) False Emit p room rec by (simp_all add: transform_loop.simps [of step cap])
        have "length (drop n src) < length src" using p False by auto
        note IH = 1(1) [rule_format, OF this rec] 1(3)
        show ?thesis using IH p whole by (auto simp: r add.commute [of n k'] split: if_splits)
      qed
    qed
  qed
qed

text \<open>A predicate the step decides one unit at a time is what the loop decides for the whole text.\<close>

lemma run_accepts:
  assumes "\<And>s. ok s []"
    and "\<And>s src. src \<noteq> [] \<Longrightarrow> (case step s True src of
        Stop need e \<Rightarrow> \<not> ok s src
      | Emit bs need n q \<Rightarrow> ok s src = ok q (drop n src))"
  shows "snd (run_all step s src) = None \<longleftrightarrow> ok s src"
proof (induction src arbitrary: s rule: length_induct)
  case (1 src)
  show ?case
  proof (cases "src = []")
    case False
    show ?thesis
    proof (cases "step s True src")
      case (Emit bs need n q)
      note p = progress [OF False Emit]
      have "length (drop n src) < length src" using p False by auto
      then have "snd (run_all step q (drop n src)) = None \<longleftrightarrow> ok q (drop n src)" using 1 by blast
      then show ?thesis using run_all_Emit [of src step, OF False Emit] p assms(2) [OF False, of s] Emit
        by simp
    next
      case (Stop need e)
      then show ?thesis using run_all_Stop [of src step, OF False Stop] assms(2) [OF False, of s] by simp
    qed
  qed (use assms(1) in simp)
qed

lemma loop_moves:
  assumes "transform_loop step cap s eof src = (bs, k, Some ErrShortDst, s')" "src \<noteq> []"
    and "\<And>need b n q. step s eof src = Emit b need n q \<Longrightarrow> need \<le> int cap"
    and "\<And>need e. step s eof src = Stop need e \<Longrightarrow> need \<le> int cap"
  shows "0 < k"
proof (cases "step s eof src")
  case (Emit b need n q)
  then show ?thesis using assms progress [OF assms(2) Emit]
    by (auto simp: transform_loop.simps [of step cap] split: if_splits prod.splits)
next
  case (Stop need e)
  then show ?thesis using assms no_short_dst [OF assms(2)]
    by (auto simp: transform_loop.simps [of step cap] split: if_splits)
qed

end

text \<open>A step whose room requirements have a bound: a destination of that size is never too small.\<close>

locale bounded_step = stream_step +
  fixes room :: nat
  assumes room_emit: "src \<noteq> [] \<Longrightarrow> step s eof src = Emit bs need n s' \<Longrightarrow> need \<le> int room"
    and room_stop: "src \<noteq> [] \<Longrightarrow> step s eof src = Stop need e \<Longrightarrow> need \<le> int room"
begin

lemma short_dst_moves:
  assumes "transform_loop step cap s eof src = (bs, k, Some ErrShortDst, s')" "src \<noteq> []" "room \<le> cap"
  shows "0 < k"
  using assms(3) room_emit [OF assms(2)] room_stop [OF assms(2)]
  by (intro loop_moves [OF assms(1,2)]) (meson of_nat_mono order_trans)+

lemma loop_enough_room:
  "length (fst (run_all step s src)) + room \<le> cap \<Longrightarrow>
   \<exists>k s'. transform_loop step cap s True src
     = (fst (run_all step s src), k, snd (run_all step s src), s')
     \<and> (snd (run_all step s src) = None \<longrightarrow> k = length src)"
proof (induction src arbitrary: s cap rule: length_induct)
  case (1 src)
  show ?case
  proof (cases "src = []")
    case False
    show ?thesis
    proof (cases "step s True src")
      case (Emit bs need n q)
      note p = progress [OF False Emit]
      note run = run_all_Emit [of src step, OF False Emit]
      have "length (drop n src) < length src" using p False by auto
      moreover have "length (fst (run_all step q (drop n src))) + room \<le> cap - length bs"
        using 1(2) run p by simp
      ultimately obtain k s' where "transform_loop step (cap - length bs) q True (drop n src)
          = (fst (run_all step q (drop n src)), k, snd (run_all step q (drop n src)), s')
        \<and> (snd (run_all step q (drop n src)) = None \<longrightarrow> k = length (drop n src))"
        using 1(1) by blast
      moreover have "length bs \<le> cap" using 1(2) run p by simp
      ultimately show ?thesis using False Emit p run
        by (simp add: transform_loop.simps [of step cap])
    next
      case (Stop need e)
      then show ?thesis using False room_stop [OF False Stop] 1(2) run_all_Stop [of src step, OF False Stop]
        by (auto simp: transform_loop.simps [of step cap])
    qed
  qed simp
qed

end

subsection \<open>The validating reader\<close>

datatype read_error =
    ReadEOF
  | ReadFailed string
  | ReadNoProgress
  | ValidatorNoProgress
  | ValidatorBufferTooSmall
  | TruncatedSequence
  | TransformFailed transform_error

type_synonym read_source = "(bytes \<times> read_error option) list"

record 's validating_reader =
  vsource :: read_source
  vstate :: 's
  pending :: bytes
  terminalErr :: "read_error option"

definition validationOutputBufferSize :: nat where
  "validationOutputBufferSize = 256 * 1024"

text \<open>
  A source is the list of what its next reads can return; a read into a buffer of \<^verbatim>\<open>m\<close> bytes takes
  at most \<^verbatim>\<open>m\<close> of the first entry. After the last entry the source is at its end.
\<close>

definition read_some :: "nat \<Rightarrow> read_source \<Rightarrow> bytes \<times> read_error option \<times> read_source" where
  "read_some m src =
     (case src of
        [] \<Rightarrow> ([], Some ReadEOF, [])
      | (d, e) # rest \<Rightarrow>
          if length d \<le> m then (d, e, rest) else (take m d, None, (drop m d, e) # rest))"

text \<open>\<^verbatim>\<open>validate\<close>: the error it returns, what it leaves in \<^verbatim>\<open>pending\<close>, and the transformer's state.\<close>

function validate_input ::
  "'s step \<Rightarrow> 's \<Rightarrow> bytes \<Rightarrow> bytes \<Rightarrow> bool \<Rightarrow> read_error option \<times> bytes \<times> 's"
where
  "validate_input step s pend input eof =
     (if input = [] then
        (if eof then
           (case transform_loop step validationOutputBufferSize s True [] of
              (_, _, err, s') \<Rightarrow>
                (if err = Some ErrShortSrc then Some TruncatedSequence
                 else if err \<noteq> None \<and> err \<noteq> Some ErrShortDst then map_option TransformFailed err
                 else None, pend, s'))
         else (None, pend, s))
      else
        (case transform_loop step validationOutputBufferSize s eof input of
           (_, consumed, err, s') \<Rightarrow>
             (case err of
                None \<Rightarrow>
                  if consumed = 0 then (Some ValidatorNoProgress, pend, s')
                  else validate_input step s' pend (drop consumed input) eof
              | Some ErrShortDst \<Rightarrow>
                  if consumed = 0 then (Some ValidatorBufferTooSmall, pend, s')
                  else validate_input step s' pend (drop consumed input) eof
              | Some ErrShortSrc \<Rightarrow>
                  if eof then (Some TruncatedSequence, pend, s')
                  else (None, drop consumed input, s')
              | Some e \<Rightarrow> (Some (TransformFailed e), pend, s'))))"
  by pat_completeness auto
termination
  by (relation "measure (\<lambda>(step, s, pend, input, eof). length input)") auto

declare validate_input.simps [simp del]

definition NewValidatingReader :: "read_source \<Rightarrow> 's \<Rightarrow> 's validating_reader" where
  "NewValidatingReader src s = \<lparr>vsource = src, vstate = s, pending = [], terminalErr = None\<rparr>"

definition ValidatingRead ::
  "'s step \<Rightarrow> nat \<Rightarrow> 's validating_reader \<Rightarrow> bytes \<times> read_error option \<times> 's validating_reader"
where
  "ValidatingRead step m r =
     (if m = 0 then ([], None, r)
      else case terminalErr r of
        Some e \<Rightarrow> ([], Some e, r\<lparr>terminalErr := None\<rparr>)
      | None \<Rightarrow>
        (let (d, sourceErr, rest) = read_some m (vsource r);
             r1 = r\<lparr>vsource := rest\<rparr>;
             eof = (sourceErr = Some ReadEOF)
         in if d \<noteq> [] then
              (case validate_input step (vstate r) [] (pending r @ d) eof of
                 (Some e, pend, s) \<Rightarrow> ([], Some e, r1\<lparr>pending := pend, vstate := s\<rparr>)
               | (None, pend, s) \<Rightarrow>
                   (d, None, r1\<lparr>pending := pend, vstate := s, terminalErr := sourceErr\<rparr>))
            else (case sourceErr of
                Some ReadEOF \<Rightarrow>
                  (case validate_input step (vstate r) (pending r) (pending r) True of
                     (Some e, _, s) \<Rightarrow> ([], Some e, r1\<lparr>pending := [], vstate := s\<rparr>)
                   | (None, _, s) \<Rightarrow> ([], Some ReadEOF, r1\<lparr>pending := [], vstate := s\<rparr>))
              | Some e \<Rightarrow> ([], Some e, r1)
              | None \<Rightarrow> ([], Some ReadNoProgress, r1))))"

text \<open>A consumer that reads with buffers of the given sizes until it sees an error.\<close>

fun validating_drain ::
  "'s step \<Rightarrow> nat list \<Rightarrow> 's validating_reader \<Rightarrow> bytes \<times> read_error option"
where
  "validating_drain step [] r = ([], None)"
| "validating_drain step (m # ms) r =
     (case ValidatingRead step m r of
        (b, Some e, r') \<Rightarrow> (b, Some e)
      | (b, None, r') \<Rightarrow> (case validating_drain step ms r' of (bs, e) \<Rightarrow> (b @ bs, e)))"

text \<open>
  A source without read errors of its own: blocks, the last of which may come with the end of the
  source. What it holds is the concatenation of its blocks.
\<close>

fun clean_source :: "read_source \<Rightarrow> bool" where
  "clean_source [] = True"
| "clean_source [(d, e)] = (d \<noteq> [] \<and> (e = None \<or> e = Some ReadEOF))"
| "clean_source ((d, e) # x # xs) = (d \<noteq> [] \<and> e = None \<and> clean_source (x # xs))"

definition source_bytes :: "read_source \<Rightarrow> bytes" where
  "source_bytes src = concat (map fst src)"

lemma read_some_clean:
  assumes "clean_source src" "src \<noteq> []" "0 < m" "read_some m src = (d, e, rest)"
  shows "d \<noteq> [] \<and> clean_source rest \<and> source_bytes src = d @ source_bytes rest
    \<and> (e = None \<or> e = Some ReadEOF \<and> rest = [])"
  using assms(1)
proof (cases rule: clean_source.cases [of src])
  case (2 d' e')
  then show ?thesis using assms by (auto simp: read_some_def source_bytes_def split: if_splits)
next
  case (3 d' e' x xs)
  then show ?thesis using assms
    by (cases x) (auto simp: read_some_def source_bytes_def split: if_splits)
qed (use assms in auto)

text \<open>The verdict of a transformer on a whole text, as the reader reports it.\<close>

definition verdict :: "transform_error option \<Rightarrow> read_error" where
  "verdict e = (case e of None \<Rightarrow> ReadEOF | Some x \<Rightarrow> TransformFailed x)"

context bounded_step
begin

lemma validate_input_exact:
  assumes "room \<le> validationOutputBufferSize" "eof \<longrightarrow> ext = []" "\<not> eof \<longrightarrow> pend = []"
    and "validate_input step s pend input eof = (r, p, s')"
  shows "case r of
      None \<Rightarrow> if eof then snd (run_all step s input) = None
              else snd (run_all step s (input @ ext)) = snd (run_all step s' (p @ ext))
    | Some e \<Rightarrow> (\<exists>x. e = TransformFailed x \<and> snd (run_all step s (input @ ext)) = Some x)"
  using assms(4)
proof (induction input arbitrary: s rule: length_induct)
  case (1 input)
  show ?case
  proof (cases "input = []")
    case True
    then show ?thesis using 1(2) assms(3) by (auto simp: validate_input.simps split: if_splits)
  next
    case False
    obtain bs k e q where L: "transform_loop step validationOutputBufferSize s eof input = (bs, k, e, q)"
      by (metis prod_cases4)
    note res = loop_resumes [OF L assms(2)] and moves = short_dst_moves [OF _ False assms(1)]
    consider (none) "e = None" | (dst) "e = Some ErrShortDst" | (srcshort) "e = Some ErrShortSrc"
      | (failed) x where "e = Some x" "x \<noteq> ErrShortDst" "x \<noteq> ErrShortSrc" by (cases e) auto
    then show ?thesis
    proof cases
      case none
      then have "validate_input step q pend [] eof = (r, p, s')"
        using 1(2) L False res by (simp add: validate_input.simps [of step s])
      then have "case r of
          None \<Rightarrow> if eof then snd (run_all step q []) = None
                  else snd (run_all step q ([] @ ext)) = snd (run_all step s' (p @ ext))
        | Some e \<Rightarrow> (\<exists>x. e = TransformFailed x \<and> snd (run_all step q ([] @ ext)) = Some x)"
        using 1(1) False by auto
      then show ?thesis using res none assms(2) by (auto split: option.splits)
    next
      case dst
      have k: "0 < k" using moves L dst by blast
      then have v: "validate_input step q pend (drop k input) eof = (r, p, s')"
        using 1(2) L False dst by (simp add: validate_input.simps [of step s])
      have "length (drop k input) < length input" using k False by simp
      from 1(1) [rule_format, OF this v] show ?thesis using res dst assms(2)
        by (auto split: option.splits)
    next
      case srcshort
      then show ?thesis using 1(2) L False res by (auto simp: validate_input.simps [of step s])
    next
      case (failed x)
      then have "r = Some (TransformFailed x)" "run_all step s (input @ ext) = (bs, Some x)"
        using 1(2) L False res
        by (auto simp: validate_input.simps [of step s] split: transform_error.splits)
      then show ?thesis by simp
    qed
  qed
qed

lemma validating_read_end:
  assumes "room \<le> validationOutputBufferSize" "vsource r = []" "terminalErr r = None" "0 < m"
  shows "\<exists>r'. ValidatingRead step m r
    = ([], Some (verdict (snd (run_all step (vstate r) (pending r)))), r')"
proof -
  obtain x p q where V: "validate_input step (vstate r) (pending r) (pending r) True = (x, p, q)"
    by (metis prod_cases3)
  show ?thesis using validate_input_exact [OF assms(1) _ _ V, of "[]"] assms V
    by (cases x) (auto simp: ValidatingRead_def read_some_def verdict_def)
qed

lemma validating_drain_exact:
  assumes "room \<le> validationOutputBufferSize" "clean_source (vsource r)" "terminalErr r = None"
    and "\<forall>m \<in> set ms. 0 < m" "length (source_bytes (vsource r)) < length ms"
  shows "\<exists>bs rest.
    validating_drain step ms r =
      (bs, Some (verdict (snd (run_all step (vstate r) (pending r @ source_bytes (vsource r)))))) \<and>
    source_bytes (vsource r) = bs @ rest \<and>
    (snd (run_all step (vstate r) (pending r @ source_bytes (vsource r))) = None \<longrightarrow> rest = [])"
  using assms(2-5)
proof (induction ms arbitrary: r)
  case (Cons m ms)
  show ?case
  proof (cases "vsource r = []")
    case True
    then show ?thesis using validating_read_end [OF assms(1) True Cons.prems(2), of m] Cons.prems(3)
      by (auto simp: source_bytes_def)
  next
    case False
    obtain d e rest where R: "read_some m (vsource r) = (d, e, rest)" by (metis prod_cases3)
    note C = read_some_clean [OF Cons.prems(1) False _ R]
    have m: "0 < m" using Cons.prems(3) by simp
    obtain x p q where V: "validate_input step (vstate r) [] (pending r @ d) (e = Some ReadEOF) = (x, p, q)"
      by (metis prod_cases3)
    let ?all = "run_all step (vstate r) (pending r @ source_bytes (vsource r))"
    let ?r = "r\<lparr>vsource := rest, pending := p, vstate := q, terminalErr := e\<rparr>"
    have rest: "e = Some ReadEOF \<longrightarrow> source_bytes rest = []"
      using C m by (auto simp: source_bytes_def)
    note E = validate_input_exact [OF assms(1) rest _ V]
    have whole: "(pending r @ d) @ source_bytes rest = pending r @ source_bytes (vsource r)"
      using C m by simp
    show ?thesis
    proof (cases x)
      case (Some y)
      then have "ValidatingRead step m r = ([], Some y, r\<lparr>vsource := rest, pending := p, vstate := q\<rparr>)"
        using C m R V Cons.prems(2) by (simp add: ValidatingRead_def)
      moreover have "y = verdict (snd ?all)" "snd ?all \<noteq> None"
        using E Some whole by (auto simp: verdict_def)
      ultimately show ?thesis by auto
    next
      case None
      then have step: "ValidatingRead step m r = (d, None, ?r)"
        using C m R V Cons.prems(2) by (simp add: ValidatingRead_def)
      show ?thesis
      proof (cases e)
        case None
        have "length (source_bytes (vsource ?r)) < length ms"
          using C m Cons.prems(4) by (cases d) auto
        moreover have "snd ?all = snd (run_all step q (p @ source_bytes rest))"
          using E \<open>x = None\<close> None whole by simp
        ultimately show ?thesis using Cons.IH [of ?r] C m Cons.prems step None by auto
      next
        case (Some z)
        then have z: "z = ReadEOF" "rest = []" using C m by auto
        have "ms \<noteq> []" using C m Cons.prems(4) by (cases d) auto
        then have "validating_drain step ms ?r = ([], Some ReadEOF)"
          using Cons.prems(3) Some z by (cases ms) (auto simp: ValidatingRead_def)
        moreover have "snd ?all = None" using E \<open>x = None\<close> Some z whole by (simp add: source_bytes_def)
        ultimately show ?thesis using step C m z by (simp add: verdict_def source_bytes_def)
      qed
    qed
  qed
qed simp

end

end
