(* ===== verification/Unicode_Validators.thy ===== *)
theory Unicode_Validators
  imports Transform Line_Endings
begin

text \<open>
  The strict source validators of \<^verbatim>\<open>internal/encoding\<close>: UTF-8 (\<^verbatim>\<open>validation_reader.go\<close>), UTF-16
  (\<^verbatim>\<open>strict_utf16.go\<close>), UTF-32 (\<^verbatim>\<open>strict_utf32.go\<close>), and the filter behind a permissive decoder that
  refuses its replacement characters (\<^verbatim>\<open>strict_legacy.go\<close>). Each copies its source and stops at the
  first ill-formed sequence; what they accept is stated against the encodings' definitions.
\<close>

definition invalid :: "string \<Rightarrow> unit step_result" where
  "invalid why = Stop 0 (ErrInvalidEncodedSequence why)"

definition copy_unit :: "nat \<Rightarrow> bytes \<Rightarrow> unit step_result" where
  "copy_unit n src = Emit (take n src) (int n) n ()"

definition strictUTF8SourceValidator :: "unit step" where
  "strictUTF8SourceValidator s eof src =
     (if \<not> full_rune src then
        (if \<not> eof then Stop 0 ErrShortSrc else invalid ''truncated sequence'')
      else (case decode_rune src of (r, sz) \<Rightarrow>
        if r = rune_error \<and> sz = 1 then invalid ''utf-8'' else copy_unit sz src))"

definition rejectReplacementTransformer :: "unit step" where
  "rejectReplacementTransformer s eof src =
     (if \<not> full_rune src then
        (if \<not> eof then Stop 0 ErrShortSrc else invalid ''decoder produced truncated UTF-8'')
      else (case decode_rune src of (r, sz) \<Rightarrow>
        if r = rune_error then invalid ''replacement'' else copy_unit sz src))"

definition utf16SourceValidator :: "bool \<Rightarrow> unit step" where
  "utf16SourceValidator le s eof src =
     (if length src < 2 then
        (if \<not> eof then Stop 0 ErrShortSrc else invalid ''odd byte length'')
      else
        let first = get16 le (src ! 0) (src ! 1)
        in if 0xD800 \<le> first \<and> first \<le> 0xDBFF then
             (if length src < 4 then
                (if \<not> eof then Stop 0 ErrShortSrc else invalid ''truncated surrogate pair'')
              else
                let second = get16 le (src ! 2) (src ! 3)
                in if second < 0xDC00 \<or> second > 0xDFFF
                   then invalid ''high surrogate not followed by low surrogate''
                   else copy_unit 4 src)
           else if 0xDC00 \<le> first \<and> first \<le> 0xDFFF then invalid ''isolated low surrogate''
           else copy_unit 2 src)"

definition utf32SourceValidator :: "bool \<Rightarrow> unit step" where
  "utf32SourceValidator le s eof src =
     (if length src < 4 then
        (if \<not> eof then Stop 0 ErrShortSrc else invalid ''byte length is not a multiple of four'')
      else
        let value = get32 le (src ! 0) (src ! 1) (src ! 2) (src ! 3)
        in if value > 0x10FFFF then invalid ''code point exceeds U+10FFFF''
           else if value \<ge> 0xD800 \<and> value \<le> 0xDFFF then invalid ''surrogate code point''
           else copy_unit 4 src)"

lemmas validator_defs = strictUTF8SourceValidator_def rejectReplacementTransformer_def
  utf16SourceValidator_def utf32SourceValidator_def invalid_def copy_unit_def

subsection \<open>They meet the contract\<close>

lemma decode_rune_not_full: "p \<noteq> [] \<Longrightarrow> \<not> full_rune p \<Longrightarrow> decode_rune p = (rune_error, 1)"
  by (cases p) (auto simp: decode_rune_def full_rune_def Suc_le_eq not_le not_less_eq_eq neq_Nil_conv
    split: option.splits)

lemma nth_append_fst: "i < length xs \<Longrightarrow> (xs @ ys) ! i = xs ! i"
  by (simp add: nth_append)

interpretation utf8: bounded_step strictUTF8SourceValidator 4
proof unfold_locales
  show "need \<le> int 4" if "src \<noteq> []" "strictUTF8SourceValidator s eof src = Emit bs need n s'"
    for src s eof bs need n s'
    using that decode_rune_size(3) [of src] by (auto simp: validator_defs split: if_splits prod.splits)
next
  show "strictUTF8SourceValidator s True (src @ ext) = Emit bs need n s'"
    if "src \<noteq> []" "strictUTF8SourceValidator s False src = Emit bs need n s'" for src s bs need n s' ext
    using that decode_rune_size(2) [of src]
    by (auto simp: validator_defs full_rune_append decode_rune_append split: if_splits prod.splits)
qed (use decode_rune_size in \<open>fastforce simp: validator_defs full_rune_append decode_rune_append
    split: if_splits prod.splits\<close>)+

interpretation reject: bounded_step rejectReplacementTransformer 4
proof unfold_locales
  show "need \<le> int 4" if "src \<noteq> []" "rejectReplacementTransformer s eof src = Emit bs need n s'"
    for src s eof bs need n s'
    using that decode_rune_size(3) [of src] by (auto simp: validator_defs split: if_splits prod.splits)
next
  show "rejectReplacementTransformer s True (src @ ext) = Emit bs need n s'"
    if "src \<noteq> []" "rejectReplacementTransformer s False src = Emit bs need n s'" for src s bs need n s' ext
    using that decode_rune_size(2) [of src]
    by (auto simp: validator_defs full_rune_append decode_rune_append split: if_splits prod.splits)
qed (use decode_rune_size in \<open>fastforce simp: validator_defs full_rune_append decode_rune_append
    split: if_splits prod.splits\<close>)+

interpretation utf16: bounded_step "utf16SourceValidator le" 4 for le
  by unfold_locales
    (auto simp: validator_defs Let_def nth_append_fst min_def split: if_splits)

interpretation utf32: bounded_step "utf32SourceValidator le" 4 for le
  by unfold_locales
    (auto simp: validator_defs Let_def nth_append_fst min_def split: if_splits)

subsection \<open>What they pass on is what they were given\<close>

locale copying_step = stream_step step for step :: "'s step" +
  assumes copies: "src \<noteq> [] \<Longrightarrow> step s True src = Emit bs need n s' \<Longrightarrow> bs = take n src"
begin

lemma run_copies:
  "\<exists>rest. src = fst (run_all step s src) @ rest \<and> (snd (run_all step s src) = None \<longrightarrow> rest = [])"
proof (induction src arbitrary: s rule: length_induct)
  case (1 src)
  show ?case
  proof (cases "src = []")
    case False
    show ?thesis
    proof (cases "step s True src")
      case (Emit bs need n q)
      note p = progress [OF False Emit]
      have "length (drop n src) < length src" using p False by auto
      then obtain rest where R: "drop n src = fst (run_all step q (drop n src)) @ rest"
        "snd (run_all step q (drop n src)) = None \<longrightarrow> rest = []"
        using 1 by blast
      have "src = bs @ drop n src" using copies [OF False Emit] by simp
      then show ?thesis using run_all_Emit [of src step, OF False Emit] p R
        by (intro exI [of _ rest]) (metis append.assoc fst_conv snd_conv)
    next
      case (Stop need e)
      then show ?thesis using run_all_Stop [of src step, OF False Stop] by simp
    qed
  qed simp
qed

end

lemma step_unit: "(s :: unit) = ()"
  by simp

interpretation utf8_copy: copying_step strictUTF8SourceValidator
  by unfold_locales (auto simp: validator_defs split: if_splits prod.splits)

interpretation reject_copy: copying_step rejectReplacementTransformer
  by unfold_locales (auto simp: validator_defs split: if_splits prod.splits)

interpretation utf16_copy: copying_step "utf16SourceValidator le" for le
  by unfold_locales (auto simp: validator_defs Let_def split: if_splits)

interpretation utf32_copy: copying_step "utf32SourceValidator le" for le
  by unfold_locales (auto simp: validator_defs Let_def split: if_splits)

subsection \<open>What they accept\<close>

lemma utf8_accepts: "snd (run_all strictUTF8SourceValidator s src) = None \<longleftrightarrow> utf8_valid src"
proof (rule utf8.run_accepts [where ok = "\<lambda>_. utf8_valid"])
  fix s and src :: bytes assume "src \<noteq> []"
  then show "case strictUTF8SourceValidator s True src of
      Stop need e \<Rightarrow> \<not> utf8_valid src
    | Emit bs need n q \<Rightarrow> utf8_valid src = utf8_valid (drop n src)"
    using utf8_valid_step [of src] decode_rune_not_full [of src]
    by (auto simp: validator_defs split: if_splits prod.splits)
qed simp

text \<open>UTF-16: every high surrogate is followed by a low one and no low surrogate stands alone.\<close>

definition high_surrogate :: "u16 \<Rightarrow> bool" where
  "high_surrogate u \<longleftrightarrow> 0xD800 \<le> u \<and> u \<le> 0xDBFF"

definition low_surrogate :: "u16 \<Rightarrow> bool" where
  "low_surrogate u \<longleftrightarrow> 0xDC00 \<le> u \<and> u \<le> 0xDFFF"

fun utf16_well_formed :: "u16 list \<Rightarrow> bool" where
  "utf16_well_formed [] = True"
| "utf16_well_formed [u] = (\<not> high_surrogate u \<and> \<not> low_surrogate u)"
| "utf16_well_formed (u # v # us) =
     (if high_surrogate u then low_surrogate v \<and> utf16_well_formed us
      else \<not> low_surrogate u \<and> utf16_well_formed (v # us))"

lemma utf16_well_formed_single:
  "\<not> high_surrogate u \<Longrightarrow> utf16_well_formed (u # us) \<longleftrightarrow> \<not> low_surrogate u \<and> utf16_well_formed us"
  by (cases us) auto

lemma not_low: "v < 0xDC00 \<or> 0xDFFF < v \<longleftrightarrow> \<not> low_surrogate v"
  by (auto simp: low_surrogate_def)

lemma utf16_accepts:
  "snd (run_all (utf16SourceValidator le) s src) = None \<longleftrightarrow>
     even (length src) \<and> utf16_well_formed (units16 le src)"
proof (rule utf16.run_accepts [where ok = "\<lambda>_ src. even (length src) \<and> utf16_well_formed (units16 le src)"])
  fix s and src :: bytes assume "src \<noteq> []"
  then consider (one) a where "src = [a]" | (two) a b where "src = [a, b]"
    | (three) a b c where "src = [a, b, c]" | (four) a b c d xs where "src = a # b # c # d # xs"
    by (metis list.exhaust)
  then show "case utf16SourceValidator le s True src of
      Stop need e \<Rightarrow> \<not> (even (length src) \<and> utf16_well_formed (units16 le src))
    | Emit bs need n q \<Rightarrow> (even (length src) \<and> utf16_well_formed (units16 le src))
        = (even (length (drop n src)) \<and> utf16_well_formed (units16 le (drop n src)))"
  proof cases
    case four
    let ?u = "get16 le a b" and ?v = "get16 le c d"
    have "utf16SourceValidator le s True src =
        (if high_surrogate ?u then
           if low_surrogate ?v then copy_unit 4 src
           else invalid ''high surrogate not followed by low surrogate''
         else if low_surrogate ?u then invalid ''isolated low surrogate''
         else copy_unit 2 src)"
      by (simp add: four utf16SourceValidator_def Let_def not_low high_surrogate_def [symmetric]
        low_surrogate_def [symmetric])
    then show ?thesis by (simp add: four invalid_def copy_unit_def utf16_well_formed_single)
  qed (auto simp: validator_defs Let_def high_surrogate_def low_surrogate_def)
qed simp

text \<open>UTF-32: whole units, each a Unicode scalar value.\<close>

lemma scalar_unit:
  "valid_rune (uint (v :: u32)) \<longleftrightarrow> v \<le> 0x10FFFF \<and> \<not> (0xD800 \<le> v \<and> v \<le> 0xDFFF)"
  by (auto simp: valid_rune_def max_rune_def word_le_def)

lemma utf32_accepts:
  "snd (run_all (utf32SourceValidator le) s src) = None \<longleftrightarrow>
     length src mod 4 = 0 \<and> (\<forall>v \<in> set (units32 le src). valid_rune (uint v))"
proof (rule utf32.run_accepts
    [where ok = "\<lambda>_ src. length src mod 4 = 0 \<and> (\<forall>v \<in> set (units32 le src). valid_rune (uint v))"])
  fix s and src :: bytes assume "src \<noteq> []"
  then consider (one) a where "src = [a]" | (two) a b where "src = [a, b]"
    | (three) a b c where "src = [a, b, c]" | (four) a b c d xs where "src = a # b # c # d # xs"
    by (metis list.exhaust)
  then show "case utf32SourceValidator le s True src of
      Stop need e \<Rightarrow> \<not> (length src mod 4 = 0 \<and> (\<forall>v \<in> set (units32 le src). valid_rune (uint v)))
    | Emit bs need n q \<Rightarrow> (length src mod 4 = 0 \<and> (\<forall>v \<in> set (units32 le src). valid_rune (uint v)))
        = (length (drop n src) mod 4 = 0 \<and> (\<forall>v \<in> set (units32 le (drop n src)). valid_rune (uint v)))"
  proof cases
    case four
    have "utf32SourceValidator le s True src =
        (if get32 le a b c d > 0x10FFFF then invalid ''code point exceeds U+10FFFF''
         else if valid_rune (uint (get32 le a b c d)) then copy_unit 4 src
         else invalid ''surrogate code point'')"
      by (auto simp: four utf32SourceValidator_def scalar_unit Let_def)
    then show ?thesis using scalar_unit [of "get32 le a b c d"]
      by (auto simp: four invalid_def copy_unit_def)
  qed (auto simp: validator_defs Let_def)
qed simp

text \<open>The runes of a string, as a Go \<^verbatim>\<open>range\<close> loop yields them.\<close>

function runes :: "bytes \<Rightarrow> rune list" where
  "runes p = (if p = [] then [] else fst (decode_rune p) # runes (drop (snd (decode_rune p)) p))"
  by pat_completeness auto
termination
  by (relation "measure length") (auto simp del: length_drop intro: decode_rune_step_measure)

declare runes.simps [simp del]

lemma runes_Nil [simp]: "runes [] = []"
  by (simp add: runes.simps)

lemma runes_step: "p \<noteq> [] \<Longrightarrow> runes p = fst (decode_rune p) # runes (drop (snd (decode_rune p)) p)"
  by (subst runes.simps) simp

lemma reject_accepts:
  "snd (run_all rejectReplacementTransformer s src) = None \<longleftrightarrow> rune_error \<notin> set (runes src)"
proof (rule reject.run_accepts [where ok = "\<lambda>_ src. rune_error \<notin> set (runes src)"])
  fix s and src :: bytes assume "src \<noteq> []"
  then show "case rejectReplacementTransformer s True src of
      Stop need e \<Rightarrow> \<not> rune_error \<notin> set (runes src)
    | Emit bs need n q \<Rightarrow> (rune_error \<notin> set (runes src)) = (rune_error \<notin> set (runes (drop n src)))"
    using runes_step [of src] decode_rune_not_full [of src]
    by (auto simp: validator_defs split: if_splits prod.splits)
qed simp

lemma copying_verdict:
  assumes "bounded_step step room" "copying_step step" "length src + room \<le> cap"
  shows "\<exists>bs k e s'. transform_loop step cap s True src = (bs, k, e, s') \<and>
    (e = None \<longleftrightarrow> snd (run_all step s src) = None) \<and> (e = None \<longrightarrow> bs = src \<and> k = length src)"
proof -
  obtain rest where R: "src = fst (run_all step s src) @ rest"
    "snd (run_all step s src) = None \<longrightarrow> rest = []"
    using copying_step.run_copies [OF assms(2)] by blast
  have "length (fst (run_all step s src)) \<le> length src" by (subst (2) R(1)) simp
  then have "length (fst (run_all step s src)) + room \<le> cap" using assms(3) by simp
  then obtain k s' where L: "transform_loop step cap s True src
      = (fst (run_all step s src), k, snd (run_all step s src), s')"
    "snd (run_all step s src) = None \<longrightarrow> k = length src"
    using bounded_step.loop_enough_room [OF assms(1)] by blast
  have "snd (run_all step s src) = None \<longrightarrow> fst (run_all step s src) = src"
    using R by (metis append_Nil2)
  then show ?thesis using L
    by (intro exI [of _ "fst (run_all step s src)"] exI [of _ k] exI [of _ "snd (run_all step s src)"]
      exI [of _ s']) simp
qed

subsection \<open>Properties\<close>

text \<open>C4: the validating reader over UTF-8, whatever the cutting of its source and the sizes of the
  buffers it fills, hands on the bytes unchanged and then \<^verbatim>\<open>io.EOF\<close> exactly when they are valid
  UTF-8; otherwise it hands on a prefix and then an error, never \<^verbatim>\<open>io.EOF\<close>.\<close>

theorem utf8_validating_reader:
  assumes "clean_source src" and "\<forall>m \<in> set ms. 0 < m" and "length (source_bytes src) < length ms"
  shows "\<exists>bs e. validating_drain strictUTF8SourceValidator ms (NewValidatingReader src ()) = (bs, Some e) \<and>
    (e = ReadEOF \<longleftrightarrow> utf8_valid (source_bytes src)) \<and>
    (\<exists>rest. source_bytes src = bs @ rest \<and> (e = ReadEOF \<longrightarrow> rest = []))"
proof -
  have "validating_drain strictUTF8SourceValidator ms (NewValidatingReader src ())
      = (bs, Some (verdict (snd (run_all strictUTF8SourceValidator () (source_bytes src))))) \<and>
    source_bytes src = bs @ rest \<and>
    (snd (run_all strictUTF8SourceValidator () (source_bytes src)) = None \<longrightarrow> rest = []) \<Longrightarrow> ?thesis"
    for bs rest
    by (cases "snd (run_all strictUTF8SourceValidator () (source_bytes src))")
      (auto simp: verdict_def utf8_accepts [of "()", symmetric])
  moreover have "4 \<le> validationOutputBufferSize" by (simp add: validationOutputBufferSize_def)
  ultimately show ?thesis
    using utf8.validating_drain_exact [of "NewValidatingReader src ()" ms] assms
    by (auto simp: NewValidatingReader_def)
qed

lemma utf8_validating_reader_witness:
  "\<exists>bs e. validating_drain strictUTF8SourceValidator [1, 2, 9, 9]
      (NewValidatingReader [([0xC3], None), ([0xA9, 0x61], Some ReadEOF)] ()) = (bs, Some e) \<and> e = ReadEOF"
proof -
  have "clean_source [([0xC3], None), ([0xA9, 0x61], Some ReadEOF)]" by simp
  from utf8_validating_reader [OF this, of "[1, 2, 9, 9]"] show ?thesis
    by (auto simp: source_bytes_def utf8_valid.simps decode_rune_def utf8_lead_def in_range_def
      rune_error_def)
qed

text \<open>A call of the UTF-16 validator on a whole text with room for it succeeds, having copied
  it, exactly when the text has an even length and every surrogate is half of a pair.\<close>

theorem utf16_validator_exact:
  assumes "length src + 4 \<le> cap"
  shows "\<exists>bs k e. transform_loop (utf16SourceValidator le) cap () True src = (bs, k, e, ()) \<and>
    (e = None \<longleftrightarrow> even (length src) \<and> utf16_well_formed (units16 le src)) \<and>
    (e = None \<longrightarrow> bs = src \<and> k = length src)"
  using copying_verdict [OF utf16.bounded_step_axioms utf16_copy.copying_step_axioms assms, of le "()"]
  by (simp add: utf16_accepts)

lemma utf16_validator_exact_witness:
  "\<exists>bs k e. transform_loop (utf16SourceValidator True) 8 () True [0x3D, 0xD8, 0x00, 0xDE] = (bs, k, e, ()) \<and>
    e = None \<and> bs = [0x3D, 0xD8, 0x00, 0xDE]"
proof -
  have "even (length [0x3D, 0xD8, 0x00, 0xDE :: byte]) \<and>
    utf16_well_formed (units16 True [0x3D, 0xD8, 0x00, 0xDE])" by code_simp
  with utf16_validator_exact [of "[0x3D, 0xD8, 0x00, 0xDE]" 8 True] show ?thesis by auto
qed

text \<open>A call of the UTF-32 validator on a whole text with room for it succeeds, having copied
  it, exactly when the text is a sequence of four-byte units that are Unicode scalar values.\<close>

theorem utf32_validator_exact:
  assumes "length src + 4 \<le> cap"
  shows "\<exists>bs k e. transform_loop (utf32SourceValidator le) cap () True src = (bs, k, e, ()) \<and>
    (e = None \<longleftrightarrow> length src mod 4 = 0 \<and> (\<forall>v \<in> set (units32 le src). valid_rune (uint v))) \<and>
    (e = None \<longrightarrow> bs = src \<and> k = length src)"
  using copying_verdict [OF utf32.bounded_step_axioms utf32_copy.copying_step_axioms assms, of le "()"]
  by (simp add: utf32_accepts)

lemma utf32_validator_exact_witness:
  "\<exists>bs k e. transform_loop (utf32SourceValidator False) 8 () True [0x00, 0x00, 0xD8, 0x00] = (bs, k, e, ()) \<and>
    e \<noteq> None"
proof -
  have "\<not> (\<forall>v \<in> set (units32 False [0x00, 0x00, 0xD8, 0x00]). valid_rune (uint v))" by code_simp
  with utf32_validator_exact [of "[0x00, 0x00, 0xD8, 0x00]" 8 False] show ?thesis by auto
qed

text \<open>The filter behind a permissive decoder passes a text on unchanged exactly when none of
  its runes is the replacement character, which stands for malformed UTF-8 as well.\<close>

theorem replacement_filter_exact:
  assumes "length src + 4 \<le> cap"
  shows "\<exists>bs k e. transform_loop rejectReplacementTransformer cap () True src = (bs, k, e, ()) \<and>
    (e = None \<longleftrightarrow> rune_error \<notin> set (runes src)) \<and> (e = None \<longrightarrow> bs = src \<and> k = length src)"
  using copying_verdict [OF reject.bounded_step_axioms reject_copy.copying_step_axioms assms, of "()"]
  by (simp add: reject_accepts)

lemma replacement_filter_exact_witness:
  "\<exists>bs k e. transform_loop rejectReplacementTransformer 9 () True [0x61, 0xEF, 0xBF, 0xBD] = (bs, k, e, ()) \<and>
    e \<noteq> None"
proof -
  have "rune_error \<in> set (runes [0x61, 0xEF, 0xBF, 0xBD])" by code_simp
  with replacement_filter_exact [of "[0x61, 0xEF, 0xBF, 0xBD]" 9] show ?thesis by auto
qed

end
