(* ===== verification/Table_Search.thy ===== *)
theory Table_Search
  imports Prelude_Base
begin

text \<open>
  The lookup machinery of \<^verbatim>\<open>internal/encoding/multibyte_table.go\<close>: keys that pack a byte sequence
  and its length into a 64-bit word, binary search (\<^verbatim>\<open>sort.Search\<close>), and in-place removal of
  duplicates from a sorted slice.
\<close>

subsection \<open>Binary search\<close>

function search_loop :: "nat \<Rightarrow> nat \<Rightarrow> (nat \<Rightarrow> bool) \<Rightarrow> nat" where
  "search_loop i j f =
     (if i < j then
        (let h = (i + j) div 2
         in if \<not> f h then search_loop (h + 1) j f else search_loop i h f)
      else i)"
  by pat_completeness auto
termination
  by (relation "measure (\<lambda>(i, j, f). j - i)") auto

declare search_loop.simps [simp del]

definition sort_search :: "nat \<Rightarrow> (nat \<Rightarrow> bool) \<Rightarrow> nat" where
  "sort_search n f = search_loop 0 n f"

definition splits_at :: "nat \<Rightarrow> (nat \<Rightarrow> bool) \<Rightarrow> nat \<Rightarrow> bool" where
  "splits_at n f k \<longleftrightarrow> k \<le> n \<and> (\<forall>a < k. \<not> f a) \<and> (\<forall>b. k \<le> b \<longrightarrow> b < n \<longrightarrow> f b)"

lemma search_loop_least:
  assumes mono: "\<And>a b. a \<le> b \<Longrightarrow> b < n \<Longrightarrow> f a \<Longrightarrow> f b"
    and "i \<le> j" "j \<le> n" "\<forall>a < i. \<not> f a" "\<forall>b. j \<le> b \<longrightarrow> b < n \<longrightarrow> f b"
  shows "splits_at n f (search_loop i j f)"
  using assms(2-5)
proof (induction "j - i" arbitrary: i j rule: less_induct)
  case less
  show ?case
  proof (cases "i < j")
    case True
    define h where "h = (i + j) div 2"
    have h: "i \<le> h" "h < j" using True by (auto simp: h_def)
    show ?thesis
    proof (cases "f h")
      case f: True
      have "splits_at n f (search_loop i h f)"
      proof (rule less.hyps)
        show "\<forall>b. h \<le> b \<longrightarrow> b < n \<longrightarrow> f b" using mono f by blast
      qed (use h less.prems in auto)
      then show ?thesis using f True by (subst search_loop.simps) (simp add: h_def Let_def)
    next
      case nf: False
      have n: "h < n" using h less.prems by simp
      have "splits_at n f (search_loop (h + 1) j f)"
      proof (rule less.hyps)
        show "\<forall>a < h + 1. \<not> f a" using mono [OF _ n] nf by (auto simp: less_Suc_eq_le)
      qed (use h less.prems in auto)
      then show ?thesis using nf True by (subst search_loop.simps) (simp add: h_def Let_def)
    qed
  next
    case False
    then show ?thesis using less.prems by (subst search_loop.simps) (auto simp: splits_at_def)
  qed
qed

lemma sort_search_least:
  assumes "\<And>a b. a \<le> b \<Longrightarrow> b < n \<Longrightarrow> f a \<Longrightarrow> f b"
  shows "sort_search n f \<le> n" "\<And>k. k < sort_search n f \<Longrightarrow> \<not> f k"
    "\<And>k. sort_search n f \<le> k \<Longrightarrow> k < n \<Longrightarrow> f k"
proof -
  have "splits_at n f (sort_search n f)"
    unfolding sort_search_def by (rule search_loop_least) (use assms in auto)
  then show "sort_search n f \<le> n" "\<And>k. k < sort_search n f \<Longrightarrow> \<not> f k"
    "\<And>k. sort_search n f \<le> k \<Longrightarrow> k < n \<Longrightarrow> f k"
    by (auto simp: splits_at_def)
qed

text \<open>
  The lookups of the code all have this shape: find the first entry whose key is not smaller, and
  check whether it is the one looked for.
\<close>

definition table_search :: "('e \<Rightarrow> 'k :: linorder) \<Rightarrow> 'e list \<Rightarrow> 'k \<Rightarrow> 'e option" where
  "table_search key es k =
     (let i = sort_search (length es) (\<lambda>i. key (es ! i) \<ge> k)
      in if i < length es \<and> key (es ! i) = k then Some (es ! i) else None)"

lemma table_search_sound: "table_search key es k = Some e \<Longrightarrow> e \<in> set es \<and> key e = k"
  using nth_mem by (fastforce simp: table_search_def Let_def split: if_splits)

lemma table_search_complete:
  assumes "sorted (map key es)" "e \<in> set es" "key e = k"
  shows "\<exists>e'. table_search key es k = Some e'"
proof -
  let ?f = "\<lambda>i. key (es ! i) \<ge> k"
  have key: "key (es ! a) \<le> key (es ! b)" if "a \<le> b" "b < length es" for a b
    using sorted_nth_mono [OF assms(1), of a b] that by simp
  have mono: "?f b" if "a \<le> b" "b < length es" "?f a" for a b
    using order_trans [OF that(3) key [OF that(1,2)]] .
  obtain j where j: "j < length es" "es ! j = e" using assms(2) by (auto simp: in_set_conv_nth)
  let ?i = "sort_search (length es) ?f"
  have "?f j" using j assms(3) by simp
  then have ij: "?i \<le> j" using sort_search_least(2) [of "length es" ?f j] mono by (meson leI)
  then have i: "?i < length es" using j by simp
  have "k \<le> key (es ! ?i)" using sort_search_least(3) [of "length es" ?f ?i] mono i by blast
  moreover have "key (es ! ?i) \<le> k"
    using key [OF ij j(1)] j(2) assms(3) by simp
  ultimately show ?thesis using i by (simp add: table_search_def)
qed

text \<open>On a table whose keys increase strictly the lookup is the map the table stands for.\<close>

lemma table_search_map_of:
  assumes "sorted_wrt (<) (map key es)"
  shows "table_search key es k = map_of (map (\<lambda>e. (key e, e)) es) k"
proof -
  have d: "distinct (map key es)" and s: "sorted (map key es)"
    using assms by (auto simp: strict_sorted_iff)
  show ?thesis
  proof (cases "table_search key es k")
    case (Some e)
    then have "e \<in> set es" "key e = k" using table_search_sound by metis+
    then have "(k, e) \<in> set (map (\<lambda>e. (key e, e)) es)" by auto
    moreover have "distinct (map fst (map (\<lambda>e. (key e, e)) es))" using d by (simp add: comp_def)
    ultimately show ?thesis using Some by (metis map_of_eq_Some_iff)
  next
    case None
    then have "k \<notin> key ` set es" using table_search_complete [OF s] by force
    then have "map_of (map (\<lambda>e. (key e, e)) es) k = None"
      by (auto simp: map_of_eq_None_iff image_image)
    then show ?thesis using None by simp
  qed
qed

lemma table_search_Some_iff:
  assumes "sorted_wrt (<) (map key es)"
  shows "table_search key es k = Some e \<longleftrightarrow> e \<in> set es \<and> key e = k"
proof
  assume e: "e \<in> set es \<and> key e = k"
  have "inj_on key (set es)" "sorted (map key es)"
    using assms by (auto simp: strict_sorted_iff distinct_map)
  then show "table_search key es k = Some e"
    using table_search_complete [of key es e k] table_search_sound [of key es k] e
    by (metis inj_onD)
qed (rule table_search_sound)

lemma table_search_sorted_iff:
  assumes "sorted (map key es)"
  shows "table_search key es k \<noteq> None \<longleftrightarrow> k \<in> key ` set es"
  using table_search_sound table_search_complete [OF assms] by fastforce

subsection \<open>Removing duplicates in place\<close>

function dedupe_loop :: "'a list \<Rightarrow> nat \<Rightarrow> nat \<Rightarrow> 'a list" where
  "dedupe_loop vs i w =
     (if i < length vs then
        (if vs ! i = vs ! (w - 1) then dedupe_loop vs (i + 1) w
         else dedupe_loop (vs[w := vs ! i]) (i + 1) (w + 1))
      else take w vs)"
  by pat_completeness auto
termination
  by (relation "measure (\<lambda>(vs, i, w). length vs - i)") auto

declare dedupe_loop.simps [simp del]

definition dedupe :: "'a list \<Rightarrow> 'a list" where
  "dedupe vs = (if length vs < 2 then vs else dedupe_loop vs 1 1)"

lemma remdups_adj_snoc:
  "remdups_adj (xs @ [y]) = (if xs \<noteq> [] \<and> last xs = y then remdups_adj xs else remdups_adj xs @ [y])"
  by (induction xs rule: remdups_adj.induct) auto

lemma dedupe_loop_adj:
  assumes "take w vs = remdups_adj xs" "xs \<noteq> []" "w \<le> i" "i \<le> length vs"
    "w = length (remdups_adj xs)"
  shows "dedupe_loop vs i w = remdups_adj (xs @ drop i vs)"
  using assms
proof (induction vs i w arbitrary: xs rule: dedupe_loop.induct)
  case (1 vs i w)
  show ?case
  proof (cases "i < length vs")
    case True
    let ?v = "vs ! i"
    have w: "0 < w" using 1(7,4) by auto
    have last: "vs ! (w - 1) = last xs"
    proof -
      have "vs ! (w - 1) = last (take w vs)"
        using w 1(5,6) True by (subst last_conv_nth) auto
      then show ?thesis using 1(3) by simp
    qed
    have rest: "xs @ drop i vs = (xs @ [?v]) @ drop (i + 1) vs"
      using True by (simp add: Cons_nth_drop_Suc)
    show ?thesis
    proof (cases "?v = vs ! (w - 1)")
      case same: True
      have "dedupe_loop vs (i + 1) w = remdups_adj ((xs @ [?v]) @ drop (i + 1) vs)"
        using 1 True same last by (intro 1(1)) (auto simp: remdups_adj_snoc)
      then show ?thesis using True same rest by (simp add: dedupe_loop.simps [of vs i w])
    next
      case diff: False
      let ?us = "vs[w := ?v]"
      have "take (w + 1) ?us = remdups_adj (xs @ [?v])"
        using 1 True diff last by (simp add: remdups_adj_snoc take_Suc_conv_app_nth)
      moreover have "drop (i + 1) ?us = drop (i + 1) vs" using 1(5) by simp
      moreover have "w + 1 = length (remdups_adj (xs @ [?v]))"
        using 1 diff last by (simp add: remdups_adj_snoc)
      ultimately have "dedupe_loop ?us (i + 1) (w + 1) = remdups_adj ((xs @ [?v]) @ drop (i + 1) vs)"
        using 1(2) [of "xs @ [?v]"] 1(4-6) True diff by simp
      then show ?thesis using True diff rest by (simp add: dedupe_loop.simps [of vs i w])
    qed
  next
    case False
    then show ?thesis using 1 by (subst dedupe_loop.simps) auto
  qed
qed

lemma dedupe_remdups_adj: "dedupe vs = remdups_adj vs"
proof (cases vs rule: remdups_adj.cases)
  case (3 x y xs)
  then show ?thesis using dedupe_loop_adj [of 1 vs "[x]" 1] by (simp add: dedupe_def)
qed (simp_all add: dedupe_def)

lemma strict_remdups_adj: "sorted xs \<Longrightarrow> sorted_wrt (<) (remdups_adj (xs :: 'a :: linorder list))"
  by (induction xs rule: remdups_adj.induct) force+

lemma dedupe_sorted:
  assumes "sorted vs"
  shows "sorted_wrt (<) (dedupe vs)" "set (dedupe vs) = set (vs :: 'a :: linorder list)"
  using assms by (auto simp: dedupe_remdups_adj strict_remdups_adj)

end
