(* ===== verification/Single_Byte.thy ===== *)
theory Single_Byte
  imports Unicode_Validators
begin

text \<open>
  The single-byte charsets of \<^verbatim>\<open>internal/encoding/singlebyte.go\<close>: the construction of the reverse
  map with its checks, the decoder and the encoder. Also what the encoders of the package share:
  the strict decoding of one UTF-8 rune, and UTF-8 text as a list of runes.
\<close>

subsection \<open>UTF-8 text as runes\<close>

definition encode_runes :: "rune list \<Rightarrow> bytes" where
  "encode_runes rs = concat (map encode_rune rs)"

lemma encode_runes_simps [simp]:
  "encode_runes [] = []"
  "encode_runes (r # rs) = encode_rune r @ encode_runes rs"
  "encode_runes (rs @ rs') = encode_runes rs @ encode_runes rs'"
  by (simp_all add: encode_runes_def)

lemma encode_runes_empty [simp]: "encode_runes rs = [] \<longleftrightarrow> rs = []"
  by (cases rs) auto

lemma full_rune_encode: "valid_rune r \<Longrightarrow> full_rune (encode_rune r @ q)"
  using decode_rune_not_full [of "encode_rune r @ q"] decode_encode_not_error [of r q] by auto

lemma valid_text_runes: "utf8_valid p \<Longrightarrow> \<exists>rs. (\<forall>r \<in> set rs. valid_rune r) \<and> p = encode_runes rs"
proof (induction p rule: length_induct)
  case (1 p)
  show ?case
  proof (cases "p = []")
    case True
    then show ?thesis by (intro exI [of _ "[]"]) simp
  next
    case False
    obtain r n where D: "decode_rune p = (r, n)" by fastforce
    have ok: "(r, n) \<noteq> (rune_error, 1)" "utf8_valid (drop n p)"
      using 1(2) utf8_valid_step [OF False] D by auto
    have "length (drop n p) < length p" using decode_rune_step_measure [OF False] D by simp
    then obtain rs where "\<forall>r \<in> set rs. valid_rune r" "drop n p = encode_runes rs"
      using 1(1) ok(2) by blast
    then show ?thesis using encode_decode_rune [OF False D ok(1)]
      by (intro exI [of _ "r # rs"]) (metis append_take_drop_id encode_runes_simps(2) set_ConsD)
  qed
qed

definition decodeStrictUTF8Rune :: "bytes \<Rightarrow> bool \<Rightarrow> transform_error + (rune \<times> nat)" where
  "decodeStrictUTF8Rune src eof =
     (if \<not> full_rune src then Inl (if \<not> eof then ErrShortSrc else ErrInvalidUTF8)
      else if decode_rune src = (rune_error, 1) then Inl ErrInvalidUTF8
      else Inr (decode_rune src))"

lemma decodeStrict_encode:
  "valid_rune r \<Longrightarrow> decodeStrictUTF8Rune (encode_rune r @ q) eof = Inr (r, length (encode_rune r))"
  using decode_encode_not_error [of r q]
  by (simp add: decodeStrictUTF8Rune_def full_rune_encode decode_encode_rune)

lemma decodeStrict_size:
  "decodeStrictUTF8Rune src eof = Inr (r, n) \<Longrightarrow> 0 < n \<and> n \<le> length src \<and> valid_rune r"
  using decode_rune_size_full [of src] encode_decode_rune [of src r n] full_rune_Nil
  by (cases "src = []") (auto simp: decodeStrictUTF8Rune_def split: if_splits)

lemma decodeStrict_settled:
  "decodeStrictUTF8Rune src False \<noteq> Inl ErrShortSrc \<Longrightarrow>
   decodeStrictUTF8Rune (src @ ext) eof = decodeStrictUTF8Rune src False"
  by (auto simp: decodeStrictUTF8Rune_def full_rune_append decode_rune_append split: if_splits)

lemma decodeStrict_errors:
  "decodeStrictUTF8Rune src eof = Inl e \<Longrightarrow> e = ErrInvalidUTF8 \<or> e = ErrShortSrc \<and> \<not> eof"
  by (auto simp: decodeStrictUTF8Rune_def split: if_splits)

subsection \<open>Construction\<close>

definition undefinedSingleByteRune :: rune where
  "undefinedSingleByteRune = -1"

record single_byte_encoding =
  sbDecode :: "rune list"
  sbReverse :: "(rune \<times> byte) list"

text \<open>The loop over the decode table, from byte \<^verbatim>\<open>v\<close> on, with the reverse map built so far.\<close>

fun buildReverse :: "nat \<Rightarrow> rune list \<Rightarrow> (rune \<times> byte) list \<Rightarrow> string + (rune \<times> byte) list" where
  "buildReverse v [] m = Inr m"
| "buildReverse v (r # rs) m =
     (if r = undefinedSingleByteRune then buildReverse (v + 1) rs m
      else if \<not> valid_rune r then Inl ''invalid Unicode scalar''
      else case map_of m r of
          Some previous \<Rightarrow> Inl ''non-bijective single-byte encoding''
        | None \<Rightarrow> buildReverse (v + 1) rs ((r, of_nat v) # m))"

definition newSingleByteEncoding :: "bytes \<Rightarrow> rune list \<Rightarrow> string + single_byte_encoding" where
  "newSingleByteEncoding name decode =
     (if name = [] then Inl ''single-byte encoding requires a name and decode table''
      else case buildReverse 0 decode [] of
          Inl e \<Rightarrow> Inl e
        | Inr m \<Rightarrow>
            if length m = 0 then Inl ''single-byte encoding has no defined bytes''
            else Inr \<lparr>sbDecode = decode, sbReverse = m\<rparr>)"

definition singleByteDecoder :: "single_byte_encoding \<Rightarrow> unit step" where
  "singleByteDecoder enc s eof src =
     (let r = sbDecode enc ! unat (hd src)
      in if r = undefinedSingleByteRune then invalid ''undefined byte''
         else Emit (encode_rune r) (rune_len r) 1 ())"

definition singleByteEncoder :: "single_byte_encoding \<Rightarrow> unit step" where
  "singleByteEncoder enc s eof src =
     (case decodeStrictUTF8Rune src eof of
        Inl e \<Rightarrow> Stop 0 e
      | Inr (r, n) \<Rightarrow>
          (case map_of (sbReverse enc) r of
             None \<Rightarrow> Stop 0 (NotRepresentable r)
           | Some b \<Rightarrow> Emit [b] 1 n ()))"

definition defined_runes :: "rune list \<Rightarrow> rune list" where
  "defined_runes t = filter (\<lambda>r. r \<noteq> undefinedSingleByteRune) t"

text \<open>A table the construction accepts: its defined runes are valid, and no two bytes share one.\<close>

definition single_byte_table :: "rune list \<Rightarrow> bool" where
  "single_byte_table t \<longleftrightarrow>
     defined_runes t \<noteq> [] \<and> (\<forall>r \<in> set (defined_runes t). valid_rune r) \<and> distinct (defined_runes t)"

lemma unat_byte: "unat (b :: byte) < 256"
proof -
  have "unat b < 2 ^ LENGTH(8)" by (rule unsigned_less)
  then show ?thesis by simp
qed

lemma buildReverse_ok:
  "(\<exists>m'. buildReverse v rs m = Inr m') \<longleftrightarrow>
     (\<forall>r \<in> set (defined_runes rs). valid_rune r \<and> map_of m r = None) \<and> distinct (defined_runes rs)"
  by (induction v rs m rule: buildReverse.induct) (auto simp: defined_runes_def split: option.splits)

lemma buildReverse_length:
  "buildReverse v rs m = Inr m' \<Longrightarrow> length m' = length m + length (defined_runes rs)"
  by (induction v rs m rule: buildReverse.induct)
    (auto simp: defined_runes_def split: if_splits option.splits)

lemma buildReverse_map:
  "buildReverse v rs m = Inr m' \<Longrightarrow>
   map_of m' r = Some b \<longleftrightarrow> map_of m r = Some b \<or>
     r \<noteq> undefinedSingleByteRune \<and> (\<exists>i < length rs. rs ! i = r \<and> b = of_nat (v + i))"
proof (induction v rs m rule: buildReverse.induct)
  case (2 v x rs m)
  have split: "(\<exists>i < length (x # rs). (x # rs) ! i = r \<and> b = of_nat (v + i)) \<longleftrightarrow>
      x = r \<and> b = of_nat v \<or> (\<exists>i < length rs. rs ! i = r \<and> b = of_nat (v + 1 + i))"
    by (auto simp: Ex_less_Suc2)
  show ?case using 2 unfolding split
    by (auto split: if_splits option.splits)
qed simp

lemma newSingleByteEncoding_ok:
  "(\<exists>enc. newSingleByteEncoding name t = Inr enc) \<longleftrightarrow> name \<noteq> [] \<and> single_byte_table t"
  using buildReverse_ok [of 0 t "[]"] buildReverse_length [of 0 t "[]"]
  by (auto simp: newSingleByteEncoding_def single_byte_table_def split: sum.splits)

text \<open>The reverse map is the inverse of the table.\<close>

lemma reverse_inverse:
  assumes "newSingleByteEncoding name t = Inr enc" "length t = 256"
  shows "sbDecode enc = t"
    and "map_of (sbReverse enc) r = Some b \<longleftrightarrow> r \<noteq> undefinedSingleByteRune \<and> t ! unat b = r"
proof -
  obtain m where m: "buildReverse 0 t [] = Inr m" "enc = \<lparr>sbDecode = t, sbReverse = m\<rparr>"
    using assms(1) by (auto simp: newSingleByteEncoding_def split: sum.splits if_splits)
  show "sbDecode enc = t" by (simp add: m)
  have "(\<exists>i < length t. t ! i = r \<and> b = of_nat i) \<longleftrightarrow> t ! unat b = r"
  proof
    assume "\<exists>i < length t. t ! i = r \<and> b = of_nat i"
    then obtain i where "i < 256" "t ! i = r" "b = of_nat i" using assms(2) by auto
    then show "t ! unat b = r" by (simp add: unsigned_of_nat take_bit_nat_eq_self)
  next
    assume "t ! unat b = r"
    then show "\<exists>i < length t. t ! i = r \<and> b = of_nat i"
      using unat_byte [of b] assms(2) by (intro exI [of _ "unat b"]) simp
  qed
  then show "map_of (sbReverse enc) r = Some b \<longleftrightarrow> r \<noteq> undefinedSingleByteRune \<and> t ! unat b = r"
    using buildReverse_map [OF m(1), of r b] m(2) by simp
qed

subsection \<open>Decoding and encoding a text\<close>

lemma valid_not_undefined: "valid_rune r \<Longrightarrow> r \<noteq> undefinedSingleByteRune"
  by (auto simp: valid_rune_def undefinedSingleByteRune_def)

lemma table_rune_valid:
  assumes "newSingleByteEncoding name t = Inr enc" "length t = 256"
    "sbDecode enc ! unat (b :: byte) \<noteq> undefinedSingleByteRune"
  shows "valid_rune (sbDecode enc ! unat b)"
proof -
  have "single_byte_table t" using newSingleByteEncoding_ok [of name t] assms(1) by blast
  moreover have "t ! unat b \<in> set t"
    using unat_byte [of b] assms(2) by (intro nth_mem) simp
  ultimately show ?thesis
    using assms(3) reverse_inverse(1) [OF assms(1,2)] by (auto simp: single_byte_table_def defined_runes_def)
qed

lemma singleByteDecoder_step:
  assumes "newSingleByteEncoding name t = Inr enc" "length t = 256"
  shows "bounded_step (singleByteDecoder enc) 4"
proof unfold_locales
  fix src :: bytes and s eof bs need n s'
  assume "src \<noteq> []" and e: "singleByteDecoder enc s eof src = Emit bs need n s'"
  then have "valid_rune (sbDecode enc ! unat (hd src))"
    using table_rune_valid [OF assms] by (auto simp: singleByteDecoder_def Let_def invalid_def split: if_splits)
  with e \<open>src \<noteq> []\<close> show "0 < n \<and> n \<le> length src \<and> need = int (length bs)" "need \<le> int 4"
    using rune_len_encode length_encode_rune(2)
    by (auto simp: singleByteDecoder_def Let_def invalid_def Suc_le_eq split: if_splits)
qed (auto simp: singleByteDecoder_def Let_def invalid_def split: if_splits)

interpretation strict_rune_encoder: bounded_step "singleByteEncoder enc" 1 for enc
proof unfold_locales
  fix src ext :: bytes and s bs need n s'
  assume "src \<noteq> []" "singleByteEncoder enc s False src = Emit bs need n s'"
  then show "singleByteEncoder enc s True (src @ ext) = Emit bs need n s'"
    using decodeStrict_settled [of src ext True] by (auto simp: singleByteEncoder_def split: sum.splits)
next
  fix src ext :: bytes and s need e
  assume "src \<noteq> []" "singleByteEncoder enc s False src = Stop need e" "e \<noteq> ErrShortSrc"
  then show "singleByteEncoder enc s True (src @ ext) = Stop need e"
    using decodeStrict_settled [of src ext True]
    by (auto simp: singleByteEncoder_def split: sum.splits option.splits)
qed (use decodeStrict_size decodeStrict_errors in
    \<open>fastforce simp: singleByteEncoder_def split: sum.splits option.splits\<close>)+

lemma singleByteDecoder_run:
  assumes "newSingleByteEncoding name t = Inr enc" "length t = 256"
  shows "run_all (singleByteDecoder enc) s bs =
    (encode_runes (takeWhile (\<lambda>r. r \<noteq> undefinedSingleByteRune) (map (\<lambda>b. t ! unat b) bs)),
     if undefinedSingleByteRune \<in> (\<lambda>b. t ! unat b) ` set bs
     then Some (ErrInvalidEncodedSequence ''undefined byte'') else None)"
proof (induction bs arbitrary: s)
  case (Cons b bs)
  have t: "sbDecode enc = t" by (rule reverse_inverse(1) [OF assms])
  show ?case
  proof (cases "t ! unat b = undefinedSingleByteRune")
    case True
    then show ?thesis
      by (subst run_all_Stop) (auto simp: singleByteDecoder_def t invalid_def)
  next
    case False
    then have "singleByteDecoder enc s True (b # bs)
        = Emit (encode_rune (t ! unat b)) (rune_len (t ! unat b)) 1 ()"
      by (simp add: singleByteDecoder_def t Let_def)
    from run_all_Emit [of "b # bs" "singleByteDecoder enc", OF _ this] show ?thesis
      using Cons False by auto
  qed
qed simp

lemma singleByteDecoder_all:
  assumes "newSingleByteEncoding name t = Inr enc" "length t = 256"
    and "undefinedSingleByteRune \<notin> set (map (\<lambda>b. t ! unat b) bs)"
  shows "run_all (singleByteDecoder enc) s bs = (encode_runes (map (\<lambda>b. t ! unat b) bs), None)"
proof -
  have tw: "takeWhile (\<lambda>r. r \<noteq> undefinedSingleByteRune) (map (\<lambda>b. t ! unat b) bs)
      = map (\<lambda>b. t ! unat b) bs"
    using assms(3) by (intro takeWhile_eq_all_conv [THEN iffD2]) blast
  show ?thesis using singleByteDecoder_run [OF assms(1,2), of s bs, unfolded tw] assms(3) by simp
qed

lemma singleByteEncoder_run:
  "\<forall>r \<in> set rs. valid_rune r \<Longrightarrow>
   run_all (singleByteEncoder enc) s (encode_runes rs) =
     (map (\<lambda>r. the (map_of (sbReverse enc) r)) (takeWhile (\<lambda>r. map_of (sbReverse enc) r \<noteq> None) rs),
      map_option NotRepresentable (find (\<lambda>r. map_of (sbReverse enc) r = None) rs))"
proof (induction rs arbitrary: s)
  case (Cons r rs)
  have v: "valid_rune r" using Cons.prems by simp
  show ?case
  proof (cases "map_of (sbReverse enc) r")
    case None
    then show ?thesis
      by (subst run_all_Stop) (auto simp: singleByteEncoder_def decodeStrict_encode [OF v])
  next
    case (Some b)
    then have "singleByteEncoder enc s True (encode_rune r @ encode_runes rs)
        = Emit [b] 1 (length (encode_rune r)) ()"
      by (simp add: singleByteEncoder_def decodeStrict_encode [OF v])
    from run_all_Emit [of "encode_rune r @ encode_runes rs" "singleByteEncoder enc", OF _ this]
    show ?thesis using Cons Some length_encode_rune(1) [of r] by auto
  qed
qed simp

lemma singleByteEncoder_all:
  assumes "\<forall>r \<in> set rs. valid_rune r" "\<forall>r \<in> set rs. map_of (sbReverse enc) r \<noteq> None"
  shows "run_all (singleByteEncoder enc) s (encode_runes rs)
    = (map (\<lambda>r. the (map_of (sbReverse enc) r)) rs, None)"
proof -
  have "takeWhile (\<lambda>r. map_of (sbReverse enc) r \<noteq> None) rs = rs"
    "find (\<lambda>r. map_of (sbReverse enc) r = None) rs = None"
    using assms(2) by (simp_all add: takeWhile_eq_all_conv find_None_iff)
  then show ?thesis using singleByteEncoder_run [OF assms(1), of enc s] by (simp only: option.map)
qed

lemma encoded_rune:
  assumes "newSingleByteEncoding name t = Inr enc" "length t = 256"
  shows "t ! unat b \<noteq> undefinedSingleByteRune \<Longrightarrow> map_of (sbReverse enc) (t ! unat b) = Some b"
    and "map_of (sbReverse enc) r = Some b \<Longrightarrow> t ! unat b = r \<and> r \<noteq> undefinedSingleByteRune"
  using reverse_inverse(2) [OF assms] by blast+

subsection \<open>Properties\<close>

text \<open>The construction accepts a table exactly when it has a name, a defined byte, only Unicode
  scalar values, and no rune twice; the reverse map it builds is then the inverse of the table.\<close>

theorem single_byte_construction:
  assumes "length t = 256"
  shows "((\<exists>enc. newSingleByteEncoding name t = Inr enc) \<longleftrightarrow> name \<noteq> [] \<and> single_byte_table t) \<and>
    (\<forall>enc r b. newSingleByteEncoding name t = Inr enc \<longrightarrow>
      (map_of (sbReverse enc) r = Some b \<longleftrightarrow> r \<noteq> undefinedSingleByteRune \<and> t ! unat b = r))"
  using newSingleByteEncoding_ok reverse_inverse(2) [OF _ assms] by blast

lemma single_byte_construction_witness:
  "\<exists>enc. newSingleByteEncoding (str ''x'') (replicate 254 (-1) @ [65, 0x20AC]) = Inr enc \<and>
     map_of (sbReverse enc) 0x20AC = Some 0xFF"
proof -
  let ?t = "replicate 254 (-1) @ [65, 0x20AC]"
  have l: "length ?t = 256" by simp
  have "str ''x'' \<noteq> [] \<and> single_byte_table ?t"
    by (simp add: str_def single_byte_table_def defined_runes_def undefinedSingleByteRune_def
      valid_rune_def max_rune_def)
  then obtain enc where e: "newSingleByteEncoding (str ''x'') ?t = Inr enc"
    using newSingleByteEncoding_ok by blast
  show ?thesis using e single_byte_construction [OF l, THEN conjunct2, rule_format, OF e, of "0x20AC" "0xFF"]
    by (simp add: undefinedSingleByteRune_def nth_append)
qed

text \<open>The decoder turns each byte into its rune up to the first undefined byte, which is an
  error; it fails on nothing else.\<close>

theorem single_byte_decode:
  assumes "newSingleByteEncoding name t = Inr enc" and "length t = 256"
  shows "run_all (singleByteDecoder enc) () bs =
    (encode_runes (takeWhile (\<lambda>r. r \<noteq> undefinedSingleByteRune) (map (\<lambda>b. t ! unat b) bs)),
     if undefinedSingleByteRune \<in> (\<lambda>b. t ! unat b) ` set bs
     then Some (ErrInvalidEncodedSequence ''undefined byte'') else None)"
  using assms by (rule singleByteDecoder_run)

lemma single_byte_decode_witness:
  "\<exists>enc. newSingleByteEncoding (str ''x'') (replicate 254 (-1) @ [65, 0x20AC]) = Inr enc \<and>
     run_all (singleByteDecoder enc) () [0xFF, 0xFE, 0x00] =
       (encode_runes [0x20AC, 65], Some (ErrInvalidEncodedSequence ''undefined byte''))"
proof -
  let ?t = "replicate 254 (-1) @ [65, 0x20AC]"
  have "str ''x'' \<noteq> [] \<and> single_byte_table ?t"
    by (simp add: str_def single_byte_table_def defined_runes_def undefinedSingleByteRune_def
      valid_rune_def max_rune_def)
  then obtain enc where e: "newSingleByteEncoding (str ''x'') ?t = Inr enc"
    using newSingleByteEncoding_ok by blast
  show ?thesis using e single_byte_decode [OF e, of "[0xFF, 0xFE, 0x00]"]
    by (simp add: undefinedSingleByteRune_def nth_append)
qed

text \<open>C6: encoding undoes decoding and decoding undoes encoding: bytes that decode are given back by
  the encoder, and valid UTF-8 text that encodes is given back by the decoder.\<close>

theorem single_byte_roundtrip:
  assumes "newSingleByteEncoding name t = Inr enc" and "length t = 256"
  shows "(run_all (singleByteDecoder enc) () bs = (p, None) \<longrightarrow> run_all (singleByteEncoder enc) () p = (bs, None)) \<and>
    (utf8_valid p \<and> run_all (singleByteEncoder enc) () p = (bs, None) \<longrightarrow>
      run_all (singleByteDecoder enc) () bs = (p, None))"
proof (intro conjI impI; (elim conjE)?)
  let ?f = "\<lambda>b. t ! unat b"
  assume "run_all (singleByteDecoder enc) () bs = (p, None)"
  then have def: "undefinedSingleByteRune \<notin> ?f ` set bs"
    and p: "p = encode_runes (takeWhile (\<lambda>r. r \<noteq> undefinedSingleByteRune) (map ?f bs))"
    using singleByteDecoder_run [OF assms, of "()" bs] by (auto split: if_splits)
  have "takeWhile (\<lambda>r. r \<noteq> undefinedSingleByteRune) (map ?f bs) = map ?f bs"
    using def by (force simp: takeWhile_eq_all_conv)
  with p have p: "p = encode_runes (map ?f bs)" by simp
  have rev: "\<forall>b \<in> set bs. map_of (sbReverse enc) (?f b) = Some b"
    using def by (intro ballI encoded_rune(1) [OF assms]) (metis image_eqI)
  have "\<forall>r \<in> set (map ?f bs). valid_rune r"
    using def table_rune_valid [OF assms, unfolded reverse_inverse(1) [OF assms]]
    by (auto simp: image_iff)
  moreover have "\<forall>r \<in> set (map ?f bs). map_of (sbReverse enc) r \<noteq> None" using rev by simp
  moreover have "map (\<lambda>r. the (map_of (sbReverse enc) r)) (map ?f bs) = bs"
    using rev by (auto simp: comp_def intro: map_idI)
  ultimately show "run_all (singleByteEncoder enc) () p = (bs, None)"
    using singleByteEncoder_all [of "map ?f bs" enc "()"] p by simp
next
  assume "utf8_valid p" and e: "run_all (singleByteEncoder enc) () p = (bs, None)"
  then obtain rs where rs: "\<forall>r \<in> set rs. valid_rune r" "p = encode_runes rs"
    using valid_text_runes by blast
  have "find (\<lambda>r. map_of (sbReverse enc) r = None) rs = None"
    using singleByteEncoder_run [OF rs(1), of enc "()"] e rs(2) by simp
  then have ok: "\<forall>r \<in> set rs. map_of (sbReverse enc) r \<noteq> None" by (simp add: find_None_iff)
  then have bs': "bs = map (\<lambda>r. the (map_of (sbReverse enc) r)) rs"
    using singleByteEncoder_all [OF rs(1) ok, of "()"] e rs(2) by simp
  then have "map (\<lambda>b. t ! unat b) bs = rs"
    using ok encoded_rune(2) [OF assms] by (auto simp: comp_def intro!: map_idI)
  moreover have "undefinedSingleByteRune \<notin> set rs" using rs(1) valid_not_undefined by blast
  ultimately show "run_all (singleByteDecoder enc) () bs = (p, None)"
    using singleByteDecoder_all [OF assms, of bs "()"] rs(2) by simp
qed

lemma single_byte_roundtrip_witness:
  "\<exists>enc. newSingleByteEncoding (str ''x'') (replicate 254 (-1) @ [65, 0x20AC]) = Inr enc \<and>
     run_all (singleByteEncoder enc) () (encode_runes [0x20AC, 65]) = ([0xFF, 0xFE], None)"
proof -
  let ?t = "replicate 254 (-1) @ [65, 0x20AC]"
  have "str ''x'' \<noteq> [] \<and> single_byte_table ?t"
    by (simp add: str_def single_byte_table_def defined_runes_def undefinedSingleByteRune_def
      valid_rune_def max_rune_def)
  then obtain enc where e: "newSingleByteEncoding (str ''x'') ?t = Inr enc"
    using newSingleByteEncoding_ok by blast
  have "run_all (singleByteDecoder enc) () [0xFF, 0xFE] = (encode_runes [0x20AC, 65], None)"
    using singleByteDecoder_run [OF e, of "()" "[0xFF, 0xFE]"]
    by (simp add: undefinedSingleByteRune_def nth_append)
  then show ?thesis using e single_byte_roundtrip [OF e, of "[0xFF, 0xFE]" "encode_runes [0x20AC, 65]"]
    by simp
qed

end
