(* ===== verification/Multibyte.thy ===== *)
theory Multibyte
  imports Single_Byte Table_Search
begin

text \<open>
  The table-driven multibyte charsets of \<^verbatim>\<open>internal/encoding/multibyte_table.go\<close>: the validation and
  indexing of the generated tables, the lookups, the decoder that scans for the one entry that
  matches, and the encoder that prefers a pair of runes with an encoding of its own.

  The tables are generated data and a parameter of the model. The fields of type \<^verbatim>\<open>uint8\<close> that hold
  a length are natural numbers: the construction refuses every length above four.
\<close>

record decode_entry =
  Packed :: u32
  Length :: nat
  Rune1 :: rune
  Rune2 :: rune

record encode_entry =
  Rune :: rune
  Bytes :: bytes

record pair_entry =
  First :: rune
  Second :: rune
  PairBytes :: bytes

record multibyte_encoding =
  decode :: "decode_entry list"
  prefixes :: "64 word list"
  encode :: "encode_entry list"
  pairEncode :: "pair_entry list"
  pairLeads :: "rune list"

definition maxGeneratedMultibyteSequence :: nat where
  "maxGeneratedMultibyteSequence = 4"

subsection \<open>Keys\<close>

definition sequenceKey :: "u32 \<Rightarrow> nat \<Rightarrow> 64 word" where
  "sequenceKey packed n = push_bit 32 (of_nat n) OR ucast packed"

definition maskPackedPrefix :: "u32 \<Rightarrow> nat \<Rightarrow> u32" where
  "maskPackedPrefix packed n =
     (if n \<ge> 4 then packed else push_bit (32 - 8 * n) (drop_bit (32 - 8 * n) packed))"

definition packSourcePrefix :: "bytes \<Rightarrow> nat \<Rightarrow> u32" where
  "packSourcePrefix src n =
     fold (\<lambda>i packed. packed OR push_bit (24 - 8 * i) (ucast (src ! i))) [0..<n] 0"

definition runePairKey :: "rune \<Rightarrow> rune \<Rightarrow> 64 word" where
  "runePairKey r q = push_bit 21 (word_of_int r) OR word_of_int q"

lemma sequenceKey_inject:
  assumes "m < 2 ^ 32" "n < 2 ^ 32"
  shows "sequenceKey p m = sequenceKey q n \<longleftrightarrow> p = q \<and> m = n"
proof
  assume eq: "sequenceKey p m = sequenceKey q n"
  have low: "ucast (sequenceKey p m) = p" for p m
    by (rule bit_word_eqI) (auto simp: sequenceKey_def bit_simps)
  have high: "unat (drop_bit 32 (sequenceKey p m)) = m" if "m < 2 ^ 32" for p m
  proof -
    have "drop_bit 32 (sequenceKey p m) = drop_bit 32 (push_bit 32 (of_nat m :: 64 word))"
      by (rule bit_word_eqI) (auto simp: sequenceKey_def bit_simps dest: bit_imp_le_length)
    also have "unat \<dots> = m"
      using that by (simp add: unsigned_drop_bit_eq unsigned_push_bit_eq unsigned_of_nat
        take_bit_nat_eq_self take_bit_push_bit) (simp add: push_bit_eq_mult drop_bit_eq_div)
    finally show ?thesis .
  qed
  show "p = q \<and> m = n" using low [of p m] low [of q n] high [OF assms(1), of p] high [OF assms(2), of q] eq
    by simp
qed simp

lemma maskPackedPrefix_idem: "maskPackedPrefix (maskPackedPrefix p n) n = maskPackedPrefix p n"
  by (auto simp: maskPackedPrefix_def bit_simps intro!: bit_word_eqI)

lemma pack_cong:
  "\<forall>i < n. src ! i = src' ! i \<Longrightarrow> packSourcePrefix src n = packSourcePrefix src' n"
  unfolding packSourcePrefix_def by (rule fold_cong) auto

lemma pack_append: "n \<le> length src \<Longrightarrow> packSourcePrefix (src @ ext) n = packSourcePrefix src n"
  by (rule pack_cong) (simp add: nth_append)

lemma mask_pack:
  assumes "l < n" "n \<le> 4"
  shows "maskPackedPrefix (packSourcePrefix src n) l = packSourcePrefix src l"
proof -
  have "n = 1 \<or> n = 2 \<or> n = 3 \<or> n = 4" and "l = 0 \<or> l = 1 \<or> l = 2 \<or> l = 3" using assms by auto
  then show ?thesis using assms(1)
    by (elim disjE)
      (simp_all, auto simp: maskPackedPrefix_def packSourcePrefix_def upt_rec bit_simps byte_high_bit
        intro!: bit_word_eqI)
qed

subsection \<open>Validation and indexing\<close>

definition entryKey :: "decode_entry \<Rightarrow> 64 word" where
  "entryKey e = sequenceKey (Packed e) (Length e)"

definition entryPrefixes :: "decode_entry \<Rightarrow> 64 word list" where
  "entryPrefixes e = map (\<lambda>n. sequenceKey (maskPackedPrefix (Packed e) n) n) [1..<Length e]"

text \<open>The loop over the decode table; \<^verbatim>\<open>previous\<close> is \<^term>\<open>None\<close> at index 0.\<close>

fun indexDecode :: "64 word option \<Rightarrow> decode_entry list \<Rightarrow> string + 64 word list" where
  "indexDecode previous [] = Inr []"
| "indexDecode previous (e # es) =
     (if Length e = 0 \<or> Length e > maxGeneratedMultibyteSequence then Inl ''invalid decode length''
      else if \<not> valid_rune (Rune1 e) then Inl ''invalid Unicode scalar''
      else if Rune2 e \<noteq> 0 \<and> \<not> valid_rune (Rune2 e) then Inl ''invalid Unicode scalar''
      else if previous \<noteq> None \<and> entryKey e \<le> the previous then Inl ''not strictly sorted''
      else case indexDecode (Some (entryKey e)) es of
          Inl msg \<Rightarrow> Inl msg
        | Inr ps \<Rightarrow> Inr (entryPrefixes e @ ps))"

fun checkEncode :: "rune \<Rightarrow> encode_entry list \<Rightarrow> string + unit" where
  "checkEncode previousRune [] = Inr ()"
| "checkEncode previousRune (e # es) =
     (if \<not> valid_rune (Rune e) then Inl ''invalid Unicode scalar''
      else if Rune e \<le> previousRune \<or> Bytes e = [] then Inl ''invalid or unsorted encode table''
      else checkEncode (Rune e) es)"

definition pairKey :: "pair_entry \<Rightarrow> 64 word" where
  "pairKey e = runePairKey (First e) (Second e)"

fun checkPairs :: "64 word option \<Rightarrow> pair_entry list \<Rightarrow> string + unit" where
  "checkPairs previous [] = Inr ()"
| "checkPairs previous (e # es) =
     (if \<not> valid_rune (First e) \<or> \<not> valid_rune (Second e) then Inl ''invalid Unicode scalar''
      else if PairBytes e = [] then Inl ''empty pair encoding''
      else if previous \<noteq> None \<and> pairKey e \<le> the previous then Inl ''pair table not strictly sorted''
      else checkPairs (Some (pairKey e)) es)"

definition has_key :: "64 word list \<Rightarrow> 64 word \<Rightarrow> bool" where
  "has_key ks k \<longleftrightarrow> table_search (\<lambda>x. x) ks k \<noteq> None"

definition validateAndIndex :: "multibyte_encoding \<Rightarrow> string + multibyte_encoding" where
  "validateAndIndex enc =
     (case indexDecode None (decode enc) of
        Inl e \<Rightarrow> Inl e
      | Inr ps \<Rightarrow>
          let pfx = dedupe (sort ps)
          in if \<exists>e \<in> set (decode enc). has_key pfx (entryKey e) then Inl ''not prefix-free''
             else case checkEncode (-1) (encode enc) of
                 Inl e \<Rightarrow> Inl e
               | Inr _ \<Rightarrow>
                   case checkPairs None (pairEncode enc) of
                     Inl e \<Rightarrow> Inl e
                   | Inr _ \<Rightarrow> Inr (enc\<lparr>prefixes := pfx,
                       pairLeads := dedupe (sort (map First (pairEncode enc)))\<rparr>))"

definition newGeneratedMultibyteEncoding ::
  "bytes \<Rightarrow> decode_entry list \<Rightarrow> encode_entry list \<Rightarrow> pair_entry list \<Rightarrow> string + multibyte_encoding"
where
  "newGeneratedMultibyteEncoding name dec enc pair =
     (if name = [] \<or> dec = [] \<or> enc = []
      then Inl ''generated multibyte encoding requires name, decode table, and encode table''
      else validateAndIndex
        \<lparr>decode = dec, prefixes = [], encode = enc, pairEncode = pair, pairLeads = []\<rparr>)"

text \<open>What the validation guarantees.\<close>

definition valid_entry :: "decode_entry \<Rightarrow> bool" where
  "valid_entry e \<longleftrightarrow> 0 < Length e \<and> Length e \<le> 4 \<and> valid_rune (Rune1 e) \<and>
     (Rune2 e \<noteq> 0 \<longrightarrow> valid_rune (Rune2 e))"

definition decode_indexed :: "multibyte_encoding \<Rightarrow> bool" where
  "decode_indexed enc \<longleftrightarrow>
     (\<forall>e \<in> set (decode enc). valid_entry e) \<and>
     sorted_wrt (<) (map entryKey (decode enc)) \<and>
     sorted_wrt (<) (prefixes enc) \<and>
     set (prefixes enc) = (\<Union>e \<in> set (decode enc). set (entryPrefixes e)) \<and>
     entryKey ` set (decode enc) \<inter> set (prefixes enc) = {}"

definition encode_indexed :: "multibyte_encoding \<Rightarrow> bool" where
  "encode_indexed enc \<longleftrightarrow>
     (\<forall>e \<in> set (encode enc). valid_rune (Rune e) \<and> Bytes e \<noteq> []) \<and>
     sorted_wrt (<) (map Rune (encode enc)) \<and>
     (\<forall>e \<in> set (pairEncode enc). valid_rune (First e) \<and> valid_rune (Second e) \<and> PairBytes e \<noteq> []) \<and>
     sorted_wrt (<) (map pairKey (pairEncode enc)) \<and>
     sorted_wrt (<) (pairLeads enc) \<and> set (pairLeads enc) = First ` set (pairEncode enc)"

lemma indexDecode_ok:
  "indexDecode p es = Inr ps \<longleftrightarrow>
     (\<forall>e \<in> set es. valid_entry e) \<and> sorted_wrt (<) (map entryKey es) \<and>
     (case p of None \<Rightarrow> True | Some k \<Rightarrow> \<forall>e \<in> set es. k < entryKey e) \<and>
     ps = concat (map entryPrefixes es)"
proof (induction p es arbitrary: ps rule: indexDecode.induct)
  case (2 p e es)
  show ?case
  proof (cases "valid_entry e \<and> (p \<noteq> None \<longrightarrow> the p < entryKey e)")
    case False
    then show ?thesis
      by (cases p) (auto simp: valid_entry_def maxGeneratedMultibyteSequence_def not_le)
  next
    case True
    then have c: "\<not> (Length e = 0 \<or> Length e > maxGeneratedMultibyteSequence)"
      "\<not> \<not> valid_rune (Rune1 e)" "\<not> (Rune2 e \<noteq> 0 \<and> \<not> valid_rune (Rune2 e))"
      "\<not> (p \<noteq> None \<and> entryKey e \<le> the p)"
      by (auto simp: valid_entry_def maxGeneratedMultibyteSequence_def)
    have less: "(case p of None \<Rightarrow> True | Some k \<Rightarrow> \<forall>x \<in> set (e # es). k < entryKey x)"
      if "\<forall>x \<in> set es. entryKey e < entryKey x"
      using True that by (auto split: option.splits intro: less_trans)
    have "indexDecode p (e # es) = Inr ps \<longleftrightarrow>
        (\<exists>ps'. indexDecode (Some (entryKey e)) es = Inr ps' \<and> ps = entryPrefixes e @ ps')"
      using c by (auto split: sum.splits)
    also have "\<dots> \<longleftrightarrow> (\<forall>e \<in> set es. valid_entry e) \<and> sorted_wrt (<) (map entryKey es) \<and>
        (\<forall>x \<in> set es. entryKey e < entryKey x) \<and> ps = concat (map entryPrefixes (e # es))"
      using 2 [OF c] by auto
    finally show ?thesis using True less by auto
  qed
qed (auto split: option.splits)

lemma checkEncode_ok:
  "checkEncode p es = Inr u \<longleftrightarrow>
     (\<forall>e \<in> set es. valid_rune (Rune e) \<and> Bytes e \<noteq> [] \<and> p < Rune e) \<and> sorted_wrt (<) (map Rune es)"
proof (induction p es rule: checkEncode.induct)
  case (2 p e es)
  show ?case
  proof (cases "valid_rune (Rune e) \<and> p < Rune e \<and> Bytes e \<noteq> []")
    case True
    then have c: "\<not> \<not> valid_rune (Rune e)" "\<not> (Rune e \<le> p \<or> Bytes e = [])" by auto
    have "checkEncode p (e # es) = checkEncode (Rune e) es" using c by simp
    moreover have "\<forall>x \<in> set es. p < Rune x" if "\<forall>x \<in> set es. Rune e < Rune x"
      using True that by (auto intro: less_trans)
    ultimately show ?thesis using 2 [OF c] True by auto
  qed auto
qed simp

lemma checkPairs_ok:
  "checkPairs p es = Inr u \<longleftrightarrow>
     (\<forall>e \<in> set es. valid_rune (First e) \<and> valid_rune (Second e) \<and> PairBytes e \<noteq> []) \<and>
     sorted_wrt (<) (map pairKey es) \<and>
     (case p of None \<Rightarrow> True | Some k \<Rightarrow> \<forall>e \<in> set es. k < pairKey e)"
proof (induction p es rule: checkPairs.induct)
  case (2 p e es)
  then show ?case by (cases p) (auto simp: not_le dest: less_trans)
qed (auto split: option.splits)

lemma has_key_iff: "sorted ks \<Longrightarrow> has_key ks k \<longleftrightarrow> k \<in> set ks"
  using table_search_sorted_iff [of "\<lambda>x. x" ks k] by (simp add: has_key_def)

text \<open>The construction succeeds exactly on tables that meet the requirements, and indexes them.\<close>

lemma validateAndIndex_ok:
  "validateAndIndex enc = Inr enc' \<longleftrightarrow>
     enc' = enc\<lparr>prefixes := dedupe (sort (concat (map entryPrefixes (decode enc)))),
                pairLeads := dedupe (sort (map First (pairEncode enc)))\<rparr> \<and>
     decode_indexed enc' \<and> encode_indexed enc'"
proof -
  let ?ps = "concat (map entryPrefixes (decode enc))"
  have pre: "sorted_wrt (<) (dedupe (sort ?ps))"
      "set (dedupe (sort ?ps)) = (\<Union>e \<in> set (decode enc). set (entryPrefixes e))"
    using dedupe_sorted [of "sort ?ps"] by simp_all
  have leads: "sorted_wrt (<) (dedupe (sort (map First (pairEncode enc))))"
      "set (dedupe (sort (map First (pairEncode enc)))) = First ` set (pairEncode enc)"
    using dedupe_sorted [of "sort (map First (pairEncode enc))"] by simp_all
  have "sorted (dedupe (sort ?ps))" using pre(1) by (simp add: strict_sorted_iff)
  note key = has_key_iff [OF this]
  have low: "valid_rune r \<Longrightarrow> - 1 < r" for r by (simp add: valid_rune_def)
  let ?D = "(\<forall>e \<in> set (decode enc). valid_entry e) \<and> sorted_wrt (<) (map entryKey (decode enc))"
  let ?E = "(\<forall>e \<in> set (encode enc). valid_rune (Rune e) \<and> Bytes e \<noteq> []) \<and>
     sorted_wrt (<) (map Rune (encode enc))"
  let ?P = "(\<forall>e \<in> set (pairEncode enc). valid_rune (First e) \<and> valid_rune (Second e) \<and> PairBytes e \<noteq> []) \<and>
     sorted_wrt (<) (map pairKey (pairEncode enc))"
  let ?enc = "enc\<lparr>prefixes := dedupe (sort ?ps), pairLeads := dedupe (sort (map First (pairEncode enc)))\<rparr>"
  have D: "indexDecode None (decode enc) = Inr ps \<longleftrightarrow> ?D \<and> ps = ?ps" for ps
    by (simp add: indexDecode_ok)
  have E: "checkEncode (- 1) (encode enc) = Inr u \<longleftrightarrow> ?E" for u
    using low by (auto simp: checkEncode_ok)
  have P: "checkPairs None (pairEncode enc) = Inr u \<longleftrightarrow> ?P" for u
    by (simp add: checkPairs_ok)
  have free: "(\<exists>e \<in> set (decode enc). has_key (dedupe (sort ?ps)) (entryKey e)) \<longleftrightarrow>
      entryKey ` set (decode enc) \<inter> set (dedupe (sort ?ps)) \<noteq> {}"
    by (auto simp: key)
  show ?thesis
  proof (cases "?D \<and> ?E \<and> ?P")
    case True
    then have "indexDecode None (decode enc) = Inr ?ps" "checkEncode (- 1) (encode enc) = Inr ()"
      "checkPairs None (pairEncode enc) = Inr ()"
      using D E P by blast+
    then have "validateAndIndex enc =
        (if entryKey ` set (decode enc) \<inter> set (dedupe (sort ?ps)) \<noteq> {} then Inl ''not prefix-free''
         else Inr ?enc)"
      by (simp add: validateAndIndex_def Let_def free)
    moreover have "decode_indexed ?enc \<longleftrightarrow> entryKey ` set (decode enc) \<inter> set (dedupe (sort ?ps)) = {}"
      using True pre by (simp add: decode_indexed_def)
    moreover have "encode_indexed ?enc" using True leads by (simp add: encode_indexed_def)
    ultimately show ?thesis by auto
  next
    case False
    have "validateAndIndex enc \<noteq> Inr enc'"
    proof
      assume "validateAndIndex enc = Inr enc'"
      then obtain ps u v where "indexDecode None (decode enc) = Inr ps"
        "checkEncode (- 1) (encode enc) = Inr u" "checkPairs None (pairEncode enc) = Inr v"
        by (auto simp: validateAndIndex_def Let_def split: sum.splits if_splits)
      with False show False by (simp add: D E P)
    qed
    then show ?thesis using False by (auto simp: decode_indexed_def encode_indexed_def)
  qed
qed

subsection \<open>Lookups\<close>

definition lookupDecode :: "multibyte_encoding \<Rightarrow> u32 \<Rightarrow> nat \<Rightarrow> decode_entry option" where
  "lookupDecode enc packed n = table_search entryKey (decode enc) (sequenceKey packed n)"

definition hasPrefix :: "multibyte_encoding \<Rightarrow> u32 \<Rightarrow> nat \<Rightarrow> bool" where
  "hasPrefix enc packed n =
     (table_search (\<lambda>x. x) (prefixes enc) (sequenceKey (maskPackedPrefix packed n) n) \<noteq> None)"

definition lookupEncode :: "multibyte_encoding \<Rightarrow> rune \<Rightarrow> bytes option" where
  "lookupEncode enc r = map_option Bytes (table_search Rune (encode enc) r)"

definition isPairLead :: "multibyte_encoding \<Rightarrow> rune \<Rightarrow> bool" where
  "isPairLead enc r = (table_search (\<lambda>x. x) (pairLeads enc) r \<noteq> None)"

definition lookupPair :: "multibyte_encoding \<Rightarrow> rune \<Rightarrow> rune \<Rightarrow> bytes option" where
  "lookupPair enc r q = map_option PairBytes (table_search pairKey (pairEncode enc) (runePairKey r q))"

lemma lookupDecode_iff:
  assumes "decode_indexed enc" "n \<le> 4"
  shows "lookupDecode enc packed n = Some e \<longleftrightarrow> e \<in> set (decode enc) \<and> Packed e = packed \<and> Length e = n"
proof -
  have "e \<in> set (decode enc) \<Longrightarrow> entryKey e = sequenceKey packed n \<longleftrightarrow> Packed e = packed \<and> Length e = n"
    using assms by (subst entryKey_def, subst sequenceKey_inject)
      (auto simp: decode_indexed_def valid_entry_def intro: le_less_trans)
  then show ?thesis using assms table_search_Some_iff [of entryKey "decode enc"]
    by (auto simp: lookupDecode_def decode_indexed_def)
qed

lemma hasPrefix_iff:
  assumes "decode_indexed enc" "n \<le> 4"
  shows "hasPrefix enc packed n \<longleftrightarrow>
    (\<exists>e \<in> set (decode enc). 0 < n \<and> n < Length e \<and> maskPackedPrefix (Packed e) n = maskPackedPrefix packed n)"
proof -
  have s: "sorted (prefixes enc)" using assms(1) by (simp add: decode_indexed_def strict_sorted_iff)
  have "sequenceKey (maskPackedPrefix packed n) n \<in> set (entryPrefixes e) \<longleftrightarrow>
      0 < n \<and> n < Length e \<and> maskPackedPrefix (Packed e) n = maskPackedPrefix packed n"
    if "e \<in> set (decode enc)" for e
  proof -
    have e: "Length e \<le> 4" using assms(1) that by (auto simp: decode_indexed_def valid_entry_def)
    show ?thesis
    proof
      assume "sequenceKey (maskPackedPrefix packed n) n \<in> set (entryPrefixes e)"
      then obtain m where "m \<in> set [1..<Length e]" and
        k: "sequenceKey (maskPackedPrefix packed n) n = sequenceKey (maskPackedPrefix (Packed e) m) m"
        unfolding entryPrefixes_def by (metis (no_types, lifting) in_set_conv_nth length_map nth_map)
      then have m: "0 < m" "m < Length e" by auto
      then have "maskPackedPrefix packed n = maskPackedPrefix (Packed e) m \<and> n = m"
        using assms(2) e k by (subst (asm) sequenceKey_inject) auto
      then show "0 < n \<and> n < Length e \<and> maskPackedPrefix (Packed e) n = maskPackedPrefix packed n"
        using m by auto
    qed (auto simp: entryPrefixes_def intro!: image_eqI [where x = n])
  qed
  then show ?thesis using assms(1) has_key_iff [OF s]
    by (auto simp: hasPrefix_def has_key_def decode_indexed_def)
qed

lemma lookupEncode_iff:
  "encode_indexed enc \<Longrightarrow>
   lookupEncode enc r = Some b \<longleftrightarrow> (\<exists>e \<in> set (encode enc). Rune e = r \<and> Bytes e = b)"
  using table_search_Some_iff [of Rune "encode enc" r]
  by (auto simp: lookupEncode_def encode_indexed_def)

lemma rune_bits: "0 \<le> q \<Longrightarrow> q < 2097152 \<Longrightarrow> bit (q :: int) n \<Longrightarrow> n < 21"
  using take_bit_int_eq_self [of q 21] by (auto simp: bit_take_bit_iff dest: arg_cong [where f = "\<lambda>x. bit x n"])

lemma runePairKey_inject:
  assumes "valid_rune r" "valid_rune q" "valid_rune r'" "valid_rune q'"
  shows "runePairKey r q = runePairKey r' q' \<longleftrightarrow> r = r' \<and> q = q'"
proof
  assume eq: "runePairKey r q = runePairKey r' q'"
  have b: "0 \<le> x \<and> x < 2 ^ 21" if "valid_rune x" for x
    using that by (auto simp: valid_rune_def max_rune_def)
  have low: "take_bit 21 (runePairKey r q) = word_of_int q" if "valid_rune q" for r q
    using b [OF that] by (intro bit_word_eqI) (auto simp: runePairKey_def bit_simps dest: rune_bits)
  have high: "drop_bit 21 (runePairKey r q) = word_of_int r" if "valid_rune q" "valid_rune r" for r q
    using b [OF that(1)] b [OF that(2)]
    by (intro bit_word_eqI) (auto simp: runePairKey_def bit_simps dest: rune_bits)
  have word: "x = y" if "valid_rune x" "valid_rune y" "(word_of_int x :: 64 word) = word_of_int y" for x y
    using that(3) b [OF that(1)] b [OF that(2)] by (simp add: word_of_int_eq_iff take_bit_int_eq_self)
  show "r = r' \<and> q = q'"
    using low [OF assms(2), of r] low [OF assms(4), of r'] high [OF assms(2,1)] high [OF assms(4,3)] eq
      word [OF assms(1,3)] word [OF assms(2,4)] by simp
qed simp

lemma lookupPair_iff:
  assumes "encode_indexed enc" "valid_rune r" "valid_rune q"
  shows "lookupPair enc r q = Some b \<longleftrightarrow>
    (\<exists>e \<in> set (pairEncode enc). First e = r \<and> Second e = q \<and> PairBytes e = b)"
proof -
  have "e \<in> set (pairEncode enc) \<Longrightarrow> pairKey e = runePairKey r q \<longleftrightarrow> First e = r \<and> Second e = q" for e
    using assms by (subst pairKey_def, subst runePairKey_inject) (auto simp: encode_indexed_def)
  then show ?thesis using assms(1) table_search_Some_iff [of pairKey "pairEncode enc" "runePairKey r q"]
    by (auto simp: lookupPair_def encode_indexed_def)
qed

lemma isPairLead_iff:
  "encode_indexed enc \<Longrightarrow> isPairLead enc r \<longleftrightarrow> r \<in> First ` set (pairEncode enc)"
  using table_search_sorted_iff [of "\<lambda>x. x" "pairLeads enc" r]
  by (auto simp: isPairLead_def encode_indexed_def strict_sorted_iff)

subsection \<open>The decoder\<close>

datatype scan_result =
    ScanHit decode_entry nat
  | ScanInvalid
  | ScanEnd bool

text \<open>The inner loop over the lengths still to try; the flag is \<^verbatim>\<open>matchedPrefix\<close>.\<close>

fun scan_lengths :: "multibyte_encoding \<Rightarrow> bytes \<Rightarrow> bool \<Rightarrow> nat list \<Rightarrow> scan_result" where
  "scan_lengths enc src matched [] = ScanEnd matched"
| "scan_lengths enc src matched (n # ns) =
     (let packed = packSourcePrefix src n
      in case lookupDecode enc packed n of
           Some e \<Rightarrow> ScanHit e n
         | None \<Rightarrow> if hasPrefix enc packed n then scan_lengths enc src True ns else ScanInvalid)"

definition entry_out :: "decode_entry \<Rightarrow> bytes" where
  "entry_out e = encode_rune (Rune1 e) @ (if Rune2 e \<noteq> 0 then encode_rune (Rune2 e) else [])"

definition entry_need :: "decode_entry \<Rightarrow> int" where
  "entry_need e = rune_len (Rune1 e) + (if Rune2 e \<noteq> 0 then rune_len (Rune2 e) else 0)"

definition generatedMultibyteDecoder :: "multibyte_encoding \<Rightarrow> unit step" where
  "generatedMultibyteDecoder enc s eof src =
     (let limit = min (length src) maxGeneratedMultibyteSequence
      in case scan_lengths enc src False [1..<Suc limit] of
           ScanHit e n \<Rightarrow> Emit (entry_out e) (entry_need e) n ()
         | ScanInvalid \<Rightarrow> invalid ''byte''
         | ScanEnd matched \<Rightarrow>
             if matched \<and> limit = length src \<and> limit < maxGeneratedMultibyteSequence then
               (if \<not> eof then Stop 0 ErrShortSrc else invalid ''truncated multibyte sequence'')
             else invalid ''invalid multibyte sequence'')"

lemma entry_need_out: "valid_entry e \<Longrightarrow> entry_need e = int (length (entry_out e))"
  by (simp add: entry_need_def entry_out_def valid_entry_def rune_len_encode)

lemma entry_out_room: "length (entry_out e) \<le> 8"
  using length_encode_rune(2) [of "Rune1 e"] length_encode_rune(2) [of "Rune2 e"]
  by (simp add: entry_out_def)

lemma scan_hit:
  "scan_lengths enc src m ns = ScanHit e n \<Longrightarrow>
   n \<in> set ns \<and> lookupDecode enc (packSourcePrefix src n) n = Some e"
  by (induction enc src m ns rule: scan_lengths.induct)
    (auto simp: Let_def split: option.splits if_splits)

lemma scan_append:
  "\<forall>n \<in> set ns. n \<le> length src \<Longrightarrow> scan_lengths enc (src @ ext) m ns = scan_lengths enc src m ns"
  by (induction enc src m ns rule: scan_lengths.induct)
    (auto simp: Let_def pack_append split: option.splits)

lemma scan_split:
  "scan_lengths enc src m (ns @ ns') =
     (case scan_lengths enc src m ns of ScanEnd m' \<Rightarrow> scan_lengths enc src m' ns' | r \<Rightarrow> r)"
  by (induction enc src m ns rule: scan_lengths.induct)
    (auto simp: Let_def split: option.splits)

lemma scan_end: "scan_lengths enc src m ns = ScanEnd m' \<Longrightarrow> m' \<longleftrightarrow> m \<or> ns \<noteq> []"
  by (induction enc src m ns rule: scan_lengths.induct)
    (auto simp: Let_def split: option.splits if_splits)

lemma decoder_settled:
  assumes "src \<noteq> []" "\<forall>need. generatedMultibyteDecoder enc s False src \<noteq> Stop need ErrShortSrc"
  shows "generatedMultibyteDecoder enc s True (src @ ext) = generatedMultibyteDecoder enc s False src"
proof -
  let ?k = "min (length src) 4" and ?k' = "min (length (src @ ext)) 4"
  have "Suc ?k' = Suc ?k + (?k' - ?k)" by simp
  then have up: "[1..<Suc ?k'] = [1..<Suc ?k] @ [Suc ?k..<Suc ?k']"
    using upt_add_eq_append [of 1 "Suc ?k" "?k' - ?k"] by simp
  have same: "scan_lengths enc (src @ ext) False [1..<Suc ?k] = scan_lengths enc src False [1..<Suc ?k]"
    by (rule scan_append) auto
  show ?thesis
  proof (cases "scan_lengths enc src False [1..<Suc ?k]")
    case (ScanEnd m)
    have "m" using scan_end [OF ScanEnd] assms(1) by (cases src) auto
    then have "4 \<le> length src"
      using assms ScanEnd
      by (auto simp: generatedMultibyteDecoder_def Let_def maxGeneratedMultibyteSequence_def
        split: if_splits)
    then have "?k' = ?k" by simp
    then show ?thesis using ScanEnd same \<open>4 \<le> length src\<close>
      by (simp only: generatedMultibyteDecoder_def Let_def maxGeneratedMultibyteSequence_def) simp
  qed (simp_all only: generatedMultibyteDecoder_def Let_def maxGeneratedMultibyteSequence_def up
      scan_split same scan_result.simps)
qed

lemma generatedMultibyteDecoder_step:
  assumes "decode_indexed enc"
  shows "bounded_step (generatedMultibyteDecoder enc) 8"
proof unfold_locales
  fix src :: bytes and s eof bs need n s'
  assume "src \<noteq> []" "generatedMultibyteDecoder enc s eof src = Emit bs need n s'"
  then obtain e where e: "scan_lengths enc src False [1..<Suc (min (length src) 4)] = ScanHit e n"
      "bs = entry_out e" "need = entry_need e"
    by (auto simp: generatedMultibyteDecoder_def Let_def maxGeneratedMultibyteSequence_def invalid_def
      split: scan_result.splits if_splits)
  have "n \<le> 4" "0 < n" "n \<le> length src" using scan_hit [OF e(1)] by auto
  moreover have "valid_entry e"
    using scan_hit [OF e(1)] lookupDecode_iff [OF assms \<open>n \<le> 4\<close>] assms by (auto simp: decode_indexed_def)
  ultimately show "0 < n \<and> n \<le> length src \<and> need = int (length bs)" "need \<le> int 8"
    using e entry_need_out entry_out_room [of e] by auto
next
  fix src ext :: bytes and s bs need n s'
  assume "src \<noteq> []" "generatedMultibyteDecoder enc s False src = Emit bs need n s'"
  then show "generatedMultibyteDecoder enc s True (src @ ext) = Emit bs need n s'"
    using decoder_settled [of src enc s ext] by simp
next
  fix src ext :: bytes and s need e
  assume "src \<noteq> []" "generatedMultibyteDecoder enc s False src = Stop need e" "e \<noteq> ErrShortSrc"
  then show "generatedMultibyteDecoder enc s True (src @ ext) = Stop need e"
    using decoder_settled [of src enc s ext] by simp
qed (auto simp: generatedMultibyteDecoder_def Let_def invalid_def split: if_splits scan_result.splits)

text \<open>The one entry that matches the source is found: shorter lengths only match its prefixes.\<close>

lemma scan_prefixes:
  assumes "decode_indexed enc" "d \<in> set (decode enc)" "packSourcePrefix src (Length d) = Packed d"
  shows "\<forall>n \<in> set ns. 0 < n \<and> n < Length d \<Longrightarrow>
    scan_lengths enc src m ns = ScanEnd (m \<or> ns \<noteq> [])"
proof (induction ns arbitrary: m)
  case (Cons n ns)
  have d: "Length d \<le> 4" using assms by (auto simp: decode_indexed_def valid_entry_def)
  have n: "0 < n" "n < Length d" using Cons.prems by auto
  have pack: "maskPackedPrefix (Packed d) n = packSourcePrefix src n"
    using mask_pack [OF n(2) d, of src] assms(3) by simp
  have "lookupDecode enc (packSourcePrefix src n) n = None"
  proof (rule ccontr)
    assume "lookupDecode enc (packSourcePrefix src n) n \<noteq> None"
    then obtain e where e: "e \<in> set (decode enc)" "Packed e = packSourcePrefix src n" "Length e = n"
      using lookupDecode_iff [OF assms(1)] n d by auto
    then have "entryKey e \<in> set (entryPrefixes d)"
      using n pack by (auto simp: entryKey_def entryPrefixes_def intro!: image_eqI [where x = n])
    then show False using assms e by (auto simp: decode_indexed_def)
  qed
  moreover have "hasPrefix enc (packSourcePrefix src n) n"
    using hasPrefix_iff [OF assms(1), of n] n d assms(2) maskPackedPrefix_idem [of "Packed d" n]
    unfolding pack [symmetric] by fastforce
  ultimately show ?case using Cons by (simp add: Let_def)
qed simp

lemma upt_around: "a \<le> n \<Longrightarrow> n \<le> k \<Longrightarrow> [a..<Suc k] = [a..<n] @ n # [Suc n..<Suc k]"
  using upt_add_eq_append [of a n "Suc k - n"] upt_conv_Cons [of n "Suc k"] by (simp del: upt_Suc)

lemma scan_finds:
  assumes "decode_indexed enc" "d \<in> set (decode enc)" "Length d \<le> length src"
    "packSourcePrefix src (Length d) = Packed d"
  shows "scan_lengths enc src False [1..<Suc (min (length src) 4)] = ScanHit d (Length d)"
proof -
  let ?n = "Length d" and ?k = "min (length src) 4"
  have n: "0 < ?n" "?n \<le> ?k" using assms by (auto simp: decode_indexed_def valid_entry_def)
  have "[1..<Suc ?k] = [1..<?n] @ ?n # [Suc ?n..<Suc ?k]"
    using n by (intro upt_around) auto
  moreover have "scan_lengths enc src False [1..<?n] = ScanEnd ([1..<?n] \<noteq> [])"
    using scan_prefixes [OF assms(1,2,4), of "[1..<?n]" False] by simp
  moreover have "lookupDecode enc (packSourcePrefix src ?n) ?n = Some d"
    using lookupDecode_iff [OF assms(1)] n assms(2,4) by simp
  ultimately show ?thesis by (simp add: scan_split Let_def)
qed

lemma decode_entry_step:
  assumes "decode_indexed enc" "d \<in> set (decode enc)" "length b = Length d" "packSourcePrefix b (length b) = Packed d"
  shows "generatedMultibyteDecoder enc s eof (b @ ext) = Emit (entry_out d) (entry_need d) (length b) ()"
  using scan_finds [OF assms(1,2), of "b @ ext"] assms(3,4) pack_append [of "length b" b ext]
  by (simp only: generatedMultibyteDecoder_def Let_def maxGeneratedMultibyteSequence_def) simp

subsection \<open>The encoder\<close>

definition generatedMultibyteEncoder :: "multibyte_encoding \<Rightarrow> unit step" where
  "generatedMultibyteEncoder enc s eof src =
     (case decodeStrictUTF8Rune src eof of
        Inl e \<Rightarrow> Stop 0 e
      | Inr (first, n) \<Rightarrow>
          let standalone =
            (case lookupEncode enc first of
               None \<Rightarrow> Stop 0 (NotRepresentable first)
             | Some b \<Rightarrow> Emit b (int (length b)) n ())
          in if isPairLead enc first then
               if n = length src then (if \<not> eof then Stop 0 ErrShortSrc else standalone)
               else (case decodeStrictUTF8Rune (drop n src) eof of
                   Inr (second, m) \<Rightarrow>
                     (case lookupPair enc first second of
                        Some pair \<Rightarrow> Emit pair (int (length pair)) (n + m) ()
                      | None \<Rightarrow> standalone)
                 | Inl e \<Rightarrow> if e = ErrShortSrc \<and> \<not> eof then Stop 0 ErrShortSrc else standalone)
             else standalone)"

text \<open>The same on runes, which is what the encoder means.\<close>

fun encode_text :: "multibyte_encoding \<Rightarrow> rune list \<Rightarrow> bytes option" where
  "encode_text enc [] = Some []"
| "encode_text enc [r] = lookupEncode enc r"
| "encode_text enc (r # q # rs) =
     (case lookupPair enc r q of
        Some b \<Rightarrow> map_option ((@) b) (encode_text enc rs)
      | None \<Rightarrow>
          (case lookupEncode enc r of
             None \<Rightarrow> None
           | Some b \<Rightarrow> map_option ((@) b) (encode_text enc (q # rs))))"

lemma generatedMultibyteEncoder_settled:
  assumes "\<forall>need. generatedMultibyteEncoder enc s False src \<noteq> Stop need ErrShortSrc"
  shows "generatedMultibyteEncoder enc s True (src @ ext) = generatedMultibyteEncoder enc s False src"
proof -
  have d1: "decodeStrictUTF8Rune src False \<noteq> Inl ErrShortSrc"
    using assms by (auto simp: generatedMultibyteEncoder_def)
  note same = decodeStrict_settled [OF d1, of ext True]
  show ?thesis
  proof (cases "decodeStrictUTF8Rune src False")
    case (Inr x)
    obtain first n where x: "x = (first, n)" by (cases x)
    note D = Inr [unfolded x] and n = decodeStrict_size [OF Inr [unfolded x]]
    show ?thesis
    proof (cases "isPairLead enc first")
      case True
      have "n \<noteq> length src" using assms D True by (auto simp: generatedMultibyteEncoder_def Let_def)
      then have "n < length src" using n by simp
      moreover have d2: "decodeStrictUTF8Rune (drop n src) False \<noteq> Inl ErrShortSrc"
        using assms D True \<open>n \<noteq> length src\<close> by (auto simp: generatedMultibyteEncoder_def Let_def)
      ultimately show ?thesis
        using True D same decodeStrict_settled [OF d2, of ext True]
        by (auto simp: generatedMultibyteEncoder_def Let_def split: sum.splits)
    qed (use D same in \<open>simp add: generatedMultibyteEncoder_def Let_def\<close>)
  qed (use same in \<open>simp add: generatedMultibyteEncoder_def\<close>)
qed

lemma generatedMultibyteEncoder_room:
  assumes "\<forall>e \<in> set (encode enc). length (Bytes e) \<le> room"
    "\<forall>e \<in> set (pairEncode enc). length (PairBytes e) \<le> room"
  shows "bounded_step (generatedMultibyteEncoder enc) room"
proof -
  have single: "length b \<le> room" if "lookupEncode enc r = Some b" for r b
    using that assms(1) table_search_sound [of Rune "encode enc" r] by (auto simp: lookupEncode_def)
  have pair: "length b \<le> room" if "lookupPair enc r q = Some b" for r q b
    using that assms(2) table_search_sound [of pairKey "pairEncode enc" "runePairKey r q"]
    by (auto simp: lookupPair_def)
  show ?thesis
  proof unfold_locales
    fix src :: bytes and s eof bs need n s'
    assume "src \<noteq> []" "generatedMultibyteEncoder enc s eof src = Emit bs need n s'"
    then show "0 < n \<and> n \<le> length src \<and> need = int (length bs)" "need \<le> int room"
      using decodeStrict_size [of src eof] decodeStrict_size [of "drop _ src" eof] single pair
      by (auto simp: generatedMultibyteEncoder_def Let_def split: sum.splits prod.splits if_splits option.splits)
        (fastforce)+
  next
    fix src ext :: bytes and s bs need n s'
    assume "src \<noteq> []" "generatedMultibyteEncoder enc s False src = Emit bs need n s'"
    then show "generatedMultibyteEncoder enc s True (src @ ext) = Emit bs need n s'"
      using generatedMultibyteEncoder_settled [of enc s src ext] by simp
  next
    fix src ext :: bytes and s need e
    assume "src \<noteq> []" "generatedMultibyteEncoder enc s False src = Stop need e" "e \<noteq> ErrShortSrc"
    then show "generatedMultibyteEncoder enc s True (src @ ext) = Stop need e"
      using generatedMultibyteEncoder_settled [of enc s src ext] by simp
  next
    fix src :: bytes and s need eof
    show "generatedMultibyteEncoder enc s True src \<noteq> Stop need ErrShortSrc"
      "generatedMultibyteEncoder enc s eof src \<noteq> Stop need ErrShortDst"
      using decodeStrict_errors [of src True] decodeStrict_errors [of src eof]
      by (auto simp: generatedMultibyteEncoder_def Let_def split: sum.splits prod.splits if_splits option.splits)
    show "need \<le> int room" if "generatedMultibyteEncoder enc s eof src = Stop need e" for e
      using that by (auto simp: generatedMultibyteEncoder_def Let_def
        split: sum.splits prod.splits if_splits option.splits)
  qed
qed

definition standalone :: "multibyte_encoding \<Rightarrow> rune \<Rightarrow> unit step_result" where
  "standalone enc r =
     (case lookupEncode enc r of
        None \<Rightarrow> Stop 0 (NotRepresentable r)
      | Some b \<Rightarrow> Emit b (int (length b)) (length (encode_rune r)) ())"

lemma encoder_last:
  "valid_rune r \<Longrightarrow> generatedMultibyteEncoder enc s True (encode_rune r) = standalone enc r"
  using decodeStrict_encode [of r "[]" True]
  by (simp add: generatedMultibyteEncoder_def Let_def standalone_def)

lemma encoder_next:
  assumes "encode_indexed enc" "valid_rune r" "valid_rune q"
  shows "generatedMultibyteEncoder enc s True (encode_rune r @ encode_rune q @ rest) =
    (case lookupPair enc r q of
       Some b \<Rightarrow> Emit b (int (length b)) (length (encode_rune r) + length (encode_rune q)) ()
     | None \<Rightarrow> standalone enc r)"
proof -
  have "isPairLead enc r" if "lookupPair enc r q = Some b" for b
    using that isPairLead_iff [OF assms(1)] lookupPair_iff [OF assms] by auto
  then show ?thesis
    by (auto simp: generatedMultibyteEncoder_def Let_def standalone_def decodeStrict_encode assms
      split: option.splits)
qed

lemma encoder_run:
  "encode_indexed enc \<Longrightarrow> \<forall>r \<in> set rs. valid_rune r \<Longrightarrow>
    (case encode_text enc rs of
       Some b \<Rightarrow> run_all (generatedMultibyteEncoder enc) s (encode_runes rs) = (b, None)
     | None \<Rightarrow> \<exists>b r. run_all (generatedMultibyteEncoder enc) s (encode_runes rs) = (b, Some (NotRepresentable r)))"
proof (induction enc rs arbitrary: s rule: encode_text.induct)
  case (2 enc r)
  note step = encoder_last [of r enc]
  show ?case
  proof (cases "lookupEncode enc r")
    case None
    then show ?thesis using step 2 by (subst run_all_Stop) (auto simp: standalone_def)
  next
    case (Some b)
    then have "generatedMultibyteEncoder enc s True (encode_rune r)
        = Emit b (int (length b)) (length (encode_rune r)) ()"
      using step 2 by (simp add: standalone_def)
    from run_all_Emit [of _ "generatedMultibyteEncoder enc", OF _ this] show ?thesis using Some by simp
  qed
next
  case (3 enc r q rs)
  have v: "valid_rune r" "valid_rune q" using 3(4) by auto
  note step = encoder_next [OF 3(3) v, of s "encode_runes rs"]
  let ?src = "encode_rune r @ encode_rune q @ encode_runes rs"
  show ?case
  proof (cases "lookupPair enc r q")
    case (Some b)
    note run = run_all_Emit [of ?src "generatedMultibyteEncoder enc" s, OF _ step [unfolded Some option.case]]
    show ?thesis using run 3(2) [OF Some 3(3), of "()"] 3(4) Some
      by (auto split: option.splits)
  next
    case None
    show ?thesis
    proof (cases "lookupEncode enc r")
      case none: None
      then show ?thesis using run_all_Stop [of ?src "generatedMultibyteEncoder enc" s 0] step None
        by (simp add: standalone_def)
    next
      case (Some b)
      then have "generatedMultibyteEncoder enc s True ?src = Emit b (int (length b)) (length (encode_rune r)) ()"
        using step None by (simp add: standalone_def)
      note run = run_all_Emit [of ?src "generatedMultibyteEncoder enc" s, OF _ this]
      show ?thesis using run 3(1) [OF None Some 3(3), of "()"] 3(4) Some None
        by (auto split: option.splits)
    qed
  qed
qed simp

subsection \<open>Decoding what was encoded\<close>

text \<open>The encode tables list what the decode table inverts; this is a fact of the generated data.\<close>

definition tables_agree :: "multibyte_encoding \<Rightarrow> bool" where
  "tables_agree enc \<longleftrightarrow>
     (\<forall>e \<in> set (encode enc). \<exists>d \<in> set (decode enc). Length d = length (Bytes e) \<and>
        Packed d = packSourcePrefix (Bytes e) (length (Bytes e)) \<and> Rune1 d = Rune e \<and> Rune2 d = 0) \<and>
     (\<forall>e \<in> set (pairEncode enc). \<exists>d \<in> set (decode enc). Length d = length (PairBytes e) \<and>
        Packed d = packSourcePrefix (PairBytes e) (length (PairBytes e)) \<and>
        Rune1 d = First e \<and> Rune2 d = Second e \<and> Second e \<noteq> 0)"

lemma decoder_run_entry:
  assumes "decode_indexed enc" "d \<in> set (decode enc)" "Length d = length b"
    "Packed d = packSourcePrefix b (length b)"
  shows "run_all (generatedMultibyteDecoder enc) s (b @ ext) =
    (entry_out d @ fst (run_all (generatedMultibyteDecoder enc) () ext),
     snd (run_all (generatedMultibyteDecoder enc) () ext))"
proof -
  have "0 < length b" using assms(1,2) by (auto simp: decode_indexed_def valid_entry_def simp flip: assms(3))
  then show ?thesis
    using run_all_Emit [of "b @ ext" "generatedMultibyteDecoder enc" s,
      OF _ decode_entry_step [OF assms(1,2) assms(3,4) [symmetric]]]
    by auto
qed

lemma decode_encoded:
  "decode_indexed enc \<Longrightarrow> encode_indexed enc \<Longrightarrow> tables_agree enc \<Longrightarrow>
   \<forall>r \<in> set rs. valid_rune r \<Longrightarrow> encode_text enc rs = Some b \<Longrightarrow>
   run_all (generatedMultibyteDecoder enc) s b = (encode_runes rs, None)"
proof (induction enc rs arbitrary: s b rule: encode_text.induct)
  case (2 enc r)
  then obtain d where "d \<in> set (decode enc)" "Length d = length b" "Packed d = packSourcePrefix b (length b)"
    "Rune1 d = r" "Rune2 d = 0"
    using lookupEncode_iff [of enc r b] by (auto simp: tables_agree_def)
  then show ?case using decoder_run_entry [OF 2(1), of d b s "[]"] by (simp add: entry_out_def)
next
  case (3 enc r q rs)
  have v: "valid_rune r" "valid_rune q" using 3(6) by auto
  show ?case
  proof (cases "lookupPair enc r q")
    case (Some p)
    then obtain b' where b: "b = p @ b'" "encode_text enc rs = Some b'" using 3(7) by auto
    obtain d where "d \<in> set (decode enc)" "Length d = length p" "Packed d = packSourcePrefix p (length p)"
      "Rune1 d = r" "Rune2 d = q" "q \<noteq> 0"
      using Some lookupPair_iff [OF 3(4) v] 3(5) by (auto simp: tables_agree_def)
    then show ?thesis
      using decoder_run_entry [OF 3(3), of d p s b'] 3(2) [OF Some 3(3-5) _ b(2)] 3(6) b
      by (simp add: entry_out_def)
  next
    case None
    then obtain p b' where b: "lookupEncode enc r = Some p" "b = p @ b'" "encode_text enc (q # rs) = Some b'"
      using 3(7) by (auto split: option.splits)
    obtain d where "d \<in> set (decode enc)" "Length d = length p" "Packed d = packSourcePrefix p (length p)"
      "Rune1 d = r" "Rune2 d = 0"
      using b(1) lookupEncode_iff [OF 3(4)] 3(5) by (auto simp: tables_agree_def)
    then show ?thesis
      using decoder_run_entry [OF 3(3), of d p s b'] 3(1) [OF None b(1) 3(3-5) _ b(3)] 3(6) b
      by (simp add: entry_out_def)
  qed
qed simp

lemma indexed:
  assumes "validateAndIndex enc0 = Inr enc"
  shows "decode_indexed enc" "encode_indexed enc"
  using validateAndIndex_ok [THEN iffD1, OF assms] by blast+

subsection \<open>Properties\<close>

text \<open>The in-place loop of \<^verbatim>\<open>dedupeUint64\<close> and \<^verbatim>\<open>dedupeRunes\<close> keeps one of each run of equal
  elements; on a sorted slice it leaves the elements of the slice, each once, in order.\<close>

theorem dedupe_exact:
  "dedupe vs = remdups_adj vs \<and>
   sorted_wrt (<) (dedupe (sort ks)) \<and> set (dedupe (sort (ks :: 64 word list))) = set ks"
  using dedupe_remdups_adj [of vs] dedupe_sorted [of "sort ks"] by simp

text \<open>C35: the construction of a multibyte charset succeeds exactly when its tables are sorted and valid
  and no sequence is a prefix of another; the indexes it builds are then exact.\<close>

theorem multibyte_construction:
  "validateAndIndex enc = Inr enc' \<longleftrightarrow>
     enc' = enc\<lparr>prefixes := dedupe (sort (concat (map entryPrefixes (decode enc)))),
                pairLeads := dedupe (sort (map First (pairEncode enc)))\<rparr> \<and>
     decode_indexed enc' \<and> encode_indexed enc'"
  by (rule validateAndIndex_ok)

text \<open>On an indexed table the binary searches are exact lookups: an entry is found exactly when
  the table holds it, for the decode table, the encode table and the table of pairs.\<close>

theorem multibyte_lookups:
  assumes "validateAndIndex enc0 = Inr enc"
  shows "(n \<le> 4 \<longrightarrow> (lookupDecode enc packed n = Some d \<longleftrightarrow>
      d \<in> set (decode enc) \<and> Packed d = packed \<and> Length d = n)) \<and>
    (lookupEncode enc r = Some b \<longleftrightarrow> (\<exists>e \<in> set (encode enc). Rune e = r \<and> Bytes e = b)) \<and>
    (valid_rune r \<and> valid_rune q \<longrightarrow> (lookupPair enc r q = Some b \<longleftrightarrow>
      (\<exists>e \<in> set (pairEncode enc). First e = r \<and> Second e = q \<and> PairBytes e = b))) \<and>
    (isPairLead enc r \<longleftrightarrow> r \<in> First ` set (pairEncode enc))"
  using lookupDecode_iff [OF indexed(1) [OF assms]] lookupEncode_iff [OF indexed(2) [OF assms]]
    lookupPair_iff [OF indexed(2) [OF assms]] isPairLead_iff [OF indexed(2) [OF assms]]
  by blast

definition sample_charset :: multibyte_encoding where
  "sample_charset =
     \<lparr>decode = [\<lparr>Packed = 0x41000000, Length = 1, Rune1 = 65, Rune2 = 0\<rparr>,
               \<lparr>Packed = 0x88620000, Length = 2, Rune1 = 0xCA, Rune2 = 0x304\<rparr>,
               \<lparr>Packed = 0x88660000, Length = 2, Rune1 = 0xCA, Rune2 = 0\<rparr>],
      prefixes = [],
      encode = [\<lparr>Rune = 65, Bytes = [0x41]\<rparr>, \<lparr>Rune = 0xCA, Bytes = [0x88, 0x66]\<rparr>],
      pairEncode = [\<lparr>First = 0xCA, Second = 0x304, PairBytes = [0x88, 0x62]\<rparr>],
      pairLeads = []\<rparr>"

lemma multibyte_lookups_witness:
  "lookupDecode (projr (validateAndIndex sample_charset)) 0x88620000 2 \<noteq> None"
proof -
  have 1: "validateAndIndex sample_charset = Inr (projr (validateAndIndex sample_charset))" by code_simp
  have 2: "\<lparr>Packed = 0x88620000, Length = 2, Rune1 = 0xCA, Rune2 = 0x304\<rparr>
      \<in> set (decode (projr (validateAndIndex sample_charset)))" by code_simp
  show ?thesis using multibyte_lookups [OF 1, THEN conjunct1, of 2 "0x88620000"] 2 by fastforce
qed

text \<open>The decoder obeys the contract of a resumable transformer: it consumes and writes in step,
  decides alike however the source is cut into calls, and never needs more than eight free bytes.\<close>

theorem multibyte_decoder_resumable:
  assumes "validateAndIndex enc0 = Inr enc"
  shows "bounded_step (generatedMultibyteDecoder enc) 8"
  using generatedMultibyteDecoder_step [OF indexed(1) [OF assms]] .

lemma multibyte_decoder_resumable_witness:
  "bounded_step (generatedMultibyteDecoder (projr (validateAndIndex sample_charset))) 8"
proof -
  have 1: "validateAndIndex sample_charset = Inr (projr (validateAndIndex sample_charset))" by code_simp
  show ?thesis by (rule multibyte_decoder_resumable [OF 1])
qed

text \<open>C40: the encoder writes what the greedy reading of the tables says: a pair where the next two
  runes have one, else the rune's own bytes; it fails exactly when a rune has none.\<close>

theorem multibyte_encoder_exact:
  assumes "validateAndIndex enc0 = Inr enc" and "\<forall>r \<in> set rs. valid_rune r"
  shows "(case encode_text enc rs of
       Some b \<Rightarrow> run_all (generatedMultibyteEncoder enc) () (encode_runes rs) = (b, None)
     | None \<Rightarrow> \<exists>b r. run_all (generatedMultibyteEncoder enc) () (encode_runes rs) = (b, Some (NotRepresentable r)))"
  using encoder_run [OF indexed(2) [OF assms(1)] assms(2)] .

lemma multibyte_encoder_exact_witness:
  "run_all (generatedMultibyteEncoder (projr (validateAndIndex sample_charset))) ()
     (encode_runes [0xCA, 0x304, 0xCA]) = ([0x88, 0x62, 0x88, 0x66], None)"
proof -
  have 1: "validateAndIndex sample_charset = Inr (projr (validateAndIndex sample_charset))" by code_simp
  have 2: "encode_text (projr (validateAndIndex sample_charset)) [0xCA, 0x304, 0xCA]
      = Some [0x88, 0x62, 0x88, 0x66]" by code_simp
  have 3: "\<forall>r \<in> set [0xCA, 0x304, 0xCA]. valid_rune r" by code_simp
  show ?thesis using multibyte_encoder_exact [OF 1 3] unfolding 2 by simp
qed

text \<open>C5: the decoder inverts the encoder: whatever valid text encodes to, decoding gives the text
  back, pairs included, when the encode tables list inverses of decode entries.\<close>

theorem multibyte_roundtrip:
  assumes "validateAndIndex enc0 = Inr enc" and "tables_agree enc"
    and "utf8_valid p" and "run_all (generatedMultibyteEncoder enc) () p = (b, None)"
  shows "run_all (generatedMultibyteDecoder enc) () b = (p, None)"
proof -
  note ok = indexed [OF assms(1)]
  obtain rs where rs: "\<forall>r \<in> set rs. valid_rune r" "p = encode_runes rs"
    using valid_text_runes [OF assms(3)] by blast
  have "encode_text enc rs = Some b"
    using encoder_run [OF ok(2) rs(1), of "()"] assms(4) rs(2) by (auto split: option.splits)
  from decode_encoded [OF ok assms(2) rs(1) this] show ?thesis by (simp add: rs(2))
qed

lemma multibyte_roundtrip_witness:
  "run_all (generatedMultibyteDecoder (projr (validateAndIndex sample_charset))) ()
     [0x88, 0x62, 0x41] = (encode_runes [0xCA, 0x304, 65], None)"
proof -
  have 1: "validateAndIndex sample_charset = Inr (projr (validateAndIndex sample_charset))" by code_simp
  have 2: "tables_agree (projr (validateAndIndex sample_charset))" by code_simp
  have 3: "utf8_valid (encode_runes [0xCA, 0x304, 65])" by code_simp
  have 4: "run_all (generatedMultibyteEncoder (projr (validateAndIndex sample_charset))) ()
      (encode_runes [0xCA, 0x304, 65]) = ([0x88, 0x62, 0x41], None)" by code_simp
  show ?thesis by (rule multibyte_roundtrip [OF 1 2 3 4])
qed

end
