(* ===== verification/Tcvn.thy ===== *)
theory Tcvn
  imports Multibyte
begin

text \<open>
  TCVN (\<^verbatim>\<open>internal/encoding/tcvn.go\<close>): every byte stands for a rune of its own, and some pairs of
  bytes stand for a composed rune; the decoder prefers the pair.
\<close>

record tcvn_encoding =
  single :: "rune list"
  tdefined :: "bool list"
  pair :: "(u16 \<times> rune) list"
  tleads :: "bool list"
  tencoder :: multibyte_encoding

definition pair_word :: "byte \<Rightarrow> byte \<Rightarrow> u16" where
  "pair_word a b = push_bit 8 (ucast a) OR ucast b"

fun loadTCVN :: "decode_entry list \<Rightarrow> tcvn_encoding \<Rightarrow> string + tcvn_encoding" where
  "loadTCVN [] t = Inr t"
| "loadTCVN (e # es) t =
     (if Length e = 1 then
        (let v = unat (ucast (drop_bit 24 (Packed e)) :: byte)
         in if Rune2 e \<noteq> 0 \<or> tdefined t ! v then Inl ''invalid duplicate one-byte mapping''
            else loadTCVN es (t\<lparr>single := (single t)[v := Rune1 e], tdefined := (tdefined t)[v := True]\<rparr>))
      else if Length e = 2 then
        (if Rune2 e \<noteq> 0 then Inl ''pair mapping must emit exactly one Unicode scalar''
         else let a = ucast (drop_bit 24 (Packed e)) :: byte; b = ucast (drop_bit 16 (Packed e)) :: byte;
                  key = pair_word a b
              in (case map_of (pair t) key of
                    Some r \<Rightarrow> Inl ''duplicate pair mapping''
                  | None \<Rightarrow> loadTCVN es (t\<lparr>pair := (key, Rune1 e) # pair t,
                      tleads := (tleads t)[unat a := True]\<rparr>)))
      else Inl ''invalid length'')"

definition newTCVNEncoding ::
  "bytes \<Rightarrow> decode_entry list \<Rightarrow> encode_entry list \<Rightarrow> pair_entry list \<Rightarrow> string + tcvn_encoding"
where
  "newTCVNEncoding name dec enc pairs =
     (if name = [] \<or> dec = [] \<or> enc = []
      then Inl ''TCVN encoding requires generated decode and encode mappings''
      else case validateAndIndex
          \<lparr>decode = [], prefixes = [], encode = enc, pairEncode = pairs, pairLeads = []\<rparr> of
        Inl e \<Rightarrow> Inl e
      | Inr encoder \<Rightarrow>
          (case loadTCVN dec \<lparr>single = replicate 256 0, tdefined = replicate 256 False, pair = [],
               tleads = replicate 256 False, tencoder = encoder\<rparr> of
             Inl e \<Rightarrow> Inl e
           | Inr t \<Rightarrow>
               if \<exists>v < 256. \<not> tdefined t ! v then Inl ''missing standalone byte'' else Inr t))"

definition put_rune :: "rune \<Rightarrow> nat \<Rightarrow> unit step_result" where
  "put_rune r n = Emit (encode_rune r) (rune_len r) n ()"

definition tcvnDecoder :: "tcvn_encoding \<Rightarrow> unit step" where
  "tcvnDecoder t s eof src =
     (let first = src ! 0; r = single t ! unat first
      in if tleads t ! unat first then
           (if length src \<le> 1 then (if \<not> eof then Stop 0 ErrShortSrc else put_rune r 1)
            else case map_of (pair t) (pair_word first (src ! 1)) of
                Some composed \<Rightarrow> put_rune composed 2
              | None \<Rightarrow> put_rune r 1)
         else put_rune r 1)"

subsection \<open>What the tables hold after loading\<close>

lemma pair_word_inject: "pair_word a b = pair_word a' b' \<longleftrightarrow> a = a' \<and> b = b'"
proof
  assume eq: "pair_word a b = pair_word a' b'"
  have low: "ucast (pair_word a b) = b" for a b
    by (rule bit_word_eqI) (auto simp: pair_word_def bit_simps)
  have high: "ucast (drop_bit 8 (pair_word a b)) = a" for a b
    by (rule bit_word_eqI) (auto simp: pair_word_def bit_simps byte_high_bit dest: bit_imp_le_length)
  show "a = a' \<and> b = b'" using low high eq by metis
qed simp

definition pairs_lead :: "tcvn_encoding \<Rightarrow> bool" where
  "pairs_lead t \<longleftrightarrow> length (tleads t) = 256 \<and>
     (\<forall>a b. map_of (pair t) (pair_word a b) \<noteq> None \<longrightarrow> tleads t ! unat a)"

lemma loadTCVN_leads: "loadTCVN es t = Inr t' \<Longrightarrow> pairs_lead t \<Longrightarrow> pairs_lead t'"
proof (induction es t rule: loadTCVN.induct)
  case (2 e es t)
  show ?case
  proof (cases "Length e = 1")
    case True
    then show ?thesis using 2 by (auto simp: Let_def pairs_lead_def split: if_splits)
  next
    case False
    let ?a = "ucast (drop_bit 24 (Packed e)) :: byte" and ?b = "ucast (drop_bit 16 (Packed e)) :: byte"
    have "pairs_lead (t\<lparr>pair := (pair_word ?a ?b, Rune1 e) # pair t, tleads := (tleads t)[unat ?a := True]\<rparr>)"
      using 2(4) unat_byte [of ?a]
      by (auto simp: pairs_lead_def pair_word_inject nth_list_update)
    then show ?thesis using 2(2) [OF False _ _ refl refl refl] 2(3) False
      by (auto simp: Let_def split: if_splits option.splits)
  qed
qed simp

definition tcvn_runes_valid :: "tcvn_encoding \<Rightarrow> bool" where
  "tcvn_runes_valid t \<longleftrightarrow>
     (\<forall>a :: byte. valid_rune (single t ! unat a)) \<and> (\<forall>k r. map_of (pair t) k = Some r \<longrightarrow> valid_rune r)"

lemma tcvnDecoder_step:
  assumes "tcvn_runes_valid t"
  shows "bounded_step (tcvnDecoder t) 4"
proof unfold_locales
  fix src :: bytes and s eof bs need n s'
  assume "src \<noteq> []" and e: "tcvnDecoder t s eof src = Emit bs need n s'"
  then obtain r where "valid_rune r" "bs = encode_rune r" "need = rune_len r" "n = 1 \<or> n = 2 \<and> 1 < length src"
    using assms by (auto simp: tcvnDecoder_def tcvn_runes_valid_def Let_def put_rune_def
      split: if_splits option.splits)
  then show "0 < n \<and> n \<le> length src \<and> need = int (length bs)" "need \<le> int 4"
    using \<open>src \<noteq> []\<close> rune_len_encode length_encode_rune(2) [of r] by (auto simp: Suc_le_eq)
next
  fix src ext :: bytes and s bs need n s'
  assume "src \<noteq> []" "tcvnDecoder t s False src = Emit bs need n s'"
  then show "tcvnDecoder t s True (src @ ext) = Emit bs need n s'"
    by (cases src rule: list_cases4)
      (auto simp: tcvnDecoder_def Let_def put_rune_def split: if_splits option.splits)
qed (auto simp: tcvnDecoder_def Let_def put_rune_def split: if_splits option.splits)

text \<open>What the decoder means: the composed rune wherever the next two bytes have one.\<close>

fun tcvn_text :: "tcvn_encoding \<Rightarrow> bytes \<Rightarrow> rune list" where
  "tcvn_text t [] = []"
| "tcvn_text t [a] = [single t ! unat a]"
| "tcvn_text t (a # b # bs) =
     (case map_of (pair t) (pair_word a b) of
        Some r \<Rightarrow> r # tcvn_text t bs
      | None \<Rightarrow> (single t ! unat a) # tcvn_text t (b # bs))"

lemma put_rune_run:
  "src \<noteq> [] \<Longrightarrow> step s True src = put_rune r n \<Longrightarrow> 0 < n \<Longrightarrow>
   run_all step s src = (encode_rune r @ fst (run_all step () (drop n src)), snd (run_all step () (drop n src)))"
  using run_all_Emit [of src step s] by (simp add: put_rune_def)

lemma tcvnDecoder_run:
  "pairs_lead t \<Longrightarrow> run_all (tcvnDecoder t) s bs = (encode_runes (tcvn_text t bs), None)"
proof (induction t bs arbitrary: s rule: tcvn_text.induct)
  case (2 t a)
  have "tcvnDecoder t s True [a] = put_rune (single t ! unat a) 1"
    by (simp add: tcvnDecoder_def Let_def)
  from put_rune_run [of _ "tcvnDecoder t", OF _ this] show ?case by simp
next
  case (3 t a b bs)
  show ?case
  proof (cases "map_of (pair t) (pair_word a b)")
    case None
    then have "tcvnDecoder t s True (a # b # bs) = put_rune (single t ! unat a) 1"
      by (simp add: tcvnDecoder_def Let_def)
    from put_rune_run [of _ "tcvnDecoder t", OF _ this] show ?thesis
      using 3(1) [OF None 3(3)] None by simp
  next
    case (Some r)
    then have "tleads t ! unat a" using 3(3) by (auto simp: pairs_lead_def)
    then have "tcvnDecoder t s True (a # b # bs) = put_rune r 2"
      using Some by (simp add: tcvnDecoder_def Let_def)
    from put_rune_run [of _ "tcvnDecoder t", OF _ this] show ?thesis
      using 3(2) [OF Some 3(3)] Some by simp
  qed
qed simp

lemma newTCVNEncoding_leads:
  "newTCVNEncoding name dec enc pairs = Inr t \<Longrightarrow> pairs_lead t"
  using loadTCVN_leads by (fastforce simp: newTCVNEncoding_def pairs_lead_def split: sum.splits if_splits)

subsection \<open>Properties\<close>

text \<open>Once the TCVN tables load, the decoder accepts every byte string and yields its text, with
  the composed rune wherever two bytes have one and the byte's own rune elsewhere.\<close>

theorem tcvn_decodes:
  assumes "newTCVNEncoding name dec enc pairs = Inr t"
  shows "run_all (tcvnDecoder t) () bs = (encode_runes (tcvn_text t bs), None)"
  using tcvnDecoder_run [OF newTCVNEncoding_leads [OF assms]] .

definition tcvn_sample :: "decode_entry list" where
  "tcvn_sample =
     map (\<lambda>v. \<lparr>Packed = of_nat v * 2 ^ 24, Length = 1, Rune1 = int v, Rune2 = 0\<rparr>) [0..<256]
     @ [\<lparr>Packed = 0x61B00000, Length = 2, Rune1 = 0xE0, Rune2 = 0\<rparr>]"

lemma tcvn_decodes_witness:
  "\<exists>t. newTCVNEncoding (str ''tcvn'') tcvn_sample [\<lparr>Rune = 65, Bytes = [65]\<rparr>] [] = Inr t \<and>
     run_all (tcvnDecoder t) () [0x61, 0xB0, 0x61] = (encode_runes (tcvn_text t [0x61, 0xB0, 0x61]), None)"
proof -
  let ?t = "newTCVNEncoding (str ''tcvn'') tcvn_sample [\<lparr>Rune = 65, Bytes = [65]\<rparr>] []"
  have "\<not> isl ?t" by code_simp
  then obtain t where "?t = Inr t" by (cases ?t) auto
  with tcvn_decodes [OF this, of "[0x61, 0xB0, 0x61]"] show ?thesis by blast
qed

end
