(* ===== verification/Gb18030.thy ===== *)
theory Gb18030
  imports Multibyte
begin

text \<open>
  GB18030: the strict source validator of \<^verbatim>\<open>internal/encoding/strict_gb18030.go\<close> and the patched
  2022 edition of \<^verbatim>\<open>gb18030_2022.go\<close>.

  The codec they build on is \<^verbatim>\<open>golang.org/x/text\<close>, which is not under \<^verbatim>\<open>src/\<close>: its decoding of one
  sequence and its encoding of one rune are parameters. So are the generated patch tables.
\<close>

subsection \<open>The length of a sequence\<close>

definition gb18030SequenceLength :: "bytes \<Rightarrow> nat \<times> bool \<times> bool" where
  "gb18030SequenceLength src =
     (if length src = 0 then (0, True, False)
      else let first = src ! 0 in
        if first \<le> 0x7F \<or> first = 0x80 then (1, False, True)
        else if first < 0x81 \<or> first > 0xFE then (0, False, False)
        else if length src < 2 then (0, True, False)
        else let second = src ! 1 in
          if (0x40 \<le> second \<and> second \<le> 0x7E) \<or> (0x80 \<le> second \<and> second \<le> 0xFE) then (2, False, True)
          else if second < 0x30 \<or> second > 0x39 then (0, False, False)
          else if length src < 4 then (0, True, False)
          else if src ! 2 < 0x81 \<or> src ! 2 > 0xFE \<or> src ! 3 < 0x30 \<or> src ! 3 > 0x39
               then (0, False, False)
          else (4, False, True))"

text \<open>The sequences of the encoding, as the standard lists them.\<close>

definition gb_lead :: "byte \<Rightarrow> bool" where "gb_lead b \<longleftrightarrow> 0x81 \<le> b \<and> b \<le> 0xFE"
definition gb_trail :: "byte \<Rightarrow> bool" where
  "gb_trail b \<longleftrightarrow> 0x40 \<le> b \<and> b \<le> 0x7E \<or> 0x80 \<le> b \<and> b \<le> 0xFE"
definition gb_digit :: "byte \<Rightarrow> bool" where "gb_digit b \<longleftrightarrow> 0x30 \<le> b \<and> b \<le> 0x39"

fun gb_sequence :: "bytes \<Rightarrow> bool" where
  "gb_sequence [a] = (a \<le> 0x80)"
| "gb_sequence [a, b] = (gb_lead a \<and> gb_trail b)"
| "gb_sequence [a, b, c, d] = (gb_lead a \<and> gb_digit b \<and> gb_lead c \<and> gb_digit d)"
| "gb_sequence _ = False"

lemma gb_sequence_cases:
  assumes "gb_sequence q"
  obtains a where "q = [a]" "a \<le> 0x80"
  | a b where "q = [a, b]" "gb_lead a" "gb_trail b"
  | a b c d where "q = [a, b, c, d]" "gb_lead a" "gb_digit b" "gb_lead c" "gb_digit d"
  using assms that by (cases q rule: gb_sequence.cases) auto

lemma single_lead: "a \<le> 0x7F \<or> a = 0x80 \<longleftrightarrow> (a :: byte) \<le> 0x80"
  by (auto simp: word_le_def word_uint_eq_iff)

lemma not_lead: "\<not> a \<le> 0x80 \<Longrightarrow> a < 0x81 \<or> a > 0xFE \<longleftrightarrow> \<not> gb_lead (a :: byte)"
  by (auto simp: gb_lead_def word_le_nat_alt word_less_nat_alt)

lemma not_digit: "a < 0x30 \<or> a > 0x39 \<longleftrightarrow> \<not> gb_digit (a :: byte)"
  by (auto simp: gb_digit_def not_le)

lemma lead_not_single: "gb_lead a \<Longrightarrow> \<not> a \<le> 0x80"
  by (auto simp: gb_lead_def word_le_nat_alt)

lemma digit_not_trail: "gb_digit b \<Longrightarrow> \<not> gb_trail b"
  by (auto simp: gb_digit_def gb_trail_def word_le_nat_alt)

lemma sequence_length_Nil: "gb18030SequenceLength [] = (0, True, False)"
  by (simp add: gb18030SequenceLength_def)

lemma sequence_length_Cons:
  "gb18030SequenceLength (a # src) =
     (if a \<le> 0x80 then (1, False, True)
      else if \<not> gb_lead a then (0, False, False)
      else case src of
          [] \<Rightarrow> (0, True, False)
        | b # src' \<Rightarrow>
            if gb_trail b then (2, False, True)
            else if \<not> gb_digit b then (0, False, False)
            else case src' of
                c # d # _ \<Rightarrow>
                  if (c < 0x81 \<or> c > 0xFE) \<or> \<not> gb_digit d then (0, False, False) else (4, False, True)
              | _ \<Rightarrow> (0, True, False))"
proof (cases "a \<le> 0x80")
  case True
  then show ?thesis by (simp add: gb18030SequenceLength_def Let_def single_lead)
next
  case False
  show ?thesis
    by (cases src rule: list_cases4)
      (simp_all add: gb18030SequenceLength_def Let_def single_lead not_lead [OF False] False not_digit
        gb_trail_def [symmetric])
qed

lemma lead_range: "(c < 0x81 \<or> c > 0xFE) \<longleftrightarrow> \<not> gb_lead c"
  by (auto simp: gb_lead_def not_le)

text \<open>A sequence is recognised whatever follows it, and nothing else is.\<close>

lemma sequence_length_complete:
  "gb_sequence q \<Longrightarrow> gb18030SequenceLength (q @ ext) = (length q, False, True)"
  by (erule gb_sequence_cases)
    (simp_all add: sequence_length_Cons lead_not_single digit_not_trail lead_range)

lemma sequence_length_sound:
  "gb18030SequenceLength src = (n, m, True) \<Longrightarrow>
     \<not> m \<and> 0 < n \<and> n \<le> 4 \<and> n \<le> length src \<and> gb_sequence (take n src)"
  by (cases src; cases "tl src" rule: list_cases4)
    (auto simp: sequence_length_Nil sequence_length_Cons lead_range split: if_splits list.splits)

lemma sequence_length_settled:
  "gb18030SequenceLength src = (n, False, v) \<Longrightarrow> gb18030SequenceLength (src @ ext) = (n, False, v)"
  by (cases src; cases "tl src" rule: list_cases4)
    (auto simp: sequence_length_Nil sequence_length_Cons split: if_splits list.splits)

lemma sequence_nonempty: "gb_sequence q \<Longrightarrow> q \<noteq> []"
  by (erule gb_sequence_cases) simp_all

subsection \<open>The strict validator\<close>

text \<open>
  \<^verbatim>\<open>base\<close> is the decoding of one sequence by the underlying codec, \<^term>\<open>None\<close> for its error;
  \<^verbatim>\<open>repl\<close> is the sequence it encodes the replacement character as.
\<close>

definition replacement_utf8 :: bytes where
  "replacement_utf8 = [0xEF, 0xBF, 0xBD]"

definition gb18030SourceValidator :: "(bytes \<Rightarrow> bytes option) \<Rightarrow> bytes \<Rightarrow> unit step" where
  "gb18030SourceValidator base repl s eof src =
     (case gb18030SequenceLength src of (n, needMore, valid) \<Rightarrow>
        if needMore then (if \<not> eof then Stop 0 ErrShortSrc else invalid ''truncated sequence'')
        else if \<not> valid then invalid ''byte''
        else let sequence = take n src
          in if 1 < n then
               (case base sequence of
                  None \<Rightarrow> Stop (int n) (ErrInvalidEncodedSequence ''decode error'')
                | Some decoded \<Rightarrow>
                    if decoded = replacement_utf8 \<and> sequence \<noteq> repl
                    then Stop (int n) (ErrInvalidEncodedSequence ''undefined sequence'')
                    else copy_unit n src)
             else copy_unit n src)"

definition gb_defined :: "(bytes \<Rightarrow> bytes option) \<Rightarrow> bytes \<Rightarrow> bytes \<Rightarrow> bool" where
  "gb_defined base repl q \<longleftrightarrow> length q = 1 \<or>
     (\<exists>d. base q = Some d \<and> (d = replacement_utf8 \<longrightarrow> q = repl))"

lemma gb_validator_settled:
  assumes "\<forall>need. gb18030SourceValidator base repl s False src \<noteq> Stop need ErrShortSrc"
  shows "gb18030SourceValidator base repl s True (src @ ext) = gb18030SourceValidator base repl s False src"
proof -
  obtain n m v where L: "gb18030SequenceLength src = (n, m, v)" by (metis prod_cases3)
  then have m: "\<not> m" using assms by (auto simp: gb18030SourceValidator_def)
  show ?thesis
  proof (cases v)
    case True
    then have "n \<le> length src" using sequence_length_sound [of src n m] L by simp
    then show ?thesis using sequence_length_settled [of src n v ext] L m
      by (simp add: gb18030SourceValidator_def copy_unit_def Let_def split: option.split)
  qed (use sequence_length_settled [of src n v ext] L m in \<open>simp add: gb18030SourceValidator_def\<close>)
qed

interpretation gb18030: bounded_step "gb18030SourceValidator base repl" 4 for base repl
proof unfold_locales
  fix src :: bytes and s eof bs need n s'
  assume "src \<noteq> []" "gb18030SourceValidator base repl s eof src = Emit bs need n s'"
  then show "0 < n \<and> n \<le> length src \<and> need = int (length bs)" "need \<le> int 4"
    using sequence_length_sound [of src]
    by (auto simp: gb18030SourceValidator_def copy_unit_def invalid_def Let_def
      split: prod.splits if_splits option.splits)
next
  fix src ext :: bytes and s bs need n s'
  assume "src \<noteq> []" "gb18030SourceValidator base repl s False src = Emit bs need n s'"
  then show "gb18030SourceValidator base repl s True (src @ ext) = Emit bs need n s'"
    using gb_validator_settled [of base repl s src ext] by simp
next
  fix src ext :: bytes and s need e
  assume "src \<noteq> []" "gb18030SourceValidator base repl s False src = Stop need e" "e \<noteq> ErrShortSrc"
  then show "gb18030SourceValidator base repl s True (src @ ext) = Stop need e"
    using gb_validator_settled [of base repl s src ext] by simp
next
  fix src :: bytes and s eof need e
  assume "src \<noteq> []" "gb18030SourceValidator base repl s eof src = Stop need e"
  then show "need \<le> int 4"
    using sequence_length_sound [of src]
    by (auto simp: gb18030SourceValidator_def copy_unit_def invalid_def Let_def
      split: prod.splits if_splits option.splits)
qed (auto simp: gb18030SourceValidator_def copy_unit_def invalid_def Let_def
      split: prod.splits if_splits option.splits)

interpretation gb18030_copy: copying_step "gb18030SourceValidator base repl" for base repl
  by unfold_locales
    (auto simp: gb18030SourceValidator_def copy_unit_def invalid_def Let_def
      split: prod.splits if_splits option.splits)

text \<open>A text: a sequence of sequences, each with the property asked for.\<close>

definition gb_text :: "(bytes \<Rightarrow> bool) \<Rightarrow> bytes \<Rightarrow> bool" where
  "gb_text P src \<longleftrightarrow> (\<exists>qs. src = concat qs \<and> (\<forall>q \<in> set qs. gb_sequence q \<and> P q))"

lemma gb_text_step:
  assumes "src \<noteq> []"
  shows "gb_text P src \<longleftrightarrow>
    (\<exists>n. gb18030SequenceLength src = (n, False, True) \<and> P (take n src) \<and> gb_text P (drop n src))"
proof
  assume "gb_text P src"
  then obtain qs where qs: "src = concat qs" "\<forall>q \<in> set qs. gb_sequence q \<and> P q"
    by (auto simp: gb_text_def)
  from assms qs obtain q qs' where "qs = q # qs'" by (cases qs) auto
  then show "\<exists>n. gb18030SequenceLength src = (n, False, True) \<and> P (take n src) \<and> gb_text P (drop n src)"
    using qs sequence_length_complete [of q "concat qs'"] by (auto simp: gb_text_def)
next
  assume "\<exists>n. gb18030SequenceLength src = (n, False, True) \<and> P (take n src) \<and> gb_text P (drop n src)"
  then obtain n qs where n: "gb18030SequenceLength src = (n, False, True)"
    "P (take n src)" "drop n src = concat qs" "\<forall>q \<in> set qs. gb_sequence q \<and> P q"
    by (auto simp: gb_text_def)
  then have "src = concat (take n src # qs)" by (simp flip: n(3))
  moreover have "gb_sequence (take n src)" using sequence_length_sound [OF n(1)] by blast
  ultimately show "gb_text P src" using n(2,4) unfolding gb_text_def by (metis set_ConsD)
qed

lemma gb_text_Nil: "gb_text P []"
  by (auto simp: gb_text_def intro: exI [of _ "[]"])

lemma gb18030_accepts: "snd (run_all (gb18030SourceValidator base repl) s src) = None \<longleftrightarrow> gb_text (gb_defined base repl) src"
proof (rule gb18030.run_accepts [where ok = "\<lambda>_. gb_text (gb_defined base repl)"])
  show "gb_text (gb_defined base repl) []" by (rule gb_text_Nil)
  fix s and src :: bytes assume src: "src \<noteq> []"
  obtain n m v where L: "gb18030SequenceLength src = (n, m, v)" by (metis prod_cases3)
  have whole: "gb_text (gb_defined base repl) src \<longleftrightarrow>
      \<not> m \<and> v \<and> gb_defined base repl (take n src) \<and> gb_text (gb_defined base repl) (drop n src)"
    using gb_text_step [OF src, of "gb_defined base repl"] L by auto
  have step: "gb18030SourceValidator base repl () True src =
      (if m then invalid ''truncated sequence'' else if \<not> v then invalid ''byte''
       else if n \<le> 1 then copy_unit n src
       else case base (take n src) of
           None \<Rightarrow> Stop (int n) (ErrInvalidEncodedSequence ''decode error'')
         | Some decoded \<Rightarrow>
             if decoded = replacement_utf8 \<and> take n src \<noteq> repl
             then Stop (int n) (ErrInvalidEncodedSequence ''undefined sequence'') else copy_unit n src)"
    by (simp add: gb18030SourceValidator_def L Let_def)
  have n: "m \<or> \<not> v \<or> 0 < n \<and> n \<le> length src" using sequence_length_sound [of src n m] L by (cases v) auto
  show "case gb18030SourceValidator base repl s True src of
      Stop need e \<Rightarrow> \<not> gb_text (gb_defined base repl) src
    | Emit bs need n q \<Rightarrow> gb_text (gb_defined base repl) src = gb_text (gb_defined base repl) (drop n src)"
  proof (cases "m \<or> \<not> v")
    case True
    then show ?thesis by (auto simp: step whole invalid_def)
  next
    case False
    then have "length (take n src) = n" "0 < n" using n by auto
    then show ?thesis using False
      by (cases "base (take n src)") (auto simp: step whole gb_defined_def copy_unit_def)
  qed
qed

subsection \<open>The 2022 edition\<close>

record gb_decode_patch =
  dpPacked :: u32
  dpLength :: nat
  dpRune :: rune
  dpReject :: bool

record gb_encode_patch =
  epRune :: rune
  epBytes :: bytes
  epReject :: bool

fun checkDecodePatches :: "64 word option \<Rightarrow> gb_decode_patch list \<Rightarrow> string + unit" where
  "checkDecodePatches previous [] = Inr ()"
| "checkDecodePatches previous (p # ps) =
     (if dpLength p \<noteq> 2 \<and> dpLength p \<noteq> 4 then Inl ''invalid length''
      else if \<not> dpReject p \<and> \<not> valid_rune (dpRune p) then Inl ''invalid Unicode scalar''
      else let key = sequenceKey (dpPacked p) (dpLength p)
        in if previous \<noteq> None \<and> key \<le> the previous then Inl ''decode patches are not strictly sorted''
           else checkDecodePatches (Some key) ps)"

fun checkEncodePatches :: "rune \<Rightarrow> gb_encode_patch list \<Rightarrow> string + unit" where
  "checkEncodePatches previous [] = Inr ()"
| "checkEncodePatches previous (p # ps) =
     (if \<not> valid_rune (epRune p) then Inl ''invalid Unicode scalar''
      else if epRune p \<le> previous then Inl ''encode patches are not strictly sorted''
      else if \<not> epReject p \<and> epBytes p = [] then Inl ''empty output''
      else checkEncodePatches (epRune p) ps)"

definition validateGB180302022Patches :: "gb_decode_patch list \<Rightarrow> gb_encode_patch list \<Rightarrow> string + unit" where
  "validateGB180302022Patches dps eps =
     (case checkDecodePatches None dps of Inl e \<Rightarrow> Inl e | Inr _ \<Rightarrow> checkEncodePatches (-1) eps)"

definition lookupDecodePatch :: "gb_decode_patch list \<Rightarrow> bytes \<Rightarrow> gb_decode_patch option" where
  "lookupDecodePatch dps sequence =
     table_search (\<lambda>p. sequenceKey (dpPacked p) (dpLength p)) dps
       (sequenceKey (packSourcePrefix sequence (length sequence)) (length sequence))"

definition lookupEncodePatch :: "gb_encode_patch list \<Rightarrow> rune \<Rightarrow> gb_encode_patch option" where
  "lookupEncodePatch eps r = table_search epRune eps r"

text \<open>
  A call of the underlying codec into the 8-byte scratch buffer: what it writes, how much it
  consumes, and whether it fails.
\<close>

type_synonym base_codec = "bytes \<Rightarrow> bytes \<times> nat \<times> bool"

definition gb180302022Decoder :: "gb_decode_patch list \<Rightarrow> base_codec \<Rightarrow> bytes \<Rightarrow> unit step" where
  "gb180302022Decoder dps base repl s eof src =
     (case gb18030SequenceLength src of (n, needMore, valid) \<Rightarrow>
        if needMore then (if \<not> eof then Stop 0 ErrShortSrc else invalid ''truncated GB18030:2022 sequence'')
        else if \<not> valid then invalid ''invalid GB18030:2022 byte sequence''
        else let sequence = take n src in
          case lookupDecodePatch dps sequence of
            Some patch \<Rightarrow>
              if dpReject patch then invalid ''sequence is not defined by GB18030:2022''
              else Emit (encode_rune (dpRune patch)) (rune_len (dpRune patch)) n ()
          | None \<Rightarrow>
              (case base sequence of (d, baseSrc, baseErr) \<Rightarrow>
                 if baseErr \<or> baseSrc \<noteq> n \<or> \<not> utf8_valid d then invalid ''invalid GB18030:2022 sequence''
                 else case decode_rune d of (r, k) \<Rightarrow>
                   if k \<noteq> length d \<or> r = rune_error \<and> sequence \<noteq> repl
                   then invalid ''undefined GB18030:2022 sequence''
                   else Emit d (int (length d)) n ()))"

definition gb180302022Encoder :: "gb_encode_patch list \<Rightarrow> base_codec \<Rightarrow> unit step" where
  "gb180302022Encoder eps base s eof src =
     (case decodeStrictUTF8Rune src eof of
        Inl e \<Rightarrow> Stop 0 e
      | Inr (r, n) \<Rightarrow>
          (case lookupEncodePatch eps r of
             Some patch \<Rightarrow>
               if epReject patch then Stop 0 (NotRepresentable r)
               else Emit (epBytes patch) (int (length (epBytes patch))) n ()
           | None \<Rightarrow>
               (case base (take n src) of (d, baseSrc, baseErr) \<Rightarrow>
                  if baseErr \<or> baseSrc \<noteq> n then Stop 0 (NotRepresentable r)
                  else Emit d (int (length d)) n ())))"

text \<open>What one sequence decodes to: the patch decides where there is one, the base codec elsewhere.\<close>

definition gb2022_meaning :: "gb_decode_patch list \<Rightarrow> base_codec \<Rightarrow> bytes \<Rightarrow> bytes \<Rightarrow> bytes option" where
  "gb2022_meaning dps base repl q =
     (case lookupDecodePatch dps q of
        Some patch \<Rightarrow> if dpReject patch then None else Some (encode_rune (dpRune patch))
      | None \<Rightarrow>
          (case base q of (d, k, err) \<Rightarrow>
             if \<not> err \<and> k = length q \<and> utf8_valid d \<and> snd (decode_rune d) = length d
               \<and> (fst (decode_rune d) = rune_error \<longrightarrow> q = repl)
             then Some d else None))"

lemma checkDecodePatches_runes:
  "checkDecodePatches prev ps = Inr u \<Longrightarrow> p \<in> set ps \<Longrightarrow> \<not> dpReject p \<Longrightarrow> valid_rune (dpRune p)"
  by (induction prev ps rule: checkDecodePatches.induct) (auto simp: Let_def split: if_splits)

lemma gb2022_step:
  assumes "checkDecodePatches None dps = Inr u"
    and "gb18030SequenceLength src = (n, m, v)"
  shows "gb180302022Decoder dps base repl () eof src =
    (if m then (if \<not> eof then Stop 0 ErrShortSrc else invalid ''truncated GB18030:2022 sequence'')
     else if \<not> v then invalid ''invalid GB18030:2022 byte sequence''
     else case gb2022_meaning dps base repl (take n src) of
         Some d \<Rightarrow> Emit d (int (length d)) n ()
       | None \<Rightarrow> gb180302022Decoder dps base repl () eof src)" (is ?eq)
    and "\<not> m \<Longrightarrow> v \<Longrightarrow> gb2022_meaning dps base repl (take n src) = None \<Longrightarrow>
      \<exists>why. gb180302022Decoder dps base repl () eof src = invalid why
        \<and> gb180302022Decoder dps base repl () True (src @ ext) = invalid why"
proof -
  have patch: "valid_rune (dpRune p)" if "lookupDecodePatch dps q = Some p" "\<not> dpReject p" for q p
    using that checkDecodePatches_runes [OF assms(1)] by (auto simp: lookupDecodePatch_def dest: table_search_sound)
  have n: "v \<Longrightarrow> n \<le> length src" using sequence_length_sound [of src n m] assms(2) by simp
  show ?eq using assms(2) n
    by (auto simp: gb180302022Decoder_def gb2022_meaning_def Let_def rune_len_encode patch
      split: option.splits prod.splits)
  show "\<exists>why. gb180302022Decoder dps base repl () eof src = invalid why
        \<and> gb180302022Decoder dps base repl () True (src @ ext) = invalid why"
    if "\<not> m" "v" "gb2022_meaning dps base repl (take n src) = None"
    using that assms(2) n sequence_length_settled [of src n v ext]
    by (auto simp: gb180302022Decoder_def gb2022_meaning_def Let_def
      split: option.splits prod.splits if_splits)
qed

text \<open>The scratch buffer bounds what the base codec can write.\<close>

definition fits_scratch :: "base_codec \<Rightarrow> bool" where
  "fits_scratch base \<longleftrightarrow> (\<forall>q. length (fst (base q)) \<le> 8)"

lemma encode_rune_room: "length (encode_rune r) \<le> 8"
  by (rule order_trans [OF length_encode_rune(2)]) simp

lemma meaning_room:
  assumes "fits_scratch base" "gb2022_meaning dps base repl q = Some d"
  shows "length d \<le> 8"
proof -
  have "length (fst (base q)) \<le> 8" using assms(1) by (simp add: fits_scratch_def)
  then show ?thesis using assms(2) encode_rune_room
    by (auto simp: gb2022_meaning_def split: option.splits if_splits prod.splits)
qed

lemma gb2022_decoder_step:
  assumes "checkDecodePatches None dps = Inr u" "fits_scratch base"
  shows "bounded_step (gb180302022Decoder dps base repl) 8"
proof -
  have cases: "(\<exists>n m v. gb18030SequenceLength src = (n, m, v) \<and>
      (m \<and> gb180302022Decoder dps base repl s eof src =
          (if \<not> eof then Stop 0 ErrShortSrc else invalid ''truncated GB18030:2022 sequence'') \<or>
       \<not> m \<and> (\<exists>why. gb180302022Decoder dps base repl s eof src = invalid why \<and>
          gb180302022Decoder dps base repl s True (src @ ext) = invalid why) \<or>
       \<not> m \<and> v \<and> (\<exists>d. length d \<le> 8 \<and> gb180302022Decoder dps base repl s eof src = Emit d (int (length d)) n () \<and>
          gb180302022Decoder dps base repl s True (src @ ext) = Emit d (int (length d)) n ())))"
    for s eof src ext
  proof -
    obtain n m v where L: "gb18030SequenceLength src = (n, m, v)" by (metis prod_cases3)
    note S = gb2022_step [OF assms(1) L, of base repl]
    show ?thesis
    proof (cases "m \<or> \<not> v")
      case True
      then show ?thesis using L S(1) sequence_length_settled [of src n v ext]
        by (auto simp: gb180302022Decoder_def)
    next
      case False
      have n: "n \<le> length src" using sequence_length_sound [of src n m] L False by simp
      show ?thesis
      proof (cases "gb2022_meaning dps base repl (take n src)")
        case None
        then show ?thesis using S(2) [of eof ext] False L by auto
      next
        case (Some d)
        have "gb18030SequenceLength (src @ ext) = (n, m, v)"
          using sequence_length_settled [of src n v ext] L False by simp
        from gb2022_step(1) [OF assms(1) this, of base repl True] S(1) [of eof] show ?thesis
          using Some False L n meaning_room [OF assms(2) Some] by auto
      qed
    qed
  qed
  show ?thesis
  proof unfold_locales
    fix src :: bytes and s eof bs need n s'
    assume "src \<noteq> []" "gb180302022Decoder dps base repl s eof src = Emit bs need n s'"
    then show "0 < n \<and> n \<le> length src \<and> need = int (length bs)" "need \<le> int 8"
      using cases [of src s eof "[]"] sequence_length_sound [of src] by (auto simp: invalid_def split: if_splits)
  next
    fix src ext :: bytes and s bs need n s'
    assume "src \<noteq> []" "gb180302022Decoder dps base repl s False src = Emit bs need n s'"
    then show "gb180302022Decoder dps base repl s True (src @ ext) = Emit bs need n s'"
      using cases [of src s False ext] by (auto simp: invalid_def)
  next
    fix src ext :: bytes and s need e
    assume "src \<noteq> []" "gb180302022Decoder dps base repl s False src = Stop need e" "e \<noteq> ErrShortSrc"
    then show "gb180302022Decoder dps base repl s True (src @ ext) = Stop need e"
      using cases [of src s False ext] by (auto simp: invalid_def)
  next
    fix src :: bytes and s need
    assume "src \<noteq> []"
    show "gb180302022Decoder dps base repl s True src \<noteq> Stop need ErrShortSrc"
      using cases [of src s True "[]"] by (auto simp: invalid_def)
  next
    fix src :: bytes and s eof need e
    assume "src \<noteq> []"
    show "gb180302022Decoder dps base repl s eof src \<noteq> Stop need ErrShortDst"
      using cases [of src s eof "[]"] by (auto simp: invalid_def split: if_splits)
    show "gb180302022Decoder dps base repl s eof src = Stop need e \<Longrightarrow> need \<le> int 8"
      using cases [of src s eof "[]"] by (auto simp: invalid_def split: if_splits)
  qed
qed

lemma gb2022_accepts:
  assumes "checkDecodePatches None dps = Inr u" "fits_scratch base"
  shows "snd (run_all (gb180302022Decoder dps base repl) () src) = None \<longleftrightarrow>
    gb_text (\<lambda>q. gb2022_meaning dps base repl q \<noteq> None) src" (is "_ \<longleftrightarrow> ?ok src")
proof (rule stream_step.run_accepts [OF bounded_step.axioms(1) [OF gb2022_decoder_step [OF assms]],
    where ok = "\<lambda>_. gb_text (\<lambda>q. gb2022_meaning dps base repl q \<noteq> None)"])
  fix s :: unit and src :: bytes assume src: "src \<noteq> []"
  obtain n m v where L: "gb18030SequenceLength src = (n, m, v)" by (metis prod_cases3)
  note S = gb2022_step [OF assms(1) L, of base repl]
  have whole: "?ok src \<longleftrightarrow> \<not> m \<and> v \<and> gb2022_meaning dps base repl (take n src) \<noteq> None \<and> ?ok (drop n src)"
    using gb_text_step [OF src, of "\<lambda>q. gb2022_meaning dps base repl q \<noteq> None"] L by auto
  show "case gb180302022Decoder dps base repl s True src of
      Stop need e \<Rightarrow> \<not> ?ok src
    | Emit bs need n q \<Rightarrow> ?ok src = ?ok (drop n src)"
  proof (cases "m \<or> \<not> v \<or> gb2022_meaning dps base repl (take n src) = None")
    case True
    have "\<exists>why. gb180302022Decoder dps base repl () True src = invalid why"
    proof (cases "m \<or> \<not> v")
      case True
      then show ?thesis by (subst S(1)) auto
    next
      case False
      then show ?thesis using S(2) [of True "[]"] True by auto
    qed
    then show ?thesis using True whole by (auto simp: invalid_def)
  next
    case False
    then obtain d where "gb2022_meaning dps base repl (take n src) = Some d" by auto
    then have "gb180302022Decoder dps base repl () True src = Emit d (int (length d)) n ()"
      using False by (subst S(1)) simp
    then show ?thesis using False whole by simp
  qed
qed (rule gb_text_Nil)

lemma gb2022_run:
  assumes "checkDecodePatches None dps = Inr u"
  shows "\<forall>q \<in> set qs. gb_sequence q \<and> gb2022_meaning dps base repl q \<noteq> None \<Longrightarrow>
    run_all (gb180302022Decoder dps base repl) () (concat qs) =
      (concat (map (\<lambda>q. the (gb2022_meaning dps base repl q)) qs), None)"
proof (induction qs)
  case (Cons q qs)
  then obtain d where d: "gb2022_meaning dps base repl q = Some d" by auto
  have L: "gb18030SequenceLength (q @ concat qs) = (length q, False, True)"
    using Cons.prems by (intro sequence_length_complete) simp
  have q: "q \<noteq> []" using Cons.prems sequence_nonempty by simp
  have step: "gb180302022Decoder dps base repl () True (q @ concat qs) = Emit d (int (length d)) (length q) ()"
    using gb2022_step(1) [OF assms L, of base repl True] d by simp
  from run_all_Emit [of _ "gb180302022Decoder dps base repl", OF _ step] show ?case
    using q d Cons by simp
qed simp

lemma meaning_valid:
  assumes "checkDecodePatches None dps = Inr u" "gb2022_meaning dps base repl q = Some d"
  shows "utf8_valid d"
proof (cases "lookupDecodePatch dps q")
  case (Some p)
  then have "valid_rune (dpRune p)" "d = encode_rune (dpRune p)"
    using assms checkDecodePatches_runes [OF assms(1), of p]
    by (auto simp: gb2022_meaning_def lookupDecodePatch_def dest: table_search_sound split: if_splits)
  then show ?thesis using utf8_valid_encode_rune [of "dpRune p" "[]"] by simp
qed (use assms in \<open>auto simp: gb2022_meaning_def split: prod.splits if_splits\<close>)

subsection \<open>The encoder\<close>

lemma gb2022_encoder_step:
  assumes "fits_scratch base" "\<forall>p \<in> set eps. length (epBytes p) \<le> 8"
  shows "bounded_step (gb180302022Encoder eps base) 8"
proof -
  have patch: "length (epBytes p) \<le> 8" if "lookupEncodePatch eps r = Some p" for r p
    using that assms(2) table_search_sound [of epRune eps r] by (auto simp: lookupEncodePatch_def)
  have settled: "gb180302022Encoder eps base s True (src @ ext) = gb180302022Encoder eps base s False src"
    if "\<forall>need. gb180302022Encoder eps base s False src \<noteq> Stop need ErrShortSrc" for s src ext
  proof -
    have "decodeStrictUTF8Rune src False \<noteq> Inl ErrShortSrc"
      using that by (auto simp: gb180302022Encoder_def)
    then show ?thesis using decodeStrict_settled [of src ext True] decodeStrict_size [of src False]
      by (auto simp: gb180302022Encoder_def split: sum.splits option.splits)
  qed
  show ?thesis
  proof unfold_locales
    fix src :: bytes and s eof bs need n s'
    assume "src \<noteq> []" "gb180302022Encoder eps base s eof src = Emit bs need n s'"
    then show "0 < n \<and> n \<le> length src \<and> need = int (length bs)" "need \<le> int 8"
      using decodeStrict_size [of src eof] patch assms(1)
      by (auto simp: gb180302022Encoder_def fits_scratch_def split: sum.splits option.splits if_splits prod.splits)
        (metis fst_conv)+
  next
    fix src ext :: bytes and s bs need n s'
    assume "src \<noteq> []" "gb180302022Encoder eps base s False src = Emit bs need n s'"
    then show "gb180302022Encoder eps base s True (src @ ext) = Emit bs need n s'"
      using settled [of s src ext] by simp
  next
    fix src ext :: bytes and s need e
    assume "src \<noteq> []" "gb180302022Encoder eps base s False src = Stop need e" "e \<noteq> ErrShortSrc"
    then show "gb180302022Encoder eps base s True (src @ ext) = Stop need e"
      using settled [of s src ext] by simp
  next
    fix src :: bytes and s eof need e
    assume "src \<noteq> []"
    show "gb180302022Encoder eps base s True src \<noteq> Stop need ErrShortSrc"
      "gb180302022Encoder eps base s eof src \<noteq> Stop need ErrShortDst"
      using decodeStrict_errors [of src True] decodeStrict_errors [of src eof]
      by (auto simp: gb180302022Encoder_def split: sum.splits option.splits if_splits prod.splits)
    show "gb180302022Encoder eps base s eof src = Stop need e \<Longrightarrow> need \<le> int 8"
      by (auto simp: gb180302022Encoder_def split: sum.splits option.splits if_splits prod.splits)
  qed
qed

subsection \<open>Properties\<close>

text \<open>With room for it, a call of the strict GB18030 validator on a whole text succeeds, having
  copied it, exactly when the text is made of one-, two- and four-byte sequences of the standard
  that the base codec defines, the replacement character only as its own sequence.\<close>

theorem gb18030_validator_exact:
  assumes "length src + 4 \<le> cap"
  shows "\<exists>bs k e. transform_loop (gb18030SourceValidator base repl) cap () True src = (bs, k, e, ()) \<and>
    (e = None \<longleftrightarrow> gb_text (gb_defined base repl) src) \<and> (e = None \<longrightarrow> bs = src \<and> k = length src)"
  using copying_verdict [OF gb18030.bounded_step_axioms gb18030_copy.copying_step_axioms assms,
      of base repl "()"]
  by (simp add: gb18030_accepts)

lemma gb18030_validator_exact_witness:
  "\<exists>bs k e. transform_loop (gb18030SourceValidator (\<lambda>_. Some [0xE4, 0xB8, 0x80]) [0x84, 0x31, 0xA4, 0x37]) 9 ()
     True [0x41, 0xD2, 0xBB] = (bs, k, e, ()) \<and> e = None \<and> bs = [0x41, 0xD2, 0xBB]"
proof -
  have "gb_text (gb_defined (\<lambda>_. Some [0xE4, 0xB8, 0x80]) [0x84, 0x31, 0xA4, 0x37]) [0x41, 0xD2, 0xBB]"
    unfolding gb_text_def
    by (intro exI [of _ "[[0x41], [0xD2, 0xBB]]"])
      (simp add: gb_defined_def gb_lead_def gb_trail_def replacement_utf8_def)
  with gb18030_validator_exact [of "[0x41, 0xD2, 0xBB]" 9] show ?thesis by auto
qed

text \<open>The 2022 decoder accepts exactly the texts whose sequences all have a meaning, the patch
  table deciding first and the base codec only where there is no patch; what it writes is the
  meanings in order, and each of them is valid UTF-8.\<close>

theorem gb2022_decoder_exact:
  assumes "validateGB180302022Patches dps eps = Inr u" and "fits_scratch base"
  shows "(snd (run_all (gb180302022Decoder dps base repl) () src) = None \<longleftrightarrow>
      gb_text (\<lambda>q. gb2022_meaning dps base repl q \<noteq> None) src) \<and>
    (\<forall>qs. (\<forall>q \<in> set qs. gb_sequence q \<and> gb2022_meaning dps base repl q \<noteq> None) \<longrightarrow>
      run_all (gb180302022Decoder dps base repl) () (concat qs) =
        (concat (map (\<lambda>q. the (gb2022_meaning dps base repl q)) qs), None)) \<and>
    (\<forall>q d. gb2022_meaning dps base repl q = Some d \<longrightarrow> utf8_valid d)"
proof -
  obtain v where "checkDecodePatches None dps = Inr v"
    using assms(1) by (auto simp: validateGB180302022Patches_def split: sum.splits)
  from gb2022_accepts [OF this assms(2)] gb2022_run [OF this] meaning_valid [OF this] show ?thesis
    by blast
qed

lemma gb2022_decoder_exact_witness:
  "run_all (gb180302022Decoder [\<lparr>dpPacked = 0xA6D90000, dpLength = 2, dpRune = 0xFE10, dpReject = False\<rparr>]
      (\<lambda>q. (take 8 q, length q, False)) []) () (concat [[0x41], [0xA6, 0xD9]])
    = (0x41 # encode_rune 0xFE10, None)"
proof -
  let ?p = "[\<lparr>dpPacked = 0xA6D90000, dpLength = 2, dpRune = 0xFE10, dpReject = False\<rparr>]"
  have 1: "validateGB180302022Patches ?p [] = Inr ()" by code_simp
  have 2: "fits_scratch (\<lambda>q. (take 8 q, length q, False))" by (simp add: fits_scratch_def)
  have 3: "\<forall>q \<in> set [[0x41], [0xA6, 0xD9]]. gb_sequence q \<and>
      gb2022_meaning ?p (\<lambda>q. (take 8 q, length q, False)) [] q \<noteq> None" by code_simp
  have 4: "concat (map (\<lambda>q. the (gb2022_meaning ?p (\<lambda>q. (take 8 q, length q, False)) [] q))
      [[0x41], [0xA6, 0xD9]]) = 0x41 # encode_rune 0xFE10" by code_simp
  show ?thesis
    using gb2022_decoder_exact [OF 1 2, THEN conjunct2, THEN conjunct1, THEN spec, THEN mp, OF 3]
    unfolding 4 .
qed

text \<open>Both directions of the 2022 codec are resumable transformers that never need more than eight
  free bytes, so any reader that feeds them piece by piece gets the text of the whole.\<close>

theorem gb2022_resumable:
  assumes "validateGB180302022Patches dps eps = Inr u" and "fits_scratch base" and "fits_scratch base'"
    and "\<forall>p \<in> set eps. length (epBytes p) \<le> 8"
  shows "bounded_step (gb180302022Decoder dps base repl) 8 \<and> bounded_step (gb180302022Encoder eps base') 8"
proof -
  obtain v where "checkDecodePatches None dps = Inr v"
    using assms(1) by (auto simp: validateGB180302022Patches_def split: sum.splits)
  from gb2022_decoder_step [OF this assms(2)] gb2022_encoder_step [OF assms(3,4)] show ?thesis by blast
qed

lemma gb2022_resumable_witness:
  "bounded_step (gb180302022Encoder [\<lparr>epRune = 0xFE10, epBytes = [0xA6, 0xD9], epReject = False\<rparr>]
     (\<lambda>q. ([], length q, True))) 8"
proof -
  let ?e = "[\<lparr>epRune = 0xFE10, epBytes = [0xA6, 0xD9], epReject = False\<rparr>]"
  have 1: "validateGB180302022Patches [] ?e = Inr ()" by code_simp
  have 2: "fits_scratch (\<lambda>q. ([], length q, True))" by (simp add: fits_scratch_def)
  show ?thesis using gb2022_resumable [OF 1 2 2] by simp
qed

end
