(* ===== verification/Iso2022.thy ===== *)
theory Iso2022
  imports Multibyte
begin

text \<open>
  The ISO-2022 decoders of \<^verbatim>\<open>internal/encoding/iso2022_generated.go\<close>. A decoder carries the
  designated charsets and the shift from call to call. Its \<^verbatim>\<open>decodeOne\<close> skips escapes and shifts and
  returns the next character with the state after it; \<^verbatim>\<open>Transform\<close> commits the state only once the
  character is written.

  Every variant loops over items: an escape or shift that changes the state, a character, an error,
  or a prefix that more source may complete. An item function below is the body of the variant's
  loop at one position; the loop is shared.
\<close>

record raw_charset =
  width :: nat
  rdecode :: "decode_entry list"

record iso2022_state =
  g0 :: string
  g1 :: string
  g2 :: string
  g3 :: string
  shifted :: bool

record iso2022_encoding =
  ikind :: string
  raw :: "(string \<times> raw_charset) list"

datatype iso2022_item =
    Escape iso2022_state nat
  | Character decode_entry nat iso2022_state
  | NeedMore
  | Illegal

definition initial_state :: iso2022_state where
  "initial_state = \<lparr>g0 = [], g1 = [], g2 = [], g3 = [], shifted = False\<rparr>"

definition initialG0 :: "iso2022_state \<Rightarrow> iso2022_state" where
  "initialG0 st = (if g0 st = [] then st\<lparr>g0 := ''ascii''\<rparr> else st)"

definition raw_lookup :: "raw_charset \<Rightarrow> bytes \<Rightarrow> decode_entry option" where
  "raw_lookup c src =
     (if length src < width c then None
      else table_search entryKey (rdecode c) (sequenceKey (packSourcePrefix src (width c)) (width c)))"

definition rawEntry :: "iso2022_encoding \<Rightarrow> string \<Rightarrow> bytes \<Rightarrow> decode_entry option" where
  "rawEntry enc name src =
     (case map_of (raw enc) name of None \<Rightarrow> None | Some c \<Rightarrow> raw_lookup c src)"

definition asciiEntry :: "byte \<Rightarrow> decode_entry" where
  "asciiEntry v = \<lparr>Packed = push_bit 24 (ucast v), Length = 1, Rune1 = uint v, Rune2 = 0\<rparr>"

definition found :: "decode_entry option \<Rightarrow> nat \<Rightarrow> iso2022_state \<Rightarrow> iso2022_item" where
  "found e n st = (case e of None \<Rightarrow> Illegal | Some x \<Rightarrow> Character x n st)"

definition set_g0 :: "string \<Rightarrow> nat \<Rightarrow> iso2022_state \<Rightarrow> iso2022_item" where
  "set_g0 name n st = Escape (st\<lparr>g0 := name\<rparr>) n"

subsection \<open>The items of the Japanese variants\<close>

definition decodeJPGraphic :: "iso2022_encoding \<Rightarrow> iso2022_state \<Rightarrow> bytes \<Rightarrow> iso2022_item" where
  "decodeJPGraphic enc st src =
     (if g0 st = ''ascii'' then
        (if src ! 0 \<ge> 0x80 then Illegal else Character (asciiEntry (src ! 0)) 1 st)
      else case map_of (raw enc) (g0 st) of
          None \<Rightarrow> Illegal
        | Some c \<Rightarrow>
            if length src < width c then NeedMore
            else if \<exists>b \<in> set (take (width c) src). b \<ge> 0x80 then Illegal
            else found (raw_lookup c (take (width c) src)) (width c) st)"

definition itemJP1 :: "iso2022_encoding \<Rightarrow> iso2022_state \<Rightarrow> bytes \<Rightarrow> iso2022_item" where
  "itemJP1 enc st src =
     (if src ! 0 \<noteq> 0x1B then decodeJPGraphic enc st src
      else if length src < 3 then NeedMore
      else if src ! 1 = 0x28 \<and> src ! 2 = 0x42 then set_g0 ''ascii'' 3 st
      else if src ! 1 = 0x28 \<and> src ! 2 = 0x4A then set_g0 ''jis0201-roman'' 3 st
      else if src ! 1 = 0x24 \<and> (src ! 2 = 0x40 \<or> src ! 2 = 0x42) then set_g0 ''jis0208'' 3 st
      else if src ! 1 = 0x24 \<and> src ! 2 = 0x28 then
        (if length src < 4 then NeedMore
         else if src ! 3 \<noteq> 0x44 then Illegal
         else set_g0 ''jis0212'' 4 st)
      else Illegal)"

definition itemJP2 :: "iso2022_encoding \<Rightarrow> iso2022_state \<Rightarrow> bytes \<Rightarrow> iso2022_item" where
  "itemJP2 enc st src =
     (if src ! 0 \<noteq> 0x1B then
        (case decodeJPGraphic enc st src of
           Character e n nxt \<Rightarrow>
             if (Rune1 e = 0x0A \<or> Rune1 e = 0x0D) \<and> (g0 st = ''ascii'' \<or> g0 st = ''jis0201-roman'')
             then Character e n (nxt\<lparr>g2 := []\<rparr>) else Character e n nxt
         | r \<Rightarrow> r)
      else if length src < 2 then NeedMore
      else if src ! 1 = 0x4E then
        (if length src < 3 then NeedMore
         else if g2 st = [] \<or> src ! 2 \<ge> 0x80 then Illegal
         else found (rawEntry enc (g2 st) [src ! 2]) 3 st)
      else if length src < 3 then NeedMore
      else if src ! 1 = 0x28 \<and> src ! 2 = 0x42 then set_g0 ''ascii'' 3 st
      else if src ! 1 = 0x28 \<and> src ! 2 = 0x4A then set_g0 ''jis0201-roman'' 3 st
      else if src ! 1 = 0x28 \<and> src ! 2 = 0x49 then set_g0 ''jis0201-kana'' 3 st
      else if src ! 1 = 0x2E \<and> src ! 2 = 0x41 then Escape (st\<lparr>g2 := ''iso8859-1-g2''\<rparr>) 3
      else if src ! 1 = 0x2E \<and> src ! 2 = 0x46 then Escape (st\<lparr>g2 := ''iso8859-7-g2''\<rparr>) 3
      else if src ! 1 = 0x24 \<and> (src ! 2 = 0x40 \<or> src ! 2 = 0x42) then set_g0 ''jis0208'' 3 st
      else if src ! 1 = 0x24 \<and> src ! 2 = 0x41 then set_g0 ''gb2312'' 3 st
      else if src ! 1 = 0x24 \<and> src ! 2 = 0x28 then
        (if length src < 4 then NeedMore
         else if src ! 3 = 0x44 then set_g0 ''jis0212'' 4 st
         else if src ! 3 = 0x43 then set_g0 ''ksc5601'' 4 st
         else Illegal)
      else Illegal)"

definition itemJP3 :: "iso2022_encoding \<Rightarrow> iso2022_state \<Rightarrow> bytes \<Rightarrow> iso2022_item" where
  "itemJP3 enc st src =
     (if src ! 0 \<noteq> 0x1B then decodeJPGraphic enc st src
      else if length src < 3 then NeedMore
      else if src ! 1 = 0x28 \<and> src ! 2 = 0x42 then set_g0 ''ascii'' 3 st
      else if src ! 1 = 0x28 \<and> src ! 2 = 0x4A then set_g0 ''jis0201-roman'' 3 st
      else if src ! 1 = 0x28 \<and> src ! 2 = 0x49 then set_g0 ''jis0201-kana'' 3 st
      else if src ! 1 = 0x24 \<and> (src ! 2 = 0x40 \<or> src ! 2 = 0x42) then set_g0 ''jis0208'' 3 st
      else if src ! 1 = 0x24 \<and> src ! 2 = 0x28 then
        (if length src < 4 then NeedMore
         else if src ! 3 = 0x4F \<or> src ! 3 = 0x51 then set_g0 ''jis0213-plane1'' 4 st
         else if src ! 3 = 0x50 then set_g0 ''jis0213-plane2'' 4 st
         else Illegal)
      else Illegal)"

definition itemJPMS :: "iso2022_encoding \<Rightarrow> iso2022_state \<Rightarrow> bytes \<Rightarrow> iso2022_item" where
  "itemJPMS enc st src =
     (if src ! 0 = 0x1B then
        (if length src < 3 then NeedMore
         else if src ! 1 = 0x28 \<and> src ! 2 = 0x42 then set_g0 ''ascii'' 3 st
         else if src ! 1 = 0x28 \<and> src ! 2 = 0x4A then set_g0 ''jis0201-roman'' 3 st
         else if src ! 1 = 0x28 \<and> src ! 2 = 0x49 then set_g0 ''jis0201-kana'' 3 st
         else if src ! 1 = 0x24 \<and> (src ! 2 = 0x40 \<or> src ! 2 = 0x42) then set_g0 ''jpms0208'' 3 st
         else if src ! 1 = 0x24 \<and> src ! 2 = 0x28 then
           (if length src < 4 then NeedMore
            else if src ! 3 \<noteq> 0x44 then Illegal
            else set_g0 ''jpms0212'' 4 st)
         else Illegal)
      else if src ! 0 = 0x0E then
        (if g0 st \<noteq> ''jis0201-roman'' then Illegal else set_g0 ''jis0201-kana'' 1 st)
      else if src ! 0 = 0x0F then
        (if g0 st \<noteq> ''jis0201-kana'' then Illegal else set_g0 ''jis0201-roman'' 1 st)
      else decodeJPGraphic enc st src)"

subsection \<open>The items of the Chinese and Korean variants\<close>

definition cns_name :: "byte \<Rightarrow> string" where
  "cns_name b = ''cns'' @ [char_of (0x33 + unat (b - 0x49))]"

definition itemCN :: "bool \<Rightarrow> iso2022_encoding \<Rightarrow> iso2022_state \<Rightarrow> bytes \<Rightarrow> iso2022_item" where
  "itemCN extended enc st src =
     (if src ! 0 = 0x1B then
        (if length src < 2 then NeedMore
         else if src ! 1 = 0x4E \<or> src ! 1 = 0x4F then
           (if length src < 4 then NeedMore
            else if src ! 1 = 0x4F \<and> \<not> extended then Illegal
            else let name = (if src ! 1 = 0x4F then g3 st else g2 st)
              in if name = [] \<or> src ! 2 \<ge> 0x80 \<or> src ! 3 \<ge> 0x80 then Illegal
                 else found (rawEntry enc name [src ! 2, src ! 3]) 4 st)
         else if length src < 4 then NeedMore
         else if src ! 1 \<noteq> 0x24 then Illegal
         else if src ! 2 = 0x29 \<and> src ! 3 = 0x41 then Escape (st\<lparr>g1 := ''gb2312''\<rparr>) 4
         else if src ! 2 = 0x29 \<and> src ! 3 = 0x47 then Escape (st\<lparr>g1 := ''cns1''\<rparr>) 4
         else if extended \<and> src ! 2 = 0x29 \<and> src ! 3 = 0x45 then Escape (st\<lparr>g1 := ''isoir165''\<rparr>) 4
         else if src ! 2 = 0x2A \<and> src ! 3 = 0x48 then Escape (st\<lparr>g2 := ''cns2''\<rparr>) 4
         else if extended \<and> src ! 2 = 0x2B \<and> src ! 3 \<ge> 0x49 \<and> src ! 3 \<le> 0x4D
              then Escape (st\<lparr>g3 := cns_name (src ! 3)\<rparr>) 4
         else Illegal)
      else if src ! 0 = 0x0E then
        (if g1 st = [] then Illegal else Escape (st\<lparr>shifted := True\<rparr>) 1)
      else if src ! 0 = 0x0F then Escape (st\<lparr>shifted := False\<rparr>) 1
      else if \<not> shifted st then
        (if src ! 0 \<ge> 0x80 then Illegal
         else let e = asciiEntry (src ! 0)
           in Character e 1
             (if Rune1 e = 0x0A \<or> Rune1 e = 0x0D
              then (if extended then st\<lparr>g1 := [], g2 := [], g3 := []\<rparr> else st\<lparr>g1 := [], g2 := []\<rparr>)
              else st))
      else if length src < 2 then NeedMore
      else if g1 st = [] then Illegal
      else if src ! 0 \<ge> 0x80 \<or> src ! 1 \<ge> 0x80 then Illegal
      else found (rawEntry enc (g1 st) [src ! 0, src ! 1]) 2 st)"

definition itemKR :: "iso2022_encoding \<Rightarrow> iso2022_state \<Rightarrow> bytes \<Rightarrow> iso2022_item" where
  "itemKR enc st src =
     (if src ! 0 = 0x1B then
        (if length src < 4 then NeedMore
         else if src ! 1 \<noteq> 0x24 \<or> src ! 2 \<noteq> 0x29 \<or> src ! 3 \<noteq> 0x43 then Illegal
         else Escape (st\<lparr>g1 := ''ksc5601''\<rparr>) 4)
      else if src ! 0 = 0x0E then
        (if g1 st \<noteq> ''ksc5601'' then Illegal else Escape (st\<lparr>shifted := True\<rparr>) 1)
      else if src ! 0 = 0x0F then Escape (st\<lparr>shifted := False\<rparr>) 1
      else if \<not> shifted st then
        (if src ! 0 \<ge> 0x80 then Illegal else Character (asciiEntry (src ! 0)) 1 st)
      else if length src < 2 then NeedMore
      else if src ! 0 \<ge> 0x80 \<or> src ! 1 \<ge> 0x80 then Illegal
      else found (rawEntry enc ''ksc5601'' [src ! 0, src ! 1]) 2 st)"

lemmas item_defs = itemJP1_def itemJP2_def itemJP3_def itemJPMS_def itemCN_def itemKR_def

subsection \<open>The loop and the transformer\<close>

datatype iso2022_result =
    Decoded decode_entry nat iso2022_state
  | Failed transform_error

definition shortOrInvalidISO2022 :: "bool \<Rightarrow> iso2022_result" where
  "shortOrInvalidISO2022 eof =
     Failed (if \<not> eof then ErrShortSrc
             else ErrInvalidEncodedSequence ''truncated escape or shifted sequence'')"

definition invalidISO2022 :: iso2022_result where
  "invalidISO2022 = Failed (ErrInvalidEncodedSequence ''invalid escape, shift, or code sequence'')"

definition emptyEntry :: decode_entry where
  "emptyEntry = \<lparr>Packed = 0, Length = 0, Rune1 = 0, Rune2 = 0\<rparr>"

definition finishISO2022StateOnly :: "iso2022_state \<Rightarrow> nat \<Rightarrow> bool \<Rightarrow> bool \<Rightarrow> iso2022_result" where
  "finishISO2022StateOnly nxt consumed eof neutral =
     (if eof \<and> consumed > 0 \<and> neutral then Decoded emptyEntry consumed nxt
      else shortOrInvalidISO2022 eof)"

text \<open>The loop of a variant with \<^verbatim>\<open>i\<close> bytes behind it and \<^verbatim>\<open>src\<close> still to read.\<close>

function iso2022_loop ::
  "(iso2022_state \<Rightarrow> bytes \<Rightarrow> iso2022_item) \<Rightarrow> (iso2022_state \<Rightarrow> bool) \<Rightarrow> bool \<Rightarrow> nat \<Rightarrow>
     iso2022_state \<Rightarrow> bytes \<Rightarrow> iso2022_result"
where
  "iso2022_loop item neutral eof i st src =
     (if src = [] then finishISO2022StateOnly st i eof (neutral st)
      else case item st src of
          Escape st' n \<Rightarrow>
            if n = 0 then Failed (Panic ''no progress'')
            else iso2022_loop item neutral eof (i + n) st' (drop n src)
        | Character e n st' \<Rightarrow> Decoded e (i + n) st'
        | NeedMore \<Rightarrow> shortOrInvalidISO2022 eof
        | Illegal \<Rightarrow> invalidISO2022)"
  by pat_completeness auto
termination
  by (relation "measure (\<lambda>(item, neutral, eof, i, st, src). length src)") auto

declare iso2022_loop.simps [simp del]

definition decodeOne :: "iso2022_encoding \<Rightarrow> iso2022_state \<Rightarrow> bytes \<Rightarrow> bool \<Rightarrow> iso2022_result" where
  "decodeOne enc st src eof =
     (let ascii = (\<lambda>s. g0 s = ''ascii''); unshifted = (\<lambda>s. \<not> shifted s) in
      if ikind enc = ''iso2022-jp1'' then iso2022_loop (itemJP1 enc) ascii eof 0 (initialG0 st) src
      else if ikind enc = ''iso2022-jp2'' then iso2022_loop (itemJP2 enc) ascii eof 0 (initialG0 st) src
      else if ikind enc = ''iso2022-jp3'' then iso2022_loop (itemJP3 enc) ascii eof 0 (initialG0 st) src
      else if ikind enc = ''iso2022-jpms'' then
        iso2022_loop (itemJPMS enc) (\<lambda>s. g0 s = ''ascii'' \<or> g0 s = ''jis0201-roman'') eof 0 (initialG0 st) src
      else if ikind enc = ''iso2022-cn'' then iso2022_loop (itemCN False enc) unshifted eof 0 st src
      else if ikind enc = ''iso2022-cn-ext'' then iso2022_loop (itemCN True enc) unshifted eof 0 st src
      else if ikind enc = ''iso2022-kr'' then iso2022_loop (itemKR enc) unshifted eof 0 st src
      else Failed (Panic ''unknown ISO-2022 decoder kind''))"

definition iso2022Decoder :: "iso2022_encoding \<Rightarrow> iso2022_state step" where
  "iso2022Decoder enc st eof src =
     (case decodeOne enc st src eof of
        Failed e \<Rightarrow> Stop 0 e
      | Decoded entry consumed nxt \<Rightarrow>
          if consumed = 0 then Stop 0 (Panic ''ISO-2022 decoder made no progress'')
          else if Length entry = 0 then Emit [] 0 consumed nxt
          else Emit (entry_out entry) (entry_need entry) consumed nxt)"

subsection \<open>Construction\<close>

definition kind_charsets :: "string \<Rightarrow> string list option" where
  "kind_charsets kind =
     map_of [(''iso2022-jp1'', [''jis0201-roman'', ''jis0208'', ''jis0212'']),
       (''iso2022-jp2'', [''jis0201-roman'', ''jis0201-kana'', ''jis0208'', ''jis0212'', ''gb2312'',
          ''ksc5601'', ''iso8859-1-g2'', ''iso8859-7-g2'']),
       (''iso2022-jp3'', [''jis0201-roman'', ''jis0201-kana'', ''jis0208'', ''jis0213-plane1'',
          ''jis0213-plane2'']),
       (''iso2022-jpms'', [''jis0201-roman'', ''jis0201-kana'', ''jpms0208'', ''jpms0212'']),
       (''iso2022-cn'', [''gb2312'', ''cns1'', ''cns2'']),
       (''iso2022-cn-ext'', [''gb2312'', ''cns1'', ''cns2'', ''cns3'', ''cns4'', ''cns5'', ''cns6'',
          ''cns7'', ''isoir165'']),
       (''iso2022-kr'', [''ksc5601''])] kind"

text \<open>The loop over the generated charsets.\<close>

fun loadRaw ::
  "(string \<times> raw_charset) list \<Rightarrow> (string \<times> raw_charset) list \<Rightarrow> string + (string \<times> raw_charset) list"
where
  "loadRaw [] m = Inr m"
| "loadRaw ((name, c) # cs) m =
     (if name = [] \<or> width c = 0 \<or> width c > 2 \<or> rdecode c = [] then Inl ''invalid raw charset''
      else case map_of m name of
          Some _ \<Rightarrow> Inl ''duplicate raw charset''
        | None \<Rightarrow> loadRaw cs ((name, c) # m))"

definition newISO2022Encoding ::
  "bytes \<Rightarrow> string \<Rightarrow> (string \<times> raw_charset) list \<Rightarrow> encode_entry list \<Rightarrow> pair_entry list \<Rightarrow>
     string + iso2022_encoding \<times> multibyte_encoding"
where
  "newISO2022Encoding name kind specs enc pairs =
     (if name = [] \<or> kind = [] \<or> enc = []
      then Inl ''ISO-2022 encoding requires generated metadata and canonical encode table''
      else case loadRaw specs [] of
        Inl e \<Rightarrow> Inl e
      | Inr m \<Rightarrow>
          (case validateAndIndex
              \<lparr>decode = [], prefixes = [], encode = enc, pairEncode = pairs, pairLeads = []\<rparr> of
             Inl e \<Rightarrow> Inl e
           | Inr encoder \<Rightarrow>
               (case kind_charsets kind of
                  None \<Rightarrow> Inl ''unsupported generated ISO-2022 kind''
                | Some names \<Rightarrow>
                    if \<exists>n \<in> set names. map_of m n = None then Inl ''missing raw charset''
                    else Inr (\<lparr>ikind = kind, raw = m\<rparr>, encoder))))"

text \<open>The generated charset tables hold valid entries; the construction does not check their runes.\<close>

definition raw_valid :: "iso2022_encoding \<Rightarrow> bool" where
  "raw_valid enc \<longleftrightarrow> (\<forall>(n, c) \<in> set (raw enc). 0 < width c \<and> (\<forall>e \<in> set (rdecode c). valid_entry e))"

subsection \<open>What the loop guarantees\<close>

locale item_reader =
  fixes item :: "iso2022_state \<Rightarrow> bytes \<Rightarrow> iso2022_item"
    and ok :: "decode_entry \<Rightarrow> nat \<Rightarrow> bool"
  assumes escape_moves: "src \<noteq> [] \<Longrightarrow> item st src = Escape st' n \<Longrightarrow> 0 < n \<and> n \<le> length src"
    and character_moves: "src \<noteq> [] \<Longrightarrow> item st src = Character e n st' \<Longrightarrow>
      n \<le> length src \<and> ok e n"
    and item_settled: "src \<noteq> [] \<Longrightarrow> item st src \<noteq> NeedMore \<Longrightarrow> item st (src @ ext) = item st src"
begin

lemma loop_decoded:
  "iso2022_loop item neutral eof i st src = Decoded e n st' \<Longrightarrow>
   n \<le> i + length src \<and> i \<le> n \<and> (e = emptyEntry \<and> eof \<and> 0 < n \<or> (\<exists>m. ok e m \<and> i + m \<le> n))"
proof (induction src arbitrary: i st rule: length_induct)
  case (1 src)
  show ?case
  proof (cases "src = []")
    case True
    then show ?thesis using 1(2)
      by (auto simp: iso2022_loop.simps finishISO2022StateOnly_def shortOrInvalidISO2022_def split: if_splits)
  next
    case False
    show ?thesis
    proof (cases "item st src")
      case (Escape st1 m)
      note m = escape_moves [OF False Escape]
      then have "iso2022_loop item neutral eof (i + m) st1 (drop m src) = Decoded e n st'"
        using 1(2) False Escape by (subst (asm) iso2022_loop.simps) simp
      moreover have "length (drop m src) < length src" using m False by auto
      ultimately show ?thesis using 1(1) m by fastforce
    next
      case (Character e1 m st1)
      then show ?thesis using 1(2) False character_moves [OF False Character]
        by (subst (asm) iso2022_loop.simps) auto
    qed (use 1(2) False in \<open>simp_all add: iso2022_loop.simps shortOrInvalidISO2022_def invalidISO2022_def\<close>)
  qed
qed

lemma loop_failed:
  "iso2022_loop item neutral eof i st src = Failed e \<Longrightarrow>
   e = ErrShortSrc \<and> \<not> eof \<or> (\<exists>why. e = ErrInvalidEncodedSequence why)"
proof (induction src arbitrary: i st rule: length_induct)
  case (1 src)
  show ?case
  proof (cases "src = []")
    case True
    then show ?thesis using 1(2)
      by (auto simp: iso2022_loop.simps finishISO2022StateOnly_def shortOrInvalidISO2022_def split: if_splits)
  next
    case False
    show ?thesis
    proof (cases "item st src")
      case (Escape st1 m)
      note m = escape_moves [OF False Escape]
      then have "iso2022_loop item neutral eof (i + m) st1 (drop m src) = Failed e"
        using 1(2) False Escape by (subst (asm) iso2022_loop.simps) simp
      moreover have "length (drop m src) < length src" using m False by auto
      ultimately show ?thesis using 1(1) by blast
    qed (use 1(2) False in \<open>auto simp: iso2022_loop.simps shortOrInvalidISO2022_def invalidISO2022_def
        split: if_splits\<close>)
  qed
qed

lemma loop_settled:
  "iso2022_loop item neutral False i st src \<noteq> Failed ErrShortSrc \<Longrightarrow>
   iso2022_loop item neutral eof i st (src @ ext) = iso2022_loop item neutral False i st src"
proof (induction src arbitrary: i st rule: length_induct)
  case (1 src)
  show ?case
  proof (cases "src = []")
    case True
    then show ?thesis using 1(2)
      by (auto simp: iso2022_loop.simps [of _ _ False] finishISO2022StateOnly_def shortOrInvalidISO2022_def)
  next
    case False
    show ?thesis
    proof (cases "item st src")
      case (Escape st1 m)
      note m = escape_moves [OF False Escape]
      have s: "iso2022_loop item neutral False i st src = iso2022_loop item neutral False (i + m) st1 (drop m src)"
        using False Escape m by (subst iso2022_loop.simps) simp
      have "item st (src @ ext) = Escape st1 m" using item_settled [OF False] Escape by simp
      then have "iso2022_loop item neutral eof i st (src @ ext) =
          iso2022_loop item neutral eof (i + m) st1 (drop m src @ ext)"
        using False m by (subst iso2022_loop.simps) simp
      moreover have "length (drop m src) < length src" using m False by auto
      ultimately show ?thesis using 1 s by simp
    next
      case (Character e n st1)
      then have "item st (src @ ext) = Character e n st1" using item_settled [OF False] by simp
      then show ?thesis using False Character by (simp add: iso2022_loop.simps)
    next
      case NeedMore
      then show ?thesis using 1(2) False
        by (simp add: iso2022_loop.simps [of _ _ False] shortOrInvalidISO2022_def)
    next
      case Illegal
      then have "item st (src @ ext) = Illegal" using item_settled [OF False] by simp
      then show ?thesis using False Illegal by (simp add: iso2022_loop.simps)
    qed
  qed
qed

end


definition entry_ok :: "iso2022_encoding \<Rightarrow> decode_entry \<Rightarrow> nat \<Rightarrow> bool" where
  "entry_ok enc e n \<longleftrightarrow> (raw_valid enc \<longrightarrow> valid_entry e \<and> 0 < n)"

lemma ascii_ok: "\<not> v \<ge> 0x80 \<Longrightarrow> entry_ok enc (asciiEntry v) (Suc 0)"
proof -
  assume "\<not> v \<ge> 0x80"
  then have "unat v < 128" by (simp add: word_le_nat_alt)
  then have "uint v < 128" by (metis of_nat_less_iff of_nat_numeral uint_nat)
  then show ?thesis by (simp add: entry_ok_def valid_entry_def asciiEntry_def valid_rune_def max_rune_def)
qed

lemma raw_lookup_ok: "map_of (raw enc) name = Some c \<Longrightarrow> raw_lookup c src = Some e \<Longrightarrow>
  entry_ok enc e (width c)"
  using table_search_sound [of entryKey "rdecode c"] map_of_SomeD [of "raw enc" name c]
  by (auto simp: entry_ok_def raw_valid_def raw_lookup_def split: if_splits)

lemma raw_entry_ok: "rawEntry enc name src = Some e \<Longrightarrow> 0 < n \<Longrightarrow> entry_ok enc e n"
  using raw_lookup_ok [of enc name _ src e]
  by (auto simp: rawEntry_def entry_ok_def split: option.splits)

lemma Suc_0_le_length: "src \<noteq> [] \<Longrightarrow> Suc 0 \<le> length src"
  by (cases src) auto

lemma graphic_character:
  "src \<noteq> [] \<Longrightarrow> decodeJPGraphic enc st src = Character e n st' \<Longrightarrow>
   n \<le> length src \<and> entry_ok enc e n \<and> st' = st"
  by (auto simp: decodeJPGraphic_def found_def ascii_ok raw_lookup_ok Suc_0_le_length
      split: if_splits option.splits)

lemma graphic_no_escape: "decodeJPGraphic enc st src \<noteq> Escape st' n"
  by (auto simp: decodeJPGraphic_def found_def split: if_splits option.splits)

lemma graphic_settled:
  "src \<noteq> [] \<Longrightarrow> decodeJPGraphic enc st src \<noteq> NeedMore \<Longrightarrow>
   decodeJPGraphic enc st (src @ ext) = decodeJPGraphic enc st src"
  by (auto simp: decodeJPGraphic_def nth_append split: if_splits option.splits)

lemmas item_rules = set_g0_def found_def ascii_ok raw_entry_ok Suc_0_le_length graphic_no_escape

lemma graphic_settled_case:
  "src \<noteq> [] \<Longrightarrow> decodeJPGraphic enc st (src @ ext) = decodeJPGraphic enc st src \<or>
   decodeJPGraphic enc st src = NeedMore"
  using graphic_settled by blast

lemma nth_Cons_1: "(x # xs) ! Suc 0 = xs ! 0"
  by simp

lemma item_reader_jp1: "item_reader (itemJP1 enc) (entry_ok enc)"
proof
  fix st :: iso2022_state and src :: bytes
  assume src: "src \<noteq> []"
  show "0 < n \<and> n \<le> length src" if "itemJP1 enc st src = Escape st' n" for st' n
    using that src by (auto simp: itemJP1_def item_rules Let_def split: if_splits option.splits iso2022_item.splits)
  show "n \<le> length src \<and> entry_ok enc e n" if "itemJP1 enc st src = Character e n st'" for st' n e
    using that src by (auto simp: itemJP1_def item_rules Let_def split: if_splits option.splits iso2022_item.splits
        dest: graphic_character)
  show "itemJP1 enc st (src @ ext) = itemJP1 enc st src" if "itemJP1 enc st src \<noteq> NeedMore" for ext
  proof -
    let ?G = "decodeJPGraphic enc st"
    have g: "?G (src @ ext) = ?G src \<or> ?G src = NeedMore" by (rule graphic_settled_case [OF src])
    consider "src ! 0 = 0x1B" | "src ! 0 = 0x0E" | "src ! 0 = 0x0F"
      | "src ! 0 \<noteq> 0x1B" "src ! 0 \<noteq> 0x0E" "src ! 0 \<noteq> 0x0F" by blast
    then show ?thesis
    proof cases
      case 1
      show ?thesis
      proof (cases rule: list_cases4 [of src])
        case (2 a)
        then show ?thesis using that 1 by (simp add: itemJP1_def)
      next
        case (3 a b)
        then show ?thesis using that 1 by (simp add: itemJP1_def Let_def split: if_splits)
      next
        case (4 a b c ys)
        then show ?thesis using that 1 by (cases ys) (auto simp: itemJP1_def Let_def set_g0_def split: if_splits)
      qed (use src in simp)
    qed (use that src g in \<open>auto simp: itemJP1_def nth_append Let_def split: if_splits iso2022_item.splits\<close>)
  qed
qed

lemma item_reader_jp2: "item_reader (itemJP2 enc) (entry_ok enc)"
proof
  fix st :: iso2022_state and src :: bytes
  assume src: "src \<noteq> []"
  show "0 < n \<and> n \<le> length src" if "itemJP2 enc st src = Escape st' n" for st' n
    using that src by (auto simp: itemJP2_def item_rules Let_def split: if_splits option.splits iso2022_item.splits)
  show "n \<le> length src \<and> entry_ok enc e n" if "itemJP2 enc st src = Character e n st'" for st' n e
    using that src by (auto simp: itemJP2_def item_rules Let_def split: if_splits option.splits iso2022_item.splits
        dest: graphic_character)
  show "itemJP2 enc st (src @ ext) = itemJP2 enc st src" if "itemJP2 enc st src \<noteq> NeedMore" for ext
  proof -
    let ?G = "decodeJPGraphic enc st"
    have g: "?G (src @ ext) = ?G src \<or> ?G src = NeedMore" by (rule graphic_settled_case [OF src])
    consider "src ! 0 = 0x1B" | "src ! 0 = 0x0E" | "src ! 0 = 0x0F"
      | "src ! 0 \<noteq> 0x1B" "src ! 0 \<noteq> 0x0E" "src ! 0 \<noteq> 0x0F" by blast
    then show ?thesis
    proof cases
      case 1
      show ?thesis
      proof (cases rule: list_cases4 [of src])
        case (2 a)
        then show ?thesis using that 1 by (simp add: itemJP2_def)
      next
        case (3 a b)
        then show ?thesis using that 1 by (simp add: itemJP2_def Let_def split: if_splits)
      next
        case (4 a b c ys)
        then show ?thesis using that 1 by (cases ys) (auto simp: itemJP2_def Let_def set_g0_def split: if_splits)
      qed (use src in simp)
    qed (use that src g in \<open>auto simp: itemJP2_def nth_append Let_def split: if_splits iso2022_item.splits\<close>)
  qed
qed

lemma item_reader_jp3: "item_reader (itemJP3 enc) (entry_ok enc)"
proof
  fix st :: iso2022_state and src :: bytes
  assume src: "src \<noteq> []"
  show "0 < n \<and> n \<le> length src" if "itemJP3 enc st src = Escape st' n" for st' n
    using that src by (auto simp: itemJP3_def item_rules Let_def split: if_splits option.splits iso2022_item.splits)
  show "n \<le> length src \<and> entry_ok enc e n" if "itemJP3 enc st src = Character e n st'" for st' n e
    using that src by (auto simp: itemJP3_def item_rules Let_def split: if_splits option.splits iso2022_item.splits
        dest: graphic_character)
  show "itemJP3 enc st (src @ ext) = itemJP3 enc st src" if "itemJP3 enc st src \<noteq> NeedMore" for ext
  proof -
    let ?G = "decodeJPGraphic enc st"
    have g: "?G (src @ ext) = ?G src \<or> ?G src = NeedMore" by (rule graphic_settled_case [OF src])
    consider "src ! 0 = 0x1B" | "src ! 0 = 0x0E" | "src ! 0 = 0x0F"
      | "src ! 0 \<noteq> 0x1B" "src ! 0 \<noteq> 0x0E" "src ! 0 \<noteq> 0x0F" by blast
    then show ?thesis
    proof cases
      case 1
      show ?thesis
      proof (cases rule: list_cases4 [of src])
        case (2 a)
        then show ?thesis using that 1 by (simp add: itemJP3_def)
      next
        case (3 a b)
        then show ?thesis using that 1 by (simp add: itemJP3_def Let_def split: if_splits)
      next
        case (4 a b c ys)
        then show ?thesis using that 1 by (cases ys) (auto simp: itemJP3_def Let_def set_g0_def split: if_splits)
      qed (use src in simp)
    qed (use that src g in \<open>auto simp: itemJP3_def nth_append Let_def split: if_splits iso2022_item.splits\<close>)
  qed
qed

lemma item_reader_jpms: "item_reader (itemJPMS enc) (entry_ok enc)"
proof
  fix st :: iso2022_state and src :: bytes
  assume src: "src \<noteq> []"
  show "0 < n \<and> n \<le> length src" if "itemJPMS enc st src = Escape st' n" for st' n
    using that src by (auto simp: itemJPMS_def item_rules Let_def split: if_splits option.splits iso2022_item.splits)
  show "n \<le> length src \<and> entry_ok enc e n" if "itemJPMS enc st src = Character e n st'" for st' n e
    using that src by (auto simp: itemJPMS_def item_rules Let_def split: if_splits option.splits iso2022_item.splits
        dest: graphic_character)
  show "itemJPMS enc st (src @ ext) = itemJPMS enc st src" if "itemJPMS enc st src \<noteq> NeedMore" for ext
  proof -
    let ?G = "decodeJPGraphic enc st"
    have g: "?G (src @ ext) = ?G src \<or> ?G src = NeedMore" by (rule graphic_settled_case [OF src])
    consider "src ! 0 = 0x1B" | "src ! 0 = 0x0E" | "src ! 0 = 0x0F"
      | "src ! 0 \<noteq> 0x1B" "src ! 0 \<noteq> 0x0E" "src ! 0 \<noteq> 0x0F" by blast
    then show ?thesis
    proof cases
      case 1
      show ?thesis
      proof (cases rule: list_cases4 [of src])
        case (2 a)
        then show ?thesis using that 1 by (simp add: itemJPMS_def)
      next
        case (3 a b)
        then show ?thesis using that 1 by (simp add: itemJPMS_def Let_def split: if_splits)
      next
        case (4 a b c ys)
        then show ?thesis using that 1 by (cases ys) (auto simp: itemJPMS_def Let_def set_g0_def split: if_splits)
      qed (use src in simp)
    qed (use that src g in \<open>auto simp: itemJPMS_def nth_append Let_def split: if_splits iso2022_item.splits\<close>)
  qed
qed

lemma item_reader_cn: "item_reader (itemCN extended enc) (entry_ok enc)"
proof
  fix st :: iso2022_state and src :: bytes
  assume src: "src \<noteq> []"
  show "0 < n \<and> n \<le> length src" if "itemCN extended enc st src = Escape st' n" for st' n
    using that src by (auto simp: itemCN_def item_rules Let_def split: if_splits option.splits iso2022_item.splits)
  show "n \<le> length src \<and> entry_ok enc e n" if "itemCN extended enc st src = Character e n st'" for st' n e
    using that src by (auto simp: itemCN_def item_rules Let_def split: if_splits option.splits iso2022_item.splits
        dest: graphic_character)
  show "itemCN extended enc st (src @ ext) = itemCN extended enc st src" if "itemCN extended enc st src \<noteq> NeedMore" for ext
  proof -
    let ?G = "decodeJPGraphic enc st"
    have g: "?G (src @ ext) = ?G src \<or> ?G src = NeedMore" by (rule graphic_settled_case [OF src])
    consider "src ! 0 = 0x1B" | "src ! 0 = 0x0E" | "src ! 0 = 0x0F"
      | "src ! 0 \<noteq> 0x1B" "src ! 0 \<noteq> 0x0E" "src ! 0 \<noteq> 0x0F" by blast
    then show ?thesis
    proof cases
      case 1
      show ?thesis
      proof (cases rule: list_cases4 [of src])
        case (2 a)
        then show ?thesis using that 1 by (simp add: itemCN_def)
      next
        case (3 a b)
        then show ?thesis using that 1 by (simp add: itemCN_def Let_def split: if_splits)
      next
        case (4 a b c ys)
        then show ?thesis using that 1 by (cases ys) (auto simp: itemCN_def Let_def set_g0_def split: if_splits)
      qed (use src in simp)
    qed (use that src g in \<open>auto simp: itemCN_def nth_append Let_def split: if_splits iso2022_item.splits\<close>)
  qed
qed

lemma item_reader_kr: "item_reader (itemKR enc) (entry_ok enc)"
proof
  fix st :: iso2022_state and src :: bytes
  assume src: "src \<noteq> []"
  show "0 < n \<and> n \<le> length src" if "itemKR enc st src = Escape st' n" for st' n
    using that src by (auto simp: itemKR_def item_rules Let_def split: if_splits option.splits iso2022_item.splits)
  show "n \<le> length src \<and> entry_ok enc e n" if "itemKR enc st src = Character e n st'" for st' n e
    using that src by (auto simp: itemKR_def item_rules Let_def split: if_splits option.splits iso2022_item.splits
        dest: graphic_character)
  show "itemKR enc st (src @ ext) = itemKR enc st src" if "itemKR enc st src \<noteq> NeedMore" for ext
  proof -
    let ?G = "decodeJPGraphic enc st"
    have g: "?G (src @ ext) = ?G src \<or> ?G src = NeedMore" by (rule graphic_settled_case [OF src])
    consider "src ! 0 = 0x1B" | "src ! 0 = 0x0E" | "src ! 0 = 0x0F"
      | "src ! 0 \<noteq> 0x1B" "src ! 0 \<noteq> 0x0E" "src ! 0 \<noteq> 0x0F" by blast
    then show ?thesis
    proof cases
      case 1
      show ?thesis
      proof (cases rule: list_cases4 [of src])
        case (2 a)
        then show ?thesis using that 1 by (simp add: itemKR_def)
      next
        case (3 a b)
        then show ?thesis using that 1 by (simp add: itemKR_def Let_def split: if_splits)
      next
        case (4 a b c ys)
        then show ?thesis using that 1 by (cases ys) (auto simp: itemKR_def Let_def set_g0_def split: if_splits)
      qed (use src in simp)
    qed (use that src g in \<open>auto simp: itemKR_def nth_append Let_def split: if_splits iso2022_item.splits\<close>)
  qed
qed


interpretation jp1: item_reader "itemJP1 enc" "entry_ok enc" for enc by (rule item_reader_jp1)
interpretation jp2: item_reader "itemJP2 enc" "entry_ok enc" for enc by (rule item_reader_jp2)
interpretation jp3: item_reader "itemJP3 enc" "entry_ok enc" for enc by (rule item_reader_jp3)
interpretation jpms: item_reader "itemJPMS enc" "entry_ok enc" for enc by (rule item_reader_jpms)
interpretation cn: item_reader "itemCN extended enc" "entry_ok enc" for extended enc by (rule item_reader_cn)
interpretation kr: item_reader "itemKR enc" "entry_ok enc" for enc by (rule item_reader_kr)

subsection \<open>The decoder as a transformer\<close>

lemma kind_cases:
  "kind_charsets kind \<noteq> None \<longleftrightarrow> kind \<in> {''iso2022-jp1'', ''iso2022-jp2'', ''iso2022-jp3'',
     ''iso2022-jpms'', ''iso2022-cn'', ''iso2022-cn-ext'', ''iso2022-kr''}"
  by (auto simp: kind_charsets_def split: if_splits)

lemma decodeOne_reader:
  assumes "kind_charsets (ikind enc) \<noteq> None"
  obtains item neutral st0 where "item_reader item (entry_ok enc)"
    and "\<And>eof src. decodeOne enc st src eof = iso2022_loop item neutral eof 0 st0 src"
proof -
  consider "ikind enc = ''iso2022-jp1''"
    | "ikind enc = ''iso2022-jp2''"
    | "ikind enc = ''iso2022-jp3''"
    | "ikind enc = ''iso2022-jpms''"
    | "ikind enc = ''iso2022-cn''"
    | "ikind enc = ''iso2022-cn-ext''"
    | "ikind enc = ''iso2022-kr''"
    using assms unfolding kind_cases by blast
  then show thesis
  proof cases
    case 1
    then show ?thesis
      by (intro that [of "itemJP1 enc" "\<lambda>s. g0 s = ''ascii''" "initialG0 st"] item_reader_jp1) (simp add: decodeOne_def)
  next
    case 2
    then show ?thesis
      by (intro that [of "itemJP2 enc" "\<lambda>s. g0 s = ''ascii''" "initialG0 st"] item_reader_jp2) (simp add: decodeOne_def)
  next
    case 3
    then show ?thesis
      by (intro that [of "itemJP3 enc" "\<lambda>s. g0 s = ''ascii''" "initialG0 st"] item_reader_jp3) (simp add: decodeOne_def)
  next
    case 4
    then show ?thesis
      by (intro that [of "itemJPMS enc" "\<lambda>s. g0 s = ''ascii'' \<or> g0 s = ''jis0201-roman''" "initialG0 st"] item_reader_jpms) (simp add: decodeOne_def)
  next
    case 5
    then show ?thesis
      by (intro that [of "itemCN False enc" "\<lambda>s. \<not> shifted s" "st"] item_reader_cn) (simp add: decodeOne_def)
  next
    case 6
    then show ?thesis
      by (intro that [of "itemCN True enc" "\<lambda>s. \<not> shifted s" "st"] item_reader_cn) (simp add: decodeOne_def)
  next
    case 7
    then show ?thesis
      by (intro that [of "itemKR enc" "\<lambda>s. \<not> shifted s" "st"] item_reader_kr) (simp add: decodeOne_def)
  qed
qed

lemma decoder_Emit:
  "iso2022Decoder enc st eof src = Emit bs need n st' \<longleftrightarrow>
     (\<exists>e. decodeOne enc st src eof = Decoded e n st' \<and> 0 < n \<and>
       (if Length e = 0 then bs = [] \<and> need = 0 else bs = entry_out e \<and> need = entry_need e))"
  by (auto simp: iso2022Decoder_def split: iso2022_result.splits)

lemma decoder_Stop:
  "iso2022Decoder enc st eof src = Stop need x \<longleftrightarrow> need = 0 \<and>
     (decodeOne enc st src eof = Failed x \<or>
      (\<exists>e st'. decodeOne enc st src eof = Decoded e 0 st') \<and> x = Panic ''ISO-2022 decoder made no progress'')"
  by (auto simp: iso2022Decoder_def split: iso2022_result.splits)

lemma iso2022Decoder_step:
  assumes "kind_charsets (ikind enc) \<noteq> None" "raw_valid enc"
  shows "bounded_step (iso2022Decoder enc) 8"
proof
  fix st :: iso2022_state and src :: bytes
  assume src: "src \<noteq> []"
  obtain item neutral st0 where item: "item_reader item (entry_ok enc)"
    and loop: "\<And>eof src. decodeOne enc st src eof = iso2022_loop item neutral eof 0 st0 src"
    using decodeOne_reader [OF assms(1), of st] by metis
  note decoded = item_reader.loop_decoded [OF item, where i = 0]
  note failed = item_reader.loop_failed [OF item, where i = 0]
  note settled = item_reader.loop_settled [OF item, where i = 0]
  have same: "decodeOne enc st (src @ ext) True = decodeOne enc st src False"
    if "decodeOne enc st src False \<noteq> Failed ErrShortSrc" for ext
    using settled that by (simp add: loop)
  have entry: "n \<le> length src \<and> (Length e = 0 \<or> valid_entry e)"
    if "decodeOne enc st src eof = Decoded e n st'" for e n st' eof
    using decoded [of neutral eof st0 src e n st'] that assms(2)
    by (auto simp: loop entry_ok_def emptyEntry_def)
  show "0 < n \<and> n \<le> length src \<and> need = int (length bs)"
    if "iso2022Decoder enc st eof src = Emit bs need n st'" for eof bs need n st'
    using that by (auto simp: decoder_Emit entry_need_out dest: entry split: if_splits)
  show "need \<le> int 8" if "iso2022Decoder enc st eof src = Emit bs need n st'" for eof bs need n st'
    using that entry_out_room by (auto simp: decoder_Emit entry_need_out dest: entry split: if_splits)
  show "iso2022Decoder enc st True (src @ ext) = Emit bs need n st'"
    if "iso2022Decoder enc st False src = Emit bs need n st'" for bs need n st' ext
    using that same [of ext] by (auto simp: decoder_Emit)
  show "iso2022Decoder enc st True (src @ ext) = Stop need e"
    if "iso2022Decoder enc st False src = Stop need e" "e \<noteq> ErrShortSrc" for need e ext
    using that same [of ext] by (auto simp: decoder_Stop)
  show "iso2022Decoder enc st True src \<noteq> Stop need ErrShortSrc" for need
    using failed [of neutral True st0 src] by (auto simp: decoder_Stop loop)
  show "iso2022Decoder enc st eof src \<noteq> Stop need ErrShortDst" for eof need
    using failed [of neutral eof st0 src] by (auto simp: decoder_Stop loop)
  show "need \<le> int 8" if "iso2022Decoder enc st eof src = Stop need e" for eof need e
    using that by (simp add: decoder_Stop)
qed


subsection \<open>The designations\<close>

text \<open>
  Every designated name is a charset the construction has loaded, so the lookups that fail for an
  unknown charset fail for a missing code only; and in the shifted state there is a charset to shift to.
\<close>

definition designated :: "iso2022_encoding \<Rightarrow> iso2022_state \<Rightarrow> bool" where
  "designated enc st \<longleftrightarrow>
     (\<forall>n \<in> {g0 st, g1 st, g2 st, g3 st}. n = [] \<or> n = ''ascii'' \<or> map_of (raw enc) n \<noteq> None) \<and>
     (shifted st \<longrightarrow> g1 st \<noteq> [])"

definition complete :: "iso2022_encoding \<Rightarrow> bool" where
  "complete enc \<longleftrightarrow> (\<exists>ns. kind_charsets (ikind enc) = Some ns \<and> (\<forall>n \<in> set ns. map_of (raw enc) n \<noteq> None))"

fun item_keeps :: "(iso2022_state \<Rightarrow> bool) \<Rightarrow> iso2022_item \<Rightarrow> bool" where
  "item_keeps keep (Escape st n) = keep st"
| "item_keeps keep (Character e n st) = keep st"
| "item_keeps keep _ = True"

lemma loop_keeps:
  "\<forall>st src. src \<noteq> [] \<longrightarrow> keep st \<longrightarrow> item_keeps keep (item st src) \<Longrightarrow>
   iso2022_loop item neutral eof i st src = Decoded e n st' \<Longrightarrow> keep st \<Longrightarrow> keep st'"
proof (induction item neutral eof i st src rule: iso2022_loop.induct)
  case (1 item neutral eof i st src)
  show ?case
  proof (cases "src = []")
    case True
    then show ?thesis using 1(3,4)
      by (auto simp: iso2022_loop.simps finishISO2022StateOnly_def shortOrInvalidISO2022_def split: if_splits)
  next
    case False
    have keeps: "item_keeps keep (item st src)" using 1(2,4) False by blast
    have unfolded: "(case item st src of
          Escape st' n \<Rightarrow> if n = 0 then Failed (Panic ''no progress'')
            else iso2022_loop item neutral eof (i + n) st' (drop n src)
        | Character e n st' \<Rightarrow> Decoded e (i + n) st'
        | NeedMore \<Rightarrow> shortOrInvalidISO2022 eof
        | Illegal \<Rightarrow> invalidISO2022) = Decoded e n st'"
      using 1(3) False by (subst (asm) iso2022_loop.simps) simp
    show ?thesis
    proof (cases "item st src")
      case (Escape q m)
      then have "keep q" using keeps by simp
      then show ?thesis using 1(1) [OF False Escape _ 1(2)] unfolded Escape by (auto split: if_splits)
    qed (use unfolded keeps in \<open>auto simp: shortOrInvalidISO2022_def invalidISO2022_def\<close>)
  qed
qed

lemma graphic_keeps: "keep st \<Longrightarrow> item_keeps keep (decodeJPGraphic enc st src)"
  by (auto simp: decodeJPGraphic_def found_def split: option.splits)

lemma keeps_if: "item_keeps keep (if b then x else y) \<longleftrightarrow> (b \<longrightarrow> item_keeps keep x) \<and> (\<not> b \<longrightarrow> item_keeps keep y)"
  by simp

lemma keeps_found: "keep st \<Longrightarrow> item_keeps keep (found e n st)"
  by (simp add: found_def split: option.splits)

lemma cns_name_range:
  assumes "0x49 \<le> b" "b \<le> 0x4D"
  shows "cns_name b \<in> {''cns3'', ''cns4'', ''cns5'', ''cns6'', ''cns7''}"
proof -
  have "73 \<le> unat b" "unat b \<le> 77" using assms by (simp_all add: word_le_nat_alt)
  then have "unat b \<in> {73, 74, 75, 76, 77}" by auto
  moreover have "b = of_nat (unat b)" by simp
  ultimately have "b \<in> {0x49, 0x4A, 0x4B, 0x4C, 0x4D}" by (metis insert_iff of_nat_numeral singletonD)
  moreover have "list_all (\<lambda>b. cns_name b \<in> {''cns3'', ''cns4'', ''cns5'', ''cns6'', ''cns7''})
      [0x49, 0x4A, 0x4B, 0x4C, 0x4D]"
    by code_simp
  ultimately show ?thesis by auto
qed

lemma found_keeps: "keep st \<Longrightarrow> item_keeps keep (found e n st)"
  by (simp add: found_def split: option.splits)

lemma designated_updates:
  "designated enc st \<Longrightarrow> map_of (raw enc) n \<noteq> None \<Longrightarrow> n \<noteq> [] \<Longrightarrow> designated enc (st\<lparr>g1 := n\<rparr>)"
  "designated enc st \<Longrightarrow> map_of (raw enc) n \<noteq> None \<Longrightarrow> designated enc (st\<lparr>g2 := n\<rparr>)"
  "designated enc st \<Longrightarrow> map_of (raw enc) n \<noteq> None \<Longrightarrow> designated enc (st\<lparr>g3 := n\<rparr>)"
  "designated enc st \<Longrightarrow> g1 st \<noteq> [] \<Longrightarrow> designated enc (st\<lparr>shifted := True\<rparr>)"
  "designated enc st \<Longrightarrow> designated enc (st\<lparr>shifted := False\<rparr>)"
  "designated enc st \<Longrightarrow> \<not> shifted st \<Longrightarrow> designated enc (st\<lparr>g1 := [], g2 := []\<rparr>)"
  "designated enc st \<Longrightarrow> \<not> shifted st \<Longrightarrow> designated enc (st\<lparr>g1 := [], g2 := [], g3 := []\<rparr>)"
  by (auto simp: designated_def)

lemma item_keeps_designated:
  assumes "complete enc" "designated enc st"
  shows "ikind enc = ''iso2022-jp1'' \<Longrightarrow> item_keeps (designated enc) (itemJP1 enc st src)"
    and "ikind enc = ''iso2022-jp2'' \<Longrightarrow> item_keeps (designated enc) (itemJP2 enc st src)"
    and "ikind enc = ''iso2022-jp3'' \<Longrightarrow> item_keeps (designated enc) (itemJP3 enc st src)"
    and "ikind enc = ''iso2022-jpms'' \<Longrightarrow> item_keeps (designated enc) (itemJPMS enc st src)"
    and "ikind enc = ''iso2022-cn'' \<Longrightarrow> item_keeps (designated enc) (itemCN False enc st src)"
    and "ikind enc = ''iso2022-cn-ext'' \<Longrightarrow> item_keeps (designated enc) (itemCN True enc st src)"
    and "ikind enc = ''iso2022-kr'' \<Longrightarrow> item_keeps (designated enc) (itemKR enc st src)"
proof -
  note d = assms [unfolded complete_def designated_def kind_charsets_def]
  note kept = graphic_keeps [of "designated enc", OF assms(2)] found_keeps [of "designated enc", OF assms(2)]
  note k = set_g0_def kept designated_def
  show "item_keeps (designated enc) (itemJP1 enc st src)" if "ikind enc = ''iso2022-jp1''"
    using d that by (simp add: itemJP1_def k)
  show "item_keeps (designated enc) (itemJP3 enc st src)" if "ikind enc = ''iso2022-jp3''"
    using d that by (simp add: itemJP3_def k)
  show "item_keeps (designated enc) (itemJPMS enc st src)" if "ikind enc = ''iso2022-jpms''"
    using d that by (simp add: itemJPMS_def k)
  show "item_keeps (designated enc) (itemKR enc st src)" if "ikind enc = ''iso2022-kr''"
    using d that by (simp add: itemKR_def k)
  show "item_keeps (designated enc) (itemCN False enc st src)" if "ikind enc = ''iso2022-cn''"
    using d that by (simp add: itemCN_def kept designated_updates assms(2) Let_def)
  show "item_keeps (designated enc) (itemCN True enc st src)" if "ikind enc = ''iso2022-cn-ext''"
  proof -
    have "\<forall>n \<in> {''cns3'', ''cns4'', ''cns5'', ''cns6'', ''cns7''}. map_of (raw enc) n \<noteq> None"
      using d(1) that by simp
    then have g3: "map_of (raw enc) (cns_name b) \<noteq> None" if "0x49 \<le> b" "b \<le> 0x4D" for b
      using cns_name_range [OF that] by blast
    show ?thesis using d(1) that g3 [of "src ! 3"] unfolding itemCN_def Let_def keeps_if
      by (intro conjI impI) (simp_all add: kept designated_updates assms(2))
  qed
  show "item_keeps (designated enc) (itemJP2 enc st src)" if "ikind enc = ''iso2022-jp2''"
  proof (cases "src ! 0 = 0x1B")
    case True
    then show ?thesis using d that by (simp add: itemJP2_def k)
  next
    case False
    have "designated enc q \<Longrightarrow> designated enc (q\<lparr>g2 := []\<rparr>)" for q by (simp add: designated_def)
    then show ?thesis using False kept(1) [of enc src]
      by (cases "decodeJPGraphic enc st src") (simp_all add: itemJP2_def)
  qed
qed


lemma transform_loop_keeps:
  "\<forall>s src bs need n s'. src \<noteq> [] \<longrightarrow> keep s \<longrightarrow> step s eof src = Emit bs need n s' \<longrightarrow> keep s' \<Longrightarrow>
   transform_loop step cap s eof src = (written, k, e, s') \<Longrightarrow> keep s \<Longrightarrow> keep s'"
proof (induction src arbitrary: cap s written k e s' rule: length_induct)
  case (1 src)
  show ?case
  proof (cases "src = []")
    case False
    show ?thesis
    proof (cases "step s eof src")
      case (Emit bs need n q)
      then have q: "keep q" using 1(2,4) False by blast
      show ?thesis
      proof (cases "int cap < need \<or> cap < length bs \<or> n = 0")
        case True
        then show ?thesis using 1(3,4) False Emit
          by (auto simp: transform_loop.simps [of step cap] split: if_splits)
      next
        case go: False
        obtain o' k' e' q' where rec: "transform_loop step (cap - length bs) q eof (drop n src) = (o', k', e', q')"
          by (metis prod_cases4)
        then have "q' = s'" using 1(3) False Emit go by (simp add: transform_loop.simps [of step cap])
        moreover have "length (drop n src) < length src" using go False by auto
        ultimately show ?thesis using 1(1) 1(2) rec q by blast
      qed
    qed (use 1(3,4) False in \<open>auto simp: transform_loop.simps [of step cap]\<close>)
  qed (use 1(3,4) in auto)
qed

lemma decoder_keeps_designated:
  assumes "complete enc" "designated enc st" "iso2022Decoder enc st eof src = Emit bs need n st'"
  shows "designated enc st'"
proof -
  obtain e where e: "decodeOne enc st src eof = Decoded e n st'"
    using assms(3) by (auto simp: decoder_Emit)
  have start: "designated enc (initialG0 st)" using assms(2) by (auto simp: designated_def initialG0_def)
  note keeps = item_keeps_designated [OF assms(1)]
  note loop = loop_keeps [where keep = "designated enc"]
  have "kind_charsets (ikind enc) \<noteq> None" using assms(1) by (auto simp: complete_def)
  then consider "ikind enc = ''iso2022-jp1''" | "ikind enc = ''iso2022-jp2''"
    | "ikind enc = ''iso2022-jp3''" | "ikind enc = ''iso2022-jpms''" | "ikind enc = ''iso2022-cn''"
    | "ikind enc = ''iso2022-cn-ext''" | "ikind enc = ''iso2022-kr''"
    unfolding kind_cases by blast
  then show ?thesis
  proof cases
    case 1
    show ?thesis using e loop [of "itemJP1 enc", OF _ _ start] keeps(1) [OF _ 1] by (simp add: decodeOne_def 1)
  next
    case 2
    show ?thesis using e loop [of "itemJP2 enc", OF _ _ start] keeps(2) [OF _ 2] by (simp add: decodeOne_def 2)
  next
    case 3
    show ?thesis using e loop [of "itemJP3 enc", OF _ _ start] keeps(3) [OF _ 3] by (simp add: decodeOne_def 3)
  next
    case 4
    show ?thesis using e loop [of "itemJPMS enc", OF _ _ start] keeps(4) [OF _ 4] by (simp add: decodeOne_def 4)
  next
    case 5
    show ?thesis using e loop [of "itemCN False enc", OF _ _ assms(2)] keeps(5) [OF _ 5] by (simp add: decodeOne_def 5)
  next
    case 6
    show ?thesis using e loop [of "itemCN True enc", OF _ _ assms(2)] keeps(6) [OF _ 6] by (simp add: decodeOne_def 6)
  next
    case 7
    show ?thesis using e loop [of "itemKR enc", OF _ _ assms(2)] keeps(7) [OF _ 7] by (simp add: decodeOne_def 7)
  qed
qed

text \<open>The states a decoder can be in: after \<^verbatim>\<open>Reset\<close>, and after any call that follows.\<close>

inductive iso2022_reachable :: "iso2022_encoding \<Rightarrow> iso2022_state \<Rightarrow> bool" for enc where
  reset: "iso2022_reachable enc initial_state"
| call: "iso2022_reachable enc st \<Longrightarrow>
    transform_loop (iso2022Decoder enc) cap st eof src = (bs, k, e, st') \<Longrightarrow> iso2022_reachable enc st'"

lemma reachable_designated: "iso2022_reachable enc st \<Longrightarrow> complete enc \<Longrightarrow> designated enc st"
proof (induction rule: iso2022_reachable.induct)
  case reset
  then show ?case by (simp add: designated_def initial_state_def)
next
  case (call st cap eof src bs k e st')
  then show ?case
    using transform_loop_keeps [of "designated enc" "iso2022Decoder enc" eof, OF _ call(2)]
      decoder_keeps_designated [of enc] by blast
qed

lemma loadRaw_Inr:
  "loadRaw cs m = Inr m' \<Longrightarrow> set m' = set cs \<union> set m \<and>
   (\<forall>(n, c) \<in> set cs. n \<noteq> [] \<and> width c \<in> {1, 2} \<and> rdecode c \<noteq> [])"
proof (induction cs m rule: loadRaw.induct)
  case (2 name c cs m)
  then show ?case by (auto split: if_splits option.splits)
qed simp

lemma newISO2022Encoding_Inr:
  assumes "newISO2022Encoding name kind specs tbl pairs = Inr (enc, encoder)"
  shows "complete enc" "set (raw enc) = set specs" "\<forall>(n, c) \<in> set specs. n \<noteq> [] \<and> width c \<in> {1, 2}"
    "ikind enc = kind"
  using assms loadRaw_Inr [of specs "[]"]
  by (auto simp: newISO2022Encoding_def complete_def split: if_splits sum.splits option.splits)

subsection \<open>Properties\<close>

text \<open>C36: a decoder that the construction accepted, whose charset tables hold valid entries, can be called
  with the source cut anywhere: after a call that stops for room or for more source, what is still
  to come is what the whole text gives after what was written, designations and shifts included; a
  call that fails fails with the error of the whole text; eight free bytes are always enough to
  make progress.\<close>

theorem iso2022_resumable:
  assumes "newISO2022Encoding name kind specs tbl pairs = Inr (enc, encoder)"
    and "\<forall>(n, c) \<in> set specs. \<forall>e \<in> set (rdecode c). valid_entry e"
    and "transform_loop (iso2022Decoder enc) cap st eof src = (bs, k, err, st')"
    and "eof \<longrightarrow> ext = []"
  shows "k \<le> length src \<and> (err = None \<longrightarrow> k = length src) \<and>
    (err = Some ErrShortDst \<and> src \<noteq> [] \<and> 8 \<le> cap \<longrightarrow> 0 < k) \<and>
    (if err \<in> {None, Some ErrShortSrc, Some ErrShortDst}
     then run_all (iso2022Decoder enc) st (src @ ext) =
       (bs @ fst (run_all (iso2022Decoder enc) st' (drop k src @ ext)),
        snd (run_all (iso2022Decoder enc) st' (drop k src @ ext)))
     else run_all (iso2022Decoder enc) st (src @ ext) = (bs, err))"
proof -
  note new = newISO2022Encoding_Inr [OF assms(1)]
  have "kind_charsets (ikind enc) \<noteq> None" using new(1) by (auto simp: complete_def)
  moreover have "raw_valid enc" using new(2,3) assms(2) by (fastforce simp: raw_valid_def)
  ultimately have b: "bounded_step (iso2022Decoder enc) 8" by (rule iso2022Decoder_step)
  have "err = Some ErrShortDst \<and> src \<noteq> [] \<and> 8 \<le> cap \<longrightarrow> 0 < k"
    using bounded_step.short_dst_moves [OF b] assms(3) by auto
  then show ?thesis
    using stream_step.loop_resumes [OF bounded_step.axioms(1) [OF b] assms(3,4)] by simp
qed

definition sample_kr :: "string + iso2022_encoding \<times> multibyte_encoding" where
  "sample_kr = newISO2022Encoding [0x4B] ''iso2022-kr''
     [(''ksc5601'', \<lparr>width = 2, rdecode = [\<lparr>Packed = 0x30210000, Length = 2, Rune1 = 0xAC00, Rune2 = 0\<rparr>]\<rparr>)]
     [\<lparr>Rune = 0xAC00, Bytes = [0x1B, 0x24, 0x29, 0x43, 0x0E, 0x30, 0x21, 0x0F]\<rparr>] []"

definition sample_kr_enc :: iso2022_encoding where
  "sample_kr_enc = fst (projr sample_kr)"

definition sample_kr_state :: iso2022_state where
  "sample_kr_state = \<lparr>g0 = [], g1 = ''ksc5601'', g2 = [], g3 = [], shifted = True\<rparr>"

lemma sample_kr_call:
  "transform_loop (iso2022Decoder sample_kr_enc) 8 initial_state False
     [0x1B, 0x24, 0x29, 0x43, 0x0E, 0x30, 0x21, 0x0F] =
     (encode_rune 0xAC00, 7, Some ErrShortSrc, sample_kr_state)"
  by code_simp

lemma iso2022_resumable_witness:
  "run_all (iso2022Decoder sample_kr_enc) initial_state
     ([0x1B, 0x24, 0x29, 0x43, 0x0E, 0x30, 0x21, 0x0F] @ [0x41]) =
     (encode_rune 0xAC00 @ fst (run_all (iso2022Decoder sample_kr_enc) sample_kr_state [0x0F, 0x41]),
      snd (run_all (iso2022Decoder sample_kr_enc) sample_kr_state [0x0F, 0x41]))"
proof -
  have 1: "sample_kr = Inr (sample_kr_enc, snd (projr sample_kr))" by code_simp
  have 2: "\<forall>(n, c) \<in> set [(''ksc5601'', \<lparr>width = 2, rdecode =
      [\<lparr>Packed = 0x30210000, Length = 2, Rune1 = 0xAC00, Rune2 = 0\<rparr>]\<rparr>)].
      \<forall>e \<in> set (rdecode c). valid_entry e" by code_simp
  show ?thesis
    using iso2022_resumable [OF 1 [unfolded sample_kr_def] 2 sample_kr_call, of "[0x41]"] by simp
qed

text \<open>In every state a decoder can reach, each designation is empty, ASCII or one of the charsets the
  construction loaded and checked, and the shifted state always has a charset to read from.\<close>

theorem iso2022_designations:
  assumes "newISO2022Encoding name kind specs tbl pairs = Inr (enc, encoder)"
    and "iso2022_reachable enc st"
  shows "(\<forall>n \<in> {g0 st, g1 st, g2 st, g3 st}. n = [] \<or> n = ''ascii'' \<or>
      (\<exists>c. (n, c) \<in> set specs \<and> map_of (raw enc) n = Some c \<and> width c \<in> {1, 2})) \<and>
    (shifted st \<longrightarrow> g1 st \<noteq> [])"
proof -
  note new = newISO2022Encoding_Inr [OF assms(1)]
  note d = reachable_designated [OF assms(2) new(1), unfolded designated_def]
  have charset: "(n, c) \<in> set specs \<and> width c \<in> {1, 2}" if "map_of (raw enc) n = Some c" for n c
  proof -
    have "(n, c) \<in> set specs" using map_of_SomeD [OF that] new(2) by simp
    with new(3) show ?thesis by blast
  qed
  show ?thesis
  proof (intro conjI ballI)
    fix n assume "n \<in> {g0 st, g1 st, g2 st, g3 st}"
    then have "n = [] \<or> n = ''ascii'' \<or> map_of (raw enc) n \<noteq> None" by (rule d [THEN conjunct1, THEN bspec])
    then show "n = [] \<or> n = ''ascii'' \<or>
        (\<exists>c. (n, c) \<in> set specs \<and> map_of (raw enc) n = Some c \<and> width c \<in> {1, 2})"
      using charset [of n] by (cases "map_of (raw enc) n") auto
  qed (rule d [THEN conjunct2])
qed

lemma iso2022_designations_witness:
  "\<exists>c. map_of (raw sample_kr_enc) (g1 sample_kr_state) = Some c \<and> width c \<in> {1, 2}"
proof -
  have 1: "sample_kr = Inr (sample_kr_enc, snd (projr sample_kr))" by code_simp
  have 2: "iso2022_reachable sample_kr_enc sample_kr_state"
    using sample_kr_call by (rule iso2022_reachable.call [OF iso2022_reachable.reset])
  show ?thesis
    using iso2022_designations [OF 1 [unfolded sample_kr_def] 2] by (auto simp: sample_kr_state_def)
qed

end
