(* ===== verification/Go_Hex.thy ===== *)
theory Go_Hex
  imports Go_Utf8
begin

text \<open>
  What the stores use of Go's \<^verbatim>\<open>encoding/hex\<close>, \<^verbatim>\<open>strings\<close> and \<^verbatim>\<open>unicode\<close>: lower-case hexadecimal, the
  digits a decoder accepts, and texts that trimming leaves empty.
\<close>

definition hex_digit :: "nat \<Rightarrow> byte" where
  "hex_digit n = of_nat (if n < 10 then 0x30 + n else 0x61 + (n - 10))"

definition hex_encode :: "bytes \<Rightarrow> bytes" where
  "hex_encode p = concat (map (\<lambda>b. [hex_digit (unat b div 16), hex_digit (unat b mod 16)]) p)"

definition is_hex :: "byte \<Rightarrow> bool" where
  "is_hex b \<longleftrightarrow> 0x30 \<le> b \<and> b \<le> 0x39 \<or> 0x61 \<le> b \<and> b \<le> 0x66 \<or> 0x41 \<le> b \<and> b \<le> 0x46"

lemma hex_digit_is_hex: "n < 16 \<Longrightarrow> is_hex (hex_digit n)"
proof -
  have "list_all (\<lambda>n. is_hex (hex_digit n)) [0..<16]" by code_simp
  then have "\<forall>n \<in> set [0..<16]. is_hex (hex_digit n)" unfolding list_all_iff .
  then show "n < 16 \<Longrightarrow> is_hex (hex_digit n)" by simp
qed

lemma hex_encode_hex: "list_all is_hex (hex_encode p)"
proof (induction p)
  case (Cons b p)
  have "unat b < 2 ^ LENGTH(8)" by (rule unsigned_less)
  then have "unat b div 16 < 16" "unat b mod 16 < 16" by auto
  then show ?case using Cons by (simp add: hex_encode_def hex_digit_is_hex)
qed (simp add: hex_encode_def)

lemma length_hex_encode: "length (hex_encode p) = 2 * length p"
  by (induction p) (simp_all add: hex_encode_def)

definition is_space :: "rune \<Rightarrow> bool" where
  "is_space r \<longleftrightarrow>
     r \<in> {9, 10, 11, 12, 13, 32, 0x85, 0xA0, 0x1680, 0x2028, 0x2029, 0x202F, 0x205F, 0x3000} \<or>
     0x2000 \<le> r \<and> r \<le> 0x200A"

text \<open>\<^verbatim>\<open>strings.TrimSpace(p) == ""\<close>: every rune is a space.\<close>

function blank :: "bytes \<Rightarrow> bool" where
  "blank p =
     (if p = [] then True
      else is_space (fst (decode_rune p)) \<and> blank (drop (snd (decode_rune p)) p))"
  by pat_completeness auto
termination
  by (relation "measure length") (use decode_rune_step_measure in auto)

declare blank.simps [simp del]

text \<open>A valid text in front does not change whether what follows is valid.\<close>

lemma decode_rune_append_valid:
  "p \<noteq> [] \<Longrightarrow> decode_rune p \<noteq> (rune_error, 1) \<Longrightarrow> decode_rune (p @ q) = decode_rune p"
proof (cases p)
  case (Cons p0 ps)
  show "p \<noteq> [] \<Longrightarrow> decode_rune p \<noteq> (rune_error, 1) \<Longrightarrow> ?thesis"
  proof (cases p0 rule: utf8_lead_cases)
    case 1
    then show ?thesis by (simp add: Cons decode_rune_None)
  next
    case (2 sz lo hi)
    then show "decode_rune p \<noteq> (rune_error, 1) \<Longrightarrow> ?thesis" unfolding Cons
      by (cases ps rule: list_cases4) (auto simp: decode_rune_Some Let_def split: if_splits)
  qed
qed simp

lemma valid_append: "utf8_valid a \<Longrightarrow> utf8_valid (a @ b) = utf8_valid b"
proof (induction a rule: utf8_valid.induct)
  case (1 a)
  show ?case
  proof (cases "a = []")
    case False
    note v = 1(2) [unfolded utf8_valid_step [OF False]]
    have d: "decode_rune (a @ b) = decode_rune a" using v by (intro decode_rune_append_valid [OF False]) simp
    have "utf8_valid (drop (snd (decode_rune a)) a @ b) = utf8_valid b" using 1(1) [OF False] v by blast
    then show ?thesis
      using v False decode_rune_size(2) [OF False] by (simp add: utf8_valid_step [of "a @ b"] d)
  qed simp
qed

text \<open>\<^verbatim>\<open>strings.ToValidUTF8\<close>: every run of bytes that are no character becomes one replacement.\<close>

function ToValidUTF8 :: "bytes \<Rightarrow> bool \<Rightarrow> bytes \<Rightarrow> bytes" where
  "ToValidUTF8 rep invalid p =
     (if p = [] then []
      else if decode_rune p = (rune_error, 1) then (if invalid then [] else rep) @ ToValidUTF8 rep True (drop 1 p)
      else take (snd (decode_rune p)) p @ ToValidUTF8 rep False (drop (snd (decode_rune p)) p))"
  by pat_completeness auto
termination
  by (relation "measure (\<lambda>(rep, invalid, p). length p)") (use decode_rune_step_measure in auto)

declare ToValidUTF8.simps [simp del]

function shorten_valid :: "bytes \<Rightarrow> bytes" where
  "shorten_valid m = (if utf8_valid m then m else shorten_valid (butlast m))"
  by pat_completeness auto
termination
proof (relation "measure length")
  show "\<not> utf8_valid m \<Longrightarrow> (butlast m, m) \<in> measure length" for m by (cases m) auto
qed simp

declare shorten_valid.simps [simp del]

end
