(* ===== verification/Go_Chunks.thy ===== *)
theory Go_Chunks
  imports Single_Byte Go_Hex
begin

text \<open>
  Where a valid text may be cut: the character boundaries that the stores of responses and of deferred
  results look for with \<^verbatim>\<open>utf8.RuneStart\<close>, \<^verbatim>\<open>utf8.Valid\<close> and \<^verbatim>\<open>utf8.DecodeRune\<close>.
\<close>

subsection \<open>Character boundaries\<close>

text \<open>The boundaries of a valid text are the ends of its prefixes of characters.\<close>

definition boundary :: "bytes \<Rightarrow> nat \<Rightarrow> bool" where
  "boundary p n \<longleftrightarrow> n \<le> length p \<and> utf8_valid (take n p) \<and> utf8_valid (drop n p)"

lemma rune_start_cases: "rune_start b \<longleftrightarrow> \<not> (0x80 \<le> uint b \<and> uint b \<le> 0xBF)"
proof -
  have "list_all (\<lambda>n. rune_start (of_nat n) \<longleftrightarrow> \<not> (128 \<le> n \<and> n \<le> 191)) [0..<256]" by code_simp
  then have "\<forall>n \<in> set [0..<256]. rune_start (of_nat n) \<longleftrightarrow> \<not> (128 \<le> n \<and> n \<le> 191)"
    unfolding list_all_iff .
  moreover have "unat b \<in> set [0..<256]" using unat_byte [of b] by simp
  ultimately have "rune_start (of_nat (unat b)) \<longleftrightarrow> \<not> (128 \<le> unat b \<and> unat b \<le> 191)" by blast
  then have "rune_start b \<longleftrightarrow> \<not> (128 \<le> unat b \<and> unat b \<le> 191)" by simp
  then show ?thesis unfolding uint_nat by linarith
qed

lemma rune_start_tail: "\<not> rune_start (byte_of (0x80 + r mod 64))"
proof -
  have "0 \<le> r mod 64" "r mod 64 < 64" by auto
  then show ?thesis unfolding rune_start_cases uint_byte_of_tail by simp
qed

lemma encode_rune_tail:
  assumes "0 < i" "i < length (encode_rune r)"
  shows "\<not> rune_start (encode_rune r ! i)"
proof -
  have s: "\<not> rune_start (encode_scalar q ! i)" if "0 < i" "i < length (encode_scalar q)" for q
    using that rune_start_tail by (auto simp: encode_scalar_def nth_Cons' less_Suc_eq)
  show ?thesis using assms s unfolding encode_rune_def by blast
qed

lemma valid_encode_runes: "\<forall>r \<in> set rs. valid_rune r \<Longrightarrow> utf8_valid (encode_runes rs)"
  by (induction rs) auto

lemma boundary_runes:
  assumes "\<forall>r \<in> set rs. valid_rune r" "n < length (encode_runes rs)" "rune_start (encode_runes rs ! n)"
  shows "\<exists>k. take n (encode_runes rs) = encode_runes (take k rs)
    \<and> drop n (encode_runes rs) = encode_runes (drop k rs)"
  using assms
proof (induction rs arbitrary: n)
  case (Cons r rs)
  show ?case
  proof (cases "n < length (encode_rune r)")
    case True
    then have "n = 0" using Cons(4) encode_rune_tail [of n r] by (cases n) (auto simp: nth_append)
    then show ?thesis by (intro exI [of _ 0]) simp
  next
    case False
    then obtain k where "take (n - length (encode_rune r)) (encode_runes rs) = encode_runes (take k rs)
        \<and> drop (n - length (encode_rune r)) (encode_runes rs) = encode_runes (drop k rs)"
      using Cons(1) [of "n - length (encode_rune r)"] Cons(2-4) by (fastforce simp: nth_append)
    then show ?thesis using False by (intro exI [of _ "Suc k"]) simp
  qed
qed simp

lemma start_boundary:
  assumes "utf8_valid p" "n \<le> length p" "n = 0 \<or> n = length p \<or> rune_start (p ! n)"
  shows "boundary p n"
proof -
  obtain rs where rs: "\<forall>r \<in> set rs. valid_rune r" "p = encode_runes rs"
    using valid_text_runes [OF assms(1)] by blast
  show ?thesis
  proof (cases "n = 0 \<or> n = length p")
    case False
    then obtain k where "take n p = encode_runes (take k rs)" "drop n p = encode_runes (drop k rs)"
      using boundary_runes [of rs n] rs assms by auto
    moreover have "utf8_valid (encode_runes (take k rs))" "utf8_valid (encode_runes (drop k rs))"
      using rs(1) by (auto intro!: valid_encode_runes dest: in_set_takeD in_set_dropD)
    ultimately show ?thesis using assms(2) by (simp add: boundary_def)
  qed (use assms(1) in \<open>auto simp: boundary_def\<close>)
qed

lemma slice_boundary:
  assumes "boundary p i" "i \<le> j" "j \<le> length p" "utf8_valid (take (j - i) (drop i p))"
  shows "boundary p j"
proof -
  have t: "take j p = take i p @ take (j - i) (drop i p)"
    using assms(2) by (metis le_add_diff_inverse take_add)
  have d: "drop i p = take (j - i) (drop i p) @ drop j p"
    using assms(2) by (metis append_take_drop_id drop_drop le_add_diff_inverse2)
  have "utf8_valid (take i p)" "utf8_valid (drop i p)" using assms(1) by (auto simp: boundary_def)
  with assms(3,4) t d show ?thesis unfolding boundary_def by (metis valid_append)
qed

lemma rune_boundary:
  assumes "boundary p i" "i < length p"
  shows "boundary p (i + snd (decode_rune (drop i p)))" "0 < snd (decode_rune (drop i p))"
    "snd (decode_rune (drop i p)) \<le> 4" "i + snd (decode_rune (drop i p)) \<le> length p"
proof -
  let ?q = "drop i p" and ?n = "snd (decode_rune (drop i p))"
  have q: "?q \<noteq> []" "utf8_valid ?q" using assms by (auto simp: boundary_def)
  note sz = decode_rune_size [OF q(1)]
  have ok: "decode_rune ?q \<noteq> (rune_error, 1)" using utf8_valid_step [OF q(1)] q(2) by simp
  obtain r n where D: "decode_rune ?q = (r, n)" by fastforce
  have "valid_rune r \<and> encode_rune r = take n ?q" using encode_decode_rune [OF q(1) D] ok D by simp
  then have "utf8_valid (take n ?q)" using utf8_valid_encode_rune [of r "[]"] by auto
  moreover have "?n = n" using D by simp
  moreover have len: "i + ?n \<le> length p" using sz(2) assms(2) by simp
  ultimately show "boundary p (i + ?n)" using slice_boundary [OF assms(1), of "i + ?n"] by simp
  show "0 < ?n" "?n \<le> 4" "i + ?n \<le> length p" using sz len by simp_all
qed

lemma encode_rune_head:
  assumes "valid_rune r"
  shows "rune_start (encode_rune r ! 0)"
proof -
  have "0 \<le> r" "r \<le> 0x10FFFF" using valid_rune_bounds [OF assms] by auto
  then show ?thesis using assms
    by (simp add: encode_rune_def encode_scalar_def rune_start_cases uint_byte_of) (auto simp: uint_byte_of)
qed

lemma boundary_start: "boundary p n \<Longrightarrow> n < length p \<Longrightarrow> rune_start (p ! n)"
proof -
  assume b: "boundary p n" "n < length p"
  obtain rs where rs: "\<forall>r \<in> set rs. valid_rune r" "drop n p = encode_runes rs"
    using b valid_text_runes [of "drop n p"] by (auto simp: boundary_def)
  then obtain r rs' where "rs = r # rs'" using b(2) by (cases rs) auto
  then have "drop n p ! 0 = encode_rune r ! 0" "valid_rune r"
    using rs encode_rune_nonempty [of r] by (auto simp: nth_append)
  then show "rune_start (p ! n)" using encode_rune_head b(2) by (metis Cons_nth_drop_Suc nth_Cons_0)
qed

end
