(* ===== verification/Response_Store.thy ===== *)
theory Response_Store
  imports Go_Chunks "HOL-Library.List_Lexorder" "HOL-Library.Product_Lexorder"
begin

text \<open>
  The store of long responses, \<^verbatim>\<open>internal/responsecontinuation/store.go\<close>: payloads kept for a while
  under a random id and read back in chunks. The map of entries is the list of its values, each of
  which holds its own id; times are integers of the clock; the clock and the random bytes are
  arguments of the operations that read them.
\<close>

datatype store_error = ErrNotFound | ErrInvalidInput | ErrCapacity | ErrRandom

record limits =
  MaxEntries :: int
  MaxTotalBytes :: int
  MaxChunkBytes :: int
  Retention :: int

record metadata =
  OriginalIsError :: bool
  ErrorCode :: bytes

record handle =
  OperationID :: bytes
  TotalBytes :: int
  handleMeta :: metadata

record chunk =
  chunkID :: bytes
  chunkMeta :: metadata
  chunkTotalBytes :: int
  Offset :: int
  NextOffset :: int
  Data :: bytes
  Complete :: bool

record response_entry =
  entryID :: bytes
  payload :: bytes
  entryMeta :: metadata
  created :: int
  expires :: int

record response_store =
  limits :: limits
  entries :: "response_entry list"
  totalBytes :: int

definition NewStore :: "limits \<Rightarrow> response_store" where
  "NewStore l =
     \<lparr>limits =
        \<lparr>MaxEntries = (if MaxEntries l \<le> 0 then 64 else MaxEntries l),
         MaxTotalBytes = (if MaxTotalBytes l \<le> 0 then 128 * 1024 * 1024 else MaxTotalBytes l),
         MaxChunkBytes = (if MaxChunkBytes l \<le> 0 then 512 * 1024 else MaxChunkBytes l),
         Retention = (if Retention l \<le> 0 then 3600000000000 else Retention l)\<rparr>,
      entries = [], totalBytes = 0\<rparr>"

text \<open>\<^verbatim>\<open>rand.Read\<close> fills the 32 bytes or fails.\<close>

definition randomOperationID :: "bytes option \<Rightarrow> store_error + bytes" where
  "randomOperationID rnd =
     (case rnd of None \<Rightarrow> Inl ErrRandom | Some p \<Rightarrow> Inr (str ''op_'' @ hex_encode p))"

definition validOperationID :: "bytes \<Rightarrow> bool" where
  "validOperationID value \<longleftrightarrow>
     length value = 67 \<and> take 3 value = str ''op_'' \<and> list_all is_hex (drop 3 value)"

definition handleFromEntry :: "response_entry \<Rightarrow> handle" where
  "handleFromEntry item =
     \<lparr>OperationID = entryID item, TotalBytes = int (length (payload item)), handleMeta = entryMeta item\<rparr>"

definition payload_size :: "response_entry list \<Rightarrow> int" where
  "payload_size es = sum_list (map (\<lambda>e. int (length (payload e))) es)"

definition purgeExpiredLocked :: "int \<Rightarrow> response_store \<Rightarrow> response_store" where
  "purgeExpiredLocked now st =
     st\<lparr>entries := filter (\<lambda>e. now < expires e) (entries st),
        totalBytes := totalBytes st - payload_size (filter (\<lambda>e. \<not> now < expires e) (entries st))\<rparr>"

definition has_room :: "int \<Rightarrow> response_store \<Rightarrow> bool" where
  "has_room incoming st \<longleftrightarrow>
     int (length (entries st)) < MaxEntries (limits st) \<and>
     incoming \<le> MaxTotalBytes (limits st) - totalBytes st"

definition remove_entry :: "response_entry \<Rightarrow> response_store \<Rightarrow> response_store" where
  "remove_entry item st =
     st\<lparr>entries := filter (\<lambda>e. entryID e \<noteq> entryID item) (entries st),
        totalBytes := totalBytes st - int (length (payload item))\<rparr>"

fun evict_loop :: "int \<Rightarrow> response_entry list \<Rightarrow> response_store \<Rightarrow> response_store" where
  "evict_loop incoming [] st = st"
| "evict_loop incoming (item # items) st =
     (if has_room incoming st then st else evict_loop incoming items (remove_entry item st))"

definition by_age :: "response_entry list \<Rightarrow> response_entry list" where
  "by_age es = sort_key (\<lambda>e. (created e, entryID e)) es"

definition evictForLocked :: "int \<Rightarrow> response_store \<Rightarrow> response_store" where
  "evictForLocked incoming st =
     (if has_room incoming st then st else evict_loop incoming (by_age (entries st)) st)"

definition Retain ::
  "bytes option \<Rightarrow> int \<Rightarrow> bytes \<Rightarrow> metadata \<Rightarrow> response_store \<Rightarrow> (store_error + handle) \<times> response_store"
where
  "Retain rnd now p meta st =
     (if p = [] \<or> \<not> utf8_valid p then (Inl ErrInvalidInput, st)
      else if int (length p) > MaxTotalBytes (limits st) then (Inl ErrCapacity, st)
      else case randomOperationID rnd of
          Inl e \<Rightarrow> (Inl e, st)
        | Inr i \<Rightarrow>
            (let st1 = evictForLocked (int (length p)) (purgeExpiredLocked now st)
             in if int (length (entries st1)) \<ge> MaxEntries (limits st) \<or>
                   int (length p) > MaxTotalBytes (limits st) - totalBytes st1
                then (Inl ErrCapacity, st1)
                else (let e = \<lparr>entryID = i, payload = p, entryMeta = meta, created = now,
                               expires = now + Retention (limits st)\<rparr>
                      in (Inr (handleFromEntry e),
                          st1\<lparr>entries := e # filter (\<lambda>x. entryID x \<noteq> i) (entries st1),
                              totalBytes := totalBytes st1 + int (length p)\<rparr>))))"

text \<open>The loop that moves the end of a chunk back to a character boundary.\<close>

fun shrink_end :: "bytes \<Rightarrow> nat \<Rightarrow> nat \<Rightarrow> nat" where
  "shrink_end p offset 0 = 0"
| "shrink_end p offset (Suc e) =
     (if Suc e > offset \<and> Suc e < length p \<and> \<not> utf8_valid (take (Suc e - offset) (drop offset p))
      then shrink_end p offset e else Suc e)"

definition chunk_end :: "int \<Rightarrow> bytes \<Rightarrow> nat \<Rightarrow> int \<Rightarrow> nat option" where
  "chunk_end maxChunk p offset limitBytes =
     (let limit = (if limitBytes = 0 \<or> limitBytes > maxChunk then maxChunk else limitBytes);
          stop = shrink_end p offset (min (offset + nat limit) (length p))
      in if stop = offset \<and> offset < length p
         then (let n = snd (decode_rune (drop offset p))
               in if n = 0 \<or> int n > maxChunk then None else Some (offset + n))
         else Some stop)"

definition Get ::
  "int \<Rightarrow> bytes \<Rightarrow> int \<Rightarrow> int \<Rightarrow> response_store \<Rightarrow> (store_error + chunk) \<times> response_store"
where
  "Get now operationID offset limitBytes st =
     (if \<not> validOperationID operationID \<or> offset < 0 \<or> limitBytes < 0 then (Inl ErrInvalidInput, st)
      else let st1 = purgeExpiredLocked now st
        in case find (\<lambda>e. entryID e = operationID) (entries st1) of
             None \<Rightarrow> (Inl ErrNotFound, st1)
           | Some item \<Rightarrow>
               (let p = payload item; o1 = nat offset
                in if o1 > length p \<or> o1 > 0 \<and> o1 < length p \<and> \<not> rune_start (p ! o1)
                   then (Inl ErrInvalidInput, st1)
                   else case chunk_end (MaxChunkBytes (limits st)) p o1 limitBytes of
                       None \<Rightarrow> (Inl ErrInvalidInput, st1)
                     | Some stop \<Rightarrow>
                         (Inr \<lparr>chunkID = operationID, chunkMeta = entryMeta item,
                               chunkTotalBytes = int (length p), Offset = offset,
                               NextOffset = int stop, Data = take (stop - o1) (drop o1 p),
                               Complete = (stop = length p)\<rparr>, st1)))"

subsection \<open>The end of a chunk\<close>

lemma shrink_end_range:
  "offset \<le> e \<Longrightarrow> e \<le> length p \<Longrightarrow> offset \<le> shrink_end p offset e \<and> shrink_end p offset e \<le> e \<and>
   (shrink_end p offset e = offset \<or> shrink_end p offset e = length p \<or>
    utf8_valid (take (shrink_end p offset e - offset) (drop offset p)))"
  by (induction p offset e rule: shrink_end.induct) (auto simp: le_Suc_eq)

lemma chunk_end_ok:
  assumes "boundary p i" "i < length p" "4 \<le> maxChunk" "0 \<le> limitBytes"
  shows "\<exists>j. chunk_end maxChunk p i limitBytes = Some j \<and> i < j \<and> boundary p j \<and>
    int (j - i) \<le> maxChunk \<and> (0 < limitBytes \<longrightarrow> int (j - i) \<le> max limitBytes 4)"
proof -
  define limit where "limit = (if limitBytes = 0 \<or> limitBytes > maxChunk then maxChunk else limitBytes)"
  define e where "e = min (i + nat limit) (length p)"
  have l: "0 < limit" "limit \<le> maxChunk" "0 < limitBytes \<longrightarrow> limit \<le> limitBytes"
    using assms(3,4) by (auto simp: limit_def)
  have e: "i \<le> e" "e \<le> length p" "int (e - i) \<le> limit" using assms(2) l(1) by (auto simp: e_def)
  note s = shrink_end_range [OF e(1,2)]
  note r = rune_boundary [OF assms(1,2)]
  have c: "chunk_end maxChunk p i limitBytes = (if shrink_end p i e = i
      then Some (i + snd (decode_rune (drop i p))) else Some (shrink_end p i e))"
    unfolding chunk_end_def Let_def e_def [symmetric] limit_def [symmetric]
    using r assms(2,3) by auto
  show ?thesis
  proof (cases "shrink_end p i e = i")
    case True
    then show ?thesis using c r assms(3) by auto
  next
    case False
    have "boundary p (shrink_end p i e)"
    proof (cases "shrink_end p i e = length p")
      case True
      have "utf8_valid p" using slice_boundary [of p i "length p"] assms(1)
        by (metis append_take_drop_id boundary_def valid_append)
      then show ?thesis by (simp add: True boundary_def)
    next
      case whole: False
      then show ?thesis using s False e assms(1)
        by (intro slice_boundary [of p i "shrink_end p i e"]) simp_all
    qed
    then show ?thesis using c s False e l by auto
  qed
qed


subsection \<open>What is kept\<close>

lemma payload_size_simps [simp]:
  "payload_size [] = 0"
  "payload_size (e # es) = int (length (payload e)) + payload_size es"
  "payload_size (es @ es') = payload_size es + payload_size es'"
  by (simp_all add: payload_size_def)

lemma payload_size_nonneg: "0 \<le> payload_size es"
  by (induction es) auto

lemma payload_size_split:
  "payload_size (filter P es) + payload_size (filter (\<lambda>e. \<not> P e) es) = payload_size es"
  by (induction es) auto

lemma payload_size_mset: "mset es = mset es' \<Longrightarrow> payload_size es = payload_size es'"
  unfolding payload_size_def by (metis mset_map sum_mset_sum_list)

lemma payload_size_filter_le: "payload_size (filter P es) \<le> payload_size es"
  using payload_size_split [of P es] payload_size_nonneg [of "filter (\<lambda>e. \<not> P e) es"] by linarith

lemma filter_count: "int (length es) \<le> m \<Longrightarrow> int (length (filter P es)) \<le> m"
  using length_filter_le [of P es] by linarith

definition store_bounded :: "response_store \<Rightarrow> bool" where
  "store_bounded st \<longleftrightarrow>
     0 < MaxEntries (limits st) \<and> 0 < MaxTotalBytes (limits st) \<and> 0 < MaxChunkBytes (limits st) \<and>
     distinct (map entryID (entries st)) \<and>
     int (length (entries st)) \<le> MaxEntries (limits st) \<and>
     payload_size (entries st) \<le> totalBytes st \<and> totalBytes st \<le> MaxTotalBytes (limits st) \<and>
     (\<forall>e \<in> set (entries st). payload e \<noteq> [] \<and> utf8_valid (payload e))"

lemma mset_by_age: "mset (by_age es) = mset es"
  by (simp add: by_age_def)

lemma set_by_age [simp]: "set (by_age es) = set es"
  by (simp add: by_age_def)

lemma remove_entry_limits [simp]: "limits (remove_entry e st) = limits st"
  by (simp add: remove_entry_def)

lemma purge_limits [simp]: "limits (purgeExpiredLocked now st) = limits st"
  by (simp add: purgeExpiredLocked_def)

lemma other_ids: "distinct (map entryID (x # es)) \<Longrightarrow> y \<in> set es \<Longrightarrow> entryID y \<noteq> entryID x"
  by (metis distinct.simps(2) image_eqI list.simps(9) set_map)

lemma payload_size_remove:
  "distinct (map entryID es) \<Longrightarrow> e \<in> set es \<Longrightarrow>
   payload_size (filter (\<lambda>x. entryID x \<noteq> entryID e) es) = payload_size es - int (length (payload e))"
proof (induction es)
  case (Cons x es)
  show ?case
  proof (cases "x = e")
    case True
    then have "filter (\<lambda>x. entryID x \<noteq> entryID e) es = es" using other_ids [OF Cons(2)] by (simp add: filter_id_conv)
    then show ?thesis using True by simp
  next
    case False
    then show ?thesis using Cons by (auto simp: image_iff)
  qed
qed simp

lemma store_bounded_purge: "store_bounded st \<Longrightarrow> store_bounded (purgeExpiredLocked now st)"
proof -
  assume b: "store_bounded st"
  let ?l = "filter (\<lambda>e. now < expires e) (entries st)" and ?x = "filter (\<lambda>e. \<not> now < expires e) (entries st)"
  have "payload_size ?l + payload_size ?x = payload_size (entries st)" by (rule payload_size_split)
  moreover have "distinct (map entryID ?l)" using b by (simp add: store_bounded_def distinct_map_filter)
  moreover have "0 \<le> payload_size ?x" by (rule payload_size_nonneg)
  ultimately show ?thesis using b by (simp add: store_bounded_def purgeExpiredLocked_def filter_count)
qed

lemma store_bounded_remove:
  "store_bounded st \<Longrightarrow> e \<in> set (entries st) \<Longrightarrow> store_bounded (remove_entry e st)"
  using payload_size_remove [of "entries st" e]
  by (auto simp: store_bounded_def remove_entry_def distinct_map_filter filter_count)

lemma evict_loop_bounded:
  "store_bounded st \<Longrightarrow> distinct (map entryID items) \<Longrightarrow> set items \<subseteq> set (entries st) \<Longrightarrow>
   store_bounded (evict_loop incoming items st) \<and> limits (evict_loop incoming items st) = limits st"
proof (induction incoming items st rule: evict_loop.induct)
  case (2 incoming item items st)
  have "store_bounded (remove_entry item st)" using store_bounded_remove 2(2,4) by simp
  moreover have "set items \<subseteq> set (entries (remove_entry item st))"
    using 2(4) other_ids [OF 2(3)] by (auto simp: remove_entry_def)
  ultimately show ?case using 2 by auto
qed simp

lemma evict_bounded:
  "store_bounded st \<Longrightarrow>
   store_bounded (evictForLocked incoming st) \<and> limits (evictForLocked incoming st) = limits st"
proof -
  assume b: "store_bounded st"
  have "distinct (map entryID (by_age (entries st)))"
    using b mset_eq_imp_distinct_iff [of "map entryID (by_age (entries st))" "map entryID (entries st)"]
    by (simp add: store_bounded_def mset_by_age)
  then show ?thesis using evict_loop_bounded [OF b, of "by_age (entries st)" incoming] b
    by (simp add: evictForLocked_def)
qed

lemma retain_bounded:
  assumes "store_bounded st"
  shows "store_bounded (snd (Retain rnd now p meta st)) \<and> limits (snd (Retain rnd now p meta st)) = limits st"
proof -
  define st1 where "st1 = evictForLocked (int (length p)) (purgeExpiredLocked now st)"
  have b: "store_bounded st1" "limits st1 = limits st"
    using evict_bounded [OF store_bounded_purge [OF assms, of now], of "int (length p)"] by (auto simp: st1_def)
  have keep: "store_bounded (st1\<lparr>entries := e # filter (\<lambda>x. entryID x \<noteq> entryID e) (entries st1),
      totalBytes := totalBytes st1 + int (length p)\<rparr>)"
    if "int (length (entries st1)) < MaxEntries (limits st)" "p \<noteq> []" "utf8_valid p" "payload e = p"
      "int (length p) \<le> MaxTotalBytes (limits st) - totalBytes st1" for e
  proof -
    have "payload_size (filter (\<lambda>x. entryID x \<noteq> entryID e) (entries st1)) \<le> totalBytes st1"
      using payload_size_filter_le [of "\<lambda>x. entryID x \<noteq> entryID e" "entries st1"] b(1)
      by (simp add: store_bounded_def)
    moreover have "int (length (filter (\<lambda>x. entryID x \<noteq> entryID e) (entries st1))) \<le> MaxEntries (limits st) - 1"
      using that(1) by (intro filter_count) linarith
    ultimately show ?thesis using b that by (auto simp: store_bounded_def distinct_map_filter)
  qed
  show ?thesis
  proof (cases "p = [] \<or> \<not> utf8_valid p \<or> int (length p) > MaxTotalBytes (limits st) \<or> rnd = None")
    case True
    then show ?thesis using assms by (auto simp: Retain_def randomOperationID_def)
  next
    case False
    then obtain r where r: "rnd = Some r" by auto
    show ?thesis
      using False b keep [of "\<lparr>entryID = str ''op_'' @ hex_encode r, payload = p, entryMeta = meta,
          created = now, expires = now + Retention (limits st)\<rparr>"]
      by (simp add: Retain_def randomOperationID_def r Let_def st1_def [symmetric])
  qed
qed

lemma get_store: "snd (Get now i off lim st) = st \<or> snd (Get now i off lim st) = purgeExpiredLocked now st"
  by (auto simp: Get_def Let_def split: option.splits)


text \<open>The states of a store: new, after an attempt to keep a response, and after an attempt to read one.\<close>

inductive store_reachable :: "response_store \<Rightarrow> bool" where
  new: "store_reachable (NewStore l)"
| retain: "store_reachable st \<Longrightarrow> store_reachable (snd (Retain rnd now p meta st))"
| get: "store_reachable st \<Longrightarrow> store_reachable (snd (Get now i off lim st))"

lemma reachable_bounded: "store_reachable st \<Longrightarrow> store_bounded st"
proof (induction rule: store_reachable.induct)
  case (new l)
  then show ?case by (simp add: store_bounded_def NewStore_def)
next
  case (retain st rnd now p meta)
  then show ?case using retain_bounded by blast
next
  case (get st now i off lim)
  then show ?case using get_store [of now i off lim st] store_bounded_purge by auto
qed

subsection \<open>Eviction\<close>

text \<open>The ids are fresh when no two entries ever had the same: then the counter is exact.\<close>

definition counted :: "response_store \<Rightarrow> bool" where
  "counted st \<longleftrightarrow> totalBytes st = payload_size (entries st)"

definition room_after :: "int \<Rightarrow> response_store \<Rightarrow> nat \<Rightarrow> bool" where
  "room_after incoming st k \<longleftrightarrow>
     int (length (entries st) - k) < MaxEntries (limits st) \<and>
     incoming + payload_size (drop k (by_age (entries st))) \<le> MaxTotalBytes (limits st)"

lemma evict_loop_counted:
  "distinct (map entryID items) \<Longrightarrow> mset (entries st) = mset items \<Longrightarrow> counted st \<Longrightarrow>
   \<exists>k \<le> length items. mset (entries (evict_loop incoming items st)) = mset (drop k items) \<and>
     counted (evict_loop incoming items st) \<and> limits (evict_loop incoming items st) = limits st \<and>
     (k < length items \<longrightarrow> has_room incoming (evict_loop incoming items st)) \<and>
     (\<forall>j < k. \<not> (int (length items - j) < MaxEntries (limits st) \<and>
        incoming + payload_size (drop j items) \<le> MaxTotalBytes (limits st)))"
proof (induction incoming items st rule: evict_loop.induct)
  case (2 incoming item items st)
  have size: "payload_size (entries st) = payload_size (item # items)"
    "length (entries st) = length (item # items)"
    using 2(3) payload_size_mset mset_eq_length by blast+
  show ?case
  proof (cases "has_room incoming st")
    case True
    then show ?thesis using 2(3,4) by (intro exI [of _ 0]) simp
  next
    case False
    have ids: "filter (\<lambda>x. entryID x \<noteq> entryID item) items = items"
      using other_ids [OF 2(2)] by (simp add: filter_id_conv)
    have m: "mset (entries (remove_entry item st)) = mset items"
      using 2(3) ids by (simp add: remove_entry_def mset_filter)
        (metis (no_types, lifting) filter_mset_add_mset mset_filter)
    have c: "counted (remove_entry item st)"
      using 2(4) payload_size_mset [OF m] size by (simp add: counted_def remove_entry_def)
    obtain k where k: "k \<le> length items"
      "mset (entries (evict_loop incoming items (remove_entry item st))) = mset (drop k items)"
      "counted (evict_loop incoming items (remove_entry item st))"
      "limits (evict_loop incoming items (remove_entry item st)) = limits st"
      "k < length items \<longrightarrow> has_room incoming (evict_loop incoming items (remove_entry item st))"
      "\<forall>j < k. \<not> (int (length items - j) < MaxEntries (limits st) \<and>
          incoming + payload_size (drop j items) \<le> MaxTotalBytes (limits st))"
      using 2(1) [OF False _ m c] 2(2) by auto
    have "\<not> (int (length (item # items)) < MaxEntries (limits st) \<and>
        incoming + payload_size (item # items) \<le> MaxTotalBytes (limits st))"
      using False 2(4) size by (auto simp: has_room_def counted_def)
    then have "\<forall>j < Suc k. \<not> (int (length (item # items) - j) < MaxEntries (limits st) \<and>
        incoming + payload_size (drop j (item # items)) \<le> MaxTotalBytes (limits st))"
      using k(6) by (auto simp: less_Suc_eq_0_disj)
    then show ?thesis using k(1-5) False by (intro exI [of _ "Suc k"]) simp
  qed
qed simp

lemma evict_counted:
  assumes "store_bounded st" "counted st" "0 \<le> incoming" "incoming \<le> MaxTotalBytes (limits st)"
  shows "\<exists>k \<le> length (entries st). mset (entries (evictForLocked incoming st)) = mset (drop k (by_age (entries st))) \<and>
    counted (evictForLocked incoming st) \<and> limits (evictForLocked incoming st) = limits st \<and>
    has_room incoming (evictForLocked incoming st) \<and> (\<forall>j < k. \<not> room_after incoming st j)"
proof (cases "has_room incoming st")
  case True
  then show ?thesis using assms(2) by (intro exI [of _ 0]) (simp add: evictForLocked_def mset_by_age)
next
  case False
  let ?items = "by_age (entries st)"
  have len: "length ?items = length (entries st)" using mset_by_age mset_eq_length by blast
  have d: "distinct (map entryID ?items)"
    using assms(1) mset_eq_imp_distinct_iff [of "map entryID ?items" "map entryID (entries st)"]
    by (simp add: store_bounded_def mset_by_age)
  obtain k where k: "k \<le> length ?items"
    "mset (entries (evict_loop incoming ?items st)) = mset (drop k ?items)"
    "counted (evict_loop incoming ?items st)" "limits (evict_loop incoming ?items st) = limits st"
    "k < length ?items \<longrightarrow> has_room incoming (evict_loop incoming ?items st)"
    "\<forall>j < k. \<not> (int (length ?items - j) < MaxEntries (limits st) \<and>
        incoming + payload_size (drop j ?items) \<le> MaxTotalBytes (limits st))"
    using evict_loop_counted [OF d _ assms(2), of incoming] mset_by_age [of "entries st"] by auto
  have "has_room incoming (evict_loop incoming ?items st)"
  proof (cases "k < length ?items")
    case False
    then have "entries (evict_loop incoming ?items st) = []" using k(1,2) by simp
    then show ?thesis using k(3,4) assms(1,4) by (simp add: has_room_def counted_def store_bounded_def)
  qed (use k(5) in simp)
  then show ?thesis using k False len by (auto simp: evictForLocked_def room_after_def)
qed

lemma counted_purge: "counted st \<Longrightarrow> counted (purgeExpiredLocked now st)"
  using payload_size_split [of "\<lambda>e. now < expires e" "entries st"]
  by (simp add: counted_def purgeExpiredLocked_def)


subsection \<open>Reading\<close>

lemma find_filter: "find P xs = Some x \<Longrightarrow> Q x \<Longrightarrow> find P (filter Q xs) = Some x"
  by (induction xs) (auto split: if_splits)

lemma get_chunk:
  assumes "store_bounded st" "4 \<le> MaxChunkBytes (limits st)" "validOperationID i" "0 \<le> lim"
    and "find (\<lambda>e. entryID e = i) (entries st) = Some item" "now < expires item"
    and "boundary (payload item) n"
  obtains c st' where "Get now i (int n) lim st = (Inr c, st')" "store_bounded st'" "limits st' = limits st"
    "find (\<lambda>e. entryID e = i) (entries st') = Some item"
    "\<exists>m. NextOffset c = int m \<and> n \<le> m \<and> (n < length (payload item) \<longrightarrow> n < m) \<and> boundary (payload item) m \<and>
      Data c = take (m - n) (drop n (payload item)) \<and> (Complete c \<longleftrightarrow> m = length (payload item)) \<and>
      int (m - n) \<le> MaxChunkBytes (limits st) \<and> (0 < lim \<longrightarrow> int (m - n) \<le> max lim 4)"
proof -
  let ?p = "payload item" and ?max = "MaxChunkBytes (limits st)"
  note f = find_filter [of _ _ _ "\<lambda>e. now < expires e", OF assms(5,6)]
  have start: "\<not> (n > length ?p \<or> n > 0 \<and> n < length ?p \<and> \<not> rune_start (?p ! n))"
    using boundary_start [OF assms(7)] assms(7) by (auto simp: boundary_def)
  obtain m where m: "chunk_end ?max ?p n lim = Some m" "n \<le> m" "n < length ?p \<longrightarrow> n < m" "boundary ?p m"
    "int (m - n) \<le> ?max" "0 < lim \<longrightarrow> int (m - n) \<le> max lim 4"
  proof (cases "n < length ?p")
    case True
    then show ?thesis using chunk_end_ok [OF assms(7) True assms(2,4)] that by auto
  next
    case False
    then have n: "n = length ?p" using assms(7) by (simp add: boundary_def)
    have "shrink_end ?p n n = n" by (cases n) auto
    moreover define l where "l = nat (if lim = 0 \<or> lim > ?max then ?max else lim)"
    moreover have "min (n + l) (length ?p) = n" using n by simp
    ultimately have "chunk_end ?max ?p n lim = Some n" using n by (simp add: chunk_end_def Let_def)
    moreover have "0 < lim \<longrightarrow> int (n - n) \<le> max lim 4" by auto
    ultimately show ?thesis using that [of n] assms(2,7) n by simp
  qed
  show ?thesis
  proof (rule that)
    show "Get now i (int n) lim st = (Inr \<lparr>chunkID = i, chunkMeta = entryMeta item,
        chunkTotalBytes = int (length ?p), Offset = int n, NextOffset = int m, Data = take (m - n) (drop n ?p),
        Complete = (m = length ?p)\<rparr>, purgeExpiredLocked now st)"
      using assms(3,4) f m(1) start by (simp add: Get_def Let_def purgeExpiredLocked_def)
    show "store_bounded (purgeExpiredLocked now st)" using store_bounded_purge assms(1) .
    show "find (\<lambda>e. entryID e = i) (entries (purgeExpiredLocked now st)) = Some item"
      using f by (simp add: purgeExpiredLocked_def)
    show "limits (purgeExpiredLocked now st) = limits st" by simp
  qed (use m in auto)
qed

text \<open>A client that asks for chunk after chunk, following \<^verbatim>\<open>nextOffset\<close>, with at most \<^verbatim>\<open>fuel\<close> requests.\<close>

fun read_response :: "nat \<Rightarrow> (nat \<Rightarrow> int) \<Rightarrow> bytes \<Rightarrow> int \<Rightarrow> int \<Rightarrow> response_store \<Rightarrow> bytes option" where
  "read_response 0 clock i offset lim st = None"
| "read_response (Suc fuel) clock i offset lim st =
     (case Get (clock fuel) i offset lim st of
        (Inl e, _) \<Rightarrow> None
      | (Inr c, st') \<Rightarrow>
          if Complete c then Some (Data c)
          else map_option (\<lambda>d. Data c @ d) (read_response fuel clock i (NextOffset c) lim st'))"

lemma read_response_all:
  assumes "4 \<le> MaxChunkBytes (limits st)" "validOperationID i" "0 \<le> lim"
    and "\<And>t. clock t < expires item"
  shows "store_bounded st \<Longrightarrow> find (\<lambda>e. entryID e = i) (entries st) = Some item \<Longrightarrow>
    boundary (payload item) n \<Longrightarrow> length (payload item) - n < fuel \<Longrightarrow>
    read_response fuel clock i (int n) lim st = Some (drop n (payload item))"
  using assms(1)
proof (induction fuel arbitrary: n st)
  case (Suc fuel)
  let ?p = "payload item"
  obtain c st' where c: "Get (clock fuel) i (int n) lim st = (Inr c, st')" "store_bounded st'"
    "limits st' = limits st" "find (\<lambda>e. entryID e = i) (entries st') = Some item"
    "\<exists>m. NextOffset c = int m \<and> n \<le> m \<and> (n < length ?p \<longrightarrow> n < m) \<and> boundary ?p m \<and>
      Data c = take (m - n) (drop n ?p) \<and> (Complete c \<longleftrightarrow> m = length ?p) \<and>
      int (m - n) \<le> MaxChunkBytes (limits st) \<and> (0 < lim \<longrightarrow> int (m - n) \<le> max lim 4)"
    by (rule get_chunk [OF Suc(2) Suc(6) assms(2,3) Suc(3) assms(4) Suc(4)])
  then obtain m where m: "NextOffset c = int m" "n \<le> m" "n < length ?p \<longrightarrow> n < m" "boundary ?p m"
    "Data c = take (m - n) (drop n ?p)" "Complete c \<longleftrightarrow> m = length ?p" by blast
  show ?case
  proof (cases "m = length ?p")
    case True
    then show ?thesis using c(1) m(5,6) by simp
  next
    case False
    then have less: "m < length ?p" "n < m" using m by (auto simp: boundary_def)
    then have "read_response fuel clock i (int m) lim st' = Some (drop m ?p)"
      using Suc(1) [OF c(2,4) m(4)] Suc(5,6) c(3) by simp
    moreover have "take (m - n) (drop n ?p) @ drop m ?p = drop n ?p"
      using m(2) by (metis append_take_drop_id drop_drop le_add_diff_inverse2)
    ultimately show ?thesis using c(1) m(1,5,6) False by simp
  qed
qed simp


subsection \<open>Properties\<close>

text \<open>C37: whatever is kept and read, in whatever order and at whatever times, and even if a random id
  comes twice, the store holds at most the configured number of responses and of bytes, one per id,
  and only valid texts.\<close>

theorem responses_bounded:
  assumes "store_reachable st"
  shows "int (length (entries st)) \<le> MaxEntries (limits st) \<and>
    payload_size (entries st) \<le> totalBytes st \<and> totalBytes st \<le> MaxTotalBytes (limits st) \<and>
    distinct (map entryID (entries st)) \<and>
    (\<forall>e \<in> set (entries st). payload e \<noteq> [] \<and> utf8_valid (payload e))"
  using reachable_bounded [OF assms] by (simp add: store_bounded_def)

definition sample_limits :: limits where
  "sample_limits = \<lparr>MaxEntries = 1, MaxTotalBytes = 8, MaxChunkBytes = 4, Retention = 100\<rparr>"

definition sample_id :: bytes where
  "sample_id = str ''op_'' @ hex_encode (replicate 32 0)"

definition sample_store :: response_store where
  "sample_store = snd (Retain (Some (replicate 32 0)) 5 [0x61, 0xC3, 0xA9, 0x62, 0x63]
     \<lparr>OriginalIsError = False, ErrorCode = []\<rparr> (NewStore sample_limits))"

lemma sample_store_reachable: "store_reachable sample_store"
  unfolding sample_store_def by (intro store_reachable.intros)

lemma responses_bounded_witness: "payload_size (entries sample_store) \<le> 8 \<and> length (entries sample_store) = 1"
proof -
  have "MaxTotalBytes (limits sample_store) = 8" "length (entries sample_store) = 1" by code_simp+
  then show ?thesis using responses_bounded [OF sample_store_reachable] by simp
qed

text \<open>With a fresh id a response is kept exactly when it is a non-empty valid text within the byte
  limit; what is evicted for it are the oldest of the unexpired responses, and no more of them than
  it takes to make room. A refused response leaves the store as it was.\<close>

theorem retain_evicts_oldest:
  assumes "store_reachable st" "counted st" "randomOperationID rnd = Inr i" "i \<notin> entryID ` set (entries st)"
  shows "if p \<noteq> [] \<and> utf8_valid p \<and> int (length p) \<le> MaxTotalBytes (limits st)
    then \<exists>k \<le> length (entries (purgeExpiredLocked now st)). \<exists>e st'. Retain rnd now p meta st = (Inr (handleFromEntry e), st') \<and>
      entryID e = i \<and> payload e = p \<and> expires e = now + Retention (limits st) \<and> counted st' \<and>
      mset (entries st') = add_mset e (mset (drop k (by_age (entries (purgeExpiredLocked now st))))) \<and>
      (\<forall>j < k. \<not> room_after (int (length p)) (purgeExpiredLocked now st) j)
    else fst (Retain rnd now p meta st) \<in> {Inl ErrInvalidInput, Inl ErrCapacity} \<and> snd (Retain rnd now p meta st) = st"
proof (cases "p \<noteq> [] \<and> utf8_valid p \<and> int (length p) \<le> MaxTotalBytes (limits st)")
  case True
  let ?live = "purgeExpiredLocked now st" and ?n = "int (length p)"
  let ?e = "\<lparr>entryID = i, payload = p, entryMeta = meta, created = now, expires = now + Retention (limits st)\<rparr>"
  define st1 where "st1 = evictForLocked ?n ?live"
  note b = store_bounded_purge [OF reachable_bounded [OF assms(1)], of now]
  obtain k where k: "k \<le> length (entries ?live)" "mset (entries st1) = mset (drop k (by_age (entries ?live)))"
    "counted st1" "limits st1 = limits st" "has_room ?n st1" "\<forall>j < k. \<not> room_after ?n ?live j"
    using evict_counted [OF b counted_purge [OF assms(2)], of ?n] True by (auto simp: st1_def)
  have sub: "set (entries st1) \<subseteq> set (entries ?live)"
    using k(2) by (metis set_by_age set_drop_subset set_mset_mset)
  have "entryID x \<noteq> i" if "x \<in> set (entries st1)" for x
    using that sub assms(4) by (auto simp: purgeExpiredLocked_def)
  then have fresh: "filter (\<lambda>x. entryID x \<noteq> i) (entries st1) = entries st1" by (simp add: filter_id_conv)
  have "Retain rnd now p meta st = (Inr (handleFromEntry ?e),
      st1\<lparr>entries := ?e # entries st1, totalBytes := totalBytes st1 + ?n\<rparr>)"
    using True assms(3) k(4,5) fresh
    by (simp add: Retain_def st1_def [symmetric] Let_def has_room_def not_le)
  then show ?thesis using True k by (intro if_P [THEN iffD2] exI [of _ k]) (auto simp: counted_def)
qed (auto simp: Retain_def)

lemma retain_evicts_oldest_witness:
  "\<exists>e st'. Retain (Some (replicate 32 1)) 6 [0x7A] \<lparr>OriginalIsError = False, ErrorCode = []\<rparr> sample_store =
     (Inr (handleFromEntry e), st') \<and> payload e = [0x7A] \<and> counted st'"
proof -
  have 1: "counted sample_store" by code_simp
  have 2: "randomOperationID (Some (replicate 32 1)) = Inr (str ''op_'' @ hex_encode (replicate 32 1))"
    by (simp add: randomOperationID_def)
  have 3: "str ''op_'' @ hex_encode (replicate 32 1) \<notin> entryID ` set (entries sample_store)" by code_simp
  have 4: "([0x7A] :: bytes) \<noteq> [] \<and> utf8_valid [0x7A] \<and> int (length ([0x7A] :: bytes)) \<le> MaxTotalBytes (limits sample_store)"
    by code_simp
  show ?thesis
    using retain_evicts_oldest [OF sample_store_reachable 1 2 3, of "[0x7A]" 6 "\<lparr>OriginalIsError = False, ErrorCode = []\<rparr>"]
    unfolding if_P [OF 4] by blast
qed

text \<open>C7: asking for chunk after chunk returns the whole response before it expires: the last
  chunk comes after at most one request more than it has bytes, and the pieces, cut at character boundaries, make up
  exactly the response. Chunks of at least four bytes are allowed.\<close>

theorem chunks_reassemble:
  assumes "store_reachable st" "4 \<le> MaxChunkBytes (limits st)" "validOperationID i" "0 \<le> lim"
    and "find (\<lambda>e. entryID e = i) (entries st) = Some item" "\<forall>t. clock t < expires item"
  shows "read_response (Suc (length (payload item))) clock i 0 lim st = Some (payload item)"
proof -
  note b = reachable_bounded [OF assms(1)]
  have "item \<in> set (entries st)" using assms(5) by (auto simp: find_Some_iff)
  then have "boundary (payload item) 0" using b by (simp add: store_bounded_def boundary_def)
  from read_response_all [OF assms(2-4) _ b assms(5) this] assms(6) show ?thesis
    by (simp del: read_response.simps)
qed

lemma chunks_reassemble_witness:
  "read_response 6 (\<lambda>t. 104) sample_id 0 1 sample_store = Some [0x61, 0xC3, 0xA9, 0x62, 0x63]"
proof -
  have 1: "4 \<le> MaxChunkBytes (limits sample_store)" by code_simp
  have 2: "validOperationID sample_id" by code_simp
  have 3: "find (\<lambda>e. entryID e = sample_id) (entries sample_store) = Some
      \<lparr>entryID = sample_id, payload = [0x61, 0xC3, 0xA9, 0x62, 0x63],
       entryMeta = \<lparr>OriginalIsError = False, ErrorCode = []\<rparr>, created = 5, expires = 105\<rparr>" by code_simp
  show ?thesis using chunks_reassemble [OF sample_store_reachable 1 2 _ 3, of 1 "\<lambda>t. 104"]
    by (simp add: eval_nat_numeral del: read_response.simps)
qed

text \<open>A chunk asked for at a boundary is a valid text of at least one character until the end, within
  the limit of the store, and within the client's own limit unless that is smaller than a character.\<close>

theorem chunk_bounds:
  assumes "store_reachable st" "4 \<le> MaxChunkBytes (limits st)" "validOperationID i" "0 \<le> lim"
    and "find (\<lambda>e. entryID e = i) (entries st) = Some item" "now < expires item" "boundary (payload item) n"
  shows "\<exists>c st'. Get now i (int n) lim st = (Inr c, st') \<and> utf8_valid (Data c) \<and>
    NextOffset c = int (n + length (Data c)) \<and> (Data c = [] \<longleftrightarrow> n = length (payload item)) \<and>
    Data c = take (length (Data c)) (drop n (payload item)) \<and>
    (Complete c \<longleftrightarrow> n + length (Data c) = length (payload item)) \<and>
    int (length (Data c)) \<le> MaxChunkBytes (limits st) \<and> (0 < lim \<longrightarrow> int (length (Data c)) \<le> max lim 4)"
proof -
  let ?p = "payload item"
  obtain c st' where c: "Get now i (int n) lim st = (Inr c, st')" "store_bounded st'" "limits st' = limits st"
    "find (\<lambda>e. entryID e = i) (entries st') = Some item"
    "\<exists>m. NextOffset c = int m \<and> n \<le> m \<and> (n < length ?p \<longrightarrow> n < m) \<and> boundary ?p m \<and>
      Data c = take (m - n) (drop n ?p) \<and> (Complete c \<longleftrightarrow> m = length ?p) \<and>
      int (m - n) \<le> MaxChunkBytes (limits st) \<and> (0 < lim \<longrightarrow> int (m - n) \<le> max lim 4)"
    by (rule get_chunk [OF reachable_bounded [OF assms(1)] assms(2-7)])
  then obtain m where m: "NextOffset c = int m" "n \<le> m" "n < length ?p \<longrightarrow> n < m" "boundary ?p m"
    "Data c = take (m - n) (drop n ?p)" "Complete c \<longleftrightarrow> m = length ?p"
    "int (m - n) \<le> MaxChunkBytes (limits st)" "0 < lim \<longrightarrow> int (m - n) \<le> max lim 4" by blast
  have le: "n \<le> length ?p" "m \<le> length ?p" using m(4) assms(7) by (auto simp: boundary_def)
  have len: "length (Data c) = m - n" using m(5) le by simp
  have "utf8_valid (take m ?p)" "utf8_valid (take n ?p)" using m(4) assms(7) by (auto simp: boundary_def)
  moreover have "take m ?p = take n ?p @ Data c" using m(2,5) by (metis le_add_diff_inverse take_add)
  ultimately have v: "utf8_valid (Data c)" by (metis valid_append)
  have "Data c = [] \<longleftrightarrow> n = length ?p" using len m(3) le m(2) by (metis diff_is_0_eq' length_0_conv
        less_irrefl_nat nat_less_le zero_less_diff le_antisym)
  with v len m le c(1) show ?thesis by (intro exI [of _ c] exI [of _ st']) auto
qed

lemma chunk_bounds_witness:
  "\<exists>c st'. Get 6 sample_id (int 1) 1 sample_store = (Inr c, st') \<and> utf8_valid (Data c) \<and> length (Data c) \<le> 4"
proof -
  have 1: "4 \<le> MaxChunkBytes (limits sample_store)" by code_simp
  have 2: "validOperationID sample_id" by code_simp
  let ?item = "\<lparr>entryID = sample_id, payload = [0x61, 0xC3, 0xA9, 0x62, 0x63],
       entryMeta = \<lparr>OriginalIsError = False, ErrorCode = []\<rparr>, created = 5, expires = 105\<rparr>"
  have 3: "find (\<lambda>e. entryID e = sample_id) (entries sample_store) = Some ?item" by code_simp
  have 4: "boundary (payload ?item) 1" by code_simp
  show ?thesis using chunk_bounds [OF sample_store_reachable 1 2 _ 3 _ 4, of 1 6] by auto
qed

end
