(* ===== verification/Ordered_Processing.thy ===== *)
theory Ordered_Processing
  imports Prelude_Base
begin

text \<open>
  \<^verbatim>\<open>ProcessOrdered\<close> of \<^verbatim>\<open>internal/concurrency/ordered.go\<close>: items are handed to a bounded number of
  workers and their results committed in the order of the items. The goroutines are the steps of a
  relation: a worker finishes the item it runs, in any order; the main loop starts, receives a
  result, commits, sends the next item or returns; the context may be cancelled at any moment. The
  channel of jobs is unbuffered, so a send needs an idle worker; the channel of results has one
  slot per worker, and a worker whose result does not fit stays busy.
\<close>

record ordered_stats =
  Dispatched :: nat
  Completed :: nat
  Committed :: nat
  StoppedEarly :: bool
  Cancelled :: bool

datatype ordered_phase = Starting nat | Receiving | Committing | Sending | Returned

text \<open>\<^verbatim>\<open>commits\<close> is the trace of the calls of the commit callback.\<close>

record 'o ordered_state =
  phase :: ordered_phase
  jobsClosed :: bool
  dispatching :: bool
  committing :: bool
  nextDispatch :: nat
  nextCommit :: nat
  running :: "nat list"
  results :: "(nat \<times> 'o) list"
  waiting :: "(nat \<times> 'o) list"
  ctxErr :: bool
  workersCancelled :: bool
  stats :: ordered_stats
  commits :: "(nat \<times> 'o) list"

record 'o ordered_config =
  items :: nat
  workers :: nat
  ContinueOnCancellation :: bool
  commit :: "nat \<Rightarrow> 'o \<Rightarrow> bool"
  produces :: "nat \<Rightarrow> 'o \<Rightarrow> bool"

definition workerCount :: "int \<Rightarrow> nat \<Rightarrow> nat \<Rightarrow> nat" where
  "workerCount MaxWorkers numCPU n =
     (let a = (if MaxWorkers \<le> 0 then int numCPU else MaxWorkers);
          b = (if a < 1 then 1 else a)
      in min (nat b) n)"

definition closeJobs :: "'o ordered_state \<Rightarrow> 'o ordered_state" where
  "closeJobs st = (if jobsClosed st then st else st\<lparr>jobsClosed := True, dispatching := False\<rparr>)"

definition dispatch :: "'o ordered_config \<Rightarrow> 'o ordered_state \<Rightarrow> 'o ordered_state" where
  "dispatch cfg st =
     (let st1 = st\<lparr>running := running st @ [nextDispatch st], nextDispatch := nextDispatch st + 1,
                   stats := (stats st)\<lparr>Dispatched := Dispatched (stats st) + 1\<rparr>\<rparr>
      in if nextDispatch st1 = items cfg then closeJobs st1 else st1)"

definition stop_when_cancelled :: "'o ordered_config \<Rightarrow> 'o ordered_state \<Rightarrow> 'o ordered_state" where
  "stop_when_cancelled cfg st =
     (if dispatching st \<and> \<not> ContinueOnCancellation cfg \<and> ctxErr st
      then closeJobs (st\<lparr>stats := (stats st)\<lparr>Cancelled := True\<rparr>\<rparr>) else st)"

definition ordered_start :: "'o ordered_config \<Rightarrow> bool \<Rightarrow> 'o ordered_state" where
  "ordered_start cfg cancelled =
     \<lparr>phase = (if items cfg = 0 then Returned else Starting (workers cfg)), jobsClosed = False,
      dispatching = True, committing = True, nextDispatch = 0, nextCommit = 0, running = [], results = [],
      waiting = [], ctxErr = cancelled, workersCancelled = False,
      stats = \<lparr>Dispatched = 0, Completed = 0, Committed = 0, StoppedEarly = False,
               Cancelled = items cfg = 0 \<and> cancelled\<rparr>,
      commits = []\<rparr>"

text \<open>One round of the starting loop, of the loop over the results, and of the loop that commits.\<close>

definition start_one :: "'o ordered_config \<Rightarrow> nat \<Rightarrow> 'o ordered_state \<Rightarrow> 'o ordered_state" where
  "start_one cfg k st =
     (let st1 = dispatch cfg st
      in st1\<lparr>phase := if jobsClosed st1 \<or> k = 0 then Receiving else Starting k\<rparr>)"

definition receive :: "'o ordered_config \<Rightarrow> nat \<times> 'o \<Rightarrow> (nat \<times> 'o) list \<Rightarrow> 'o ordered_state \<Rightarrow> 'o ordered_state" where
  "receive cfg r rest st =
     (stop_when_cancelled cfg
        (st\<lparr>results := rest, waiting := r # waiting st,
            stats := (stats st)\<lparr>Completed := Completed (stats st) + 1\<rparr>\<rparr>))\<lparr>phase := Committing\<rparr>"

definition commit_one :: "'o ordered_config \<Rightarrow> 'o ordered_state \<Rightarrow> 'o ordered_state" where
  "commit_one cfg st =
     (case (if committing st then map_of (waiting st) (nextCommit st) else None) of
        None \<Rightarrow> st\<lparr>phase := Receiving\<rparr>
      | Some v \<Rightarrow>
          let i = nextCommit st;
              st1 = st\<lparr>waiting := filter (\<lambda>r. fst r \<noteq> i) (waiting st), commits := commits st @ [(i, v)],
                       stats := (stats st)\<lparr>Committed := Committed (stats st) + 1\<rparr>,
                       nextCommit := i + 1\<rparr>
          in if \<not> commit cfg i v then
               (let st2 = st1\<lparr>stats := (stats st1)\<lparr>StoppedEarly := True\<rparr>, committing := False\<rparr>;
                    st3 = (if dispatching st2 then closeJobs st2 else st2)
                in st3\<lparr>workersCancelled := True, phase := Receiving\<rparr>)
             else let st2 = stop_when_cancelled cfg st1
               in if dispatching st2 \<and> nextDispatch st2 < items cfg then st2\<lparr>phase := Sending\<rparr>
                  else st2\<lparr>phase := Committing\<rparr>)"

definition return_stats :: "'o ordered_state \<Rightarrow> 'o ordered_state" where
  "return_stats st =
     st\<lparr>phase := Returned, stats := (stats st)\<lparr>Cancelled := Cancelled (stats st) \<or> ctxErr st\<rparr>\<rparr>"

text \<open>A worker and the main loop; \<^verbatim>\<open>ordered_step\<close> adds the cancellation from outside.\<close>

inductive system_step :: "'o ordered_config \<Rightarrow> 'o ordered_state \<Rightarrow> 'o ordered_state \<Rightarrow> bool" for cfg where
  starting: "phase st = Starting (Suc k) \<Longrightarrow> length (running st) < workers cfg \<Longrightarrow>
    system_step cfg st (start_one cfg k st)"
| finish: "i \<in> set (running st) \<Longrightarrow> length (results st) < workers cfg \<Longrightarrow> produces cfg i v \<Longrightarrow>
    system_step cfg st (st\<lparr>running := remove1 i (running st), results := results st @ [(i, v)]\<rparr>)"
| receive: "phase st = Receiving \<Longrightarrow> results st = r # rest \<Longrightarrow> system_step cfg st (receive cfg r rest st)"
| commit: "phase st = Committing \<Longrightarrow> system_step cfg st (commit_one cfg st)"
| send: "phase st = Sending \<Longrightarrow> length (running st) < workers cfg \<Longrightarrow>
    system_step cfg st ((dispatch cfg st)\<lparr>phase := Committing\<rparr>)"
| return: "phase st = Receiving \<Longrightarrow> results st = [] \<Longrightarrow> running st = [] \<Longrightarrow> jobsClosed st \<Longrightarrow>
    system_step cfg st (return_stats st)"

inductive ordered_step :: "'o ordered_config \<Rightarrow> 'o ordered_state \<Rightarrow> 'o ordered_state \<Rightarrow> bool" for cfg where
  system: "system_step cfg st st' \<Longrightarrow> ordered_step cfg st st'"
| cancel: "phase st \<noteq> Returned \<Longrightarrow> \<not> ctxErr st \<Longrightarrow> ordered_step cfg st (st\<lparr>ctxErr := True\<rparr>)"

inductive ordered_reachable :: "'o ordered_config \<Rightarrow> 'o ordered_state \<Rightarrow> bool" for cfg where
  init: "ordered_reachable cfg (ordered_start cfg cancelled)"
| step: "ordered_reachable cfg st \<Longrightarrow> ordered_step cfg st st' \<Longrightarrow> ordered_reachable cfg st'"

inductive_cases ordered_stepE: "ordered_step cfg st st'"
inductive_cases system_stepE: "system_step cfg st st'"


lemmas main_defs = start_one_def receive_def commit_one_def return_stats_def dispatch_def
  stop_when_cancelled_def closeJobs_def Let_def

subsection \<open>The invariant\<close>

definition all_ids :: "'o ordered_state \<Rightarrow> nat list" where
  "all_ids st = running st @ map fst (results st) @ map fst (waiting st) @ [0..<nextCommit st]"

text \<open>Every item that was sent is in exactly one place, and the counters count.\<close>

definition items_ok :: "'o ordered_config \<Rightarrow> 'o ordered_state \<Rightarrow> bool" where
  "items_ok cfg st \<longleftrightarrow>
     mset (all_ids st) = mset [0..<nextDispatch st] \<and>
     map fst (commits st) = [0..<nextCommit st] \<and>
     Committed (stats st) = nextCommit st \<and> Dispatched (stats st) = nextDispatch st \<and>
     Completed (stats st) = length (waiting st) + nextCommit st \<and>
     (\<forall>(i, v) \<in> set (results st) \<union> set (waiting st) \<union> set (commits st). produces cfg i v)"

definition control_ok :: "'o ordered_config \<Rightarrow> 'o ordered_state \<Rightarrow> bool" where
  "control_ok cfg st \<longleftrightarrow>
     nextDispatch st \<le> items cfg \<and> nextDispatch st \<le> nextCommit st + workers cfg \<and>
     dispatching st = (\<not> jobsClosed st) \<and> (nextDispatch st = items cfg \<longrightarrow> jobsClosed st) \<and>
     (\<forall>k. phase st = Starting k \<longrightarrow> 0 < k \<and> nextDispatch st + k = workers cfg \<and> nextCommit st = 0 \<and> waiting st = [] \<and> \<not> jobsClosed st) \<and>
     (phase st \<in> {Receiving, Committing} \<and> dispatching st \<longrightarrow> nextDispatch st = nextCommit st + workers cfg) \<and>
     (phase st = Sending \<longrightarrow> dispatching st \<and> Suc (nextDispatch st) = nextCommit st + workers cfg) \<and>
     (phase st = Returned \<longrightarrow> running st = [] \<and> results st = [] \<and> jobsClosed st) \<and>
     (phase st \<in> {Receiving, Returned} \<and> committing st \<longrightarrow> map_of (waiting st) (nextCommit st) = None)"

definition verdict_ok :: "'o ordered_config \<Rightarrow> 'o ordered_state \<Rightarrow> bool" where
  "verdict_ok cfg st \<longleftrightarrow>
     StoppedEarly (stats st) = (\<not> committing st) \<and> (StoppedEarly (stats st) \<longrightarrow> jobsClosed st) \<and>
     (jobsClosed st \<longrightarrow> nextDispatch st = items cfg \<or> StoppedEarly (stats st) \<or>
        Cancelled (stats st) \<and> \<not> ContinueOnCancellation cfg) \<and>
     (Cancelled (stats st) \<longrightarrow> ctxErr st) \<and>
     (phase st = Returned \<longrightarrow> Cancelled (stats st) = ctxErr st) \<and>
     (if StoppedEarly (stats st)
      then commits st \<noteq> [] \<and> (\<forall>(i, v) \<in> set (butlast (commits st)). commit cfg i v) \<and>
        \<not> commit cfg (fst (last (commits st))) (snd (last (commits st)))
      else \<forall>(i, v) \<in> set (commits st). commit cfg i v)"

definition ordered_ok :: "'o ordered_config \<Rightarrow> 'o ordered_state \<Rightarrow> bool" where
  "ordered_ok cfg st \<longleftrightarrow> items_ok cfg st \<and> control_ok cfg st \<and> verdict_ok cfg st"

lemma items_distinct:
  assumes "items_ok cfg st"
  shows "distinct (all_ids st)" "length (all_ids st) = nextDispatch st" "set (all_ids st) = {0..<nextDispatch st}"
proof -
  have m: "mset (all_ids st) = mset [0..<nextDispatch st]" using assms by (simp add: items_ok_def)
  show "distinct (all_ids st)" using mset_eq_imp_distinct_iff [OF m] by simp
  show "length (all_ids st) = nextDispatch st" using mset_eq_length [OF m] by simp
  show "set (all_ids st) = {0..<nextDispatch st}" using mset_eq_setD [OF m] by simp
qed

lemma mset_take_out:
  "distinct (map fst w) \<Longrightarrow> map_of w i = Some v \<Longrightarrow>
   mset (map fst w) = add_mset i (mset (map fst (filter (\<lambda>r. fst r \<noteq> i) w)))"
proof (induction w)
  case (Cons r w)
  show ?case
  proof (cases "fst r = i")
    case True
    then have "filter (\<lambda>r. fst r \<noteq> i) w = w" using Cons(2) by (auto simp: filter_id_conv image_iff)
    then show ?thesis using True by simp
  qed (use Cons in \<open>auto split: if_splits\<close>)
qed simp

lemma length_take_out:
  "distinct (map fst w) \<Longrightarrow> map_of w i = Some v \<Longrightarrow>
   length w = Suc (length (filter (\<lambda>r. fst r \<noteq> i) w))"
  using mset_take_out [of w i v] by (metis length_map size_add_mset size_mset)

subsection \<open>Every step keeps the invariant\<close>

lemma items_ok_dispatch:
  "items_ok cfg st \<Longrightarrow> items_ok cfg (dispatch cfg st)"
proof -
  have "mset_set {0..<Suc (nextDispatch st)} = add_mset (nextDispatch st) (mset_set {0..<nextDispatch st})"
    by (simp add: atLeast0_lessThan_Suc)
  then show "items_ok cfg st \<Longrightarrow> ?thesis" by (auto simp: items_ok_def all_ids_def main_defs)
qed

lemma items_ok_frame:
  assumes "items_ok cfg st" "running st' = running st" "results st' = results st" "waiting st' = waiting st"
    "nextCommit st' = nextCommit st" "nextDispatch st' = nextDispatch st" "commits st' = commits st"
    "Committed (stats st') = Committed (stats st)" "Dispatched (stats st') = Dispatched (stats st)"
    "Completed (stats st') = Completed (stats st)"
  shows "items_ok cfg st'"
  using assms by (simp add: items_ok_def all_ids_def)

lemma items_ok_finish:
  "items_ok cfg st \<Longrightarrow> i \<in> set (running st) \<Longrightarrow> produces cfg i v \<Longrightarrow>
   items_ok cfg (st\<lparr>running := remove1 i (running st), results := results st @ [(i, v)]\<rparr>)"
proof -
  assume i: "i \<in> set (running st)" and ok: "items_ok cfg st" "produces cfg i v"
  have "mset (running st) = add_mset i (mset (remove1 i (running st)))" using i by simp
  with ok show ?thesis unfolding items_ok_def all_ids_def by (simp del: mset_remove1)
qed

lemma items_ok_receive:
  "items_ok cfg st \<Longrightarrow> results st = r # rest \<Longrightarrow> items_ok cfg (receive cfg r rest st)"
  by (auto simp: items_ok_def all_ids_def main_defs)

lemma items_ok_commit:
  assumes "items_ok cfg st"
  shows "items_ok cfg (commit_one cfg st)"
proof (cases "if committing st then map_of (waiting st) (nextCommit st) else None")
  case None
  then show ?thesis using assms by (intro items_ok_frame [OF assms]) (simp_all add: commit_one_def)
next
  case (Some v)
  let ?i = "nextCommit st"
  have v: "map_of (waiting st) ?i = Some v" using Some by (auto split: if_splits)
  have d: "distinct (map fst (waiting st))" using items_distinct(1) [OF assms] by (simp add: all_ids_def)
  define st1 where "st1 = st\<lparr>waiting := filter (\<lambda>r. fst r \<noteq> ?i) (waiting st), commits := commits st @ [(?i, v)],
      stats := (stats st)\<lparr>Committed := Committed (stats st) + 1\<rparr>, nextCommit := ?i + 1\<rparr>"
  have "items_ok cfg st1"
    using assms map_of_SomeD [OF v] mset_take_out [OF d v] length_take_out [OF d v]
    by (auto simp: items_ok_def all_ids_def st1_def)
  then show ?thesis
    by (rule items_ok_frame) (use Some in \<open>simp_all add: commit_one_def Let_def st1_def stop_when_cancelled_def closeJobs_def\<close>)
qed


lemma control_ok_start:
  assumes "control_ok cfg st" "phase st = Starting (Suc k)" "workers cfg \<le> items cfg"
  shows "control_ok cfg (start_one cfg k st)"
  using assms by (cases "k = 0") (auto simp: control_ok_def main_defs split: if_splits)

lemma control_ok_send:
  assumes "control_ok cfg st" "phase st = Sending"
  shows "control_ok cfg ((dispatch cfg st)\<lparr>phase := Committing\<rparr>)"
  using assms by (auto simp: control_ok_def main_defs split: if_splits)

lemma control_ok_receive:
  assumes "control_ok cfg st" "phase st = Receiving" "results st = r # rest"
  shows "control_ok cfg (receive cfg r rest st)"
  using assms by (auto simp: control_ok_def main_defs split: if_splits)

lemma control_ok_commit:
  assumes "control_ok cfg st" "phase st = Committing" "items_ok cfg st" "0 < workers cfg"
  shows "control_ok cfg (commit_one cfg st)"
proof (cases "if committing st then map_of (waiting st) (nextCommit st) else None")
  case None
  then show ?thesis using assms by (auto simp: control_ok_def commit_one_def split: if_splits)
next
  case (Some v)
  then have "nextCommit st \<in> fst ` set (waiting st)"
    by (metis (no_types, lifting) domI dom_map_of_conv_image_fst option.distinct(1))
  then have "nextCommit st \<in> set (all_ids st)" by (simp add: all_ids_def)
  then have "nextCommit st < nextDispatch st" unfolding items_distinct(3) [OF assms(3)] by simp
  then show ?thesis using assms(1,2,4) Some
    by (auto simp: control_ok_def commit_one_def stop_when_cancelled_def closeJobs_def Let_def)
qed

lemma verdict_ok_start:
  assumes "verdict_ok cfg st" "phase st = Starting (Suc k)" "\<not> jobsClosed st"
  shows "verdict_ok cfg (start_one cfg k st)"
  using assms by (auto simp: verdict_ok_def main_defs split: if_splits)

lemma verdict_ok_send:
  assumes "verdict_ok cfg st" "\<not> jobsClosed st"
  shows "verdict_ok cfg ((dispatch cfg st)\<lparr>phase := Committing\<rparr>)"
  using assms by (auto simp: verdict_ok_def main_defs split: if_splits)

lemma verdict_ok_receive:
  assumes "verdict_ok cfg st"
  shows "verdict_ok cfg (receive cfg r rest st)"
  using assms by (auto simp: verdict_ok_def main_defs split: if_splits)

lemma verdict_ok_commit:
  assumes "verdict_ok cfg st" "dispatching st = (\<not> jobsClosed st)"
  shows "verdict_ok cfg (commit_one cfg st)"
proof (cases "if committing st then map_of (waiting st) (nextCommit st) else None")
  case None
  then show ?thesis using assms by (auto simp: verdict_ok_def commit_one_def split: if_splits)
next
  case (Some v)
  then show ?thesis using assms
    by (auto simp: verdict_ok_def commit_one_def stop_when_cancelled_def closeJobs_def Let_def split: if_splits)
qed


definition valid_config :: "'o ordered_config \<Rightarrow> bool" where
  "valid_config cfg \<longleftrightarrow> 0 < workers cfg \<and> workers cfg \<le> items cfg"

lemma workerCount_valid: "0 < n \<Longrightarrow> 0 < workerCount m c n \<and> workerCount m c n \<le> n"
  by (auto simp: workerCount_def Let_def)

lemma ordered_ok_system:
  assumes "system_step cfg st st'" "ordered_ok cfg st" "valid_config cfg"
  shows "ordered_ok cfg st'"
proof -
  note ok = assms(2) [unfolded ordered_ok_def] and v = assms(3) [unfolded valid_config_def]
  have i: "items_ok cfg st" and c: "control_ok cfg st" and d: "verdict_ok cfg st" using ok by auto
  note phases = c [unfolded control_ok_def]
  from assms(1) show ?thesis
  proof cases
    case (starting k)
    have "items_ok cfg (start_one cfg k st)"
      by (rule items_ok_frame [OF items_ok_dispatch [OF i]]) (simp_all add: start_one_def Let_def)
    then show ?thesis using starting control_ok_start [OF c starting(2)] verdict_ok_start [OF d starting(2)] v phases
      by (simp add: ordered_ok_def)
  next
    case (finish i' v')
    then show ?thesis using items_ok_finish [OF i finish(2,4)] c d
      by (auto simp: ordered_ok_def control_ok_def verdict_ok_def)
  next
    case (receive r rest)
    then show ?thesis using items_ok_receive [OF i receive(3)] control_ok_receive [OF c receive(2,3)]
        verdict_ok_receive [OF d] by (simp add: ordered_ok_def)
  next
    case commit
    then show ?thesis using items_ok_commit [OF i] control_ok_commit [OF c commit(2) i] verdict_ok_commit [OF d] v phases
      by (simp add: ordered_ok_def)
  next
    case send
    have "items_ok cfg ((dispatch cfg st)\<lparr>phase := Committing\<rparr>)"
      by (rule items_ok_frame [OF items_ok_dispatch [OF i]]) simp_all
    moreover have "\<not> jobsClosed st" using phases send(2) by auto
    ultimately show ?thesis using send(1) control_ok_send [OF c send(2)] verdict_ok_send [OF d]
      by (simp add: ordered_ok_def)
  next
    case return
    have "items_ok cfg (return_stats st)"
      by (rule items_ok_frame [OF i]) (simp_all add: return_stats_def)
    then show ?thesis using return c d
      by (auto simp: ordered_ok_def control_ok_def verdict_ok_def return_stats_def)
  qed
qed

lemma ordered_ok_step:
  "ordered_step cfg st st' \<Longrightarrow> ordered_ok cfg st \<Longrightarrow> valid_config cfg \<Longrightarrow> ordered_ok cfg st'"
proof (erule ordered_stepE)
  assume "ordered_ok cfg st" "st' = st\<lparr>ctxErr := True\<rparr>" "phase st \<noteq> Returned"
  then show "ordered_ok cfg st'"
    by (auto simp: ordered_ok_def items_ok_def all_ids_def control_ok_def verdict_ok_def split: if_splits)
qed (use ordered_ok_system in blast)

lemma ordered_ok_reachable: "ordered_reachable cfg st \<Longrightarrow> valid_config cfg \<Longrightarrow> ordered_ok cfg st"
proof (induction rule: ordered_reachable.induct)
  case (init cancelled)
  then show ?case
    by (auto simp: ordered_ok_def items_ok_def all_ids_def control_ok_def verdict_ok_def ordered_start_def valid_config_def)
qed (use ordered_ok_step in blast)

lemma outstanding_bounded:
  "ordered_ok cfg st \<Longrightarrow> length (running st) + length (results st) + length (waiting st) + nextCommit st = nextDispatch st"
  using items_distinct(2) [of cfg st] by (simp add: ordered_ok_def all_ids_def)

subsection \<open>Progress\<close>

text \<open>A weight for every item by how far it has come, and one for the phase: every step lowers the sum.\<close>

fun phase_weight :: "ordered_phase \<Rightarrow> nat" where
  "phase_weight (Starting k) = 3"
| "phase_weight Receiving = 1"
| "phase_weight Committing = 2"
| "phase_weight Sending = 3"
| "phase_weight Returned = 0"

definition work_left :: "'o ordered_config \<Rightarrow> 'o ordered_state \<Rightarrow> nat" where
  "work_left cfg st =
     8 * (items cfg - nextDispatch st) + 6 * length (running st) + 5 * length (results st) +
     3 * length (waiting st) + phase_weight (phase st) + (if ctxErr st then 0 else 1)"

lemma work_left_dispatch:
  "nextDispatch st < items cfg \<Longrightarrow> phase_weight p \<le> Suc (phase_weight (phase st)) \<Longrightarrow>
   work_left cfg ((dispatch cfg st)\<lparr>phase := p\<rparr>) < work_left cfg st"
  by (auto simp: work_left_def main_defs)

lemma work_left_system:
  assumes "system_step cfg st st'" "ordered_ok cfg st" "valid_config cfg"
  shows "work_left cfg st' < work_left cfg st"
proof -
  note ok = assms(2) [unfolded ordered_ok_def] and v = assms(3) [unfolded valid_config_def]
  note phases = ok [THEN conjunct2, THEN conjunct1, unfolded control_ok_def]
  from assms(1) show ?thesis
  proof cases
    case (starting k)
    then have "nextDispatch st < items cfg" using phases v by auto
    then show ?thesis using work_left_dispatch [of st cfg] starting
      by (simp add: start_one_def Let_def)
  next
    case (finish i v)
    then have "length (running st) > 0" by auto
    then show ?thesis using finish
      by (simp add: work_left_def length_remove1) (cases "length (running st)"; simp)
  next
    case (receive r rest)
    then show ?thesis by (simp add: work_left_def main_defs)
  next
    case commit
    show ?thesis
    proof (cases "if committing st then map_of (waiting st) (nextCommit st) else None")
      case None
      then show ?thesis using commit by (simp add: work_left_def commit_one_def)
    next
      case (Some v)
      then have "map_of (waiting st) (nextCommit st) = Some v" by (auto split: if_splits)
      moreover have "distinct (map fst (waiting st))"
        using items_distinct(1) [of cfg st] ok by (simp add: all_ids_def)
      ultimately have "length (waiting st) = Suc (length (filter (\<lambda>r. fst r \<noteq> nextCommit st) (waiting st)))"
        by (rule length_take_out [rotated])
      then show ?thesis using commit Some by (simp add: work_left_def main_defs)
    qed
  next
    case send
    then have "nextDispatch st < items cfg" using phases by auto
    then show ?thesis using work_left_dispatch [of st cfg] send by simp
  next
    case return
    then show ?thesis by (simp add: work_left_def return_stats_def)
  qed
qed


lemma progress_ok:
  assumes "ordered_ok cfg st" "valid_config cfg" "phase st \<noteq> Returned" "\<forall>i < items cfg. \<exists>v. produces cfg i v"
  shows "\<exists>st'. system_step cfg st st'"
proof -
  note ok = assms(1) [unfolded ordered_ok_def]
  note phases = ok [THEN conjunct2, THEN conjunct1, unfolded control_ok_def]
  note sum = outstanding_bounded [OF assms(1)]
  show ?thesis
  proof (cases "running st = []")
    case False
    then obtain i where i: "i \<in> set (running st)" by (cases "running st") auto
    then have "i \<in> set (all_ids st)" by (simp add: all_ids_def)
    then have "i < nextDispatch st" using items_distinct(3) [of cfg st] ok by simp
    then have "i < items cfg" using phases by simp
    then obtain v where v: "produces cfg i v" using assms(4) by blast
    have "length (results st) < workers cfg"
    proof -
      have "0 < length (running st)" using False by simp
      moreover have "nextDispatch st \<le> nextCommit st + workers cfg" using phases by blast
      ultimately show ?thesis using sum by linarith
    qed
    from finish [OF i this v] show ?thesis by blast
  next
    case True
    show ?thesis
    proof (cases "phase st")
      case (Starting k)
      then have "0 < k" using phases by blast
      then obtain k' where "phase st = Starting (Suc k')" using Starting by (cases k) auto
      from starting [OF this] show ?thesis using True assms(2) by (auto simp: valid_config_def)
    next
      case Receiving
      show ?thesis
      proof (cases "results st")
        case (Cons r rest)
        then show ?thesis using receive Receiving by blast
      next
        case Nil
        have "jobsClosed st"
        proof (rule ccontr)
          assume open_jobs: "\<not> jobsClosed st"
          then have next_sent: "nextDispatch st = nextCommit st + workers cfg" using phases Receiving by simp
          have "committing st" using ok open_jobs by (auto simp: verdict_ok_def)
          then have "nextCommit st \<notin> fst ` set (waiting st)"
            using phases Receiving by (simp add: map_of_eq_None_iff)
          moreover have "nextCommit st \<in> set (all_ids st)"
            using items_distinct(3) [of cfg st] ok next_sent assms(2) by (simp add: valid_config_def)
          ultimately show False using True Nil by (simp add: all_ids_def)
        qed
        then show ?thesis using return Receiving True Nil by blast
      qed
    next
      case Committing
      then show ?thesis using commit by blast
    next
      case Sending
      from send [OF this] show ?thesis using True assms(2) by (auto simp: valid_config_def)
    qed (use assms(3) in simp)
  qed
qed

lemma run_bounded:
  "(ordered_step cfg ^^ k) st st' \<Longrightarrow> ordered_ok cfg st \<Longrightarrow> valid_config cfg \<Longrightarrow> k + work_left cfg st' \<le> work_left cfg st"
proof (induction k arbitrary: st')
  case (Suc k)
  obtain st1 where st1: "(ordered_step cfg ^^ k) st st1" "ordered_step cfg st1 st'"
    using Suc(2) by (auto elim: relpowp_Suc_E)
  have "ordered_ok cfg q" if "(ordered_step cfg ^^ j) st q" for j q
    using that
  proof (induction j arbitrary: q)
    case 0
    then show ?case using Suc(3) by simp
  next
    case (Suc j)
    then show ?case using ordered_ok_step [OF _ _ \<open>valid_config cfg\<close>] by (auto elim!: relpowp_Suc_E)
  qed
  then have ok: "ordered_ok cfg st1" using st1(1) by blast
  have "work_left cfg st' < work_left cfg st1"
    using st1(2)
  proof (cases rule: ordered_step.cases)
    case system
    then show ?thesis using work_left_system [OF _ ok Suc(4)] by simp
  qed (simp add: work_left_def)
  then show ?case using Suc(1) [OF st1(1) Suc(3,4)] by simp
qed simp

subsection \<open>Properties\<close>

text \<open>C8: in every interleaving of the workers, the main loop and a cancellation, the commits made so far
  are those of the first items in order, each with a value its own work returned; every item sent is
  in exactly one place, and no more than the workers' number are sent and not yet committed, so
  no result ever waits for a slot.\<close>

theorem ordered_commits:
  assumes "ordered_reachable cfg st" "workers cfg = workerCount m c (items cfg)" "0 < items cfg"
  shows "map fst (commits st) = [0..<Committed (stats st)] \<and> (\<forall>(i, v) \<in> set (commits st). produces cfg i v) \<and>
    distinct (all_ids st) \<and> set (all_ids st) = {0..<Dispatched (stats st)} \<and> Dispatched (stats st) \<le> items cfg \<and>
    length (running st) + length (results st) + length (waiting st) \<le> workers cfg"
proof -
  have ok: "ordered_ok cfg st"
    using ordered_ok_reachable [OF assms(1)] workerCount_valid [OF assms(3)] assms(2) by (simp add: valid_config_def)
  then have "items_ok cfg st" "control_ok cfg st" by (auto simp: ordered_ok_def)
  then show ?thesis using items_distinct [of cfg st] outstanding_bounded [OF ok]
    by (auto simp: items_ok_def control_ok_def)
qed

definition sample_run :: "nat ordered_config" where
  "sample_run = \<lparr>items = 1, workers = 1, ContinueOnCancellation = False, commit = (\<lambda>i v. True),
     produces = (\<lambda>i v. v = i + 7)\<rparr>"

definition sample_sent :: "nat ordered_state" where
  "sample_sent = start_one sample_run 0 (ordered_start sample_run False)"

definition sample_done :: "nat ordered_state" where
  "sample_done = return_stats (commit_one sample_run (commit_one sample_run (receive sample_run (0, 7) []
     (sample_sent\<lparr>running := remove1 0 (running sample_sent), results := results sample_sent @ [(0, 7)]\<rparr>))))"

lemma sample_sent_reachable: "ordered_reachable sample_run sample_sent"
  unfolding sample_sent_def
  by (rule ordered_reachable.step [OF ordered_reachable.init ordered_step.system [OF starting]]) code_simp+

lemma sample_done_reachable: "ordered_reachable sample_run sample_done"
proof -
  let ?f = "sample_sent\<lparr>running := remove1 0 (running sample_sent), results := results sample_sent @ [(0, 7)]\<rparr>"
  let ?r = "receive sample_run (0, 7) [] ?f"
  let ?c = "commit_one sample_run ?r"
  have "ordered_step sample_run sample_sent ?f"
    by (rule ordered_step.system [OF finish]) (code_simp, code_simp, simp add: sample_run_def)
  note f = ordered_reachable.step [OF sample_sent_reachable this]
  have "ordered_step sample_run ?f ?r" by (rule ordered_step.system [OF receive]) code_simp+
  note r = ordered_reachable.step [OF f this]
  have "ordered_step sample_run ?r ?c" by (rule ordered_step.system [OF commit]) code_simp
  note c = ordered_reachable.step [OF r this]
  have "ordered_step sample_run ?c (commit_one sample_run ?c)" by (rule ordered_step.system [OF commit]) code_simp
  note d = ordered_reachable.step [OF c this]
  have "ordered_step sample_run (commit_one sample_run ?c) sample_done"
    unfolding sample_done_def by (rule ordered_step.system [OF return]) code_simp+
  then show ?thesis by (rule ordered_reachable.step [OF d])
qed

lemma sample_workers: "workers sample_run = workerCount 0 4 (items sample_run)"
  by code_simp

lemma ordered_commits_witness:
  "map fst (commits sample_done) = [0..<Committed (stats sample_done)] \<and> commits sample_done = [(0, 7)]"
proof -
  have "commits sample_done = [(0, 7)]" by code_simp
  then show ?thesis
    using ordered_commits [OF sample_done_reachable sample_workers] by (simp add: sample_run_def)
qed

text \<open>C9: as long as every call of the work function returns, the processing never blocks: until it has
  returned, a worker or the main loop can take a step, whatever happened before.\<close>

theorem ordered_never_blocks:
  assumes "ordered_reachable cfg st" "workers cfg = workerCount m c (items cfg)" "0 < items cfg"
    and "\<forall>i < items cfg. \<exists>v. produces cfg i v" "phase st \<noteq> Returned"
  shows "\<exists>st'. system_step cfg st st'"
proof -
  have "valid_config cfg" using workerCount_valid [OF assms(3)] assms(2) by (simp add: valid_config_def)
  from progress_ok [OF ordered_ok_reachable [OF assms(1) this] this assms(5,4)] show ?thesis .
qed

lemma ordered_never_blocks_witness: "\<exists>st'. system_step sample_run sample_sent st'"
proof -
  have "phase sample_sent \<noteq> Returned" by code_simp
  then show ?thesis
    using ordered_never_blocks [OF sample_sent_reachable sample_workers] by (simp add: sample_run_def)
qed

text \<open>C10: no run is longer than eight steps for each item and four more; so the processing ends, since it
  never blocks before it has returned.\<close>

theorem ordered_terminates:
  assumes "(ordered_step cfg ^^ k) (ordered_start cfg cancelled) st"
    and "workers cfg = workerCount m c (items cfg)" "0 < items cfg"
  shows "k \<le> 8 * items cfg + 4"
proof -
  have v: "valid_config cfg" using workerCount_valid [OF assms(3)] assms(2) by (simp add: valid_config_def)
  have "k + work_left cfg st \<le> work_left cfg (ordered_start cfg cancelled)"
    by (rule run_bounded [OF assms(1) ordered_ok_reachable [OF ordered_reachable.init v] v])
  moreover have "work_left cfg (ordered_start cfg cancelled) \<le> 8 * items cfg + 4"
    using assms(3) by (simp add: work_left_def ordered_start_def)
  ultimately show ?thesis by simp
qed

lemma ordered_terminates_witness: "(1 :: nat) \<le> 8 * items sample_run + 4"
proof -
  have "ordered_step sample_run (ordered_start sample_run False) sample_sent"
    unfolding sample_sent_def by (rule ordered_step.system [OF starting]) code_simp+
  then have "(ordered_step sample_run ^^ 1) (ordered_start sample_run False) sample_sent"
    by (simp only: relpowp_1)
  from ordered_terminates [OF this sample_workers] show ?thesis by (simp add: sample_run_def)
qed

text \<open>C11: when it returns, no work is left behind: every item sent was received. Without an early stop
  everything sent was committed, and with no cancellation, or when told to go on, that is every
  item. An early stop comes from the last commit and from no other.\<close>

theorem ordered_outcome:
  assumes "ordered_reachable cfg st" "workers cfg = workerCount m c (items cfg)" "0 < items cfg"
    and "phase st = Returned"
  shows "running st = [] \<and> results st = [] \<and> Completed (stats st) = Dispatched (stats st) \<and>
    Cancelled (stats st) = ctxErr st \<and>
    (if StoppedEarly (stats st)
     then commits st \<noteq> [] \<and> (\<forall>(i, v) \<in> set (butlast (commits st)). commit cfg i v) \<and>
       \<not> commit cfg (fst (last (commits st))) (snd (last (commits st)))
     else Committed (stats st) = Dispatched (stats st) \<and> (\<forall>(i, v) \<in> set (commits st). commit cfg i v) \<and>
       (\<not> Cancelled (stats st) \<or> ContinueOnCancellation cfg \<longrightarrow> Committed (stats st) = items cfg))"
proof -
  have ok: "ordered_ok cfg st"
    using ordered_ok_reachable [OF assms(1)] workerCount_valid [OF assms(3)] assms(2) by (simp add: valid_config_def)
  have i: "items_ok cfg st" and c: "control_ok cfg st" and d: "verdict_ok cfg st" using ok by (auto simp: ordered_ok_def)
  have drained: "running st = []" "results st = []" "jobsClosed st" using c assms(4) by (auto simp: control_ok_def)
  note sum = outstanding_bounded [OF ok]
  have all: "nextCommit st = nextDispatch st" if "committing st"
  proof (rule ccontr)
    assume "nextCommit st \<noteq> nextDispatch st"
    then have "nextCommit st < nextDispatch st" using sum by simp
    then have "nextCommit st \<in> set (all_ids st)" unfolding items_distinct(3) [OF i] by simp
    moreover have "nextCommit st \<notin> fst ` set (waiting st)"
      using c that assms(4) by (simp add: control_ok_def map_of_eq_None_iff)
    ultimately show False using drained by (simp add: all_ids_def)
  qed
  have "Completed (stats st) = Dispatched (stats st)" using i sum drained by (simp add: items_ok_def)
  then show ?thesis using i d drained all assms(4) by (auto simp: items_ok_def verdict_ok_def split: if_splits)
qed

lemma ordered_outcome_witness: "Committed (stats sample_done) = 1"
proof -
  have p: "phase sample_done = Returned" and n: "\<not> StoppedEarly (stats sample_done)" "\<not> Cancelled (stats sample_done)"
    by code_simp+
  show ?thesis
    using ordered_outcome [OF sample_done_reachable sample_workers _ p] n by (simp add: sample_run_def)
qed

end
