(* ===== verification/Task_Logs.thy ===== *)
theory Task_Logs
  imports Prelude_Base
begin

text \<open>
  The logs of tasks, \<^verbatim>\<open>internal/taskstore/logs.go\<close>: a writer that keeps the beginning of a stream in
  a file and its end in a ring that is saved in snapshots, and the reader that serves chunks of what
  is retained. The files of a stream are the head and the snapshots, named by the length of the
  stream they were taken at.
\<close>

record log_writer =
  headLimit :: nat
  tailBuf :: bytes
  tailLimit :: nat
  tailStart :: nat
  tailLength :: nat
  total :: nat

record log_files =
  headFile :: bytes
  snapshots :: "(nat \<times> bytes) list"

record log_chunk =
  Data :: bytes
  Cursor :: int
  NextCursor :: int
  AvailableEnd :: int
  DroppedBytes :: int
  Truncated :: bool

datatype log_error = NegativeCursor | HeadExceedsBound | TailExceedsBound | CursorBeyondEnd | BadLimit | LogNotFound

definition newBoundedLogWriter :: "nat \<Rightarrow> log_writer \<times> log_files" where
  "newBoundedLogWriter limit =
     (let h0 = limit div 4; h1 = (if h0 < 1024 then 1024 else h0);
          h = (if h1 \<ge> limit then limit div 2 else h1)
      in (\<lparr>headLimit = h, tailBuf = replicate (limit - h) 0, tailLimit = limit - h, tailStart = 0,
           tailLength = 0, total = 0\<rparr>,
          \<lparr>headFile = [], snapshots = []\<rparr>))"

text \<open>The loop of \<^verbatim>\<open>Write\<close> over the bytes past the head.\<close>

definition put_tail :: "byte \<Rightarrow> log_writer \<Rightarrow> log_writer" where
  "put_tail b w =
     (if tailLimit w = 0 then w\<lparr>total := total w + 1\<rparr>
      else if tailLength w < tailLimit w
      then w\<lparr>tailBuf := (tailBuf w)[(tailStart w + tailLength w) mod tailLimit w := b],
             tailLength := tailLength w + 1, total := total w + 1\<rparr>
      else w\<lparr>tailBuf := (tailBuf w)[tailStart w := b],
             tailStart := (tailStart w + 1) mod tailLimit w, total := total w + 1\<rparr>)"

definition WriteLog :: "bytes \<Rightarrow> log_writer \<times> log_files \<Rightarrow> log_writer \<times> log_files" where
  "WriteLog payload st =
     (let (w, f) = st;
          count = (if total w < headLimit w then min (length payload) (headLimit w - total w) else 0);
          w1 = w\<lparr>total := total w + count\<rparr>;
          f1 = f\<lparr>headFile := headFile f @ take count payload\<rparr>
      in (fold put_tail (drop count payload) w1, f1))"

text \<open>Removal of all but the newest snapshots; the names sort like the lengths in them.\<close>

definition pruneTailSnapshots :: "nat \<Rightarrow> (nat \<times> bytes) list \<Rightarrow> (nat \<times> bytes) list" where
  "pruneTailSnapshots keep ss =
     (let names = sort (map fst ss) in filter (\<lambda>p. fst p \<in> set (drop (length names - keep) names)) ss)"

definition Snapshot :: "log_writer \<times> log_files \<Rightarrow> log_writer \<times> log_files" where
  "Snapshot st =
     (let (w, f) = st in
      if tailLength w = 0 then (w, f)
      else let first = min (tailLength w) (tailLimit w - tailStart w);
               payload = take first (drop (tailStart w) (tailBuf w)) @ take (tailLength w - first) (tailBuf w);
               ss = (if total w \<in> fst ` set (snapshots f) then snapshots f else (total w, payload) # snapshots f)
           in (w, f\<lparr>snapshots := pruneTailSnapshots 2 ss\<rparr>))"

fun latest_of :: "(nat \<times> bytes) list \<Rightarrow> nat \<times> bytes \<Rightarrow> nat \<times> bytes" where
  "latest_of [] best = best"
| "latest_of (s # ss) best = latest_of ss (if fst s \<ge> fst best then s else best)"

definition latestTailSnapshot :: "nat \<Rightarrow> log_files \<Rightarrow> log_error + bytes \<times> nat" where
  "latestTailSnapshot retainedLimit f =
     (let (n, payload) = latest_of (snapshots f) (0, [])
      in if length payload > retainedLimit then Inl TailExceedsBound else Inr (payload, n))"

definition readLogChunk :: "log_files \<Rightarrow> int \<Rightarrow> nat \<Rightarrow> nat \<Rightarrow> log_error + log_chunk" where
  "readLogChunk f requested limit retainedLimit =
     (if requested < 0 then Inl NegativeCursor
      else if length (headFile f) > retainedLimit then Inl HeadExceedsBound
      else case latestTailSnapshot retainedLimit f of
          Inl e \<Rightarrow> Inl e
        | Inr (tail, n) \<Rightarrow>
            (let head = headFile f;
                 available = max n (length head);
                 tailAt = int available - int (length tail);
                 cursor = nat requested
             in if cursor > available then Inl CursorBeyondEnd
                else let
                  d1 = (if cursor < length head then take limit (drop cursor head) else []);
                  p1 = (if cursor < length head then min (cursor + limit) (length head) else cursor);
                  more = (length d1 < limit \<and> p1 < available);
                  cut = (more \<and> int p1 < tailAt);
                  p2 = (if cut then nat tailAt else p1);
                  offset = nat (int p2 - tailAt);
                  d2 = (if more \<and> int p2 \<ge> tailAt \<and> offset < length tail
                        then take (limit - length d1) (drop offset tail) else [])
                in Inr \<lparr>Data = d1 @ d2, Cursor = requested, NextCursor = int (p2 + length d2),
                        AvailableEnd = int available, DroppedBytes = max 0 (tailAt - int (length head)),
                        Truncated = cut\<rparr>))"

text \<open>\<^verbatim>\<open>Logs\<close>, once the task is found: both streams, with the defaults and limits of the request.\<close>

definition Logs ::
  "bool \<Rightarrow> log_files \<Rightarrow> log_files \<Rightarrow> int \<Rightarrow> int \<Rightarrow> int \<Rightarrow> nat \<Rightarrow> log_error + log_chunk \<times> log_chunk"
where
  "Logs known out err outCursor errCursor limitBytes retainedLimit =
     (let limit = (if limitBytes = 0 then 64 * 1024 else limitBytes)
      in if \<not> known then Inl LogNotFound
         else if limit < 1 \<or> limit > 1024 * 1024 then Inl BadLimit
         else if outCursor < 0 \<or> errCursor < 0 then Inl NegativeCursor
         else case readLogChunk out outCursor (nat limit) retainedLimit of
             Inl e \<Rightarrow> Inl e
           | Inr o1 \<Rightarrow> (case readLogChunk err errCursor (nat limit) retainedLimit of
                 Inl e \<Rightarrow> Inl e
               | Inr e1 \<Rightarrow> Inr (o1, e1)))"

subsection \<open>The ring\<close>

definition ring :: "log_writer \<Rightarrow> bytes" where
  "ring w = map (\<lambda>i. tailBuf w ! ((tailStart w + i) mod tailLimit w)) [0..<tailLength w]"

definition ring_ok :: "log_writer \<Rightarrow> bool" where
  "ring_ok w \<longleftrightarrow> length (tailBuf w) = tailLimit w \<and> tailLength w \<le> tailLimit w \<and>
     (0 < tailLimit w \<longrightarrow> tailStart w < tailLimit w)"

lemma mod_add_eq_iff:
  fixes s i j n :: nat
  assumes "i < n" "j < n"
  shows "(s + i) mod n = (s + j) mod n \<longleftrightarrow> i = j"
proof -
  have "i = j" if "(s + i) mod n = (s + j) mod n" "i < n" "j < n" "i \<le> j" for i j
  proof -
    have "n dvd (s + j) - (s + i)" using that mod_eq_dvd_iff_nat [of "s + i" "s + j" n] by simp
    then have "n dvd j - i" by simp
    moreover have "j - i < n" using that by simp
    ultimately have "j - i = 0" using nat_dvd_not_less by blast
    then show ?thesis using that by simp
  qed
  from this [of i j] this [of j i] show ?thesis using assms by (metis nat_le_linear)
qed

lemma ring_put:
  assumes "ring_ok w" "0 < tailLimit w"
  shows "ring (put_tail b w) = (if tailLength w < tailLimit w then ring w else tl (ring w)) @ [b]"
    and "ring_ok (put_tail b w)"
proof -
  let ?n = "tailLimit w" and ?s = "tailStart w" and ?k = "tailLength w"
  have len: "length (tailBuf w) = ?n" "?k \<le> ?n" "?s < ?n" using assms by (auto simp: ring_ok_def)
  show "ring (put_tail b w) = (if ?k < ?n then ring w else tl (ring w)) @ [b]"
  proof (cases "?k < ?n")
    case True
    have "(tailBuf w)[(?s + ?k) mod ?n := b] ! ((?s + i) mod ?n) = tailBuf w ! ((?s + i) mod ?n)" if "i < ?k" for i
      using mod_add_eq_iff [of i ?n ?k ?s] that True by (simp add: nth_list_update_neq)
    moreover have "(?s + ?k) mod ?n < length (tailBuf w)" using len assms(2) by simp
    ultimately show ?thesis using True assms(2) by (simp add: ring_def put_tail_def)
  next
    case False
    then have k: "?k = ?n" using len by simp
    have step: "((?s + 1) mod ?n + i) mod ?n = (?s + (i + 1)) mod ?n" for i
      by (simp add: mod_add_left_eq)
    have old: "(tailBuf w)[?s := b] ! ((?s + (i + 1)) mod ?n) = tailBuf w ! ((?s + (i + 1)) mod ?n)" if "i + 1 < ?n" for i
      using mod_add_eq_iff [of "i + 1" ?n 0 ?s] that len by (simp add: nth_list_update_neq)
    have new: "(tailBuf w)[?s := b] ! ((?s + (?n - 1 + 1)) mod ?n) = b" using len assms(2) by simp
    have "ring (put_tail b w) = map (\<lambda>i. (tailBuf w)[?s := b] ! ((?s + (i + 1)) mod ?n)) [0..<?n]"
      using False assms(2) k by (simp add: ring_def put_tail_def step [simplified])
    also have "[0..<?n] = [0..<?n - 1] @ [?n - 1]" using assms(2) upt_Suc_append [of 0 "?n - 1"] by simp
    also have "map (\<lambda>i. (tailBuf w)[?s := b] ! ((?s + (i + 1)) mod ?n)) ([0..<?n - 1] @ [?n - 1])
        = map (\<lambda>i. tailBuf w ! ((?s + (i + 1)) mod ?n)) [0..<?n - 1] @ [b]"
      using old new by simp
    also have "map (\<lambda>i. tailBuf w ! ((?s + (i + 1)) mod ?n)) [0..<?n - 1] = tl (ring w)"
    proof -
      have "tl [0..<?n] = map Suc [0..<?n - 1]" using assms(2) by (simp add: map_Suc_upt tl_upt)
      then show ?thesis by (simp add: ring_def k map_tl [symmetric] comp_def)
    qed
    finally show ?thesis using False by simp
  qed
  show "ring_ok (put_tail b w)" using assms by (auto simp: ring_ok_def put_tail_def)
qed


subsection \<open>The writer\<close>

definition keep_last :: "nat \<Rightarrow> 'a list \<Rightarrow> 'a list" where
  "keep_last n xs = drop (length xs - n) xs"

lemma ring_length: "length (ring w) = tailLength w"
  by (simp add: ring_def)

lemma put_tail_frame:
  "headLimit (put_tail b w) = headLimit w" "tailLimit (put_tail b w) = tailLimit w"
  "total (put_tail b w) = total w + 1"
  by (simp_all add: put_tail_def)

lemma keep_last_snoc:
  assumes "r = keep_last n t" "0 < n"
  shows "(if length r < n then r else tl r) @ [b] = keep_last n (t @ [b])"
proof (cases "length t < n")
  case True
  then show ?thesis using assms by (simp add: keep_last_def)
next
  case False
  then have "length r = n" using assms by (simp add: keep_last_def)
  moreover have "tl r = drop (length t + 1 - n) t" using assms False by (simp add: keep_last_def tl_drop drop_Suc Suc_diff_le)
  ultimately show ?thesis using False assms(2) by (simp add: keep_last_def)
qed

lemma fold_put_tail:
  assumes "ring_ok w" "0 < tailLimit w" "ring w = keep_last (tailLimit w) t"
  shows "ring_ok (fold put_tail bs w) \<and> tailLimit (fold put_tail bs w) = tailLimit w \<and>
    headLimit (fold put_tail bs w) = headLimit w \<and> total (fold put_tail bs w) = total w + length bs \<and>
    ring (fold put_tail bs w) = keep_last (tailLimit w) (t @ bs)"
  using assms
proof (induction bs arbitrary: w t)
  case (Cons b bs)
  have "ring (put_tail b w) = keep_last (tailLimit w) (t @ [b])"
    using ring_put(1) [OF Cons(2,3)] keep_last_snoc [OF Cons(4,3)] ring_length [of w] by simp
  then show ?case
    using Cons(1) [of "put_tail b w" "t @ [b]"] ring_put(2) [OF Cons(2,3)] Cons(3)
    by (simp add: put_tail_frame)
qed simp

text \<open>The state of the writer and of its files once the stream \<^verbatim>\<open>s\<close> was written.\<close>

definition written :: "bytes \<Rightarrow> log_writer \<times> log_files \<Rightarrow> bool" where
  "written s st \<longleftrightarrow>
     (let (w, f) = st in
      ring_ok w \<and> 0 < tailLimit w \<and> total w = length s \<and> headFile f = take (headLimit w) s \<and>
      ring w = keep_last (tailLimit w) (drop (headLimit w) s) \<and>
      (\<forall>(n, p) \<in> set (snapshots f). headLimit w < n \<and> n \<le> length s \<and>
         p = keep_last (tailLimit w) (drop (headLimit w) (take n s))))"

lemma written_new: "1 < limit \<Longrightarrow> written [] (newBoundedLogWriter limit)"
  by (auto simp: written_def newBoundedLogWriter_def Let_def ring_ok_def ring_def keep_last_def)

lemma written_write:
  assumes "written s st"
  shows "written (s @ p) (WriteLog p st)"
proof -
  obtain w f where st: "st = (w, f)" by fastforce
  define count where "count = (if total w < headLimit w then min (length p) (headLimit w - total w) else 0)"
  let ?w1 = "w\<lparr>total := total w + count\<rparr>"
  note a = assms [unfolded written_def st Let_def prod.case]
  have count: "count \<le> length p" "take (headLimit w) (s @ p) = take (headLimit w) s @ take count p"
    "drop (headLimit w) (s @ p) = drop (headLimit w) s @ drop count p"
    using a by (auto simp: count_def min_def)
  have r1: "ring_ok ?w1" "0 < tailLimit ?w1" "ring ?w1 = keep_last (tailLimit ?w1) (drop (headLimit w) s)"
    using a by (simp_all add: ring_ok_def ring_def)
  note folded = fold_put_tail [OF r1, of "drop count p"]
  have "n \<le> length s \<Longrightarrow> take n (s @ p) = take n s" for n by simp
  then have snaps: "\<forall>(n, q) \<in> set (snapshots f). headLimit w < n \<and> n \<le> length (s @ p) \<and>
      q = keep_last (tailLimit w) (drop (headLimit w) (take n (s @ p)))" using a by fastforce
  have "WriteLog p st = (fold put_tail (drop count p) ?w1, f\<lparr>headFile := headFile f @ take count p\<rparr>)"
    by (simp add: WriteLog_def st count_def [symmetric] Let_def)
  then show ?thesis using folded count a snaps by (simp add: written_def)
qed

lemma snapshot_payload:
  assumes "ring_ok w" "0 < tailLimit w"
  shows "take (min (tailLength w) (tailLimit w - tailStart w)) (drop (tailStart w) (tailBuf w)) @
    take (tailLength w - min (tailLength w) (tailLimit w - tailStart w)) (tailBuf w) = ring w"
proof (rule nth_equalityI)
  let ?n = "tailLimit w" and ?s = "tailStart w" and ?k = "tailLength w"
  have len: "length (tailBuf w) = ?n" "?k \<le> ?n" "?s < ?n" using assms by (auto simp: ring_ok_def)
  show "length (take (min ?k (?n - ?s)) (drop ?s (tailBuf w)) @ take (?k - min ?k (?n - ?s)) (tailBuf w)) = length (ring w)"
    using len by (simp add: ring_length)
  fix i assume "i < length (take (min ?k (?n - ?s)) (drop ?s (tailBuf w)) @ take (?k - min ?k (?n - ?s)) (tailBuf w))"
  then have i: "i < ?k" using len by auto
  then have r: "ring w ! i = tailBuf w ! ((?s + i) mod ?n)" by (simp add: ring_def)
  show "(take (min ?k (?n - ?s)) (drop ?s (tailBuf w)) @ take (?k - min ?k (?n - ?s)) (tailBuf w)) ! i = ring w ! i"
  proof (cases "i < ?n - ?s")
    case True
    then show ?thesis using r i len by (simp add: nth_append)
  next
    case False
    then have "(?s + i) mod ?n = (?s + i - ?n) mod ?n" using len by (intro le_mod_geq) simp
    also have "\<dots> = i - (?n - ?s)" using len i False by simp
    finally have "(?s + i) mod ?n = i - (?n - ?s)" .
    then show ?thesis using r i len False by (simp add: nth_append)
  qed
qed


text \<open>What the reader needs of the files: the head and a newest snapshot that ends with the stream.\<close>

definition saved :: "nat \<Rightarrow> nat \<Rightarrow> bytes \<Rightarrow> log_files \<Rightarrow> bool" where
  "saved H L s f \<longleftrightarrow> headFile f = take H s \<and>
     latest_of (snapshots f) (0, []) =
       (if length s \<le> H then (0, []) else (length s, keep_last L (drop H s)))"

lemma latest_of_in: "latest_of ss best \<in> insert best (set ss)"
proof (induction ss arbitrary: best)
  case (Cons s ss)
  show ?case using Cons [of s] Cons [of best] by (cases "fst s \<ge> fst best") (simp_all, blast+)
qed simp

lemma latest_of_ge: "p \<in> insert best (set ss) \<Longrightarrow> fst p \<le> fst (latest_of ss best)"
proof (induction ss arbitrary: best p)
  case (Cons s ss)
  show ?case
  proof (cases "fst s \<ge> fst best")
    case True
    have "fst s \<le> fst (latest_of ss s)" by (rule Cons(1)) simp
    then show ?thesis using True Cons(1) [of p s] Cons(2) by auto
  next
    case False
    have "fst best \<le> fst (latest_of ss best)" by (rule Cons(1)) simp
    then show ?thesis using False Cons(1) [of p best] Cons(2) by auto
  qed
qed simp

lemma latest_of_max:
  assumes "\<forall>p \<in> set ss. fst p \<le> n" "(n, q) \<in> set ss" "fst best < n" "\<And>p. p \<in> set ss \<Longrightarrow> fst p = n \<Longrightarrow> p = (n, q)"
  shows "latest_of ss best = (n, q)"
proof -
  have "n \<le> fst (latest_of ss best)" using latest_of_ge [of "(n, q)" best ss] assms(2) by simp
  moreover have "latest_of ss best \<in> insert best (set ss)" by (rule latest_of_in)
  ultimately have "latest_of ss best \<in> set ss" using assms(3) by auto
  moreover from this have "fst (latest_of ss best) = n"
    using assms(1) \<open>n \<le> fst (latest_of ss best)\<close> by (simp add: order_antisym)
  ultimately show ?thesis using assms(4) by blast
qed

lemma in_set_drop_sorted_max:
  assumes "sorted xs" "x \<in> set xs" "\<forall>y \<in> set xs. y \<le> x" "k < length xs"
  shows "x \<in> set (drop k xs)"
proof -
  let ?m = "length xs - 1"
  obtain i where i: "i < length xs" "xs ! i = x" using assms(2) by (auto simp: in_set_conv_nth)
  have "xs ! i \<le> xs ! ?m" using assms(1) i(1) by (intro sorted_nth_mono) auto
  moreover have m: "xs ! ?m \<in> set xs" using i(1) by (intro nth_mem) simp
  ultimately have "xs ! ?m = x" using i(2) assms(3) by (simp add: order_antisym)
  moreover have "drop k xs ! (?m - k) = xs ! ?m" "?m - k < length (drop k xs)" using assms(4) by simp_all
  ultimately show ?thesis by (metis nth_mem)
qed

lemma prune_subset: "set (pruneTailSnapshots keep ss) \<subseteq> set ss"
  by (auto simp: pruneTailSnapshots_def Let_def)

lemma prune_keeps_max:
  "p \<in> set ss \<Longrightarrow> \<forall>q \<in> set ss. fst q \<le> fst p \<Longrightarrow> 0 < keep \<Longrightarrow> p \<in> set (pruneTailSnapshots keep ss)"
  using in_set_drop_sorted_max [of "sort (map fst ss)" "fst p" "length ss - keep"]
    length_pos_if_in_set [of p ss]
  by (auto simp: pruneTailSnapshots_def Let_def)

lemma written_snapshot:
  assumes "written s st"
  shows "written s (Snapshot st)" "saved (headLimit (fst st)) (tailLimit (fst st)) s (snd (Snapshot st))"
    "fst (Snapshot st) = fst st"
proof -
  obtain w f where st: "st = (w, f)" by fastforce
  note a = assms [unfolded written_def st Let_def prod.case]
  let ?H = "headLimit w" and ?L = "tailLimit w"
  show "fst (Snapshot st) = fst st" by (simp add: Snapshot_def st Let_def)
  have len: "tailLength w = min ?L (length s - ?H)"
    using a ring_length [of w] by (simp add: keep_last_def)
  let ?p = "keep_last ?L (drop ?H s)"
  define ss where "ss = (if total w \<in> fst ` set (snapshots f) then snapshots f else (total w, ?p) # snapshots f)"
  have "written s (Snapshot st) \<and> saved ?H ?L s (snd (Snapshot st))"
  proof (cases "tailLength w = 0")
    case True
    then have H: "length s \<le> ?H" using len a by auto
    moreover have "snapshots f = []"
    proof (rule ccontr)
      assume "snapshots f \<noteq> []"
      then obtain n q where "(n, q) \<in> set (snapshots f)" by (cases "snapshots f") auto
      then show False using a H by fastforce
    qed
    ultimately show ?thesis using assms a True by (simp add: Snapshot_def st saved_def)
  next
    case False
    then have H: "?H < length s" using len by auto
    have snap: "Snapshot st = (w, f\<lparr>snapshots := pruneTailSnapshots 2 ss\<rparr>)"
      using False snapshot_payload [of w] a by (simp add: Snapshot_def st Let_def ss_def)
    have all: "\<forall>(n, q) \<in> set ss. ?H < n \<and> n \<le> length s \<and> q = keep_last ?L (drop ?H (take n s))"
      using a H by (auto simp: ss_def)
    have max: "(length s, ?p) \<in> set ss"
    proof (cases "total w \<in> fst ` set (snapshots f)")
      case True
      then obtain q where "(total w, q) \<in> set (snapshots f)" by auto
      moreover have "total w = length s" using a by blast
      ultimately have q: "(length s, q) \<in> set (snapshots f)" by simp
      have "\<forall>(n, q) \<in> set (snapshots f). q = keep_last ?L (drop ?H (take n s))" using a by blast
      then have "q = ?p" using q by auto
      then show ?thesis using True q by (simp add: ss_def)
    qed (use a in \<open>simp add: ss_def\<close>)
    have top: "\<forall>q \<in> set ss. fst q \<le> length s" using all by auto
    have kept: "(length s, ?p) \<in> set (pruneTailSnapshots 2 ss)"
      using prune_keeps_max [OF max] top by simp
    have only: "q = (length s, ?p)" if "q \<in> set (pruneTailSnapshots 2 ss)" "fst q = length s" for q
    proof -
      have "q \<in> set ss" using that(1) prune_subset by blast
      then have "snd q = keep_last ?L (drop ?H (take (fst q) s))" using all by (simp add: case_prod_beta)
      then show ?thesis using that(2) by (simp add: prod_eq_iff)
    qed
    have top2: "\<forall>q \<in> set (pruneTailSnapshots 2 ss). fst q \<le> length s"
      using top prune_subset [of 2 ss] by blast
    have "fst (0, [] :: bytes) < length s" using H by (cases s) simp_all
    from latest_of_max [OF top2 kept this only]
    have "latest_of (pruneTailSnapshots 2 ss) (0, []) = (length s, ?p)" .
    moreover have "\<forall>(n, q) \<in> set (pruneTailSnapshots 2 ss). ?H < n \<and> n \<le> length s \<and>
        q = keep_last ?L (drop ?H (take n s))"
      by (rule ballI, rule bspec [OF all]) (use prune_subset [of 2 ss] in blast)
    ultimately show ?thesis using snap a H by (simp add: saved_def written_def)
  qed
  then show "written s (Snapshot st)" "saved (headLimit (fst st)) (tailLimit (fst st)) s (snd (Snapshot st))"
    by (auto simp: st)
qed


subsection \<open>The reader\<close>

lemma drop_take_all: "drop (length (take n xs)) xs = drop n xs"
  by (cases "n \<le> length xs") auto

text \<open>What is retained of the stream from position \<^verbatim>\<open>c\<close> on.\<close>

definition retained_from :: "nat \<Rightarrow> nat \<Rightarrow> bytes \<Rightarrow> nat \<Rightarrow> bytes" where
  "retained_from H L s c = drop c (take H s) @ drop (max c (max H (length s - L))) s"

lemma saved_parts:
  assumes "saved H L s f" "H + L \<le> R"
  obtains tail n where "latestTailSnapshot R f = Inr (tail, n)" "max n (length (take H s)) = length s"
    "tail = drop (max (min H (length s)) (length s - L)) s"
proof (cases "length s \<le> H")
  case True
  then show ?thesis using assms by (intro that [of "[]" 0]) (auto simp: saved_def latestTailSnapshot_def)
next
  case False
  have k: "keep_last L (drop H s) = drop (max H (length s - L)) s"
  proof -
    have "length (drop H s) - L + H = max H (length s - L)" unfolding length_drop max_def by arith
    then show ?thesis by (simp add: keep_last_def)
  qed
  then have "length (keep_last L (drop H s)) \<le> R" using assms(2) by auto
  then show ?thesis using False assms(1) k
    by (intro that [of "keep_last L (drop H s)" "length s"]) (auto simp: saved_def latestTailSnapshot_def)
qed

lemma readLogChunk_saved:
  assumes "saved H L s f" "H + L \<le> R" "c \<le> length s" "0 < limit"
  shows "\<exists>m. readLogChunk f (int c) limit R = Inr
      \<lparr>Data = take limit (retained_from H L s c), Cursor = int c, NextCursor = int m,
       AvailableEnd = int (length s), DroppedBytes = int (length s - (H + L)),
       Truncated = (length (drop c (take H s)) < limit \<and> max c (min H (length s)) < max H (length s - L) \<and> max c (min H (length s)) < length s)\<rparr> \<and>
    m \<le> length s \<and> retained_from H L s m = drop limit (retained_from H L s c) \<and>
    c \<le> m \<and> (c < length s \<longrightarrow> c < m)"
proof -
  obtain tail n where t: "latestTailSnapshot R f = Inr (tail, n)" "max n (length (take H s)) = length s"
    "tail = drop (max (min H (length s)) (length s - L)) s"
    by (rule saved_parts [OF assms(1,2)])
  have head: "headFile f = take H s" using assms(1) by (simp add: saved_def)
  define h where "h = min H (length s)"
  define a where "a = max h (length s - L)"
  have lens: "length (take H s) = h" "length tail = length s - a" "a \<le> length s" "h \<le> a" "h \<le> R"
    using assms(2) by (auto simp: h_def a_def t(3))
  have tail: "tail = drop a s" by (simp add: t(3) a_def h_def)
  have r: "retained_from H L s k = drop k (take H s) @ drop (max k a) s" for k
    by (cases "H \<le> length s") (auto simp: retained_from_def a_def h_def max_def)
  define d1 where "d1 = (if c < h then take limit (drop c (take H s)) else [])"
  define p1 where "p1 = (if c < h then min (c + limit) h else c)"
  define more where "more = (length d1 < limit \<and> p1 < length s)"
  define p2 where "p2 = (if more \<and> p1 < a then a else p1)"
  define d2 where "d2 = (if more \<and> p2 \<ge> a then take (limit - length d1) (drop p2 s) else [])"
  have ta: "int (length s) - int (length tail) = int a" using lens by simp
  have mx: "max n h = length s" using t(2) lens(1) by simp
  have off: "(if more \<and> p2 \<ge> a \<and> p2 - a < length tail then take (limit - length d1) (drop (p2 - a) tail) else []) = d2"
    using lens by (auto simp: d2_def tail)
  have off2: "nat (int p2 - int a) = p2 - a" by simp
  have chunk: "readLogChunk f (int c) limit R = Inr \<lparr>Data = d1 @ d2, Cursor = int c,
      NextCursor = int (p2 + length d2), AvailableEnd = int (length s), DroppedBytes = max 0 (int a - int h),
      Truncated = (more \<and> p1 < a)\<rparr>"
    using assms(3) lens(5)
    unfolding readLogChunk_def t(1) head Let_def lens(1) sum.case prod.case mx ta nat_int
      d1_def [symmetric] p1_def [symmetric]
    unfolding more_def [symmetric] of_nat_less_iff
    unfolding p2_def [symmetric] of_nat_le_iff off2 off by simp
  have d1_len: "length d1 = (if c < h then min limit (h - c) else 0)" by (simp add: d1_def h_def min_def)
  have split: "drop c (take H s) = drop c (take h s)" by (simp add: h_def min_def)
  have res: "d1 @ d2 = take limit (retained_from H L s c) \<and> p2 + length d2 \<le> length s \<and>
      retained_from H L s (p2 + length d2) = drop limit (retained_from H L s c) \<and>
      c \<le> p2 + length d2 \<and> (c < length s \<longrightarrow> c < p2 + length d2)"
  proof (cases "c < h \<and> limit \<le> h - c")
    case True
    then have "\<not> more" "p2 = c + limit" "d2 = []" "d1 = take limit (drop c (take H s))"
      using d1_len by (auto simp: more_def p2_def d2_def p1_def d1_def)
    moreover have "max (c + limit) a = a" "max c a = a" using True lens by auto
    ultimately show ?thesis using True lens assms(4) by (simp add: r add.commute)
  next
    case False
    have d1: "d1 = drop c (take H s)" and dl: "length d1 = h - c" "length d1 < limit"
      using False lens(1) assms(4) by (auto simp: d1_def not_less)
    have p1: "p1 = max c h" using False by (auto simp: p1_def)
    have p2: "p2 = max c a"
      using lens assms(3) dl p1 by (auto simp: p2_def more_def max_def)
    have d2: "d2 = take (limit - length d1) (drop (max c a) s)"
      using dl p1 p2 assms(3) lens by (auto simp: d2_def more_def)
    have "max (p2 + length d2) a = p2 + length d2" "drop (p2 + length d2) (take H s) = []"
      using p2 lens by auto
    then have "retained_from H L s (p2 + length d2) = drop (length d2) (drop (max c a) s)"
      by (simp add: r p2 add.commute)
    moreover have "drop (length d2) (drop (max c a) s) = drop (limit - length d1) (drop (max c a) s)"
      unfolding d2 by (rule drop_take_all)
    moreover have "p2 + length d2 \<le> length s" using p2 assms(3) lens(3) by (simp add: d2)
    moreover have "c \<le> p2 + length d2" using p2 by simp
    moreover have "c < length s \<longrightarrow> c < p2 + length d2"
    proof -
      have "length d2 = min (length s - max c a) (limit - length d1)" by (simp add: d2)
      then show ?thesis using dl(2) unfolding p2 by linarith
    qed
    moreover have full: "retained_from H L s c = d1 @ drop (max c a) s" unfolding r d1 ..
    moreover have "take limit (retained_from H L s c) = d1 @ d2"
      unfolding full d2 using dl(2) by (simp only: take_append take_all less_imp_le)
    moreover have "drop limit (retained_from H L s c) = drop (limit - length d1) (drop (max c a) s)"
      unfolding full using dl(2) by (simp only: drop_append drop_all less_imp_le append_Nil)
    ultimately show ?thesis by metis
  qed
  have "max 0 (int a - int h) = int (length s - (H + L))" by (auto simp: a_def h_def max_def min_def)
  moreover have "(more \<and> p1 < a) = (length (drop c (take H s)) < limit \<and>
      max c (min H (length s)) < max H (length s - L) \<and> max c (min H (length s)) < length s)"
    using d1_len lens(1) assms(4) by (auto simp: more_def p1_def a_def h_def max_def min_def)
  ultimately show ?thesis using chunk res by (intro exI [of _ "p2 + length d2"]) simp
qed


text \<open>The histories of a writer: created with a limit, fed, and saved now and then.\<close>

inductive logged :: "nat \<Rightarrow> bytes \<Rightarrow> log_writer \<times> log_files \<Rightarrow> bool" for limit where
  new: "logged limit [] (newBoundedLogWriter limit)"
| wrote: "logged limit s st \<Longrightarrow> logged limit (s @ p) (WriteLog p st)"
| snapshot: "logged limit s st \<Longrightarrow> logged limit s (Snapshot st)"

lemma write_frame:
  "headLimit (fst (WriteLog p st)) = headLimit (fst st)" "tailLimit (fst (WriteLog p st)) = tailLimit (fst st)"
proof -
  have "headLimit (fold put_tail bs w) = headLimit w \<and> tailLimit (fold put_tail bs w) = tailLimit w" for bs w
    by (induction bs arbitrary: w) (simp_all add: put_tail_frame)
  then show "headLimit (fst (WriteLog p st)) = headLimit (fst st)" "tailLimit (fst (WriteLog p st)) = tailLimit (fst st)"
    by (simp_all add: WriteLog_def Let_def split: prod.splits)
qed

lemma snapshot_fst: "fst (Snapshot st) = fst st"
  by (cases st) (simp add: Snapshot_def Let_def)

lemma logged_written:
  "logged limit s st \<Longrightarrow> 4096 \<le> limit \<Longrightarrow> written s st \<and> headLimit (fst st) = limit div 4 \<and>
   tailLimit (fst st) = limit - limit div 4"
proof (induction rule: logged.induct)
  case new
  then have "headLimit (fst (newBoundedLogWriter limit)) = limit div 4 \<and>
      tailLimit (fst (newBoundedLogWriter limit)) = limit - limit div 4"
    by (simp add: newBoundedLogWriter_def Let_def)
  then show ?case using written_new new by simp
next
  case (wrote s st p)
  then show ?case using written_write by (simp add: write_frame)
next
  case (snapshot s st)
  then show ?case using written_snapshot(1) by (simp add: snapshot_fst)
qed

lemma logged_saved:
  "logged limit s st \<Longrightarrow> 4096 \<le> limit \<Longrightarrow>
   saved (limit div 4) (limit - limit div 4) s (snd (Snapshot st))"
  using logged_written [of limit s st] written_snapshot(2) [of s st] by auto

text \<open>A client that reads chunk after chunk, following the cursor, until the available end.\<close>

fun read_log :: "nat \<Rightarrow> log_files \<Rightarrow> int \<Rightarrow> nat \<Rightarrow> nat \<Rightarrow> bytes option" where
  "read_log 0 f cursor n limit = None"
| "read_log (Suc fuel) f cursor n limit =
     (case readLogChunk f cursor n limit of
        Inl e \<Rightarrow> None
      | Inr c \<Rightarrow>
          if NextCursor c = AvailableEnd c then Some (Data c)
          else map_option (\<lambda>d. Data c @ d) (read_log fuel f (NextCursor c) n limit))"

lemma read_log_saved:
  assumes "saved H L s f" "H + L \<le> R" "0 < n"
  shows "c \<le> length s \<Longrightarrow> length s - c < fuel \<Longrightarrow> read_log fuel f (int c) n R = Some (retained_from H L s c)"
proof (induction fuel arbitrary: c)
  case (Suc fuel)
  obtain m d t where m: "readLogChunk f (int c) n R = Inr \<lparr>Data = take n (retained_from H L s c), Cursor = int c,
      NextCursor = int m, AvailableEnd = int (length s), DroppedBytes = d, Truncated = t\<rparr>"
    "m \<le> length s" "retained_from H L s m = drop n (retained_from H L s c)" "c \<le> m" "c < length s \<longrightarrow> c < m"
    using readLogChunk_saved [OF assms(1,2) Suc(2) assms(3)] by blast
  show ?case
  proof (cases "m = length s")
    case True
    then have "drop n (retained_from H L s c) = []" using m(3) by (simp add: retained_from_def)
    then show ?thesis using m(1) True by simp
  next
    case False
    then have "length s - m < fuel" using m(2,4,5) Suc(2,3) by linarith
    then have "read_log fuel f (int m) n R = Some (drop n (retained_from H L s c))"
      using Suc(1) [OF m(2)] m(3) by simp
    then show ?thesis using m(1) False by simp
  qed
qed simp

subsection \<open>Properties\<close>

text \<open>Whatever was written in whatever pieces, once it is saved a chunk read at a position of the
  stream holds the next bytes that are retained: the first quarter of the limit and the last three
  quarters; it reports the end, the number of bytes that were dropped, and whether it skipped some.\<close>

theorem log_chunk_exact:
  assumes "logged limit s st" "4096 \<le> limit" "c \<le> length s" "0 < n"
  shows "\<exists>m. readLogChunk (snd (Snapshot st)) (int c) n limit = Inr
      \<lparr>Data = take n (drop c (take (limit div 4) s) @
          drop (max c (max (limit div 4) (length s - (limit - limit div 4)))) s),
       Cursor = int c, NextCursor = int m, AvailableEnd = int (length s), DroppedBytes = int (length s - limit),
       Truncated = (length (drop c (take (limit div 4) s)) < n \<and>
         max c (min (limit div 4) (length s)) < max (limit div 4) (length s - (limit - limit div 4)) \<and>
         max c (min (limit div 4) (length s)) < length s)\<rparr> \<and>
    m \<le> length s \<and> (c < length s \<longrightarrow> c < m)"
proof -
  have "limit div 4 + (limit - limit div 4) = limit" by simp
  then show ?thesis
    using readLogChunk_saved [OF logged_saved [OF assms(1,2)] _ assms(3,4), of limit]
    unfolding retained_from_def by auto
qed

definition sample_log :: "log_writer \<times> log_files" where
  "sample_log = WriteLog [0x62, 0x63] (Snapshot (WriteLog [0x61] (newBoundedLogWriter 4096)))"

lemma sample_logged: "logged 4096 ([0x61] @ [0x62, 0x63]) sample_log"
  using logged.wrote [OF logged.snapshot [OF logged.wrote [OF logged.new [of 4096], of "[0x61]"]], of "[0x62, 0x63]"]
  by (simp add: sample_log_def)

lemma log_chunk_exact_witness:
  "\<exists>c. readLogChunk (snd (Snapshot sample_log)) 1 1 4096 = Inr c \<and> Data c = [0x62] \<and> \<not> Truncated c"
  using log_chunk_exact [OF sample_logged, of 1 1] by auto

text \<open>C17: reading chunk after chunk from the start gives everything that is retained, within one more
  request than the stream has bytes: the whole stream when it fits the limit, else its first quarter
  of the limit and its last three quarters, never more bytes than the limit.\<close>

theorem logs_reassemble:
  assumes "logged limit s st" "4096 \<le> limit" "0 < n"
  shows "\<exists>d. read_log (Suc (length s)) (snd (Snapshot st)) 0 n limit = Some d \<and> length d \<le> limit \<and>
    (if length s \<le> limit then d = s
     else d = take (limit div 4) s @ drop (length s - (limit - limit div 4)) s)"
proof -
  have "limit div 4 + (limit - limit div 4) = limit" by simp
  then have r: "read_log (Suc (length s)) (snd (Snapshot st)) 0 n limit =
      Some (retained_from (limit div 4) (limit - limit div 4) s 0)"
    using read_log_saved [OF logged_saved [OF assms(1,2)] _ assms(3), of limit 0 "Suc (length s)"] by simp
  show ?thesis
  proof (cases "length s \<le> limit")
    case True
    then have "max (limit div 4) (length s - (limit - limit div 4)) = limit div 4" by simp
    then show ?thesis using r True by (simp add: retained_from_def)
  next
    case False
    then have "max (limit div 4) (length s - (limit - limit div 4)) = length s - (limit - limit div 4)" by simp
    then show ?thesis using r False by (simp add: retained_from_def)
  qed
qed

lemma logs_reassemble_witness:
  "read_log 4 (snd (Snapshot sample_log)) 0 2 4096 = Some [0x61, 0x62, 0x63]"
  using logs_reassemble [OF sample_logged, of 2]
  by (auto simp: eval_nat_numeral simp del: read_log.simps)

end
