(* ===== verification/Go_Json.thy ===== *)
theory Go_Json
  imports Go_Hex
begin

text \<open>
  What a text becomes that \<^verbatim>\<open>encoding/json\<close> writes into a file and reads again: every byte that is part of no
  character comes back as the replacement character, everything else as it was.
\<close>

function json_string :: "bytes \<Rightarrow> bytes" where
  "json_string s =
     (if s = [] then []
      else (if decode_rune s = (rune_error, 1) then encode_rune rune_error else take (snd (decode_rune s)) s)
        @ json_string (drop (snd (decode_rune s)) s))"
  by pat_completeness auto
termination
  by (relation "measure length") (use decode_rune_step_measure in auto)

declare json_string.simps [simp del]

lemma json_string_Nil [simp]: "json_string [] = []"
  by (subst json_string.simps) simp

text \<open>A text that is valid is not changed.\<close>

lemma json_string_valid: "utf8_valid s \<Longrightarrow> json_string s = s"
proof (induction s rule: json_string.induct)
  case (1 s)
  show ?case
  proof (cases "s = []")
    case False
    have "decode_rune s \<noteq> (rune_error, 1) \<and> utf8_valid (drop (snd (decode_rune s)) s)"
      using 1(2) False by (subst (asm) utf8_valid.simps) (auto split: prod.splits if_splits)
    then show ?thesis using 1(1) False by (subst json_string.simps) simp
  qed simp
qed

end
