(* ===== verification/Task_Store.thy ===== *)
theory Task_Store
  imports Go_Json "HOL-Library.AList" "HOL-Library.List_Lexorder" "HOL-Library.Product_Lexorder"
begin

text \<open>
  The durable task store, \<^verbatim>\<open>internal/taskstore/types.go\<close> and \<^verbatim>\<open>store.go\<close>: validation of requests,
  the history of states of a task, admission with its repair, cancellation, and listing.

  The task directories are an association list from ids to their files: the request, the state
  records, and the markers. Everything an operation does under the control lock is one step. What
  the code takes from elsewhere are arguments: the clock, whether a path is absolute, the JSON texts of
  a request and of the file that holds it, SHA-256, and the heartbeat of the worker.
\<close>

datatype status = Queued | Starting | Running | Succeeded | Failed | TimedOut | Cancelled
  | Interrupted | OtherStatus bytes

fun Terminal :: "status \<Rightarrow> bool" where
  "Terminal Succeeded = True"
| "Terminal Failed = True"
| "Terminal TimedOut = True"
| "Terminal Cancelled = True"
| "Terminal Interrupted = True"
| "Terminal _ = False"

fun validStatus :: "status \<Rightarrow> bool" where
  "validStatus (OtherStatus _) = False"
| "validStatus _ = True"

definition validStateTransition :: "status \<Rightarrow> status \<Rightarrow> bool" where
  "validStateTransition from to =
     (case from of
        Queued \<Rightarrow> to = Starting \<or> to = Cancelled \<or> to = Failed
      | Starting \<Rightarrow> to = Running \<or> to = Queued \<or> to = Failed \<or> to = Interrupted
      | Running \<Rightarrow> to = Succeeded \<or> to = Failed \<or> to = TimedOut \<or> to = Cancelled \<or> to = Interrupted
      | _ \<Rightarrow> False)"

datatype kind = Shell | Script | OtherKind bytes

record request =
  Kind :: kind
  Name :: bytes
  Description :: bytes
  Tags :: "bytes list"
  IdempotencyKey :: bytes
  LockKeys :: "bytes list"
  WorkingDirectory :: bytes
  Command :: bytes
  ShellName :: bytes
  ScriptPath :: bytes
  ScriptDigest :: bytes
  ScriptSize :: int
  Args :: "bytes list"
  MaxRuntimeSeconds :: int

record task_result =
  ExitCode :: int
  DurationMillis :: int
  ErrorCode :: string
  Message :: bytes

record state_record =
  Status :: status
  Revision :: nat
  UpdatedAt :: int
  StartedAt :: "int option"
  FinishedAt :: "int option"
  ExecutorToken :: bytes
  Result :: "task_result option"

record persisted_request =
  TaskID :: bytes
  CreatedAt :: int
  PayloadHash :: bytes
  Request :: request

record task_event =
  evStatus :: status
  evRevision :: nat
  Timestamp :: int
  evErrorCode :: string

record task =
  tkID :: bytes
  tkKind :: kind
  tkName :: bytes
  tkDescription :: bytes
  tkTags :: "bytes list"
  tkLockKeys :: "bytes list"
  tkStatus :: status
  tkCreatedAt :: int
  tkUpdatedAt :: int
  tkStartedAt :: "int option"
  tkFinishedAt :: "int option"
  tkMaxRuntimeSeconds :: int
  CancelRequested :: bool
  WorkerOnline :: bool
  tkResult :: "task_result option"
  tkRevision :: nat
  History :: "task_event list"

record task_limits =
  MaxConcurrency :: int
  MaxQueued :: int
  MaxLogBytesPerStream :: int
  LimitRuntimeSeconds :: int
  RetentionDays :: int
  MaxTerminal :: int
  MaxTotalBytes :: int

record launch_record =
  Program :: bytes
  LaunchArgs :: "bytes list"
  LaunchDirectory :: bytes
  LaunchRuntime :: int
  LaunchToken :: bytes

text \<open>
  A task directory: a file that is absent or unreadable is \<^verbatim>\<open>None\<close>. \<^verbatim>\<open>born\<close> tells the directories
  apart that one id has over time; the code has no such number.
\<close>

record task_dir =
  requestFile :: "persisted_request option"
  states :: "state_record list"
  cancelFile :: bool
  startedFile :: bool
  launchFile :: "launch_record option"
  heartbeat :: "int option"
  dirBytes :: int
  born :: nat

record task_store =
  dirs :: "(bytes \<times> task_dir) list"
  limits :: task_limits
  salt :: bytes
  births :: nat

record task_env =
  isAbs :: "bytes \<Rightarrow> bool"
  marshal :: "request \<Rightarrow> bytes"
  sha256 :: "bytes \<Rightarrow> bytes"
  requestJSON :: "persisted_request \<Rightarrow> bytes"

datatype task_error =
    ErrNotFound
  | ErrQueueFull
  | ErrIdempotencyConflict
  | ErrInvalidInput string
  | ErrStore string

definition maxStateRecords :: nat where "maxStateRecords = 32"
definition maxDispatchAttempts :: nat where "maxDispatchAttempts = 8"

subsection \<open>Requests\<close>

definition validBoundedText :: "bytes \<Rightarrow> nat \<Rightarrow> bool \<Rightarrow> bool" where
  "validBoundedText value maximum emptyAllowed =
     (if \<not> utf8_valid value \<or> 0 \<in> set value \<or> length value > maximum then False
      else emptyAllowed \<or> \<not> blank value)"

fun uniqueStrings :: "bytes set \<Rightarrow> bytes list \<Rightarrow> nat \<Rightarrow> bool" where
  "uniqueStrings seen [] maximum = True"
| "uniqueStrings seen (v # vs) maximum =
     (if \<not> validBoundedText v maximum False then False
      else if v \<in> seen then False else uniqueStrings (insert v seen) vs maximum)"

definition validUniqueStrings :: "bytes list \<Rightarrow> nat \<Rightarrow> bool" where
  "validUniqueStrings vs maximum = uniqueStrings {} vs maximum"

definition validateRequest :: "(bytes \<Rightarrow> bool) \<Rightarrow> task_limits \<Rightarrow> request \<Rightarrow> string option" where
  "validateRequest absolute l r =
     (if Kind r \<noteq> Shell \<and> Kind r \<noteq> Script then Some ''kind''
      else if \<not> validBoundedText (Name r) 120 True then Some ''name''
      else if \<not> validBoundedText (Description r) 2000 True then Some ''description''
      else if \<not> validBoundedText (IdempotencyKey r) 256 False then Some ''idempotencyKey''
      else if length (Tags r) > 16 \<or> \<not> validUniqueStrings (Tags r) 64 then Some ''tags''
      else if length (LockKeys r) > 16 \<or> \<not> validUniqueStrings (LockKeys r) 128 then Some ''lockKeys''
      else if WorkingDirectory r = [] \<or> \<not> absolute (WorkingDirectory r) then Some ''workingDirectory''
      else if int (length (WorkingDirectory r)) > 32 * 1024 \<or> 0 \<in> set (WorkingDirectory r) then Some ''workingDirectory''
      else if MaxRuntimeSeconds r < 0 \<or>
              LimitRuntimeSeconds l > 0 \<and> MaxRuntimeSeconds r > LimitRuntimeSeconds l
           then Some ''maxRuntimeSeconds''
      else if length (Args r) > 256 then Some ''args''
      else if \<exists>a \<in> set (Args r). int (length a) > 4 * 1024 \<or> \<not> utf8_valid a \<or> 0 \<in> set a then Some ''argument''
      else if Kind r = Shell then
        (if blank (Command r) then Some ''command''
         else if int (length (Command r)) > 256 * 1024 \<or> \<not> utf8_valid (Command r) \<or> 0 \<in> set (Command r)
              then Some ''command''
         else if length (ShellName r) > 64 \<or> \<not> utf8_valid (ShellName r) \<or> 0 \<in> set (ShellName r)
              then Some ''shell''
         else if ScriptPath r \<noteq> [] \<or> ScriptDigest r \<noteq> [] \<or> ScriptSize r \<noteq> 0 \<or> Args r \<noteq> []
              then Some ''scriptPath''
         else None)
      else
        (if ScriptPath r = [] \<or> \<not> absolute (ScriptPath r) then Some ''scriptPath''
         else if int (length (ScriptPath r)) > 32 * 1024 \<or> length (ScriptDigest r) \<noteq> 64 \<or>
                 ScriptSize r < 0 \<or> ScriptSize r > 1024 * 1024 * 1024
              then Some ''scriptDigest''
         else if \<not> list_all is_hex (ScriptDigest r) then Some ''scriptDigest''
         else if Command r \<noteq> [] \<or> ShellName r \<noteq> [] then Some ''command''
         else None))"

definition validateLimits :: "task_limits \<Rightarrow> bool" where
  "validateLimits l \<longleftrightarrow>
     \<not> (MaxConcurrency l < 1 \<or> MaxQueued l < 1 \<or> MaxLogBytesPerStream l < 4096 \<or> LimitRuntimeSeconds l < 0 \<or>
        RetentionDays l < 1 \<or> MaxTerminal l < 1 \<or> MaxTotalBytes l < 1024 * 1024)"

definition validTaskID :: "bytes \<Rightarrow> bool" where
  "validTaskID i \<longleftrightarrow> length i = 36 \<and> take 4 i = str ''tsk_'' \<and> list_all is_hex (drop 4 i)"

definition taskIDOf :: "task_env \<Rightarrow> bytes \<Rightarrow> bytes \<Rightarrow> bytes" where
  "taskIDOf env s key = str ''tsk_'' @ hex_encode (take 16 (sha256 env (s @ [0] @ key)))"

definition payloadHashOf :: "task_env \<Rightarrow> request \<Rightarrow> bytes" where
  "payloadHashOf env r = hex_encode (sha256 env (marshal env r))"

subsection \<open>The history of a task\<close>

text \<open>The records of the directory that can be read, in the order of their revisions, if they make a history.\<close>

fun contiguous :: "state_record list \<Rightarrow> bool" where
  "contiguous (a # b # ss) =
     (Revision b = Revision a + 1 \<and> validStateTransition (Status a) (Status b) \<and> contiguous (b # ss))"
| "contiguous _ = True"

definition readable_state :: "state_record \<Rightarrow> bool" where
  "readable_state s \<longleftrightarrow> 1 \<le> Revision s \<and> Revision s \<le> maxStateRecords \<and> validStatus (Status s) \<and> UpdatedAt s \<noteq> 0"

definition stateHistory :: "task_dir \<Rightarrow> task_error + state_record list" where
  "stateHistory d =
     (if length (states d) > maxStateRecords + 64 then Inl (ErrStore ''bounded namespace'')
      else let ss = sort_key Revision (filter readable_state (states d)) in
        if ss = [] then Inl (ErrStore ''no valid state'')
        else if Revision (hd ss) \<noteq> 1 \<or> Status (hd ss) \<noteq> Queued then Inl (ErrStore ''invalid initial state'')
        else if \<not> contiguous ss then Inl (ErrStore ''invalid transition'')
        else Inr ss)"

definition latestState :: "task_dir \<Rightarrow> task_error + state_record" where
  "latestState d = (case stateHistory d of Inl e \<Rightarrow> Inl e | Inr ss \<Rightarrow> Inr (last ss))"

definition put_dir :: "bytes \<Rightarrow> task_dir \<Rightarrow> task_store \<Rightarrow> task_store" where
  "put_dir i d st = st\<lparr>dirs := AList.update i d (dirs st)\<rparr>"

definition append_error :: "task_dir \<Rightarrow> state_record \<Rightarrow> task_error option" where
  "append_error d s =
     (if \<not> readable_state s then Some (ErrStore ''state record invalid'')
      else if Revision s = 1 then
        (if Status s \<noteq> Queued then Some (ErrStore ''first state'')
         else if \<exists>x \<in> set (states d). Revision x = 1 \<and> Status x = Queued then Some (ErrStore ''exists'')
         else None)
      else (case latestState d of
          Inl e \<Rightarrow> Some e
        | Inr current \<Rightarrow>
            if Revision s \<noteq> Revision current + 1 \<or> \<not> validStateTransition (Status current) (Status s)
            then Some (ErrStore ''stale or invalid transition'') else None))"

definition appendState :: "bytes \<Rightarrow> state_record \<Rightarrow> task_store \<Rightarrow> task_error option \<times> task_store" where
  "appendState i s st =
     (case map_of (dirs st) i of
        None \<Rightarrow> (Some (ErrStore ''no task directory''), st)
      | Some d \<Rightarrow>
          (case append_error d s of
             Some e \<Rightarrow> (Some e, st)
           | None \<Rightarrow> (None, put_dir i (d\<lparr>states := states d @ [s]\<rparr>) st)))"

subsection \<open>Reading tasks\<close>

text \<open>
  The request file holds JSON text. What is read from it is the record with every byte of its strings
  that is no character replaced (the identifier and the hash are hexadecimal), and a file of more
  than 2 MiB is not read. The state records of the code stay far below the bound on theirs.
\<close>

definition maxRequestFile :: int where "maxRequestFile = 2 * 1024 * 1024"

definition read_back :: "persisted_request \<Rightarrow> persisted_request" where
  "read_back p =
     (let r = Request p in
      p\<lparr>Request := r\<lparr>Name := json_string (Name r), Description := json_string (Description r),
         Tags := map json_string (Tags r), IdempotencyKey := json_string (IdempotencyKey r),
         LockKeys := map json_string (LockKeys r), WorkingDirectory := json_string (WorkingDirectory r),
         Command := json_string (Command r), ShellName := json_string (ShellName r),
         ScriptPath := json_string (ScriptPath r), ScriptDigest := json_string (ScriptDigest r),
         Args := map json_string (Args r)\<rparr>\<rparr>)"

definition request_fits :: "task_env \<Rightarrow> persisted_request \<Rightarrow> bool" where
  "request_fits env p \<longleftrightarrow> int (length (requestJSON env p)) \<le> maxRequestFile"

definition readPersistedRequest :: "task_env \<Rightarrow> bytes \<Rightarrow> task_store \<Rightarrow> task_error + persisted_request" where
  "readPersistedRequest env i st =
     (case map_of (dirs st) i of
        None \<Rightarrow> Inl ErrNotFound
      | Some d \<Rightarrow>
          (case requestFile d of
             None \<Rightarrow> Inl ErrNotFound
           | Some q \<Rightarrow>
               if \<not> request_fits env q then Inl (ErrStore ''size limit'')
               else let p = read_back q in
               if TaskID p \<noteq> i \<or> CreatedAt p = 0 then Inl (ErrStore ''identity'')
               else if validateRequest (isAbs env) (limits st) (Request p) \<noteq> None then Inl (ErrStore ''invalid request'')
               else if PayloadHash p \<noteq> payloadHashOf env (Request p) then Inl (ErrStore ''payload hash mismatch'')
               else if i \<noteq> taskIDOf env (salt st) (IdempotencyKey (Request p)) then Inl (ErrStore ''identifier mismatch'')
               else Inr p))"

definition task_event_of :: "state_record \<Rightarrow> task_event" where
  "task_event_of s =
     \<lparr>evStatus = Status s, evRevision = Revision s, Timestamp = UpdatedAt s,
      evErrorCode = (case Result s of None \<Rightarrow> [] | Some r \<Rightarrow> ErrorCode r)\<rparr>"

definition getTaskUnlocked :: "task_env \<Rightarrow> bool \<Rightarrow> bytes \<Rightarrow> task_store \<Rightarrow> task_error + task" where
  "getTaskUnlocked env online i st =
     (case readPersistedRequest env i st of
        Inl e \<Rightarrow> Inl e
      | Inr p \<Rightarrow>
          (let d = the (map_of (dirs st) i) in
           case stateHistory d of
             Inl e \<Rightarrow> Inl e
           | Inr ss \<Rightarrow>
               (let s = last ss; r = Request p in
                Inr \<lparr>tkID = i, tkKind = Kind r, tkName = Name r, tkDescription = Description r, tkTags = Tags r,
                     tkLockKeys = LockKeys r, tkStatus = Status s, tkCreatedAt = CreatedAt p,
                     tkUpdatedAt = UpdatedAt s, tkStartedAt = StartedAt s, tkFinishedAt = FinishedAt s,
                     tkMaxRuntimeSeconds = MaxRuntimeSeconds r, CancelRequested = cancelFile d,
                     WorkerOnline = online, tkResult = Result s, tkRevision = Revision s,
                     History = map task_event_of ss\<rparr>)))"

definition GetTask :: "task_env \<Rightarrow> bool \<Rightarrow> bytes \<Rightarrow> task_store \<Rightarrow> task_error + task" where
  "GetTask env online i st = (if \<not> validTaskID i then Inl ErrNotFound else getTaskUnlocked env online i st)"

definition namespace_bound :: "task_limits \<Rightarrow> int" where
  "namespace_bound l = MaxTerminal l + MaxQueued l + MaxConcurrency l + 1024"

definition readDirectoryBounded :: "task_store \<Rightarrow> task_error + bytes list" where
  "readDirectoryBounded st =
     (if int (length (dirs st)) > namespace_bound (limits st) then Inl (ErrStore ''bounded namespace'')
      else Inr (sort (map fst (dirs st))))"

definition countQueuedUnlocked :: "task_store \<Rightarrow> task_error + nat" where
  "countQueuedUnlocked st =
     (case readDirectoryBounded st of
        Inl e \<Rightarrow> Inl e
      | Inr ids \<Rightarrow>
          Inr (length (filter (\<lambda>i. validTaskID i \<and>
             (case map_of (dirs st) i of None \<Rightarrow> False
              | Some d \<Rightarrow> (case latestState d of Inl _ \<Rightarrow> False | Inr s \<Rightarrow> Status s = Queued))) ids)))"

subsection \<open>Admission\<close>

text \<open>
  A write of an admission can fail, and then the directory is removed again, or the process can
  die after some of the three writes: the directory, the request and the first state.
\<close>

datatype fault = NoFault | WriteFails nat | Crash nat

definition remove_dir :: "bytes \<Rightarrow> task_store \<Rightarrow> task_store" where
  "remove_dir i st = st\<lparr>dirs := AList.delete i (dirs st)\<rparr>"

definition removeIncompleteAdmissionUnlocked :: "bytes \<Rightarrow> task_store \<Rightarrow> task_error option \<times> task_store" where
  "removeIncompleteAdmissionUnlocked i st =
     (case map_of (dirs st) i of
        None \<Rightarrow> (None, st)
      | Some d \<Rightarrow>
          if startedFile d then (Some (ErrStore ''start marker''), st)
          else (case latestState d of
              Inr s \<Rightarrow> if Status s \<noteq> Queued then (Some (ErrStore ''non-repairable state''), st)
                       else (None, remove_dir i st)
            | Inl e \<Rightarrow> (None, remove_dir i st)))"

definition empty_dir :: "nat \<Rightarrow> task_dir" where
  "empty_dir b = \<lparr>requestFile = None, states = [], cancelFile = False, startedFile = False, launchFile = None,
     heartbeat = None, dirBytes = 0, born = b\<rparr>"

definition queued_record :: "int \<Rightarrow> nat \<Rightarrow> state_record" where
  "queued_record now n = \<lparr>Status = Queued, Revision = n, UpdatedAt = now, StartedAt = None,
     FinishedAt = None, ExecutorToken = [], Result = None\<rparr>"

text \<open>The store after the first \<^verbatim>\<open>n\<close> writes of an admission.\<close>

definition admit :: "nat \<Rightarrow> bytes \<Rightarrow> persisted_request \<Rightarrow> int \<Rightarrow> task_store \<Rightarrow> task_store" where
  "admit n i p now st =
     (if n = 0 then st
      else let d = empty_dir (births st);
               d1 = (if n \<ge> 2 then d\<lparr>requestFile := Some p\<rparr> else d);
               d2 = (if n \<ge> 3 then d1\<lparr>states := [queued_record now 1]\<rparr> else d1)
           in (put_dir i d2 st)\<lparr>births := births st + 1\<rparr>)"

record submit_result =
  subTask :: task
  Duplicated :: bool

definition admit_new ::
  "task_env \<Rightarrow> bool \<Rightarrow> fault \<Rightarrow> int \<Rightarrow> bytes \<Rightarrow> request \<Rightarrow> task_store \<Rightarrow>
     (task_error + submit_result) option \<times> task_store"
where
  "admit_new env online fault now i r st =
     (case countQueuedUnlocked st of
        Inl e \<Rightarrow> (Some (Inl e), st)
      | Inr queued \<Rightarrow>
          if int queued \<ge> MaxQueued (limits st) then (Some (Inl ErrQueueFull), st)
          else let p = \<lparr>TaskID = i, CreatedAt = now, PayloadHash = payloadHashOf env r, Request = r\<rparr>
            in case fault of
                 WriteFails n \<Rightarrow> (Some (Inl (ErrStore ''write failed'')), st)
               | Crash n \<Rightarrow> (None, admit (min n 3) i p now st)
               | NoFault \<Rightarrow>
                   (let st' = admit 3 i p now st
                    in case getTaskUnlocked env online i st' of
                         Inl e \<Rightarrow> (Some (Inl e), st')
                       | Inr t \<Rightarrow> (Some (Inr \<lparr>subTask = t, Duplicated = False\<rparr>), st')))"

definition Submit ::
  "task_env \<Rightarrow> bool \<Rightarrow> fault \<Rightarrow> int \<Rightarrow> request \<Rightarrow> task_store \<Rightarrow>
     (task_error + submit_result) option \<times> task_store"
where
  "Submit env online fault now r st =
     (case validateRequest (isAbs env) (limits st) r of
        Some e \<Rightarrow> (Some (Inl (ErrInvalidInput e)), st)
      | None \<Rightarrow>
          (let i = taskIDOf env (salt st) (IdempotencyKey r) in
           case map_of (dirs st) i of
             None \<Rightarrow> admit_new env online fault now i r st
           | Some d \<Rightarrow>
               (case readPersistedRequest env i st of
                  Inr existing \<Rightarrow>
                    if PayloadHash existing \<noteq> payloadHashOf env r then (Some (Inl ErrIdempotencyConflict), st)
                    else (case getTaskUnlocked env online i st of
                        Inr t \<Rightarrow> (Some (Inr \<lparr>subTask = t, Duplicated = True\<rparr>), st)
                      | Inl e \<Rightarrow>
                          (case removeIncompleteAdmissionUnlocked i st of
                             (Some e', st') \<Rightarrow> (Some (Inl (ErrStore ''cannot be repaired'')), st')
                           | (None, st') \<Rightarrow> admit_new env online fault now i r st'))
                | Inl e \<Rightarrow>
                    (case removeIncompleteAdmissionUnlocked i st of
                       (Some e', st') \<Rightarrow> (Some (Inl (ErrStore ''cannot be repaired'')), st')
                     | (None, st') \<Rightarrow> admit_new env online fault now i r st'))))"

subsection \<open>Cancellation\<close>

definition terminal_record ::
  "state_record \<Rightarrow> status \<Rightarrow> int \<Rightarrow> int \<Rightarrow> string \<Rightarrow> bytes \<Rightarrow> state_record"
where
  "terminal_record current s now exit code message =
     \<lparr>Status = s, Revision = Revision current + 1, UpdatedAt = now, StartedAt = StartedAt current,
      FinishedAt = Some now, ExecutorToken = [],
      Result = Some \<lparr>ExitCode = exit, DurationMillis = 0, ErrorCode = code, Message = message\<rparr>\<rparr>"

definition CancelTask :: "task_env \<Rightarrow> bool \<Rightarrow> int \<Rightarrow> bytes \<Rightarrow> bytes \<Rightarrow> task_store \<Rightarrow> (task_error + task) \<times> task_store" where
  "CancelTask env online now i reason st =
     (if \<not> validTaskID i then (Inl ErrNotFound, st)
      else if \<not> validBoundedText reason 500 True then (Inl (ErrInvalidInput ''reason''), st)
      else case getTaskUnlocked env online i st of
          Inl e \<Rightarrow> (Inl e, st)
        | Inr t \<Rightarrow>
            if Terminal (tkStatus t) then (Inr t, st)
            else
              (let d = the (map_of (dirs st) i);
                   st1 = put_dir i (d\<lparr>cancelFile := True\<rparr>) st
               in if tkStatus t = Queued then
                    (case latestState (d\<lparr>cancelFile := True\<rparr>) of
                       Inl e \<Rightarrow> (Inl e, st1)
                     | Inr s \<Rightarrow>
                         (case appendState i ((terminal_record s Cancelled now (-1) ''TASK_CANCELLED''
                                 (str ''cancelled before execution''))\<lparr>StartedAt := None\<rparr>) st1 of
                            (Some e, st2) \<Rightarrow> (Inl e, st2)
                          | (None, st2) \<Rightarrow> (getTaskUnlocked env online i st2, st2)))
                  else (getTaskUnlocked env online i st1, st1)))"

subsection \<open>Listing\<close>

record list_options =
  Statuses :: "status list"
  Kinds :: "kind list"
  TagFilter :: "bytes list"
  ListCursor :: bytes
  Limit :: int

record list_result =
  Tasks :: "task list"
  NextCursor :: bytes
  Truncated :: bool

definition matchesTask :: "task \<Rightarrow> list_options \<Rightarrow> bool" where
  "matchesTask t o1 =
     (if Statuses o1 \<noteq> [] \<and> tkStatus t \<notin> set (Statuses o1) then False
      else if Kinds o1 \<noteq> [] \<and> tkKind t \<notin> set (Kinds o1) then False
      else \<forall>required \<in> set (TagFilter o1). required \<in> set (tkTags t))"

definition newest_first :: "task list \<Rightarrow> task list" where
  "newest_first ts = rev (sort_key (\<lambda>t. (tkCreatedAt t, tkID t)) ts)"

fun cursor_start :: "bytes \<Rightarrow> nat \<Rightarrow> task list \<Rightarrow> nat option" where
  "cursor_start c n [] = None"
| "cursor_start c n (t # ts) = (if tkID t = c then Some (n + 1) else cursor_start c (n + 1) ts)"

definition listed :: "task_env \<Rightarrow> bool \<Rightarrow> list_options \<Rightarrow> task_store \<Rightarrow> bytes list \<Rightarrow> task list" where
  "listed env online o1 st ids =
     map (\<lambda>t. t\<lparr>History := []\<rparr>) (filter (\<lambda>t. matchesTask t o1)
       (concat (map (\<lambda>i. if \<not> validTaskID i then [] else
          (case getTaskUnlocked env online i st of Inl _ \<Rightarrow> [] | Inr t \<Rightarrow> [t])) ids)))"

definition List :: "task_env \<Rightarrow> bool \<Rightarrow> list_options \<Rightarrow> task_store \<Rightarrow> task_error + list_result" where
  "List env online o1 st =
     (if \<exists>s \<in> set (Statuses o1). \<not> validStatus s then Inl (ErrInvalidInput ''status'')
      else if \<exists>k \<in> set (Kinds o1). k \<noteq> Shell \<and> k \<noteq> Script then Inl (ErrInvalidInput ''kind'')
      else if length (TagFilter o1) > 16 \<or> \<not> validUniqueStrings (TagFilter o1) 64 then Inl (ErrInvalidInput ''tags'')
      else let limit = (if Limit o1 = 0 then 50 else Limit o1)
        in if limit < 1 \<or> limit > 200 then Inl (ErrInvalidInput ''limit'')
           else case readDirectoryBounded st of
               Inl e \<Rightarrow> Inl e
             | Inr ids \<Rightarrow>
                 (let tasks = newest_first (listed env online o1 st ids);
                      start = (if ListCursor o1 = [] then Some 0 else cursor_start (ListCursor o1) 0 tasks)
                  in case start of
                       None \<Rightarrow> Inl (ErrInvalidInput ''cursor'')
                     | Some start \<Rightarrow>
                         (let stop = min (start + nat limit) (length tasks);
                              trunc = stop < length tasks
                          in Inr \<lparr>Tasks = take (stop - start) (drop start tasks),
                                 NextCursor = (if trunc \<and> stop > start then tkID (tasks ! (stop - 1)) else []),
                                 Truncated = trunc\<rparr>)))"


subsection \<open>Histories\<close>

definition valid_history :: "state_record list \<Rightarrow> bool" where
  "valid_history ss \<longleftrightarrow> ss \<noteq> [] \<and> Revision (hd ss) = 1 \<and> Status (hd ss) = Queued \<and> contiguous ss \<and>
     (\<forall>s \<in> set ss. readable_state s)"

lemma contiguous_snoc:
  "contiguous (ss @ [b]) \<longleftrightarrow> contiguous ss \<and>
     (ss \<noteq> [] \<longrightarrow> Revision b = Revision (last ss) + 1 \<and> validStateTransition (Status (last ss)) (Status b))"
  by (induction ss rule: contiguous.induct) auto

lemma contiguous_revision:
  "contiguous ss \<Longrightarrow> k < length ss \<Longrightarrow> Revision (ss ! k) = Revision (hd ss) + k"
proof (induction ss arbitrary: k rule: contiguous.induct)
  case (1 a b ss)
  then show ?case by (cases k) auto
qed auto

lemma history_revision: "valid_history ss \<Longrightarrow> k < length ss \<Longrightarrow> Revision (ss ! k) = k + 1"
  using contiguous_revision [of ss k] by (simp add: valid_history_def)

lemma history_last: "valid_history ss \<Longrightarrow> Revision (last ss) = length ss"
  using history_revision [of ss "length ss - 1"] by (cases ss) (auto simp: valid_history_def last_conv_nth)

lemma history_sorted: "valid_history ss \<Longrightarrow> sort_key Revision ss = ss"
proof -
  assume v: "valid_history ss"
  have "sorted (map Revision ss)"
    unfolding sorted_iff_nth_mono using history_revision [OF v] by simp
  then show ?thesis by (rule sort_key_id_if_sorted)
qed

lemma history_bound: "valid_history ss \<Longrightarrow> length ss \<le> maxStateRecords"
proof -
  assume v: "valid_history ss"
  then have "last ss \<in> set ss" by (auto simp: valid_history_def)
  then have "Revision (last ss) \<le> maxStateRecords" using v by (simp add: valid_history_def readable_state_def)
  then show ?thesis using history_last [OF v] by simp
qed

lemma stateHistory_valid: "valid_history (states d) \<Longrightarrow> stateHistory d = Inr (states d)"
proof -
  assume v: "valid_history (states d)"
  have "filter readable_state (states d) = states d" using v by (simp add: valid_history_def filter_id_conv)
  then show ?thesis using v history_sorted [OF v] history_bound [OF v]
    by (simp add: stateHistory_def Let_def valid_history_def)
qed


lemma latestState_valid: "valid_history (states d) \<Longrightarrow> latestState d = Inr (last (states d))"
  by (simp add: latestState_def stateHistory_valid)

lemma valid_history_snoc:
  "valid_history ss \<Longrightarrow> readable_state s \<Longrightarrow> Revision s = Revision (last ss) + 1 \<Longrightarrow>
   validStateTransition (Status (last ss)) (Status s) \<Longrightarrow> valid_history (ss @ [s])"
  by (auto simp: valid_history_def contiguous_snoc)

text \<open>
  A directory is complete, or an admission that stopped before its first state was written. When the
  request of a complete one cannot be read back, which its admission does not rule out, it never
  leaves its first state.
\<close>

definition good_request :: "task_env \<Rightarrow> task_store \<Rightarrow> bytes \<Rightarrow> persisted_request \<Rightarrow> bool" where
  "good_request env st i p \<longleftrightarrow>
     TaskID p = i \<and> CreatedAt p \<noteq> 0 \<and> validateRequest (isAbs env) (limits st) (Request p) = None \<and>
     PayloadHash p = payloadHashOf env (Request p) \<and> i = taskIDOf env (salt st) (IdempotencyKey (Request p))"

definition holds_request :: "task_env \<Rightarrow> task_store \<Rightarrow> bytes \<Rightarrow> task_dir \<Rightarrow> persisted_request \<Rightarrow> bool" where
  "holds_request env st i d p \<longleftrightarrow>
     (\<exists>q. requestFile d = Some q \<and> request_fits env q \<and> p = read_back q) \<and> good_request env st i p"

definition legible :: "task_env \<Rightarrow> task_store \<Rightarrow> bytes \<Rightarrow> task_dir \<Rightarrow> bool" where
  "legible env st i d \<longleftrightarrow> (\<exists>p. holds_request env st i d p)"

definition dir_ok :: "task_env \<Rightarrow> task_store \<Rightarrow> bytes \<Rightarrow> task_dir \<Rightarrow> bool" where
  "dir_ok env st i d \<longleftrightarrow> states d = [] \<or>
     valid_history (states d) \<and> (\<exists>q. requestFile d = Some q \<and> good_request env st i q) \<and>
     (legible env st i d \<or> length (states d) = 1)"

lemma read_back_fields [simp]:
  "TaskID (read_back p) = TaskID p" "CreatedAt (read_back p) = CreatedAt p" "PayloadHash (read_back p) = PayloadHash p"
  by (simp_all add: read_back_def Let_def)

lemma read_back_later [simp]: "read_back (p\<lparr>CreatedAt := t\<rparr>) = (read_back p)\<lparr>CreatedAt := t\<rparr>"
  by (simp add: read_back_def Let_def)

lemma readPersisted_iff:
  "readPersistedRequest env i st = Inr p \<longleftrightarrow> (\<exists>d. map_of (dirs st) i = Some d \<and> holds_request env st i d p)"
  by (auto simp: readPersistedRequest_def holds_request_def good_request_def Let_def split: option.splits if_splits)

lemma holds_unique: "holds_request env st i d p \<Longrightarrow> holds_request env st i d q \<Longrightarrow> p = q"
  by (auto simp: holds_request_def)

lemma holds_frame:
  "limits st' = limits st \<Longrightarrow> salt st' = salt st \<Longrightarrow> requestFile d' = requestFile d \<Longrightarrow>
   holds_request env st' i d' p = holds_request env st i d p"
  by (simp add: holds_request_def good_request_def)

lemma legible_frame:
  "limits st' = limits st \<Longrightarrow> salt st' = salt st \<Longrightarrow> requestFile d' = requestFile d \<Longrightarrow>
   legible env st' i d' = legible env st i d"
  by (simp add: legible_def holds_request_def good_request_def)

definition store_ok :: "task_env \<Rightarrow> task_store \<Rightarrow> bool" where
  "store_ok env st \<longleftrightarrow> distinct (map fst (dirs st)) \<and> (\<forall>(i, d) \<in> set (dirs st). dir_ok env st i d)"

lemma store_ok_lookup: "store_ok env st \<Longrightarrow> map_of (dirs st) i = Some d \<Longrightarrow> dir_ok env st i d"
  by (auto simp: store_ok_def dest: map_of_SomeD)

lemma put_dir_fields [simp]:
  "limits (put_dir i d st) = limits st" "salt (put_dir i d st) = salt st" "births (put_dir i d st) = births st"
  "map_of (dirs (put_dir i d st)) = (map_of (dirs st))(i \<mapsto> d)"
  by (simp_all add: put_dir_def update_conv')

lemma remove_dir_fields [simp]:
  "limits (remove_dir i st) = limits st" "salt (remove_dir i st) = salt st" "births (remove_dir i st) = births st"
  "map_of (dirs (remove_dir i st)) = (map_of (dirs st))(i := None)"
  by (simp_all add: remove_dir_def delete_conv')

lemma dir_ok_frame: "limits st' = limits st \<Longrightarrow> salt st' = salt st \<Longrightarrow> dir_ok env st' i d = dir_ok env st i d"
  using legible_frame [of st' st d d env i] by (simp add: dir_ok_def good_request_def)

lemma store_ok_iff:
  "store_ok env st \<longleftrightarrow> distinct (map fst (dirs st)) \<and> (\<forall>i d. map_of (dirs st) i = Some d \<longrightarrow> dir_ok env st i d)"
proof (cases "distinct (map fst (dirs st))")
  case True
  have "(\<forall>(i, d) \<in> set (dirs st). dir_ok env st i d) \<longleftrightarrow> (\<forall>i d. map_of (dirs st) i = Some d \<longrightarrow> dir_ok env st i d)"
    unfolding map_of_eq_Some_iff [OF True] by blast
  then show ?thesis unfolding store_ok_def by blast
qed (simp add: store_ok_def)

lemma store_ok_put:
  assumes "store_ok env st" "dir_ok env st i d"
  shows "store_ok env (put_dir i d st)"
proof -
  have "distinct (map fst (dirs (put_dir i d st)))"
    using assms(1) by (simp add: put_dir_def distinct_update store_ok_def)
  then show ?thesis using assms dir_ok_frame [of "put_dir i d st" st] by (auto simp: store_ok_iff)
qed

lemma store_ok_remove:
  assumes "store_ok env st"
  shows "store_ok env (remove_dir i st)"
proof -
  have "distinct (map fst (dirs (remove_dir i st)))"
    using assms by (simp add: remove_dir_def distinct_delete store_ok_def)
  then show ?thesis using assms dir_ok_frame [of "remove_dir i st" st] by (auto simp: store_ok_iff)
qed

lemma store_ok_births: "store_ok env (st\<lparr>births := n\<rparr>) = store_ok env st"
  by (simp add: store_ok_def dir_ok_def legible_def holds_request_def good_request_def)

text \<open>A directory whose state files and request are those of one that is fine is fine.\<close>

lemma dir_ok_marks: "dir_ok env st i d \<Longrightarrow> states d' = states d \<Longrightarrow> requestFile d' = requestFile d \<Longrightarrow> dir_ok env st i d'"
  using legible_frame [of st st d' d env i] by (simp add: dir_ok_def)

lemma append_error_None:
  assumes "dir_ok env st i d" "states d \<noteq> []"
  shows "append_error d s = None \<longleftrightarrow> readable_state s \<and> Revision s = Suc (length (states d)) \<and>
    validStateTransition (Status (last (states d))) (Status s)"
proof -
  have v: "valid_history (states d)" using assms by (auto simp: dir_ok_def)
  then have h: "hd (states d) \<in> set (states d)" "Revision (hd (states d)) = 1" "Status (hd (states d)) = Queued"
    by (auto simp: valid_history_def)
  have l: "0 < length (states d)" using assms(2) by simp
  show ?thesis
    using v h l latestState_valid [OF v] history_last [OF v]
    by (auto simp: append_error_def)
qed

lemma append_error_dead:
  assumes "states d = []" "append_error d s = None"
  shows "Revision s = 1 \<and> Status s = Queued"
  using assms by (auto simp: append_error_def latestState_def stateHistory_def split: if_splits)

lemma store_ok_append:
  assumes "store_ok env st" "Revision s \<noteq> 1"
    and "\<And>d. map_of (dirs st) i = Some d \<Longrightarrow> legible env st i d \<or> length (states d) \<noteq> 1"
  shows "store_ok env (snd (appendState i s st))"
proof (cases "map_of (dirs st) i")
  case (Some d)
  note d = store_ok_lookup [OF assms(1) Some]
  show ?thesis
  proof (cases "append_error d s")
    case None
    then have n: "states d \<noteq> []" using append_error_dead [of d s] assms(2) by blast
    then have v: "valid_history (states d)" using d by (auto simp: dir_ok_def)
    have "valid_history (states d @ [s])"
      using append_error_None [OF d n] None v history_last [OF v] by (intro valid_history_snoc) auto
    moreover have "legible env st i (d\<lparr>states := states d @ [s]\<rparr>)"
      using d n assms(3) [OF Some] legible_frame [of st st "d\<lparr>states := states d @ [s]\<rparr>" d] by (auto simp: dir_ok_def)
    ultimately have "dir_ok env st i (d\<lparr>states := states d @ [s]\<rparr>)" using d n by (simp add: dir_ok_def)
    then show ?thesis using store_ok_put [OF assms(1)] by (simp add: appendState_def Some None)
  qed (simp add: appendState_def Some assms(1))
qed (simp add: appendState_def assms(1))

lemma readPersisted_Inr:
  "readPersistedRequest env i st = Inr p \<Longrightarrow> \<exists>d. map_of (dirs st) i = Some d \<and> holds_request env st i d p"
  by (simp add: readPersisted_iff)

lemma getTask_ok:
  assumes "store_ok env st" "map_of (dirs st) i = Some d" "states d \<noteq> []" "legible env st i d"
  obtains t where "getTaskUnlocked env online i st = Inr t" "tkID t = i" "tkStatus t = Status (last (states d))"
    "tkRevision t = length (states d)" "CancelRequested t = cancelFile d"
proof -
  obtain p where p: "readPersistedRequest env i st = Inr p"
    using assms(2,4) by (auto simp: legible_def readPersisted_iff)
  have v: "valid_history (states d)" using store_ok_lookup [OF assms(1,2)] assms(3) by (simp add: dir_ok_def)
  show ?thesis
    using that history_last [OF v] by (simp add: getTaskUnlocked_def p assms(2) stateHistory_valid [OF v] Let_def)
qed

lemma getTask_dead: "map_of (dirs st) i = Some d \<Longrightarrow> states d = [] \<Longrightarrow> \<exists>e. getTaskUnlocked env online i st = Inl e"
  by (auto simp: getTaskUnlocked_def stateHistory_def split: sum.splits)


subsection \<open>Admission keeps the store in order\<close>

lemma admit_fields [simp]:
  "limits (admit n i p now st) = limits st" "salt (admit n i p now st) = salt st"
  by (simp_all add: admit_def Let_def)

lemma admit_lookup:
  "map_of (dirs (admit n i p now st)) j =
     (if n = 0 \<or> j \<noteq> i then map_of (dirs st) j
      else Some (\<lparr>requestFile = (if n \<ge> 2 then Some p else None),
        states = (if n \<ge> 3 then [queued_record now 1] else []), cancelFile = False, startedFile = False,
        launchFile = None, heartbeat = None, dirBytes = 0, born = births st\<rparr>))"
  by (simp add: admit_def Let_def empty_dir_def)

lemma queued_readable: "now \<noteq> 0 \<Longrightarrow> 1 \<le> n \<Longrightarrow> n \<le> maxStateRecords \<Longrightarrow> readable_state (queued_record now n)"
  by (simp add: readable_state_def queued_record_def)

lemma store_ok_admit:
  assumes "store_ok env st" "now \<noteq> 0" "good_request env st i p"
  shows "store_ok env (admit n i p now st)"
proof (cases "n = 0")
  case False
  have "valid_history [queued_record now 1]"
    using queued_readable [OF assms(2), of 1] by (simp add: valid_history_def maxStateRecords_def queued_record_def)
  then have "dir_ok env st i (let d = empty_dir (births st); d1 = (if n \<ge> 2 then d\<lparr>requestFile := Some p\<rparr> else d)
      in if n \<ge> 3 then d1\<lparr>states := [queued_record now 1]\<rparr> else d1)"
    using assms(3) by (auto simp: dir_ok_def empty_dir_def Let_def)
  from store_ok_put [OF assms(1) this] show ?thesis using False
    by (simp add: admit_def Let_def store_ok_births)
qed (simp add: admit_def assms(1))

lemma admit_new_store:
  "snd (admit_new env online fault now i r st) = st \<or>
   (\<exists>n. snd (admit_new env online fault now i r st) =
     admit n i \<lparr>TaskID = i, CreatedAt = now, PayloadHash = payloadHashOf env r, Request = r\<rparr> now st)"
  by (auto simp: admit_new_def Let_def split: sum.splits fault.splits)

lemma removeIncomplete_store:
  "snd (removeIncompleteAdmissionUnlocked i st) = st \<or> snd (removeIncompleteAdmissionUnlocked i st) = remove_dir i st"
  by (auto simp: removeIncompleteAdmissionUnlocked_def split: option.splits sum.splits)

lemma submit_store:
  assumes "i = taskIDOf env (salt st) (IdempotencyKey r)"
  shows "snd (Submit env online fault now r st) = st \<or>
    validateRequest (isAbs env) (limits st) r = None \<and>
    (\<exists>st1 n. (st1 = st \<or> st1 = remove_dir i st) \<and> (snd (Submit env online fault now r st) = st1 \<or>
      snd (Submit env online fault now r st) = admit n i
        \<lparr>TaskID = i, CreatedAt = now, PayloadHash = payloadHashOf env r, Request = r\<rparr> now st1))"
  unfolding Submit_def assms [symmetric] Let_def
  using admit_new_store [of env online fault now i r] removeIncomplete_store [of i st]
  by (fastforce split: option.splits sum.splits prod.splits if_splits)

lemma good_request_frame:
  "limits st' = limits st \<Longrightarrow> salt st' = salt st \<Longrightarrow> good_request env st' i p = good_request env st i p"
  by (simp add: good_request_def)

lemma good_request_new:
  "validateRequest (isAbs env) (limits st) r = None \<Longrightarrow> now \<noteq> 0 \<Longrightarrow> i = taskIDOf env (salt st) (IdempotencyKey r) \<Longrightarrow>
   good_request env st i \<lparr>TaskID = i, CreatedAt = now, PayloadHash = payloadHashOf env r, Request = r\<rparr>"
  by (simp add: good_request_def)

lemma store_ok_submit:
  assumes "store_ok env st" "now \<noteq> 0"
  shows "store_ok env (snd (Submit env online fault now r st))"
proof -
  let ?i = "taskIDOf env (salt st) (IdempotencyKey r)"
  let ?p = "\<lparr>TaskID = ?i, CreatedAt = now, PayloadHash = payloadHashOf env r, Request = r\<rparr>"
  have rem: "store_ok env st1" "good_request env st1 ?i ?p"
    if "st1 = st \<or> st1 = remove_dir ?i st" "validateRequest (isAbs env) (limits st) r = None" for st1
    using that assms store_ok_remove good_request_new [OF that(2) assms(2)] by (auto simp: good_request_def)
  show ?thesis using submit_store [of ?i env st r online fault now] assms rem store_ok_admit by metis
qed

lemma getTask_dir: "getTaskUnlocked env online i st = Inr t \<Longrightarrow> \<exists>d. map_of (dirs st) i = Some d \<and> states d \<noteq> [] \<and> legible env st i d"
proof -
  assume t: "getTaskUnlocked env online i st = Inr t"
  then obtain p where "readPersistedRequest env i st = Inr p" by (auto simp: getTaskUnlocked_def split: sum.splits)
  then obtain d where d: "map_of (dirs st) i = Some d" "holds_request env st i d p" using readPersisted_iff by blast
  have "states d \<noteq> []" using t d(1) by (auto simp: getTaskUnlocked_def stateHistory_def split: sum.splits)
  then show ?thesis using d by (auto simp: legible_def)
qed

lemma cancel_store:
  "snd (CancelTask env online now i reason st) = st \<or>
   (\<exists>d st1. map_of (dirs st) i = Some d \<and> states d \<noteq> [] \<and> legible env st i d \<and> st1 = put_dir i (d\<lparr>cancelFile := True\<rparr>) st \<and>
     (snd (CancelTask env online now i reason st) = st1 \<or>
      (\<exists>q. latestState (d\<lparr>cancelFile := True\<rparr>) = Inr q \<and>
        snd (CancelTask env online now i reason st) = snd (appendState i ((terminal_record q Cancelled now (-1)
          ''TASK_CANCELLED'' (str ''cancelled before execution''))\<lparr>StartedAt := None\<rparr>) st1))))"
proof (cases "getTaskUnlocked env online i st")
  case (Inl e)
  then show ?thesis by (simp add: CancelTask_def)
next
  case (Inr t)
  obtain d where d: "map_of (dirs st) i = Some d" "states d \<noteq> []" "legible env st i d" using getTask_dir [OF Inr] by blast
  show ?thesis
  proof (cases "validTaskID i \<and> validBoundedText reason 500 True \<and> \<not> Terminal (tkStatus t) \<and> tkStatus t = Queued")
    case True
    then show ?thesis
    proof (cases "latestState (d\<lparr>cancelFile := True\<rparr>)")
      case (Inl e)
      then show ?thesis using True Inr d by (simp add: CancelTask_def)
    next
      case l: (Inr q)
      have "snd (CancelTask env online now i reason st) = snd (appendState i ((terminal_record q Cancelled now (-1)
          ''TASK_CANCELLED'' (str ''cancelled before execution''))\<lparr>StartedAt := None\<rparr>) (put_dir i (d\<lparr>cancelFile := True\<rparr>) st))"
        using True Inr d l by (simp add: CancelTask_def Let_def split: prod.splits option.splits)
      then show ?thesis using d l by blast
    qed
  next
    case False
    then show ?thesis using Inr d by (auto simp: CancelTask_def Let_def)
  qed
qed

lemma store_ok_cancel:
  assumes "store_ok env st"
  shows "store_ok env (snd (CancelTask env online now i reason st))"
proof -
  have marked: "store_ok env (put_dir i (d\<lparr>cancelFile := True\<rparr>) st)" if "map_of (dirs st) i = Some d" for d
    using store_ok_put [OF assms] dir_ok_marks [OF store_ok_lookup [OF assms that]] by simp
  have later: "Revision ((terminal_record q s now x c m)\<lparr>StartedAt := None\<rparr>) \<noteq> 1"
    if "map_of (dirs st) i = Some d" "states d \<noteq> []" "latestState (d\<lparr>cancelFile := True\<rparr>) = Inr q" for d q s x c m
  proof -
    have "valid_history (states (d\<lparr>cancelFile := True\<rparr>))"
      using store_ok_lookup [OF assms that(1)] that(2) by (simp add: dir_ok_def)
    from latestState_valid [OF this] history_last [OF this] that show ?thesis by (simp add: terminal_record_def)
  qed
  have legible: "legible env (put_dir i (d\<lparr>cancelFile := True\<rparr>) st) i e"
    if "legible env st i d" "map_of (dirs (put_dir i (d\<lparr>cancelFile := True\<rparr>) st)) i = Some e" for d e
    using that(2) legible_frame [of "put_dir i (d\<lparr>cancelFile := True\<rparr>) st" st "d\<lparr>cancelFile := True\<rparr>" d env i]
    by (auto simp: that(1))
  consider "snd (CancelTask env online now i reason st) = st"
    | d where "map_of (dirs st) i = Some d"
        "snd (CancelTask env online now i reason st) = put_dir i (d\<lparr>cancelFile := True\<rparr>) st"
    | d q where "map_of (dirs st) i = Some d" "states d \<noteq> []" "legible env st i d" "latestState (d\<lparr>cancelFile := True\<rparr>) = Inr q"
        "snd (CancelTask env online now i reason st) = snd (appendState i ((terminal_record q Cancelled now (-1)
          ''TASK_CANCELLED'' (str ''cancelled before execution''))\<lparr>StartedAt := None\<rparr>) (put_dir i (d\<lparr>cancelFile := True\<rparr>) st))"
    using cancel_store [of env online now i reason st] by blast
  then show ?thesis
  proof cases
    case 3
    show ?thesis unfolding 3(5) by (rule store_ok_append [OF marked [OF 3(1)] later [OF 3(1,2,4)]]) (use legible [OF 3(3)] in blast)
  qed (use assms marked in simp_all)
qed

subsection \<open>Idempotent submission\<close>

lemma submit_known:
  assumes "validateRequest (isAbs env) (limits st) r = None" "i = taskIDOf env (salt st) (IdempotencyKey r)"
    and "map_of (dirs st) i = Some d" "readPersistedRequest env i st = Inr p" "getTaskUnlocked env online i st = Inr t"
  shows "Submit env online fault now r st =
    (Some (if PayloadHash p = payloadHashOf env r then Inr \<lparr>subTask = t, Duplicated = True\<rparr>
           else Inl ErrIdempotencyConflict), st)"
  unfolding Submit_def assms(2) [symmetric] Let_def assms(1,3-5) by simp

lemma getTask_Inr:
  "getTaskUnlocked env online i st = Inr t \<Longrightarrow>
   \<exists>p. readPersistedRequest env i st = Inr p \<and> tkID t = i \<and> (\<forall>online. \<exists>t. getTaskUnlocked env online i st = Inr t \<and> tkID t = i)"
  by (auto simp: getTaskUnlocked_def Let_def split: sum.splits)

lemma admitted_task:
  assumes "request_fits env p" "good_request env st i (read_back p)" "now \<noteq> 0"
  shows "readPersistedRequest env i (admit 3 i p now st) = Inr (read_back p)"
    and "\<exists>t. getTaskUnlocked env online i (admit 3 i p now st) = Inr t \<and> tkID t = i \<and> tkStatus t = Queued \<and> tkRevision t = 1"
proof -
  have v: "valid_history [queued_record now 1]"
    using queued_readable [OF assms(3), of 1] by (simp add: valid_history_def maxStateRecords_def queued_record_def)
  show r: "readPersistedRequest env i (admit 3 i p now st) = Inr (read_back p)"
    using assms(1,2) by (auto simp: readPersisted_iff admit_lookup holds_request_def good_request_def)
  show "\<exists>t. getTaskUnlocked env online i (admit 3 i p now st) = Inr t \<and> tkID t = i \<and> tkStatus t = Queued \<and> tkRevision t = 1"
    using stateHistory_valid [of "the (map_of (dirs (admit 3 i p now st)) i)"] v
    by (simp add: getTaskUnlocked_def r Let_def admit_lookup) (simp add: queued_record_def)
qed

lemma admit_new_Inr:
  assumes "admit_new env online fault now i r st = (Some (Inr res), st')"
  shows "fault = NoFault \<and> \<not> Duplicated res \<and>
    st' = admit 3 i \<lparr>TaskID = i, CreatedAt = now, PayloadHash = payloadHashOf env r, Request = r\<rparr> now st \<and>
    getTaskUnlocked env online i st' = Inr (subTask res)"
  using assms by (auto simp: admit_new_def Let_def split: sum.splits fault.splits if_splits)

lemma submit_Inr:
  assumes "Submit env online fault now r st = (Some (Inr res), st')" "i = taskIDOf env (salt st) (IdempotencyKey r)" "now \<noteq> 0"
  shows "salt st' = salt st \<and> limits st' = limits st \<and> (\<exists>p. readPersistedRequest env i st' = Inr p \<and>
    PayloadHash p = payloadHashOf env r) \<and> getTaskUnlocked env online i st' = Inr (subTask res) \<and>
    (Duplicated res \<longrightarrow> st' = st)"
proof -
  have v: "validateRequest (isAbs env) (limits st) r = None"
    using assms(1) by (auto simp: Submit_def split: option.splits)
  have new: "salt st' = salt st \<and> limits st' = limits st \<and> (\<exists>p. readPersistedRequest env i st' = Inr p \<and>
    PayloadHash p = payloadHashOf env r) \<and> getTaskUnlocked env online i st' = Inr (subTask res) \<and> \<not> Duplicated res"
    if "admit_new env online fault now i r st1 = (Some (Inr res), st')" "st1 = st \<or> st1 = remove_dir i st" for st1
  proof -
    note n = admit_new_Inr [OF that(1)]
    obtain p where p: "readPersistedRequest env i st' = Inr p" using getTask_Inr n by blast
    then have "PayloadHash p = payloadHashOf env r"
      using n by (auto simp: readPersisted_iff holds_request_def admit_lookup)
    with p show ?thesis using n that(2) by auto
  qed
  have rem: "snd (removeIncompleteAdmissionUnlocked i st) = st \<or> snd (removeIncompleteAdmissionUnlocked i st) = remove_dir i st"
    by (rule removeIncomplete_store)
  note S = assms(1) [unfolded Submit_def v option.case Let_def assms(2) [symmetric]]
  show ?thesis
  proof (cases "map_of (dirs st) i")
    case None
    then show ?thesis using S new [of st] by auto
  next
    case (Some d)
    obtain e1 st1 where r1: "removeIncompleteAdmissionUnlocked i st = (e1, st1)" by fastforce
    have st1: "st1 = st \<or> st1 = remove_dir i st" using rem r1 by simp
    show ?thesis
    proof (cases "readPersistedRequest env i st")
      case (Inl e)
      then show ?thesis using S Some r1 new [OF _ st1] by (auto split: option.splits)
    next
      case (Inr p)
      show ?thesis
      proof (cases "getTaskUnlocked env online i st")
        case (Inl e)
        then show ?thesis using S Some r1 Inr new [OF _ st1] by (auto split: option.splits if_splits)
      next
        case t: (Inr t)
        then show ?thesis using S Some Inr by (auto split: if_splits)
      qed
    qed
  qed
qed


lemma crash_removed:
  "map_of xs i = None \<Longrightarrow> AList.delete i (AList.update i d xs) = xs"
  by (induction xs) (auto split: if_splits)

lemma remove_admitted:
  assumes "map_of (dirs st) i = None" "n \<noteq> 0"
  shows "remove_dir i (admit n i p now st) = st\<lparr>births := births st + 1\<rparr>"
  using assms by (simp add: remove_dir_def admit_def Let_def put_dir_def crash_removed)

lemma incomplete_removed:
  "map_of (dirs st) i = Some d \<Longrightarrow> \<not> startedFile d \<Longrightarrow> states d = [] \<Longrightarrow>
   removeIncompleteAdmissionUnlocked i st = (None, remove_dir i st)"
  by (simp add: removeIncompleteAdmissionUnlocked_def latestState_def stateHistory_def)

lemma admit_new_legible:
  assumes "admit_new env online NoFault now i r st = (Some (Inr res), st')"
    and "p = \<lparr>TaskID = i, CreatedAt = now, PayloadHash = payloadHashOf env r, Request = r\<rparr>"
  shows "request_fits env p" "good_request env st i (read_back p)"
proof -
  note n = admit_new_Inr [OF assms(1)]
  obtain q where "readPersistedRequest env i st' = Inr q" using getTask_Inr n by blast
  then obtain d where d: "map_of (dirs st') i = Some d" "holds_request env st' i d q" using readPersisted_iff by blast
  have "requestFile d = Some p" using d(1) n by (auto simp: admit_lookup assms(2))
  then have "request_fits env p" "good_request env st' i (read_back p)" using d(2) by (auto simp: holds_request_def)
  moreover have "limits st' = limits st" "salt st' = salt st" using n by simp_all
  ultimately show "request_fits env p" "good_request env st i (read_back p)" using good_request_frame by metis+
qed

lemma admit_new_births:
  "admit_new env online NoFault now i r st = (Some (Inr res), st') \<Longrightarrow> now2 \<noteq> 0 \<Longrightarrow>
   request_fits env \<lparr>TaskID = i, CreatedAt = now2, PayloadHash = payloadHashOf env r, Request = r\<rparr> \<Longrightarrow>
   \<exists>t st2. admit_new env online NoFault now2 i r (st\<lparr>births := b\<rparr>) = (Some (Inr \<lparr>subTask = t, Duplicated = False\<rparr>), st2) \<and>
     tkID t = i \<and> tkStatus t = Queued \<and> (\<forall>j. j \<noteq> i \<longrightarrow> map_of (dirs st2) j = map_of (dirs st) j)"
proof -
  let ?st = "st\<lparr>births := b\<rparr>" and ?p = "\<lparr>TaskID = i, CreatedAt = now2, PayloadHash = payloadHashOf env r, Request = r\<rparr>"
  assume a: "admit_new env online NoFault now i r st = (Some (Inr res), st')" "now2 \<noteq> 0" "request_fits env ?p"
  have "?p = \<lparr>TaskID = i, CreatedAt = now, PayloadHash = payloadHashOf env r, Request = r\<rparr>\<lparr>CreatedAt := now2\<rparr>" by simp
  then have g: "good_request env ?st i (read_back ?p)"
    using admit_new_legible(2) [OF a(1) refl] a(2) by (simp only: read_back_later) (simp add: good_request_def)
  obtain t where t: "getTaskUnlocked env online i (admit 3 i ?p now2 ?st) = Inr t" "tkID t = i" "tkStatus t = Queued"
    using admitted_task(2) [OF a(3) g a(2)] by blast
  have q: "countQueuedUnlocked ?st = countQueuedUnlocked st"
    by (simp add: countQueuedUnlocked_def readDirectoryBounded_def)
  obtain queued where "countQueuedUnlocked st = Inr queued" "\<not> int queued \<ge> MaxQueued (limits st)"
    using a(1) by (auto simp: admit_new_def split: sum.splits if_splits)
  then have "admit_new env online NoFault now2 i r ?st =
      (Some (Inr \<lparr>subTask = t, Duplicated = False\<rparr>), admit 3 i ?p now2 ?st)"
    using q t(1) by (simp add: admit_new_def Let_def)
  then show ?thesis using t by (auto simp: admit_lookup)
qed

lemma submit_crashed:
  assumes "map_of (dirs st) i = None" "i = taskIDOf env (salt st) (IdempotencyKey r)"
    and "Submit env online NoFault now r st = (Some (Inr res), st0)"
  shows "snd (Submit env online (Crash n) now r st) =
    admit (min n 3) i \<lparr>TaskID = i, CreatedAt = now, PayloadHash = payloadHashOf env r, Request = r\<rparr> now st"
    and "admit_new env online NoFault now i r st = (Some (Inr res), st0)"
    and "validateRequest (isAbs env) (limits st) r = None"
proof -
  show v: "validateRequest (isAbs env) (limits st) r = None"
    using assms(3) by (auto simp: Submit_def split: option.splits)
  have s: "Submit env online fault now r st = admit_new env online fault now i r st" for fault
    unfolding Submit_def v option.case Let_def assms(2) [symmetric] using assms(1) by simp
  show a: "admit_new env online NoFault now i r st = (Some (Inr res), st0)" using assms(3) unfolding s .
  show "snd (Submit env online (Crash n) now r st) =
    admit (min n 3) i \<lparr>TaskID = i, CreatedAt = now, PayloadHash = payloadHashOf env r, Request = r\<rparr> now st"
    using a unfolding s by (auto simp: admit_new_def Let_def split: sum.splits if_splits)
qed

subsection \<open>Pages\<close>

lemma listed_ids:
  "map tkID (concat (map (\<lambda>i. if \<not> validTaskID i then [] else
     (case getTaskUnlocked env online i st of Inl _ \<Rightarrow> [] | Inr t \<Rightarrow> [t])) ids)) =
   filter (\<lambda>i. validTaskID i \<and> (\<exists>t. getTaskUnlocked env online i st = Inr t)) ids"
proof (induction ids)
  case (Cons i ids)
  then show ?case using getTask_Inr [of env online i st] by (cases "getTaskUnlocked env online i st") auto
qed simp

lemma listed_distinct:
  assumes "distinct ids"
  shows "distinct (map tkID (newest_first (listed env online o1 st ids)))"
    and "\<forall>t \<in> set (newest_first (listed env online o1 st ids)). tkID t \<noteq> []"
proof -
  let ?all = "concat (map (\<lambda>i. if \<not> validTaskID i then [] else
     (case getTaskUnlocked env online i st of Inl _ \<Rightarrow> [] | Inr t \<Rightarrow> [t])) ids)"
  have d: "distinct (map tkID ?all)" unfolding listed_ids using assms by simp
  have m: "map tkID (listed env online o1 st ids) = map tkID (filter (\<lambda>t. matchesTask t o1) ?all)"
    by (simp add: listed_def)
  have "distinct (map tkID (listed env online o1 st ids))" unfolding m using d by (rule distinct_map_filter)
  moreover have "mset (map tkID (newest_first (listed env online o1 st ids))) = mset (map tkID (listed env online o1 st ids))"
    by (simp add: newest_first_def)
  ultimately show "distinct (map tkID (newest_first (listed env online o1 st ids)))"
    using mset_eq_imp_distinct_iff by blast
  have "tkID ` set ?all \<subseteq> {i. validTaskID i}" unfolding set_map [symmetric] listed_ids by auto
  then have ids: "tkID t \<noteq> []" if "t \<in> set ?all" for t
  proof -
    have "validTaskID (tkID t)"
      using subsetD [OF \<open>tkID ` set ?all \<subseteq> {i. validTaskID i}\<close> imageI [OF that, of tkID]] by simp
    then show ?thesis by (auto simp: validTaskID_def)
  qed
  show "\<forall>t \<in> set (newest_first (listed env online o1 st ids)). tkID t \<noteq> []"
  proof
    fix t assume "t \<in> set (newest_first (listed env online o1 st ids))"
    then obtain q where "t = q\<lparr>History := []\<rparr>" "q \<in> set ?all"
      unfolding newest_first_def listed_def set_rev set_sort set_map set_filter by blast
    then show "tkID t \<noteq> []" using ids by simp
  qed
qed

lemma cursor_start_nth:
  "distinct (map tkID ts) \<Longrightarrow> k < length ts \<Longrightarrow> cursor_start (tkID (ts ! k)) n ts = Some (n + k + 1)"
proof (induction ts arbitrary: k n)
  case (Cons t ts)
  then show ?case by (cases k) auto
qed simp

text \<open>A client that asks for page after page, following the cursor.\<close>

fun list_pages :: "nat \<Rightarrow> task_env \<Rightarrow> bool \<Rightarrow> list_options \<Rightarrow> task_store \<Rightarrow> bytes \<Rightarrow> task list option" where
  "list_pages 0 env online o1 st cursor = None"
| "list_pages (Suc fuel) env online o1 st cursor =
     (case List env online (o1\<lparr>ListCursor := cursor\<rparr>) st of
        Inl e \<Rightarrow> None
      | Inr page \<Rightarrow>
          if Truncated page
          then map_option (\<lambda>ts. Tasks page @ ts) (list_pages fuel env online o1 st (NextCursor page))
          else Some (Tasks page))"


lemma list_page:
  assumes "List env online (o1\<lparr>ListCursor := []\<rparr>) st = Inr page0" "distinct (map fst (dirs st))"
  obtains ids ts limit where "readDirectoryBounded st = Inr ids" "ts = newest_first (listed env online o1 st ids)"
    "0 < limit" "distinct (map tkID ts)" "\<forall>t \<in> set ts. tkID t \<noteq> []"
    "\<forall>c k. (if c = [] then Some 0 else cursor_start c 0 ts) = Some k \<longrightarrow>
      List env online (o1\<lparr>ListCursor := c\<rparr>) st = Inr \<lparr>Tasks = take (min (k + limit) (length ts) - k) (drop k ts),
        NextCursor = (if min (k + limit) (length ts) < length ts \<and> min (k + limit) (length ts) > k
          then tkID (ts ! (min (k + limit) (length ts) - 1)) else []),
        Truncated = min (k + limit) (length ts) < length ts\<rparr>"
proof -
  define limit where "limit = (if Limit o1 = 0 then 50 else Limit o1)"
  have checks: "(\<exists>s \<in> set (Statuses o1). \<not> validStatus s) = False"
    "(\<exists>k \<in> set (Kinds o1). k \<noteq> Shell \<and> k \<noteq> Script) = False"
    "(length (TagFilter o1) > 16 \<or> \<not> validUniqueStrings (TagFilter o1) 64) = False" "(limit < 1 \<or> limit > 200) = False"
    using assms(1) unfolding List_def Let_def by (auto simp: limit_def split: if_splits)
  obtain ids where ids: "readDirectoryBounded st = Inr ids"
    using assms(1) checks by (auto simp: List_def limit_def Let_def split: sum.splits if_splits)
  define ts where "ts = newest_first (listed env online o1 st ids)"
  have same: "listed env online (o1\<lparr>ListCursor := c\<rparr>) st ids = listed env online o1 st ids" for c
    by (simp add: listed_def matchesTask_def)
  have "distinct ids" using ids assms(2) by (auto simp: readDirectoryBounded_def split: if_splits)
  note d = listed_distinct [OF this, of env online o1 st]
  have upd: "Statuses (o1\<lparr>ListCursor := c\<rparr>) = Statuses o1" "Kinds (o1\<lparr>ListCursor := c\<rparr>) = Kinds o1"
    "TagFilter (o1\<lparr>ListCursor := c\<rparr>) = TagFilter o1" "Limit (o1\<lparr>ListCursor := c\<rparr>) = Limit o1"
    "ListCursor (o1\<lparr>ListCursor := c\<rparr>) = c" for c
    by simp_all
  have page: "List env online (o1\<lparr>ListCursor := c\<rparr>) st = Inr \<lparr>Tasks = take (min (k + nat limit) (length ts) - k) (drop k ts),
        NextCursor = (if min (k + nat limit) (length ts) < length ts \<and> min (k + nat limit) (length ts) > k
          then tkID (ts ! (min (k + nat limit) (length ts) - 1)) else []),
        Truncated = min (k + nat limit) (length ts) < length ts\<rparr>"
    if "(if c = [] then Some 0 else cursor_start c 0 ts) = Some k" for c k
    unfolding List_def upd Let_def limit_def [symmetric] checks if_False ids sum.case same
      ts_def [symmetric] that option.case by (rule refl)
  have "0 < nat limit" using checks(4) by simp
  from that [OF ids ts_def this] d page show thesis unfolding ts_def [symmetric] by blast
qed

lemma list_pages_from:
  assumes pages: "\<forall>c k. (if c = [] then Some 0 else cursor_start c 0 ts) = Some k \<longrightarrow>
      List env online (o1\<lparr>ListCursor := c\<rparr>) st = Inr \<lparr>Tasks = take (min (k + limit) (length ts) - k) (drop k ts),
        NextCursor = (if min (k + limit) (length ts) < length ts \<and> min (k + limit) (length ts) > k
          then tkID (ts ! (min (k + limit) (length ts) - 1)) else []),
        Truncated = min (k + limit) (length ts) < length ts\<rparr>"
    and "0 < limit" "distinct (map tkID ts)" "\<forall>t \<in> set ts. tkID t \<noteq> []"
  shows "(if c = [] then Some 0 else cursor_start c 0 ts) = Some k \<Longrightarrow> length ts - k < fuel \<Longrightarrow>
    list_pages fuel env online o1 st c = Some (drop k ts)"
proof (induction fuel arbitrary: c k)
  case (Suc fuel)
  let ?m = "min (k + limit) (length ts)"
  note page = pages [rule_format, OF Suc(2)]
  show ?case
  proof (cases "?m < length ts")
    case True
    then have m: "k < ?m" "?m = k + limit" using assms(2) by auto
    let ?c = "tkID (ts ! (?m - 1))"
    have "?m - 1 < length ts" using True by simp
    then have c: "?c \<noteq> []" "cursor_start ?c 0 ts = Some ?m"
      using assms(4) nth_mem cursor_start_nth [OF assms(3), of "?m - 1" 0] m by auto
    have "length ts - ?m < fuel" using Suc(3) m True by linarith
    then have "list_pages fuel env online o1 st ?c = Some (drop ?m ts)" using Suc(1) [of ?c ?m] c by simp
    moreover have "take (?m - k) (drop k ts) @ drop ?m ts = drop k ts"
      using m by (metis append_take_drop_id drop_drop le_add_diff_inverse2 less_imp_le)
    ultimately show ?thesis using page m True by simp
  next
    case False
    then have "take (?m - k) (drop k ts) = drop k ts" by simp
    then show ?thesis using page False by simp
  qed
qed simp


subsection \<open>Properties\<close>

definition sample_env :: task_env where
  "sample_env = \<lparr>isAbs = (\<lambda>p. p \<noteq> [] \<and> hd p = 0x2F), marshal = (\<lambda>r. Command r @ [0] @ IdempotencyKey r),
     sha256 = (\<lambda>b. take 32 (b @ replicate 32 0)), requestJSON = (\<lambda>p. Command (Request p))\<rparr>"

definition sample_request :: request where
  "sample_request = \<lparr>Kind = Shell, Name = [], Description = [], Tags = [str ''ci''], IdempotencyKey = str ''k1'',
     LockKeys = [str ''db''], WorkingDirectory = str ''/w'', Command = str ''ls'', ShellName = [], ScriptPath = [],
     ScriptDigest = [], ScriptSize = 0, Args = [], MaxRuntimeSeconds = 0\<rparr>"

definition sample_tasks :: task_store where
  "sample_tasks = \<lparr>dirs = [], limits = \<lparr>MaxConcurrency = 1, MaxQueued = 2, MaxLogBytesPerStream = 4096,
     LimitRuntimeSeconds = 0, RetentionDays = 1, MaxTerminal = 1, MaxTotalBytes = 1048576\<rparr>, salt = [], births = 0\<rparr>"

definition sample_submit :: "(task_error + submit_result) option \<times> task_store" where
  "sample_submit = Submit sample_env True NoFault 5 sample_request sample_tasks"

lemma sample_valid: "validateRequest (isAbs sample_env) (limits sample_tasks) sample_request = None"
  by code_simp

lemma sample_legible:
  "request_fits sample_env \<lparr>TaskID = i, CreatedAt = now, PayloadHash = h, Request = sample_request\<rparr>"
  "good_request sample_env sample_tasks (taskIDOf sample_env (salt sample_tasks) (IdempotencyKey sample_request))
     (read_back \<lparr>TaskID = taskIDOf sample_env (salt sample_tasks) (IdempotencyKey sample_request), CreatedAt = 5,
       PayloadHash = payloadHashOf sample_env sample_request, Request = sample_request\<rparr>)"
proof -
  show "request_fits sample_env \<lparr>TaskID = i, CreatedAt = now, PayloadHash = h, Request = sample_request\<rparr>"
    by (simp add: request_fits_def sample_env_def sample_request_def maxRequestFile_def str_def)
qed (unfold good_request_def, code_simp)

lemma sample_admits:
  fixes i p
  defines "i \<equiv> taskIDOf sample_env (salt sample_tasks) (IdempotencyKey sample_request)"
    and "p \<equiv> \<lparr>TaskID = taskIDOf sample_env (salt sample_tasks) (IdempotencyKey sample_request), CreatedAt = 5,
      PayloadHash = payloadHashOf sample_env sample_request, Request = sample_request\<rparr>"
  shows "\<exists>t. sample_submit = (Some (Inr \<lparr>subTask = t, Duplicated = False\<rparr>), admit 3 i p 5 sample_tasks) \<and> tkID t = i"
proof -
  have none: "map_of (dirs sample_tasks) i = None" by (simp add: sample_tasks_def)
  have q: "countQueuedUnlocked sample_tasks = Inr 0" "MaxQueued (limits sample_tasks) = 2" by code_simp+
  obtain t where t: "getTaskUnlocked sample_env True i (admit 3 i p 5 sample_tasks) = Inr t" "tkID t = i"
    using admitted_task(2) [of sample_env p sample_tasks i 5 True] sample_legible unfolding i_def p_def by auto
  have "sample_submit = (Some (Inr \<lparr>subTask = t, Duplicated = False\<rparr>), admit 3 i p 5 sample_tasks)"
    unfolding sample_submit_def Submit_def sample_valid option.case Let_def i_def [symmetric] none
    by (simp add: admit_new_def q t(1) p_def [folded i_def, symmetric])
  then show ?thesis using t(2) by blast
qed

lemma sample_submit_eq:
  "Submit sample_env True NoFault 5 sample_request sample_tasks =
     (Some (Inr (projr (the (fst sample_submit)))), snd sample_submit)"
  using sample_admits by (auto simp: sample_submit_def)

text \<open>C13: a process that dies during an admission, after any of its writes, does not block the task: the
  same request submitted again is accepted, as a duplicate exactly when the admission was complete,
  and there is one queued task for the id, the other tasks being untouched. A request that is admitted
  again must be readable with the time of the second submission in its file.\<close>

theorem submit_survives_crash:
  assumes "map_of (dirs st) i = None" "i = taskIDOf env (salt st) (IdempotencyKey r)"
    and "Submit env online NoFault now r st = (Some (Inr res), st0)" "now \<noteq> 0" "now2 \<noteq> 0"
    and "3 \<le> n \<or> request_fits env \<lparr>TaskID = i, CreatedAt = now2, PayloadHash = payloadHashOf env r, Request = r\<rparr>"
  shows "\<exists>t st2. Submit env online NoFault now2 r (snd (Submit env online (Crash n) now r st)) =
      (Some (Inr \<lparr>subTask = t, Duplicated = (3 \<le> n)\<rparr>), st2) \<and> tkID t = i \<and> tkStatus t = Queued \<and>
      (\<forall>j. j \<noteq> i \<longrightarrow> map_of (dirs st2) j = map_of (dirs st) j)"
proof -
  note c = submit_crashed(1) [OF assms(1-3), of n] submit_crashed(2,3) [OF assms(1-3)]
  let ?p = "\<lparr>TaskID = i, CreatedAt = now, PayloadHash = payloadHashOf env r, Request = r\<rparr>"
  define st1 where "st1 = admit (min n 3) i ?p now st"
  note g = admit_new_legible [OF c(2) refl]
  have v1: "validateRequest (isAbs env) (limits st1) r = None" and i1: "i = taskIDOf env (salt st1) (IdempotencyKey r)"
    using c(3) assms(2) by (simp_all add: st1_def)
  have S: "Submit env online NoFault now2 r st1 = (case map_of (dirs st1) i of
      None \<Rightarrow> admit_new env online NoFault now2 i r st1
    | Some d \<Rightarrow>
        (case readPersistedRequest env i st1 of
           Inr existing \<Rightarrow>
             if PayloadHash existing \<noteq> payloadHashOf env r then (Some (Inl ErrIdempotencyConflict), st1)
             else (case getTaskUnlocked env online i st1 of
                 Inr t \<Rightarrow> (Some (Inr \<lparr>subTask = t, Duplicated = True\<rparr>), st1)
               | Inl e \<Rightarrow> (case removeIncompleteAdmissionUnlocked i st1 of
                   (Some e', st') \<Rightarrow> (Some (Inl (ErrStore ''cannot be repaired'')), st')
                 | (None, st') \<Rightarrow> admit_new env online NoFault now2 i r st'))
         | Inl e \<Rightarrow> (case removeIncompleteAdmissionUnlocked i st1 of
               (Some e', st') \<Rightarrow> (Some (Inl (ErrStore ''cannot be repaired'')), st')
             | (None, st') \<Rightarrow> admit_new env online NoFault now2 i r st')))"
    unfolding Submit_def v1 option.case Let_def i1 [symmetric] ..
  consider "n = 0" | "n = 1" | "n = 2" | "3 \<le> n" by linarith
  then have "\<exists>t st2. Submit env online NoFault now2 r st1 = (Some (Inr \<lparr>subTask = t, Duplicated = (3 \<le> n)\<rparr>), st2) \<and>
      tkID t = i \<and> tkStatus t = Queued \<and> (\<forall>j. j \<noteq> i \<longrightarrow> map_of (dirs st2) j = map_of (dirs st) j)"
  proof cases
    case 1
    then have "st1 = st" by (simp add: st1_def admit_def)
    then show ?thesis using 1 S assms(1,6) admit_new_births [OF c(2) assms(5), of "births st"] by simp
  next
    case 4
    then have st1: "st1 = admit 3 i ?p now st" by (simp add: st1_def)
    note r3 = admitted_task [OF g assms(4)]
    obtain t where t: "getTaskUnlocked env online i st1 = Inr t" "tkID t = i" "tkStatus t = Queued"
      using r3(2) st1 by blast
    have "\<exists>d. map_of (dirs st1) i = Some d" by (simp add: st1 admit_lookup)
    then show ?thesis using submit_known [OF v1 i1 _ _ t(1)] r3(1) t 4 by (auto simp: st1 admit_lookup)
  next
    case 2
    then have st1: "st1 = admit 1 i ?p now st" by (simp add: st1_def)
    have d: "map_of (dirs st1) i = Some (empty_dir (births st))" by (simp add: st1 admit_lookup empty_dir_def)
    have "readPersistedRequest env i st1 = Inl ErrNotFound" by (simp add: readPersistedRequest_def d empty_dir_def)
    moreover have "removeIncompleteAdmissionUnlocked i st1 = (None, st\<lparr>births := births st + 1\<rparr>)"
      using incomplete_removed [OF d] remove_admitted [OF assms(1), of 1 ?p now] st1 by (simp add: empty_dir_def)
    ultimately have "Submit env online NoFault now2 r st1 = admit_new env online NoFault now2 i r (st\<lparr>births := births st + 1\<rparr>)"
      using S d by simp
    then show ?thesis using 2 admit_new_births [OF c(2) assms(5)] assms(6) by simp
  next
    case 3
    then have st1: "st1 = admit 2 i ?p now st" by (simp add: st1_def)
    obtain d where d: "map_of (dirs st1) i = Some d" "requestFile d = Some ?p" "states d = []" "\<not> startedFile d"
      by (simp add: st1 admit_lookup)
    have "good_request env st1 i (read_back ?p)" using g(2) good_request_frame [of st1 st env i "read_back ?p"] by (simp add: st1)
    then have p: "readPersistedRequest env i st1 = Inr (read_back ?p)"
      using d(1,2) g(1) by (auto simp: readPersisted_iff holds_request_def)
    obtain e where e: "getTaskUnlocked env online i st1 = Inl e" using getTask_dead [OF d(1,3)] by blast
    have "removeIncompleteAdmissionUnlocked i st1 = (None, st\<lparr>births := births st + 1\<rparr>)"
      using incomplete_removed [OF d(1,4,3)] remove_admitted [OF assms(1), of 2 ?p now] st1 by simp
    then have "Submit env online NoFault now2 r st1 = admit_new env online NoFault now2 i r (st\<lparr>births := births st + 1\<rparr>)"
      using S d(1) p e by simp
    then show ?thesis using 3 admit_new_births [OF c(2) assms(5)] assms(6) by simp
  qed
  then show ?thesis unfolding c(1) st1_def [symmetric] .
qed

lemma submit_survives_crash_witness:
  "\<exists>t st2. Submit sample_env True NoFault 9 sample_request
     (snd (Submit sample_env True (Crash 2) 5 sample_request sample_tasks)) =
     (Some (Inr \<lparr>subTask = t, Duplicated = False\<rparr>), st2) \<and> tkStatus t = Queued"
proof -
  have 1: "map_of (dirs sample_tasks) (taskIDOf sample_env (salt sample_tasks) (IdempotencyKey sample_request)) = None"
    by (simp add: sample_tasks_def)
  show ?thesis using submit_survives_crash [OF 1 refl sample_submit_eq, of 9 2] sample_legible(1) by auto
qed

text \<open>
  A request whose file is larger than what is read back is admitted all the same: the submission fails, but
  the task stays queued, and it can neither be read nor cancelled.
\<close>

theorem oversized_admitted:
  assumes "validateRequest (isAbs env) (limits st) r = None" "i = taskIDOf env (salt st) (IdempotencyKey r)"
    and "map_of (dirs st) i = None" "countQueuedUnlocked st = Inr n" "int n < MaxQueued (limits st)"
    and "\<not> request_fits env \<lparr>TaskID = i, CreatedAt = now, PayloadHash = payloadHashOf env r, Request = r\<rparr>"
  shows "\<exists>e st' d. Submit env online NoFault now r st = (Some (Inl e), st') \<and> map_of (dirs st') i = Some d
    \<and> states d = [queued_record now 1] \<and> (\<exists>e. GetTask env online i st' = Inl e)
    \<and> (\<exists>e. CancelTask env online now2 i reason st' = (Inl e, st'))"
proof -
  let ?p = "\<lparr>TaskID = i, CreatedAt = now, PayloadHash = payloadHashOf env r, Request = r\<rparr>"
  let ?st = "admit 3 i ?p now st"
  obtain d where d: "map_of (dirs ?st) i = Some d" "states d = [queued_record now 1]" "requestFile d = Some ?p"
    by (simp add: admit_lookup)
  then have r: "readPersistedRequest env i ?st = Inl (ErrStore ''size limit'')"
    using assms(6) by (simp add: readPersistedRequest_def)
  then have t: "\<exists>e. getTaskUnlocked env online i ?st = Inl e" by (simp add: getTaskUnlocked_def)
  then obtain e where "Submit env online NoFault now r st = (Some (Inl e), ?st)"
    using assms(1,3-5) by (auto simp: Submit_def admit_new_def assms(2) [symmetric] Let_def)
  moreover have "\<exists>e. CancelTask env online now2 i reason ?st = (Inl e, ?st)" using t by (auto simp: CancelTask_def)
  moreover have "\<exists>e. GetTask env online i ?st = Inl e" using t by (simp add: GetTask_def)
  ultimately show ?thesis using d by blast
qed

lemma newest_first_strict:
  assumes "distinct (map tkID ts)"
  shows "sorted_wrt (\<lambda>a b. (tkCreatedAt b, tkID b) < (tkCreatedAt a, tkID a)) (newest_first ts)"
proof -
  let ?k = "\<lambda>t. (tkCreatedAt t, tkID t)" and ?s = "sort_key (\<lambda>t. (tkCreatedAt t, tkID t)) ts"
  have "mset (map tkID ?s) = mset (map tkID ts)" by simp
  then have "distinct (map tkID ?s)" using assms mset_eq_imp_distinct_iff by blast
  then have "distinct (map ?k ?s)" by (auto simp: distinct_map inj_on_def)
  then have "sorted_wrt (<) (map ?k ?s)"
    using sorted_sort_key [of ?k ts] by (simp add: strict_sorted_iff)
  then show ?thesis by (simp add: newest_first_def sorted_wrt_rev sorted_wrt_map)
qed

lemma matchesTask_iff:
  "matchesTask t o1 \<longleftrightarrow> (Statuses o1 = [] \<or> tkStatus t \<in> set (Statuses o1))
     \<and> (Kinds o1 = [] \<or> tkKind t \<in> set (Kinds o1)) \<and> set (TagFilter o1) \<subseteq> set (tkTags t)"
  by (auto simp: matchesTask_def)

lemma listed_iff:
  "t \<in> set (listed env online o1 st ids) \<longleftrightarrow>
     (\<exists>i \<in> set ids. \<exists>t0. GetTask env online i st = Inr t0 \<and> matchesTask t0 o1 \<and> t = t0\<lparr>History := []\<rparr>)"
  by (force simp: listed_def GetTask_def split: sum.splits if_splits)

text \<open>C39: as long as the store does not change, following the cursor from page to page gives every task
  of the store that can be read and that matches the filter, without its history, and no other; the
  tasks come strictly from the newest to the oldest, those of the same time by falling identifier, so
  none comes twice; and the client makes at most one request more than there are such tasks.\<close>

theorem list_pages_complete:
  assumes "store_ok env st" "List env online (o1\<lparr>ListCursor := []\<rparr>) st = Inr page0"
  shows "\<exists>ts. list_pages (Suc (length ts)) env online o1 st [] = Some ts
    \<and> sorted_wrt (\<lambda>a b. (tkCreatedAt b, tkID b) < (tkCreatedAt a, tkID a)) ts
    \<and> set ts = {t. \<exists>i \<in> fst ` set (dirs st). \<exists>t0. GetTask env online i st = Inr t0
        \<and> (Statuses o1 = [] \<or> tkStatus t0 \<in> set (Statuses o1))
        \<and> (Kinds o1 = [] \<or> tkKind t0 \<in> set (Kinds o1)) \<and> set (TagFilter o1) \<subseteq> set (tkTags t0)
        \<and> t = t0\<lparr>History := []\<rparr>}"
proof -
  have d: "distinct (map fst (dirs st))" using assms(1) by (simp add: store_ok_def)
  obtain ids ts limit where l: "readDirectoryBounded st = Inr ids" "ts = newest_first (listed env online o1 st ids)"
    "0 < limit" "distinct (map tkID ts)" "\<forall>t \<in> set ts. tkID t \<noteq> []"
    "\<forall>c k. (if c = [] then Some 0 else cursor_start c 0 ts) = Some k \<longrightarrow>
      List env online (o1\<lparr>ListCursor := c\<rparr>) st = Inr \<lparr>Tasks = take (min (k + limit) (length ts) - k) (drop k ts),
        NextCursor = (if min (k + limit) (length ts) < length ts \<and> min (k + limit) (length ts) > k
          then tkID (ts ! (min (k + limit) (length ts) - 1)) else []),
        Truncated = min (k + limit) (length ts) < length ts\<rparr>"
    by (rule list_page [OF assms(2) d])
  have "list_pages (Suc (length ts)) env online o1 st [] = Some (drop 0 ts)"
    by (rule list_pages_from [OF l(6) l(3-5)]) simp_all
  moreover have "mset (map tkID ts) = mset (map tkID (listed env online o1 st ids))"
    by (simp add: l(2) newest_first_def)
  then have "distinct (map tkID (listed env online o1 st ids))"
    using l(4) mset_eq_imp_distinct_iff by blast
  note newest_first_strict [OF this, folded l(2)]
  moreover have ids: "set ids = fst ` set (dirs st)"
    using l(1) by (auto simp: readDirectoryBounded_def image_iff split: if_splits) force+
  have "set ts = set (listed env online o1 st ids)" by (simp add: l(2) newest_first_def)
  then have "set ts = {t. \<exists>i \<in> fst ` set (dirs st). \<exists>t0. GetTask env online i st = Inr t0
        \<and> matchesTask t0 o1 \<and> t = t0\<lparr>History := []\<rparr>}"
    using listed_iff [of _ env online o1 st ids] unfolding ids by blast
  then have "set ts = {t. \<exists>i \<in> fst ` set (dirs st). \<exists>t0. GetTask env online i st = Inr t0
        \<and> (Statuses o1 = [] \<or> tkStatus t0 \<in> set (Statuses o1))
        \<and> (Kinds o1 = [] \<or> tkKind t0 \<in> set (Kinds o1)) \<and> set (TagFilter o1) \<subseteq> set (tkTags t0)
        \<and> t = t0\<lparr>History := []\<rparr>}"
    by (simp add: matchesTask_iff conj_assoc)
  ultimately show ?thesis unfolding drop_0 by blast
qed

definition all_tasks :: list_options where
  "all_tasks = \<lparr>Statuses = [], Kinds = [], TagFilter = [], ListCursor = [], Limit = 1\<rparr>"

lemma list_pages_complete_witness:
  "\<exists>ts. list_pages (Suc (length ts)) sample_env True all_tasks (snd sample_submit) [] = Some ts"
proof -
  have 1: "store_ok sample_env (snd sample_submit)"
    unfolding sample_submit_def by (intro store_ok_submit) (simp_all add: store_ok_def sample_tasks_def)
  have l: "limits (snd sample_submit) = limits sample_tasks"
    using submit_Inr [OF sample_submit_eq refl] by simp
  have n: "length (dirs (snd sample_submit)) \<le> 1"
    using submit_store [where env = sample_env and st = sample_tasks and r = sample_request and online = True
        and fault = NoFault and now = 5, OF refl]
    by (auto simp: sample_submit_def sample_tasks_def admit_def Let_def put_dir_def remove_dir_def)
  have "readDirectoryBounded (snd sample_submit) = Inr (sort (map fst (dirs (snd sample_submit))))"
    using n by (simp add: readDirectoryBounded_def l namespace_bound_def sample_tasks_def)
  then have "\<exists>page. List sample_env True (all_tasks\<lparr>ListCursor := []\<rparr>) (snd sample_submit) = Inr page"
    by (simp add: List_def all_tasks_def validUniqueStrings_def Let_def)
  then obtain page where "List sample_env True (all_tasks\<lparr>ListCursor := []\<rparr>) (snd sample_submit) = Inr page" ..
  from list_pages_complete [OF 1 this] show ?thesis by (auto simp del: list_pages.simps)
qed

end
