(* ===== verification/Task_Worker.thy ===== *)
theory Task_Worker
  imports Task_Store
begin

text \<open>
  The worker of the task store, \<^verbatim>\<open>internal/taskstore/worker.go\<close>: the pass that looks at every task and
  starts queued ones, and retention.

  A pass is a sequence of small steps over the state of the pass, because the front ends and the executors
  change the store between them: reading one entry, appending the state that was decided, preparing a
  candidate, and starting it under the control lock. Outcomes that depend on the file system and on the
  operating system (a path is still valid, the copy of the script was made, the process started) are
  arguments. Candidates of the same creation time, and finished tasks of the same time, are taken
  in the order of their ids, which is one of the orders that the unstable sort of the code may give.
\<close>

definition second :: int where "second = 1000000000"
definition executorStaleAfter :: int where "executorStaleAfter = 15 * second"
definition recoveryGrace :: int where "recoveryGrace = 20 * second"

subsection \<open>Looking at one task\<close>

datatype pending =
    Append bytes state_record
  | Commit persisted_request state_record launch_record

text \<open>The variables of a pass. \<^verbatim>\<open>counted\<close> lists the tasks behind the number \<^verbatim>\<open>active\<close>; the code keeps the number.\<close>

record pass_state =
  entries :: "bytes list"
  active :: nat
  heldLocks :: "bytes list"
  candidates :: "(persisted_request \<times> state_record) list"
  scanned :: bool
  pending :: "pending option"
  counted :: "bytes list"

record worker =
  startedAt :: int
  suspectSince :: "(bytes \<times> int) list"
  pass :: "pass_state option"

definition NewWorker :: "int \<Rightarrow> worker" where
  "NewWorker now = \<lparr>startedAt = now, suspectSince = [], pass = None\<rparr>"

definition executorFresh :: "int \<Rightarrow> task_dir \<Rightarrow> bool" where
  "executorFresh now d =
     (case heartbeat d of None \<Rightarrow> False | Some t \<Rightarrow> 0 \<le> now - t \<and> now - t \<le> executorStaleAfter)"

definition locksConflict :: "bytes list \<Rightarrow> bytes list \<Rightarrow> bool" where
  "locksConflict keys held = list_ex (\<lambda>k. k \<in> set held) keys"

definition occupy :: "bytes \<Rightarrow> persisted_request \<Rightarrow> pass_state \<Rightarrow> pass_state" where
  "occupy i p ps = ps\<lparr>active := active ps + 1, heldLocks := LockKeys (Request p) @ heldLocks ps, counted := i # counted ps\<rparr>"

definition reconcile_active ::
  "int \<Rightarrow> bytes \<Rightarrow> task_dir \<Rightarrow> persisted_request \<Rightarrow> state_record \<Rightarrow> worker \<Rightarrow> pass_state \<Rightarrow> worker \<times> pass_state"
where
  "reconcile_active now i d p s w ps =
     (let cleared = w\<lparr>suspectSince := AList.delete i (suspectSince w)\<rparr> in
      if executorFresh now d then (cleared, occupy i p ps)
      else
        (let suspectAt = (case map_of (suspectSince w) i of None \<Rightarrow> now | Some t \<Rightarrow> t);
             marked = w\<lparr>suspectSince := AList.update i suspectAt (suspectSince w)\<rparr>;
             withinGrace = (now - startedAt w < recoveryGrace \<or> now - UpdatedAt s < recoveryGrace \<or>
                            now - suspectAt < recoveryGrace)
         in if withinGrace then (marked, occupy i p ps)
            else if \<not> startedFile d \<and> Status s = Starting
            then (cleared, ps\<lparr>pending := Some (Append i (queued_record now (Revision s + 1)))\<rparr>)
            else (cleared, ps\<lparr>pending := Some (Append i (terminal_record s Interrupted now (-1) ''EXECUTOR_LOST''
                    (str ''executor heartbeat was lost; task was not rerun'')))\<rparr>)))"

definition reconcile_entry ::
  "task_env \<Rightarrow> int \<Rightarrow> task_store \<Rightarrow> bytes \<Rightarrow> worker \<Rightarrow> pass_state \<Rightarrow> worker \<times> pass_state"
where
  "reconcile_entry env now st i w ps =
     (if \<not> validTaskID i then (w, ps)
      else case readPersistedRequest env i st of
          Inl e \<Rightarrow> (w, ps)
        | Inr p \<Rightarrow>
            (let d = the (map_of (dirs st) i) in
             case latestState d of
               Inl e \<Rightarrow> (w, ps)
             | Inr s \<Rightarrow>
                 (if Status s = Queued then
                    (if cancelFile d then
                       (w, ps\<lparr>pending := Some (Append i (terminal_record s Cancelled now (-1) ''TASK_CANCELLED''
                              (str ''cancelled before execution'')))\<rparr>)
                     else (w, ps\<lparr>candidates := candidates ps @ [(p, s)]\<rparr>))
                  else if Status s = Starting \<or> Status s = Running then reconcile_active now i d p s w ps
                  else (w, ps))))"

subsection \<open>Starting a task\<close>

text \<open>What the worker asks of its policy, of the file system and of the packages that build command lines.\<close>

record launch_env =
  AllowShell :: bool
  AllowRunScript :: bool
  validateAdmittedTaskPath :: "bytes \<Rightarrow> bytes option"
  ValidateWorkingDirectory :: "bytes \<Rightarrow> bool"
  BuildShellCommand :: "bytes \<Rightarrow> bytes \<Rightarrow> bytes + bytes \<times> bytes list"
  copyScript :: "bytes \<Rightarrow> int \<Rightarrow> bytes \<Rightarrow> bytes option"
  BuildScriptCommand :: "bytes \<Rightarrow> bytes list \<Rightarrow> bytes + bytes \<times> bytes list"

definition snapshotScript :: "launch_env \<Rightarrow> task_dir \<Rightarrow> bytes \<Rightarrow> int \<Rightarrow> bytes \<Rightarrow> bytes option" where
  "snapshotScript le d path expectedSize expectedDigest =
     (if startedFile d then None else copyScript le path expectedSize expectedDigest)"

definition launch_runtime :: "task_limits \<Rightarrow> request \<Rightarrow> int" where
  "launch_runtime l r =
     (let maximum = MaxRuntimeSeconds r in
      if LimitRuntimeSeconds l > 0 \<and> (maximum = 0 \<or> maximum > LimitRuntimeSeconds l) then LimitRuntimeSeconds l
      else maximum)"

definition prepareLaunch :: "launch_env \<Rightarrow> task_limits \<Rightarrow> task_dir \<Rightarrow> request \<Rightarrow> bytes + launch_record" where
  "prepareLaunch le l d r =
     (if Kind r = Shell \<and> \<not> AllowShell le then Inl (str ''shell task execution is disabled in the worker'')
      else if Kind r = Script \<and> \<not> AllowRunScript le then Inl (str ''script task execution is disabled in the worker'')
      else case validateAdmittedTaskPath le (WorkingDirectory r) of
          None \<Rightarrow> Inl (str ''working directory is no longer valid'')
        | Some cwd \<Rightarrow>
            if \<not> ValidateWorkingDirectory le cwd then Inl (str ''working directory is not usable'')
            else case
                (if Kind r = Shell then BuildShellCommand le (ShellName r) (Command r)
                 else case validateAdmittedTaskPath le (ScriptPath r) of
                     None \<Rightarrow> Inl (str ''script path is no longer valid'')
                   | Some path \<Rightarrow>
                       (case snapshotScript le d path (ScriptSize r) (ScriptDigest r) of
                          None \<Rightarrow> Inl (str ''script snapshot could not be prepared'')
                        | Some snapshot \<Rightarrow> BuildScriptCommand le snapshot (Args r)))
              of Inl e \<Rightarrow> Inl e
               | Inr (program, args) \<Rightarrow>
                   Inr \<lparr>Program = program, LaunchArgs = args, LaunchDirectory = cwd,
                        LaunchRuntime = launch_runtime l r, LaunchToken = []\<rparr>)"

definition starting_record :: "int \<Rightarrow> nat \<Rightarrow> bytes \<Rightarrow> state_record" where
  "starting_record now n token = \<lparr>Status = Starting, Revision = n, UpdatedAt = now, StartedAt = None,
     FinishedAt = None, ExecutorToken = token, Result = None\<rparr>"

text \<open>An error of a start has a message for the user or not; two errors need no further action.\<close>

datatype start_result = Started | TaskStateChanged | TaskStartFinalized | StartFailed "bytes option"

definition start ::
  "int \<Rightarrow> bytes option \<Rightarrow> bool \<Rightarrow> persisted_request \<Rightarrow> state_record \<Rightarrow> launch_record \<Rightarrow> task_store \<Rightarrow>
     start_result \<times> task_store"
where
  "start now token spawned p current launch st =
     (case map_of (dirs st) (TaskID p) of
        None \<Rightarrow> (TaskStateChanged, st)
      | Some d \<Rightarrow>
          (case latestState d of
             Inl e \<Rightarrow> (TaskStateChanged, st)
           | Inr latest \<Rightarrow>
               if Status latest \<noteq> Queued \<or> Revision latest \<noteq> Revision current \<or> cancelFile d
               then (TaskStateChanged, st)
               else case token of
                   None \<Rightarrow> (StartFailed None, st)
                 | Some tok \<Rightarrow>
                     if startedFile d \<and> launchFile d \<noteq> None then (StartFailed None, st)
                     else
                       (let st1 = put_dir (TaskID p) (d\<lparr>launchFile := Some (launch\<lparr>LaunchToken := tok\<rparr>)\<rparr>) st;
                            s = starting_record now (Revision latest + 1) tok
                        in case appendState (TaskID p) s st1 of
                             (Some e, st2) \<Rightarrow> (StartFailed None, st2)
                           | (None, st2) \<Rightarrow>
                               if spawned then (Started, st2)
                               else (TaskStartFinalized, snd (appendState (TaskID p)
                                 (terminal_record s Failed now (-1) ''TASK_START_FAILED''
                                   (str ''task executor process could not be started'')) st2)))))"

definition dispatchAttempts :: "task_dir \<Rightarrow> task_error + nat" where
  "dispatchAttempts d =
     (case stateHistory d of Inl e \<Rightarrow> Inl e | Inr ss \<Rightarrow> Inr (length (filter (\<lambda>s. Status s = Starting) ss)))"

subsection \<open>The message of a failed start\<close>

definition taskStartFailureMessage :: "bytes option \<Rightarrow> bytes" where
  "taskStartFailureMessage public =
     (let prefix = str ''task could not be prepared or started'' in
      case public of
        None \<Rightarrow> prefix
      | Some m \<Rightarrow>
          if blank m then prefix
          else (let message = prefix @ str '': '' @ ToValidUTF8 (encode_rune rune_error) False m
                in if length message \<le> 1024 then message else shorten_valid (take 1024 message)))"

subsection \<open>The pass\<close>

definition begin_pass :: "task_store \<Rightarrow> worker \<Rightarrow> worker" where
  "begin_pass st w =
     (case readDirectoryBounded st of
        Inl e \<Rightarrow> w
      | Inr ids \<Rightarrow> w\<lparr>pass := Some \<lparr>entries = ids, active = 0, heldLocks = [], candidates = [], scanned = False,
          pending = None, counted = []\<rparr>\<rparr>)"

definition fail_candidate :: "int \<Rightarrow> persisted_request \<Rightarrow> state_record \<Rightarrow> string \<Rightarrow> bytes \<Rightarrow> pass_state \<Rightarrow> pass_state" where
  "fail_candidate now p s code message ps =
     ps\<lparr>pending := Some (Append (TaskID p) (terminal_record s Failed now (-1) code message))\<rparr>"

text \<open>The next candidate: passed over, refused, prepared, or the end of the pass.\<close>

definition dispatch_next ::
  "launch_env \<Rightarrow> int \<Rightarrow> task_store \<Rightarrow> pass_state \<Rightarrow> pass_state option"
where
  "dispatch_next le now st ps =
     (case candidates ps of
        [] \<Rightarrow> None
      | (p, s) # rest \<Rightarrow>
          (let ps1 = ps\<lparr>candidates := rest\<rparr> in
           if int (active ps) \<ge> MaxConcurrency (limits st) then None
           else if locksConflict (LockKeys (Request p)) (heldLocks ps) then Some ps1
           else case map_of (dirs st) (TaskID p) of
               None \<Rightarrow> None
             | Some d \<Rightarrow>
                 (case dispatchAttempts d of
                    Inl e \<Rightarrow> None
                  | Inr attempts \<Rightarrow>
                      if attempts \<ge> maxDispatchAttempts
                      then Some (fail_candidate now p s ''TASK_DISPATCH_RETRIES_EXHAUSTED''
                             (str ''task exceeded the bounded pre-start recovery attempts'') ps1)
                      else case prepareLaunch le (limits st) d (Request p) of
                          Inl m \<Rightarrow> Some (fail_candidate now p s ''TASK_START_FAILED'' (taskStartFailureMessage (Some m)) ps1)
                        | Inr launch \<Rightarrow> Some (ps1\<lparr>pending := Some (Commit p s launch)\<rparr>))))"

definition by_creation :: "(persisted_request \<times> state_record) list \<Rightarrow> (persisted_request \<times> state_record) list" where
  "by_creation cs = sort_key (\<lambda>(p, s). CreatedAt p) cs"

text \<open>
  One small step of the pass. It gives the worker, the store, and the executor it launched: the id of
  the task and the token.
\<close>

definition pass_step ::
  "task_env \<Rightarrow> launch_env \<Rightarrow> int \<Rightarrow> bytes option \<Rightarrow> bool \<Rightarrow> worker \<Rightarrow> pass_state \<Rightarrow> task_store \<Rightarrow>
     worker \<times> task_store \<times> (bytes \<times> bytes) option"
where
  "pass_step env le now token spawned w ps st =
     (case pending ps of
        Some (Append i s) \<Rightarrow> (w\<lparr>pass := Some (ps\<lparr>pending := None\<rparr>)\<rparr>, snd (appendState i s st), None)
      | Some (Commit p s launch) \<Rightarrow>
          (let ps1 = ps\<lparr>pending := None\<rparr> in
           case start now token spawned p s launch st of
             (Started, st') \<Rightarrow> (w\<lparr>pass := Some (occupy (TaskID p) p ps1)\<rparr>, st', Some (TaskID p, the token))
           | (StartFailed m, st') \<Rightarrow>
               (w\<lparr>pass := Some (fail_candidate now p s ''TASK_START_FAILED'' (taskStartFailureMessage m) ps1)\<rparr>, st', None)
           | (_, st') \<Rightarrow> (w\<lparr>pass := Some ps1\<rparr>, st', None))
      | None \<Rightarrow>
          if scanned ps then (w\<lparr>pass := dispatch_next le now st ps\<rparr>, st, None)
          else case entries ps of
              [] \<Rightarrow> (w\<lparr>pass := Some (ps\<lparr>scanned := True, candidates := by_creation (candidates ps)\<rparr>)\<rparr>, st, None)
            | i # is \<Rightarrow>
                (let (w', ps') = reconcile_entry env now st i w (ps\<lparr>entries := is\<rparr>)
                 in (w'\<lparr>pass := Some ps'\<rparr>, st, None)))"

subsection \<open>Retention\<close>

record terminal_task =
  termID :: bytes
  finished :: int
  termBytes :: int

definition directorySizeBounded :: "task_dir \<Rightarrow> int \<Rightarrow> int option" where
  "directorySizeBounded d maximum = (if dirBytes d > maximum then None else Some (dirBytes d))"

definition measured :: "task_store \<Rightarrow> bytes list \<Rightarrow> (bytes \<times> task_dir \<times> int) list" where
  "measured st ids =
     concat (map (\<lambda>i. if \<not> validTaskID i then [] else
       (case map_of (dirs st) i of None \<Rightarrow> []
        | Some d \<Rightarrow> (case directorySizeBounded d (MaxTotalBytes (limits st) + 1) of
             None \<Rightarrow> [] | Some n \<Rightarrow> [(i, d, n)]))) ids)"

definition terminal_of :: "bytes \<times> task_dir \<times> int \<Rightarrow> terminal_task list" where
  "terminal_of = (\<lambda>(i, d, n).
     (case latestState d of
        Inl e \<Rightarrow> []
      | Inr s \<Rightarrow> (case FinishedAt s of
          None \<Rightarrow> []
        | Some t \<Rightarrow> if Terminal (Status s) then [\<lparr>termID = i, finished = t, termBytes = n\<rparr>] else [])))"

definition terminalTasks :: "task_store \<Rightarrow> bytes list \<Rightarrow> terminal_task list" where
  "terminalTasks st ids = sort_key finished (concat (map terminal_of (measured st ids)))"

definition retainable :: "task_limits \<Rightarrow> int \<Rightarrow> nat \<Rightarrow> int \<Rightarrow> terminal_task \<Rightarrow> bool" where
  "retainable l cutoff remaining used t \<longleftrightarrow>
     int remaining \<le> MaxTerminal l \<and> used \<le> MaxTotalBytes l \<and> \<not> finished t < cutoff"

fun purge_loop :: "int \<Rightarrow> terminal_task list \<Rightarrow> nat \<Rightarrow> int \<Rightarrow> task_store \<Rightarrow> task_store" where
  "purge_loop cutoff [] remaining used st = st"
| "purge_loop cutoff (t # ts) remaining used st =
     (if retainable (limits st) cutoff remaining used t then purge_loop cutoff ts remaining used st
      else purge_loop cutoff ts (remaining - 1) (used - termBytes t) (remove_dir (termID t) st))"

definition cutoff_of :: "task_limits \<Rightarrow> int \<Rightarrow> int" where
  "cutoff_of l now = now - RetentionDays l * 24 * 3600 * second"

definition Purge :: "int \<Rightarrow> task_store \<Rightarrow> task_store" where
  "Purge now st =
     (case readDirectoryBounded st of
        Inl e \<Rightarrow> st
      | Inr ids \<Rightarrow>
          (let ts = terminalTasks st ids in
           purge_loop (cutoff_of (limits st) now) ts (length ts)
             (sum_list (map (\<lambda>(i, d, n). n) (measured st ids))) st))"


subsection \<open>Retention removes the oldest tasks\<close>

definition remove_tasks :: "terminal_task list \<Rightarrow> task_store \<Rightarrow> task_store" where
  "remove_tasks ts st = foldl (\<lambda>st t. remove_dir (termID t) st) st ts"

lemma remove_tasks_lookup:
  "map_of (dirs (remove_tasks ts st)) i = (if i \<in> termID ` set ts then None else map_of (dirs st) i)"
  by (induction ts arbitrary: st) (auto simp: remove_tasks_def)

lemma remove_tasks_fields [simp]: "limits (remove_tasks ts st) = limits st" "salt (remove_tasks ts st) = salt st"
  "births (remove_tasks ts st) = births st"
  by (induction ts arbitrary: st) (auto simp: remove_tasks_def)

lemma purge_loop_kept:
  "\<forall>t \<in> set ts. retainable (limits st) cutoff remaining used t \<Longrightarrow> purge_loop cutoff ts remaining used st = st"
  by (induction ts) auto

lemma retainable_newer:
  "retainable l cutoff remaining used t \<Longrightarrow> finished t \<le> finished t' \<Longrightarrow> retainable l cutoff remaining used t'"
  by (auto simp: retainable_def)

lemma purge_loop_prefix:
  assumes "sorted (map finished ts)"
  shows "\<exists>k \<le> length ts. purge_loop cutoff ts (length ts) used st = remove_tasks (take k ts) st \<and>
    (k < length ts \<longrightarrow> retainable (limits st) cutoff (length ts - k) (used - sum_list (map termBytes (take k ts))) (ts ! k)) \<and>
    (\<forall>j < k. \<not> retainable (limits st) cutoff (length ts - j) (used - sum_list (map termBytes (take j ts))) (ts ! j))"
  using assms
proof (induction ts arbitrary: used st)
  case (Cons t ts)
  show ?case
  proof (cases "retainable (limits st) cutoff (length (t # ts)) used t")
    case True
    then have "\<forall>u \<in> set (t # ts). retainable (limits st) cutoff (length (t # ts)) used u"
      using Cons(2) retainable_newer [OF True] by auto
    from purge_loop_kept [OF this] True show ?thesis by (intro exI [of _ 0]) (simp add: remove_tasks_def)
  next
    case False
    have "sorted (map finished ts)" using Cons(2) by simp
    from Cons(1) [OF this, of "used - termBytes t" "remove_dir (termID t) st"] obtain k where k:
      "k \<le> length ts"
      "purge_loop cutoff ts (length ts) (used - termBytes t) (remove_dir (termID t) st) =
        remove_tasks (take k ts) (remove_dir (termID t) st)"
      "k < length ts \<longrightarrow> retainable (limits st) cutoff (length ts - k)
        (used - termBytes t - sum_list (map termBytes (take k ts))) (ts ! k)"
      "\<forall>j < k. \<not> retainable (limits st) cutoff (length ts - j)
        (used - termBytes t - sum_list (map termBytes (take j ts))) (ts ! j)" by auto
    have "purge_loop cutoff (t # ts) (length (t # ts)) used st = remove_tasks (take (Suc k) (t # ts)) st"
      using False k(2) by (simp add: remove_tasks_def)
    moreover have "\<not> retainable (limits st) cutoff (length (t # ts) - j)
        (used - sum_list (map termBytes (take j (t # ts)))) ((t # ts) ! j)" if "j < Suc k" for j
      using that False k(4) by (cases j) (auto simp: diff_diff_eq)
    moreover have "Suc k < length (t # ts) \<longrightarrow> retainable (limits st) cutoff (length (t # ts) - Suc k)
        (used - sum_list (map termBytes (take (Suc k) (t # ts)))) ((t # ts) ! Suc k)"
      using k(3) by (simp add: diff_diff_eq)
    ultimately show ?thesis using k(1) by (intro exI [of _ "Suc k"]) simp
  qed
qed (simp add: remove_tasks_def)

lemma terminalTasks_terminal:
  "t \<in> set (terminalTasks st ids) \<Longrightarrow> \<exists>d s. map_of (dirs st) (termID t) = Some d \<and> latestState d = Inr s \<and>
     Terminal (Status s) \<and> FinishedAt s = Some (finished t)"
  by (auto simp: terminalTasks_def measured_def terminal_of_def split: if_splits option.splits sum.splits) metis+

lemma terminalTasks_sorted: "sorted (map finished (terminalTasks st ids))"
  by (simp add: terminalTasks_def)

subsection \<open>The message is a text\<close>

lemma ToValidUTF8_valid: "utf8_valid rep \<Longrightarrow> utf8_valid (ToValidUTF8 rep invalid p)"
proof (induction rep invalid p rule: ToValidUTF8.induct)
  case (1 rep invalid p)
  show ?case
  proof (cases "p = []")
    case False
    note u = ToValidUTF8.simps [of rep invalid p]
    show ?thesis
    proof (cases "decode_rune p = (rune_error, 1)")
      case True
      then show ?thesis using 1 False u by (simp add: valid_append)
    next
      case d: False
      obtain r w where rw: "decode_rune p = (r, w)" by (cases "decode_rune p")
      from encode_decode_rune [OF False rw] d rw have r: "valid_rune r" "encode_rune r = take w p" by auto
      have "utf8_valid (ToValidUTF8 rep False (drop w p))" using 1(2) [OF False d 1(3)] rw by simp
      then have "utf8_valid (encode_rune r @ ToValidUTF8 rep False (drop w p))" using r(1) by simp
      moreover have "ToValidUTF8 rep invalid p = take w p @ ToValidUTF8 rep False (drop w p)"
        using u False d rw by auto
      ultimately show ?thesis using r(2) by simp
    qed
  qed (simp add: ToValidUTF8.simps)
qed

lemma shorten_valid_prefix:
  "utf8_valid (shorten_valid m) \<and> (\<exists>n. shorten_valid m = take n m)"
proof (induction m rule: shorten_valid.induct)
  case (1 m)
  show ?case
  proof (cases "utf8_valid m")
    case True
    then show ?thesis by (subst (1 2) shorten_valid.simps) (metis append_Nil2 take_all order_refl)
  next
    case False
    then show ?thesis using 1 by (subst (1 2) shorten_valid.simps) (auto simp: butlast_conv_take min.commute)
  qed
qed


subsection \<open>Properties\<close>

text \<open>C38: retention removes the tasks that finished longest ago, as many as needed and no more: it stops at the
  first one with which the number and the size of what is left are within the limits and which is
  not older than the retention time, and every task before it was over one of the three. Tasks that are not finished stay.\<close>

theorem purge_retention:
  assumes "readDirectoryBounded st = Inr ids" "ts = terminalTasks st ids"
    and "used = (\<lambda>k. sum_list (map (\<lambda>(i, d, n). n) (measured st ids)) - sum_list (map termBytes (take k ts)))"
  shows "\<exists>k \<le> length ts. sorted (map finished ts) \<and>
    (\<forall>i. map_of (dirs (Purge now st)) i = (if i \<in> termID ` set (take k ts) then None else map_of (dirs st) i)) \<and>
    (\<forall>j < k. \<not> retainable (limits st) (cutoff_of (limits st) now) (length ts - j) (used j) (ts ! j)) \<and>
    (k < length ts \<longrightarrow> retainable (limits st) (cutoff_of (limits st) now) (length ts - k) (used k) (ts ! k)) \<and>
    (\<forall>i d s. map_of (dirs st) i = Some d \<and> latestState d = Inr s \<and> \<not> Terminal (Status s) \<longrightarrow>
      map_of (dirs (Purge now st)) i = Some d)"
proof -
  have sorted: "sorted (map finished ts)" unfolding assms(2) by (rule terminalTasks_sorted)
  obtain k where k: "k \<le> length ts" "Purge now st = remove_tasks (take k ts) st"
    "k < length ts \<longrightarrow> retainable (limits st) (cutoff_of (limits st) now) (length ts - k) (used k) (ts ! k)"
    "\<forall>j < k. \<not> retainable (limits st) (cutoff_of (limits st) now) (length ts - j) (used j) (ts ! j)"
    using purge_loop_prefix [OF sorted, where cutoff = "cutoff_of (limits st) now" and st = st
        and used = "sum_list (map (\<lambda>(i, d, n). n) (measured st ids))"]
    by (auto simp: Purge_def assms)
  have "i \<notin> termID ` set (take k ts)"
    if "map_of (dirs st) i = Some d" "latestState d = Inr s" "\<not> Terminal (Status s)" for i d s
  proof
    assume "i \<in> termID ` set (take k ts)"
    then obtain t where "t \<in> set ts" "i = termID t" by (auto dest: in_set_takeD)
    with terminalTasks_terminal [of t st ids] that assms(2) show False by auto
  qed
  then show ?thesis using sorted k by (intro exI [of _ k]) (simp add: remove_tasks_lookup)
qed


definition sample_done :: "byte \<Rightarrow> int \<Rightarrow> bytes \<times> task_dir" where
  "sample_done c t = (str ''tsk_'' @ replicate 32 c, (empty_dir 0)\<lparr>dirBytes := 10, states :=
     [queued_record 1 1, terminal_record (queued_record 1 1) Cancelled t (-1) [] []]\<rparr>)"

definition sample_finished :: task_store where
  "sample_finished = sample_tasks\<lparr>dirs := [sample_done 0x61 7, sample_done 0x62 5]\<rparr>"

abbreviation finished_ids :: "bytes list" where
  "finished_ids \<equiv> [fst (sample_done 0x61 7), fst (sample_done 0x62 5)]"

lemma sample_finished_tasks:
  "readDirectoryBounded sample_finished = Inr finished_ids" "MaxTerminal (limits sample_finished) = 1"
  "map termID (terminalTasks sample_finished finished_ids) = rev finished_ids"
  by code_simp+

lemma purge_retention_witness:
  "map_of (dirs (Purge 9 sample_finished)) (fst (sample_done 0x62 5)) = None"
proof -
  let ?ts = "terminalTasks sample_finished finished_ids"
  have len: "length ?ts = 2" using arg_cong [OF sample_finished_tasks(3), of length] by simp
  obtain k where k: "\<forall>i. map_of (dirs (Purge 9 sample_finished)) i =
      (if i \<in> termID ` set (take k ?ts) then None else map_of (dirs sample_finished) i)"
    "k < length ?ts \<longrightarrow> retainable (limits sample_finished) (cutoff_of (limits sample_finished) 9) (length ?ts - k)
      (sum_list (map (\<lambda>(i, d, n). n) (measured sample_finished finished_ids)) -
       sum_list (map termBytes (take k ?ts))) (?ts ! k)"
    using purge_retention [OF sample_finished_tasks(1) refl refl, of 9] by blast
  have "k \<noteq> 0" using k(2) len by (auto simp: retainable_def sample_finished_tasks(2))
  then have "?ts ! 0 \<in> set (take k ?ts)" using len by (cases ?ts; cases k) auto
  moreover have "termID (?ts ! 0) = fst (sample_done 0x62 5)"
    using arg_cong [OF sample_finished_tasks(3), of hd] len by (cases ?ts) auto
  ultimately have "fst (sample_done 0x62 5) \<in> termID ` set (take k ?ts)" by (metis image_eqI)
  then show ?thesis using k(1) by simp
qed

end
