(* ===== verification/Task_Executor.thy ===== *)
theory Task_Executor
  imports Task_Store
begin

text \<open>
  The executor of one task, \<^verbatim>\<open>internal/taskstore/executor.go\<close>: a process of its own that checks its launch
  record, claims the task with the start marker, which is created exclusively, says that it runs,
  runs the command, and writes down how it ended.

  The place where the executor stands is its program counter; the writes are separate steps, and
  the process may die between any two of them. What the operating system answers is an argument.
\<close>

subsection \<open>How the command ended\<close>

text \<open>Why the executor stopped the command, if it did, and what waiting for it gave.\<close>

datatype stop_cause = NotStopped | CancelRequest | DeadlineReached | ExecutorStopped

datatype wait_result =
    WaitOK
  | ExitError int
  | ErrWaitDelay "int option"
  | OtherWaitError

record verdict =
  vStatus :: status
  vExit :: int
  vCode :: string
  vMessage :: bytes

definition stop_verdict :: "stop_cause \<Rightarrow> verdict" where
  "stop_verdict c =
     (case c of
        NotStopped \<Rightarrow> \<lparr>vStatus = Succeeded, vExit = 0, vCode = [], vMessage = []\<rparr>
      | CancelRequest \<Rightarrow> \<lparr>vStatus = Cancelled, vExit = 0, vCode = ''TASK_CANCELLED'',
          vMessage = str ''task cancellation was requested''\<rparr>
      | DeadlineReached \<Rightarrow> \<lparr>vStatus = TimedOut, vExit = 0, vCode = ''TASK_TIMED_OUT'',
          vMessage = str ''configured maximum runtime was reached''\<rparr>
      | ExecutorStopped \<Rightarrow> \<lparr>vStatus = Interrupted, vExit = 0, vCode = ''EXECUTOR_STOPPED'',
          vMessage = str ''task executor was stopped''\<rparr>)"

definition executor_verdict :: "stop_cause \<Rightarrow> wait_result \<Rightarrow> verdict" where
  "executor_verdict c r =
     (let v = stop_verdict c in
      if r = WaitOK then v
      else
        (let v1 = (case r of
              ExitError n \<Rightarrow> v\<lparr>vExit := n\<rparr>
            | ErrWaitDelay n \<Rightarrow>
                (if vStatus v = Succeeded
                 then \<lparr>vStatus = Failed, vExit = (case n of None \<Rightarrow> -1 | Some k \<Rightarrow> k),
                       vCode = ''PROCESS_OUTPUT_DRAIN_TIMEOUT'', vMessage = str (''process exited but inherited output streams '' @
                         ''did not close before the drain timeout'')\<rparr>
                 else v)
            | _ \<Rightarrow>
                (if vStatus v = Succeeded
                 then \<lparr>vStatus = Failed, vExit = -1, vCode = ''PROCESS_WAIT_FAILED'', vMessage = str ''process wait failed''\<rparr>
                 else v))
         in if vStatus v1 = Succeeded
            then v1\<lparr>vStatus := Failed, vCode := ''PROCESS_EXIT_NONZERO'',
                    vMessage := str ''process exited with a non-zero status''\<rparr>
            else v1))"

subsection \<open>The steps of an executor\<close>

datatype pc =
    Launched
  | Checked nat launch_record
  | Claimed int nat launch_record
  | Beating int nat launch_record
  | Ready state_record launch_record
  | Waiting state_record launch_record
  | Ending state_record
  | Gone

text \<open>\<^verbatim>\<open>claim\<close> is the number of the directory that holds the marker of this executor; the code has no such number.\<close>

record executor =
  exTask :: bytes
  exToken :: bytes
  exPc :: pc
  claim :: "nat option"

definition new_executor :: "bytes \<Rightarrow> bytes \<Rightarrow> executor" where
  "new_executor i token = \<lparr>exTask = i, exToken = token, exPc = Launched, claim = None\<rparr>"

definition running_record :: "int \<Rightarrow> nat \<Rightarrow> bytes \<Rightarrow> state_record" where
  "running_record now n token = \<lparr>Status = Running, Revision = n, UpdatedAt = now, StartedAt = Some now,
     FinishedAt = None, ExecutorToken = token, Result = None\<rparr>"

definition ending_record :: "int \<Rightarrow> int \<Rightarrow> state_record \<Rightarrow> bytes \<Rightarrow> verdict \<Rightarrow> state_record" where
  "ending_record now millis run token v =
     \<lparr>Status = vStatus v, Revision = Revision run + 1, UpdatedAt = now, StartedAt = StartedAt run,
      FinishedAt = Some now, ExecutorToken = token,
      Result = Some \<lparr>ExitCode = vExit v, DurationMillis = millis, ErrorCode = vCode v, Message = vMessage v\<rparr>\<rparr>"

text \<open>
  One step: the clock and the duration, whether the command could be started, and how it ended; and the JSON
  text that a launch record has in its file, of which no more than 2 MiB are read. It gives
  the executor, its directory, and whether the command was started. When the directory is gone no
  write succeeds, which ends the executor, but the command needs none.
\<close>

record exec_input =
  exNow :: int
  exMillis :: int
  spawnOK :: bool
  cause :: stop_cause
  waited :: wait_result
  launchJSON :: "launch_record \<Rightarrow> bytes"

definition launch_back :: "launch_record \<Rightarrow> launch_record" where
  "launch_back l = l\<lparr>Program := json_string (Program l), LaunchArgs := map json_string (LaunchArgs l),
     LaunchDirectory := json_string (LaunchDirectory l)\<rparr>"

definition check_launch :: "exec_input \<Rightarrow> executor \<Rightarrow> task_dir \<Rightarrow> (nat \<times> launch_record) option" where
  "check_launch n x d =
     (if \<not> validTaskID (exTask x) \<or> length (exToken x) \<noteq> 64 then None
      else case launchFile d of
          None \<Rightarrow> None
        | Some written \<Rightarrow>
            if int (length (launchJSON n written)) > 2 * 1024 * 1024 then None
            else let launch = launch_back written in
            if LaunchToken launch \<noteq> exToken x then None
            else case latestState d of
                Inl e \<Rightarrow> None
              | Inr current \<Rightarrow>
                  if Status current \<noteq> Starting \<or> ExecutorToken current \<noteq> exToken x then None
                  else Some (Revision current, launch))"

definition append_to :: "state_record \<Rightarrow> task_dir \<Rightarrow> task_dir option" where
  "append_to s d = (case append_error d s of Some e \<Rightarrow> None | None \<Rightarrow> Some (d\<lparr>states := states d @ [s]\<rparr>))"

definition finishExecutor :: "exec_input \<Rightarrow> state_record \<Rightarrow> verdict \<Rightarrow> executor \<Rightarrow> executor" where
  "finishExecutor n run v x = x\<lparr>exPc := Ending (ending_record (exNow n) (exMillis n) run (exToken x) v)\<rparr>"

definition start_command :: "exec_input \<Rightarrow> bool \<Rightarrow> state_record \<Rightarrow> launch_record \<Rightarrow> executor \<Rightarrow> executor \<times> bool" where
  "start_command n cancelled run launch x =
     (if cancelled then
        (finishExecutor n run \<lparr>vStatus = Cancelled, vExit = -1, vCode = ''TASK_CANCELLED'',
           vMessage = str ''cancelled before process start''\<rparr> x, False)
      else if \<not> spawnOK n then
        (finishExecutor n run \<lparr>vStatus = Failed, vExit = -1, vCode = ''PROCESS_START_FAILED'',
           vMessage = str ''process could not be started''\<rparr> x, False)
      else (x\<lparr>exPc := Waiting run launch\<rparr>, True))"

definition end_command :: "exec_input \<Rightarrow> state_record \<Rightarrow> executor \<Rightarrow> executor" where
  "end_command n run x = finishExecutor n run (executor_verdict (cause n) (waited n)) x"

definition executor_step :: "exec_input \<Rightarrow> executor \<Rightarrow> task_dir \<Rightarrow> executor \<times> task_dir \<times> bool" where
  "executor_step n x d =
     (let gone = x\<lparr>exPc := Gone\<rparr> in
      case exPc x of
        Launched \<Rightarrow>
          (case check_launch n x d of
             None \<Rightarrow> (gone, d, False)
           | Some (rev1, launch) \<Rightarrow> (x\<lparr>exPc := Checked rev1 launch\<rparr>, d, False))
      | Checked rev1 launch \<Rightarrow>
          if startedFile d then (gone, d, False)
          else (x\<lparr>exPc := Claimed (exNow n) rev1 launch, claim := Some (born d)\<rparr>, d\<lparr>startedFile := True\<rparr>, False)
      | Claimed t rev1 launch \<Rightarrow> (x\<lparr>exPc := Beating t rev1 launch\<rparr>, d\<lparr>heartbeat := Some (exNow n)\<rparr>, False)
      | Beating t rev1 launch \<Rightarrow>
          (let run = running_record t (rev1 + 1) (exToken x) in
           case append_to run d of
             None \<Rightarrow> (gone, d, False)
           | Some d' \<Rightarrow> (x\<lparr>exPc := Ready run launch\<rparr>, d', False))
      | Ready run launch \<Rightarrow> (case start_command n (cancelFile d) run launch x of (x', b) \<Rightarrow> (x', d, b))
      | Waiting run launch \<Rightarrow> (end_command n run x, d, False)
      | Ending s \<Rightarrow> (case append_to s d of None \<Rightarrow> (gone, d, False) | Some d' \<Rightarrow> (gone, d', False))
      | Gone \<Rightarrow> (x, d, False))"

definition executor_orphan :: "exec_input \<Rightarrow> executor \<Rightarrow> executor \<times> bool" where
  "executor_orphan n x =
     (case exPc x of
        Ready run launch \<Rightarrow> start_command n False run launch x
      | Waiting run launch \<Rightarrow> (end_command n run x, False)
      | _ \<Rightarrow> (x\<lparr>exPc := Gone\<rparr>, False))"

text \<open>The tick of the timer while the command runs: the heartbeat, and then the request to cancel is noticed.\<close>

definition executor_tick :: "int \<Rightarrow> executor \<Rightarrow> task_dir \<Rightarrow> task_dir" where
  "executor_tick now x d = (case exPc x of Waiting _ _ \<Rightarrow> d\<lparr>heartbeat := Some now\<rparr> | _ \<Rightarrow> d)"

text \<open>The causes that can be observed: cancellation needs the file, a deadline needs a bound.\<close>

definition possible_cause :: "executor \<Rightarrow> task_dir \<Rightarrow> stop_cause \<Rightarrow> bool" where
  "possible_cause x d c =
     (case exPc x of
        Waiting run launch \<Rightarrow>
          (case c of CancelRequest \<Rightarrow> cancelFile d | DeadlineReached \<Rightarrow> 0 < LaunchRuntime launch | _ \<Rightarrow> True)
      | _ \<Rightarrow> True)"

subsection \<open>The verdict\<close>

lemma executor_verdict_terminal: "Terminal (vStatus (executor_verdict c r))"
  by (cases c; cases r) (simp_all add: executor_verdict_def stop_verdict_def)

end
