(* ===== verification/Task_System.thy ===== *)
theory Task_System
  imports Task_Worker Task_Executor
begin

text \<open>
  The task store, its worker and its executors together: front ends submit and cancel, the worker starts,
  makes its passes and may die, every executor proceeds by itself and may die. A step is one
  operation under the control lock, or one read or write of a process, at any clock that has a time.

  \<^verbatim>\<open>executions\<close> records the directory under which a command was started, and \<^verbatim>\<open>lostReap\<close> that the worker decided to
  take back a task that looked dead while its executor came to life, so that the append was refused; the code
  keeps neither.
\<close>

record task_system =
  store :: task_store
  worker :: "worker option"
  executors :: "executor list"
  executions :: "nat list"
  lostReap :: bool

definition active_dir :: "task_dir \<Rightarrow> bool" where
  "active_dir d \<longleftrightarrow> states d \<noteq> [] \<and> (Status (last (states d)) = Starting \<or> Status (last (states d)) = Running)"

definition active_at :: "task_store \<Rightarrow> bytes \<Rightarrow> bool" where
  "active_at st i = (case map_of (dirs st) i of None \<Rightarrow> False | Some d \<Rightarrow> active_dir d)"

definition active_ids :: "task_store \<Rightarrow> bytes set" where
  "active_ids st = {i. active_at st i}"

definition new_system :: "task_limits \<Rightarrow> bytes \<Rightarrow> task_system" where
  "new_system l s = \<lparr>store = \<lparr>dirs = [], limits = l, salt = s, births = 0\<rparr>, worker = None, executors = [],
     executions = [], lostReap = False\<rparr>"

definition system_pass ::
  "task_env \<Rightarrow> launch_env \<Rightarrow> int \<Rightarrow> bytes option \<Rightarrow> bool \<Rightarrow> worker \<Rightarrow> pass_state \<Rightarrow> task_system \<Rightarrow> task_system"
where
  "system_pass env le now token spawned w ps s =
     (case pass_step env le now token spawned w ps (store s) of
        (w', st', launched) \<Rightarrow>
          s\<lparr>store := st', worker := Some w',
            executors := executors s @ (case launched of None \<Rightarrow> [] | Some (i, t) \<Rightarrow> [new_executor i t]),
            lostReap := lostReap s \<or> (case pending ps of Some (Append i r) \<Rightarrow> active_at st' i | _ \<Rightarrow> False)\<rparr>)"

definition system_exec :: "exec_input \<Rightarrow> nat \<Rightarrow> task_system \<Rightarrow> task_system" where
  "system_exec n k s =
     (let x = executors s ! k in
      case map_of (dirs (store s)) (exTask x) of
        None \<Rightarrow>
          (case executor_orphan n x of (x', b) \<Rightarrow>
             s\<lparr>executors := (executors s)[k := x'], executions := executions s @ (if b then [the (claim x)] else [])\<rparr>)
      | Some d \<Rightarrow>
          (case executor_step n x d of (x', d', b) \<Rightarrow>
             s\<lparr>store := put_dir (exTask x) d' (store s), executors := (executors s)[k := x'],
               executions := executions s @ (if b then [the (claim x)] else [])\<rparr>))"

definition system_tick :: "int \<Rightarrow> nat \<Rightarrow> task_system \<Rightarrow> task_system" where
  "system_tick now k s =
     (let x = executors s ! k in
      case map_of (dirs (store s)) (exTask x) of
        None \<Rightarrow> s
      | Some d \<Rightarrow> s\<lparr>store := put_dir (exTask x) (executor_tick now x d) (store s)\<rparr>)"

definition cause_possible :: "task_system \<Rightarrow> nat \<Rightarrow> stop_cause \<Rightarrow> bool" where
  "cause_possible s k c =
     (let x = executors s ! k in
      case map_of (dirs (store s)) (exTask x) of None \<Rightarrow> c \<noteq> CancelRequest | Some d \<Rightarrow> possible_cause x d c)"

inductive task_step :: "task_env \<Rightarrow> task_system \<Rightarrow> task_system \<Rightarrow> bool" for env where
  submit: "now \<noteq> 0 \<Longrightarrow> task_step env s (s\<lparr>store := snd (Submit env online fault now r (store s))\<rparr>)"
| cancel: "now \<noteq> 0 \<Longrightarrow> task_step env s (s\<lparr>store := snd (CancelTask env online now i reason (store s))\<rparr>)"
| worker_start: "worker s = None \<Longrightarrow> task_step env s (s\<lparr>worker := Some (NewWorker now)\<rparr>)"
| worker_stop: "task_step env s (s\<lparr>worker := None\<rparr>)"
| begin_pass: "worker s = Some w \<Longrightarrow> pass w = None \<Longrightarrow> task_step env s (s\<lparr>worker := Some (begin_pass (store s) w)\<rparr>)"
| pass_step: "worker s = Some w \<Longrightarrow> pass w = Some ps \<Longrightarrow> now \<noteq> 0 \<Longrightarrow>
    task_step env s (system_pass env le now token spawned w ps s)"
| purge: "worker s = Some w \<Longrightarrow> pass w = None \<Longrightarrow> task_step env s (s\<lparr>store := Purge now (store s)\<rparr>)"
| exec: "k < length (executors s) \<Longrightarrow> exNow n \<noteq> 0 \<Longrightarrow> cause_possible s k (cause n) \<Longrightarrow>
    task_step env s (system_exec n k s)"
| tick: "k < length (executors s) \<Longrightarrow> task_step env s (system_tick now k s)"
| grow: "map_of (dirs (store s)) i = Some d \<Longrightarrow>
    task_step env s (s\<lparr>store := put_dir i (d\<lparr>dirBytes := n\<rparr>) (store s)\<rparr>)"
| die: "k < length (executors s) \<Longrightarrow> task_step env s
    (s\<lparr>executors := (executors s)[k := (executors s ! k)\<lparr>exPc := Gone\<rparr>]\<rparr>)"

inductive task_reachable :: "task_env \<Rightarrow> task_system \<Rightarrow> bool" for env where
  init: "validateLimits l \<Longrightarrow> task_reachable env (new_system l s)"
| step: "task_reachable env s \<Longrightarrow> task_step env s s' \<Longrightarrow> task_reachable env s'"

subsection \<open>What the steps do to the store\<close>

definition attempts :: "task_dir \<Rightarrow> nat" where
  "attempts d = length (filter (\<lambda>s. Status s = Starting) (states d))"

text \<open>Two directories of the same admission, of which the second is later.\<close>

definition marks_of :: "task_dir \<Rightarrow> task_dir \<Rightarrow> bool" where
  "marks_of d d' \<longleftrightarrow> states d' = states d \<and> requestFile d' = requestFile d \<and> born d' = born d \<and>
     (startedFile d \<longrightarrow> startedFile d')"

text \<open>The changes that the front ends and the executors make, and those only the worker makes.\<close>

inductive quiet_change :: "task_env \<Rightarrow> task_store \<Rightarrow> task_store \<Rightarrow> bool" for env where
  mark: "map_of (dirs st) i = Some d \<Longrightarrow> marks_of d d' \<Longrightarrow> quiet_change env st (put_dir i d' st)"
| append: "map_of (dirs st) i = Some d \<Longrightarrow> append_error d r = None \<Longrightarrow> Revision r \<noteq> 1 \<Longrightarrow> Status r \<noteq> Queued \<Longrightarrow>
    Status r \<noteq> Starting \<Longrightarrow> legible env st i d \<or> length (states d) \<noteq> 1 \<Longrightarrow>
    quiet_change env st (put_dir i (d\<lparr>states := states d @ [r]\<rparr>) st)"
| remove: "map_of (dirs st) i = Some d \<Longrightarrow> states d = [] \<or> \<not> legible env st i d \<Longrightarrow> quiet_change env st (remove_dir i st)"
| admit: "map_of (dirs st) i = None \<Longrightarrow> now \<noteq> 0 \<Longrightarrow> good_request env st i p \<Longrightarrow>
    quiet_change env st (admit n i p now st)"

inductive loud_change :: "task_env \<Rightarrow> task_store \<Rightarrow> task_store \<Rightarrow> bool" for env where
  requeue: "map_of (dirs st) i = Some d \<Longrightarrow> append_error d r = None \<Longrightarrow> Revision r \<noteq> 1 \<Longrightarrow> Status r = Queued \<Longrightarrow>
    legible env st i d \<or> length (states d) \<noteq> 1 \<Longrightarrow>
    loud_change env st (put_dir i (d\<lparr>states := states d @ [r]\<rparr>) st)"
| launch: "map_of (dirs st) i = Some d \<Longrightarrow> append_error d r = None \<Longrightarrow> Revision r \<noteq> 1 \<Longrightarrow> Status r = Starting \<Longrightarrow>
    legible env st i d \<or> length (states d) \<noteq> 1 \<Longrightarrow>
    attempts d < maxDispatchAttempts \<Longrightarrow> loud_change env st (put_dir i (d\<lparr>states := states d @ [r]\<rparr>) st)"
| retire: "map_of (dirs st) i = Some d \<Longrightarrow> latestState d = Inr r \<Longrightarrow> Terminal (Status r) \<Longrightarrow>
    loud_change env st (remove_dir i st)"

definition any_change :: "task_env \<Rightarrow> task_store \<Rightarrow> task_store \<Rightarrow> bool" where
  "any_change env st st' \<longleftrightarrow> quiet_change env st st' \<or> loud_change env st st'"

text \<open>A fact of one directory, of the limits and of the salt that every change keeps.\<close>

definition change_ok :: "task_env \<Rightarrow> task_store \<Rightarrow> bool" where
  "change_ok env st \<longleftrightarrow> store_ok env st \<and>
     (\<forall>i d. map_of (dirs st) i = Some d \<longrightarrow> born d < births st \<and> attempts d \<le> maxDispatchAttempts) \<and>
     (\<forall>i j d d'. map_of (dirs st) i = Some d \<longrightarrow> map_of (dirs st) j = Some d' \<longrightarrow> born d = born d' \<longrightarrow> i = j)"


lemma change_okD:
  "change_ok env st \<Longrightarrow> store_ok env st"
  "change_ok env st \<Longrightarrow> map_of (dirs st) i = Some d \<Longrightarrow> born d < births st"
  "change_ok env st \<Longrightarrow> map_of (dirs st) i = Some d \<Longrightarrow> attempts d \<le> maxDispatchAttempts"
  unfolding change_ok_def by blast+

lemma change_ok_inj:
  "change_ok env st \<Longrightarrow> map_of (dirs st) i = Some d \<Longrightarrow> map_of (dirs st) j = Some d' \<Longrightarrow> born d = born d' \<Longrightarrow> i = j"
  unfolding change_ok_def by blast

lemma attempts_append [simp]:
  "attempts (d\<lparr>states := states d @ [r]\<rparr>) = attempts d + (if Status r = Starting then 1 else 0)"
  by (simp add: attempts_def)

lemma marks_attempts: "marks_of d d' \<Longrightarrow> attempts d' = attempts d"
  by (simp add: marks_of_def attempts_def)

lemma change_ok_put:
  assumes "change_ok env st" "map_of (dirs st) i = Some d" "born d' = born d" "dir_ok env st i d'"
    and "attempts d' \<le> maxDispatchAttempts"
  shows "change_ok env (put_dir i d' st)"
  unfolding change_ok_def
proof (intro conjI allI impI)
  show "store_ok env (put_dir i d' st)" by (rule store_ok_put [OF change_okD(1) [OF assms(1)] assms(4)])
  fix j k a b
  assume "map_of (dirs (put_dir i d' st)) j = Some a"
  then have j: "if j = i then a = d' else map_of (dirs st) j = Some a" by (simp split: if_splits)
  then show "born a < births (put_dir i d' st)" "attempts a \<le> maxDispatchAttempts"
    using assms change_okD(2,3) [OF assms(1)] by (cases "j = i"; fastforce)+
  obtain a' where a': "map_of (dirs st) j = Some a'" "born a' = born a" using j assms(2,3) by (cases "j = i") auto
  assume "map_of (dirs (put_dir i d' st)) k = Some b" and same: "born a = born b"
  then have k: "if k = i then b = d' else map_of (dirs st) k = Some b" by (simp split: if_splits)
  obtain b' where b': "map_of (dirs st) k = Some b'" "born b' = born b" using k assms(2,3) by (cases "k = i") auto
  show "j = k" by (rule change_ok_inj [OF assms(1) a'(1) b'(1)]) (simp add: a' b' same)
qed

lemma change_ok_remove:
  assumes "change_ok env st"
  shows "change_ok env (remove_dir i st)"
  unfolding change_ok_def
proof (intro conjI allI impI)
  show "store_ok env (remove_dir i st)" by (rule store_ok_remove [OF change_okD(1) [OF assms(1)]])
  fix j k a b
  assume "map_of (dirs (remove_dir i st)) j = Some a"
  then have j: "map_of (dirs st) j = Some a" by (simp split: if_splits)
  show "born a < births (remove_dir i st)" "attempts a \<le> maxDispatchAttempts"
    using change_okD(2,3) [OF assms j] by simp_all
  assume "map_of (dirs (remove_dir i st)) k = Some b" and same: "born a = born b"
  then have k: "map_of (dirs st) k = Some b" by (simp split: if_splits)
  show "j = k" by (rule change_ok_inj [OF assms j k same])
qed

lemma admit_dirs:
  assumes "map_of (dirs (admit n i p now st)) j = Some d" "n \<noteq> 0"
  shows "if j = i then born d = births st \<and> \<not> startedFile d \<and> attempts d = 0 \<and> \<not> active_dir d
    else map_of (dirs st) j = Some d"
  using assms by (auto simp: admit_lookup attempts_def active_dir_def queued_record_def split: if_splits)

lemma admit_births: "births (admit n i p now st) = (if n = 0 then births st else births st + 1)"
  by (simp add: admit_def Let_def)

lemma change_ok_admit:
  assumes "change_ok env st" "now \<noteq> 0" "good_request env st i p"
  shows "change_ok env (admit n i p now st)"
proof (cases "n = 0")
  case False
  show ?thesis
    unfolding change_ok_def
  proof (intro conjI allI impI)
    show "store_ok env (admit n i p now st)" using store_ok_admit [OF _ assms(2,3)] assms(1) by (simp add: change_ok_def)
    fix j k a b
    assume j: "map_of (dirs (admit n i p now st)) j = Some a"
    note ja = admit_dirs [OF j False]
    show "born a < births (admit n i p now st)" "attempts a \<le> maxDispatchAttempts"
      using ja change_okD(2,3) [OF assms(1)] by (cases "j = i"; fastforce simp: admit_births False less_Suc_eq)+
    assume k: "map_of (dirs (admit n i p now st)) k = Some b" "born a = born b"
    note kb = admit_dirs [OF k(1) False]
    show "j = k"
    proof (rule ccontr)
      assume ne: "j \<noteq> k"
      consider "j = i" | "k = i" | "j \<noteq> i" "k \<noteq> i" by blast
      then show False
      proof cases
        case 1
        then have "map_of (dirs st) k = Some b" using kb ne by simp
        then show ?thesis using 1 ja k(2) change_okD(2) [OF assms(1), of k b] by simp
      next
        case 2
        then have "map_of (dirs st) j = Some a" using ja ne by simp
        then show ?thesis using 2 kb k(2) change_okD(2) [OF assms(1), of j a] by simp
      next
        case 3
        then show ?thesis using ja kb k(2) change_ok_inj [OF assms(1)] ne by simp
      qed
    qed
  qed
qed (simp add: admit_def assms(1))

lemma append_dir_ok:
  assumes "store_ok env st" "map_of (dirs st) i = Some d" "append_error d r = None" "Revision r \<noteq> 1"
    and "legible env st i d \<or> length (states d) \<noteq> 1"
  shows "dir_ok env st i (d\<lparr>states := states d @ [r]\<rparr>)" "states d \<noteq> []"
    "validStateTransition (Status (last (states d))) (Status r)"
proof -
  show n: "states d \<noteq> []" using append_error_dead [of d r] assms(3,4) by blast
  have d: "dir_ok env st i d" by (rule store_ok_lookup [OF assms(1,2)])
  show "validStateTransition (Status (last (states d))) (Status r)"
    using append_error_None [OF d n] assms(3) by blast
  have e: "snd (appendState i r st) = put_dir i (d\<lparr>states := states d @ [r]\<rparr>) st"
    using assms(2,3) by (simp add: appendState_def)
  have "store_ok env (snd (appendState i r st))" by (rule store_ok_append [OF assms(1,4)]) (use assms(2,5) in auto)
  then have "store_ok env (put_dir i (d\<lparr>states := states d @ [r]\<rparr>) st)" unfolding e .
  from store_ok_lookup [OF this, of i] show "dir_ok env st i (d\<lparr>states := states d @ [r]\<rparr>)"
    using dir_ok_frame [of "put_dir i (d\<lparr>states := states d @ [r]\<rparr>) st" st env i] by simp
qed

lemma change_ok_any:
  assumes "change_ok env st" "any_change env st st'"
  shows "change_ok env st'"
proof -
  have ok: "store_ok env st" using assms(1) by (simp add: change_ok_def)
  have le: "attempts d \<le> maxDispatchAttempts" if "map_of (dirs st) i = Some d" for i d
    using assms(1) that by (simp add: change_ok_def)
  have app: "change_ok env (put_dir i (d\<lparr>states := states d @ [r]\<rparr>) st)"
    if "map_of (dirs st) i = Some d" "append_error d r = None" "Revision r \<noteq> 1"
      "legible env st i d \<or> length (states d) \<noteq> 1" "Status r \<noteq> Starting \<or> attempts d < maxDispatchAttempts" for i d r
    using change_ok_put [OF assms(1) that(1) _ append_dir_ok(1) [OF ok that(1-4)]] le [OF that(1)] that(5)
    by (cases "Status r = Starting") simp_all
  show ?thesis
    using assms(2) unfolding any_change_def
  proof
    assume "quiet_change env st st'"
    then show ?thesis
    proof cases
      case (mark i d d')
      then show ?thesis
        using change_ok_put [OF assms(1) mark(2), of d'] dir_ok_marks [OF store_ok_lookup [OF ok mark(2)], of d']
          le [OF mark(2)] marks_attempts [OF mark(3)] by (simp add: marks_of_def)
    next
      case (append i d r)
      then show ?thesis using app [of i d r] by simp
    next
      case (remove i d)
      then show ?thesis using change_ok_remove [OF assms(1)] by simp
    next
      case (admit i now p n)
      then show ?thesis using change_ok_admit [OF assms(1)] by simp
    qed
  next
    assume "loud_change env st st'"
    then show ?thesis
    proof cases
      case (requeue i d r)
      then show ?thesis using app [of i d r] by simp
    next
      case (launch i d r)
      then show ?thesis using app [of i d r] by simp
    next
      case (retire i d r)
      then show ?thesis using change_ok_remove [OF assms(1)] by simp
    qed
  qed
qed


text \<open>What an admission leaves behind stays with it; a later directory of the id has a later number.\<close>

definition later :: "task_store \<Rightarrow> task_store \<Rightarrow> bool" where
  "later st st' \<longleftrightarrow> limits st' = limits st \<and> salt st' = salt st \<and> births st \<le> births st' \<and>
     (\<forall>i d'. map_of (dirs st') i = Some d' \<longrightarrow> births st \<le> born d' \<or>
       (\<exists>d. map_of (dirs st) i = Some d \<and> born d' = born d \<and> (startedFile d \<longrightarrow> startedFile d')))"

lemma laterI:
  assumes "limits st' = limits st" "salt st' = salt st" "births st \<le> births st'"
    and "\<And>i d'. map_of (dirs st') i = Some d' \<Longrightarrow> births st \<le> born d' \<or>
      (\<exists>d. map_of (dirs st) i = Some d \<and> born d' = born d \<and> (startedFile d \<longrightarrow> startedFile d'))"
  shows "later st st'"
  using assms unfolding later_def by blast

lemma later_refl [simp]: "later st st"
  by (simp add: later_def)

lemma later_trans: "later st st' \<Longrightarrow> later st' st'' \<Longrightarrow> later st st''"
proof (rule laterI)
  assume a: "later st st'" "later st' st''"
  then show "limits st'' = limits st" "salt st'' = salt st" "births st \<le> births st''" by (auto simp: later_def)
  fix i d''
  assume "map_of (dirs st'') i = Some d''"
  then consider "births st' \<le> born d''"
    | d' where "map_of (dirs st') i = Some d'" "born d'' = born d'" "startedFile d' \<longrightarrow> startedFile d''"
    using a(2) unfolding later_def by blast
  then show "births st \<le> born d'' \<or>
      (\<exists>d. map_of (dirs st) i = Some d \<and> born d'' = born d \<and> (startedFile d \<longrightarrow> startedFile d''))"
  proof cases
    case 1
    then show ?thesis using a(1) unfolding later_def by linarith
  next
    case 2
    then show ?thesis using a(1) unfolding later_def by metis
  qed
qed

lemma later_put:
  "map_of (dirs st) i = Some d \<Longrightarrow> born d' = born d \<Longrightarrow> startedFile d \<longrightarrow> startedFile d' \<Longrightarrow> later st (put_dir i d' st)"
  by (rule laterI) (auto split: if_splits)

lemma later_remove: "later st (remove_dir i st)"
  by (rule laterI) (auto split: if_splits)

lemma later_any:
  assumes "any_change env st st'"
  shows "later st st'"
  using assms unfolding any_change_def
proof
  assume "quiet_change env st st'"
  then show ?thesis
  proof cases
    case (mark i d d')
    then show ?thesis using later_put [OF mark(2)] by (simp add: marks_of_def)
  next
    case (append i d r)
    then show ?thesis using later_put [OF append(2)] by simp
  next
    case (admit i now p n)
    have "births st \<le> born d' \<or> (\<exists>d. map_of (dirs st) j = Some d \<and> born d' = born d \<and> (startedFile d \<longrightarrow> startedFile d'))"
      if "map_of (dirs (admit n i p now st)) j = Some d'" for j d'
      using that by (cases "n = 0") (auto simp: admit_lookup split: if_splits)
    then show ?thesis using admit(1) by (intro laterI) (simp_all add: admit_births)
  qed (simp add: later_remove)
next
  assume "loud_change env st st'"
  then show ?thesis
  proof cases
    case (requeue i d r)
    then show ?thesis using later_put [OF requeue(2)] by simp
  next
    case (launch i d r)
    then show ?thesis using later_put [OF launch(2)] by simp
  qed (simp add: later_remove)
qed

text \<open>What the front ends and the executors leave alone.\<close>

definition retry_ok :: "task_store \<Rightarrow> bytes \<Rightarrow> bool" where
  "retry_ok st i \<longleftrightarrow> (\<forall>d. map_of (dirs st) i = Some d \<and> states d \<noteq> [] \<and> Status (last (states d)) = Queued \<longrightarrow>
     attempts d < maxDispatchAttempts)"

definition held_request :: "task_env \<Rightarrow> task_store \<Rightarrow> bytes \<Rightarrow> persisted_request \<Rightarrow> bool" where
  "held_request env st i p \<longleftrightarrow> (\<exists>d. map_of (dirs st) i = Some d \<and> states d \<noteq> [] \<and> holds_request env st i d p)"

lemma held_put:
  assumes "held_request env st j p" "map_of (dirs st) i = Some d" "requestFile d' = requestFile d"
    "states d \<noteq> [] \<longrightarrow> states d' \<noteq> []"
  shows "held_request env (put_dir i d' st) j p"
proof -
  obtain e where e: "map_of (dirs st) j = Some e" "states e \<noteq> []" "holds_request env st j e p"
    using assms(1) by (auto simp: held_request_def)
  show ?thesis
  proof (cases "j = i")
    case True
    have "holds_request env (put_dir i d' st) j d' p"
      using e(1,3) assms(2,3) True by (simp add: holds_frame [of "put_dir i d' st" st d' d])
    then show ?thesis using True e assms(2,4) by (auto simp: held_request_def)
  next
    case False
    then show ?thesis using e holds_frame [of "put_dir i d' st" st e e env j p] by (simp add: held_request_def)
  qed
qed

lemma held_append: "held_request env st j p \<Longrightarrow> held_request env (snd (appendState i r st)) j p"
  by (auto simp: appendState_def intro!: held_put split: option.splits)

lemma held_legible:
  "held_request env st i p \<Longrightarrow> map_of (dirs st) i = Some d \<Longrightarrow> legible env st i d \<or> length (states d) \<noteq> 1"
  by (auto simp: held_request_def legible_def)

definition quiet_frame :: "task_env \<Rightarrow> task_store \<Rightarrow> task_store \<Rightarrow> bool" where
  "quiet_frame env st st' \<longleftrightarrow> (\<forall>i p. held_request env st i p \<longrightarrow> held_request env st' i p) \<and>
     (\<forall>i. active_at st' i \<longrightarrow> active_at st i) \<and> (\<forall>i. retry_ok st i \<longrightarrow> retry_ok st' i)"

lemma quiet_frame_refl [simp]: "quiet_frame env st st"
  by (simp add: quiet_frame_def)

lemma quiet_frame_trans: "quiet_frame env st st' \<Longrightarrow> quiet_frame env st' st'' \<Longrightarrow> quiet_frame env st st''"
  unfolding quiet_frame_def by blast

lemma quiet_frame_put:
  assumes "map_of (dirs st) i = Some d" "requestFile d' = requestFile d" "states d \<noteq> [] \<longrightarrow> states d' \<noteq> []"
    and "active_dir d' \<longrightarrow> active_dir d"
    and "states d' \<noteq> [] \<and> Status (last (states d')) = Queued \<longrightarrow> states d' = states d"
  shows "quiet_frame env st (put_dir i d' st)"
  unfolding quiet_frame_def
proof (intro conjI allI impI)
  fix j p
  assume "held_request env st j p"
  then show "held_request env (put_dir i d' st) j p" by (rule held_put [OF _ assms(1-3)])
next
  fix j
  assume "active_at (put_dir i d' st) j"
  then show "active_at st j" using assms(1,4) by (cases "j = i") (simp_all add: active_at_def)
next
  fix j
  assume r: "retry_ok st j"
  show "retry_ok (put_dir i d' st) j"
  proof (cases "j = i")
    case True
    have "attempts d' < maxDispatchAttempts" if q: "states d' \<noteq> [] \<and> Status (last (states d')) = Queued"
    proof -
      have "states d' = states d" using assms(5) q by blast
      then show ?thesis using r True q assms(1) by (simp add: retry_ok_def attempts_def)
    qed
    then show ?thesis using True by (simp add: retry_ok_def)
  next
    case False
    then show ?thesis using r by (simp add: retry_ok_def)
  qed
qed

lemma quiet_frame_change:
  assumes "quiet_change env st st'" "store_ok env st"
  shows "quiet_frame env st st'"
  using assms(1)
proof cases
  case (mark i d d')
  from mark(3) have m: "states d' = states d" "requestFile d' = requestFile d" by (simp_all add: marks_of_def)
  show ?thesis unfolding mark(1) by (rule quiet_frame_put [OF mark(2)]) (simp_all add: m active_dir_def)
next
  case (append i d r)
  note a = append_dir_ok(2,3) [OF assms(2) append(2,3,4,7)]
  have "active_dir (d\<lparr>states := states d @ [r]\<rparr>) \<longrightarrow> active_dir d"
    using a append(6) by (auto simp: active_dir_def validStateTransition_def split: status.splits)
  then show ?thesis unfolding append(1) by (intro quiet_frame_put [OF append(2)]) (simp_all add: append(5))
next
  case (remove i d)
  have "held_request env (remove_dir i st) j p" if "held_request env st j p" for j p
  proof -
    obtain e where e: "map_of (dirs st) j = Some e" "states e \<noteq> []" "holds_request env st j e p"
      using \<open>held_request env st j p\<close> by (auto simp: held_request_def)
    then have "j \<noteq> i" using remove(2,3) by (auto simp: legible_def)
    then show ?thesis using e holds_frame [of "remove_dir i st" st e e env j p] by (simp add: held_request_def)
  qed
  then show ?thesis unfolding remove(1) by (auto simp: quiet_frame_def active_at_def retry_ok_def)
next
  case (admit i now p n)
  show ?thesis
  proof (cases "n = 0")
    case True
    then show ?thesis using admit(1) by (simp add: admit_def)
  next
    case n: False
    show ?thesis unfolding admit(1) quiet_frame_def
    proof (intro conjI allI impI)
      fix j q
      assume "held_request env st j q"
      then obtain e where e: "map_of (dirs st) j = Some e" "states e \<noteq> []" "holds_request env st j e q"
        by (auto simp: held_request_def)
      then have "j \<noteq> i" using admit(2) by auto
      then show "held_request env (admit n i p now st) j q"
        using e holds_frame [of "admit n i p now st" st e e env j q] by (simp add: held_request_def admit_lookup)
    next
      fix j
      assume "active_at (admit n i p now st) j"
      then obtain d where d: "map_of (dirs (admit n i p now st)) j = Some d" "active_dir d"
        by (auto simp: active_at_def split: option.splits)
      with admit_dirs [OF d(1) n] show "active_at st j" by (auto simp: active_at_def split: if_splits)
    next
      fix j
      assume r: "retry_ok st j"
      show "retry_ok (admit n i p now st) j" unfolding retry_ok_def
      proof (intro allI impI)
        fix d
        assume d: "map_of (dirs (admit n i p now st)) j = Some d \<and> states d \<noteq> [] \<and> Status (last (states d)) = Queued"
        then show "attempts d < maxDispatchAttempts"
          using admit_dirs [OF conjunct1 [OF d] n] r by (cases "j = i") (auto simp: retry_ok_def maxDispatchAttempts_def)
      qed
    qed
  qed
qed


lemma quiet_many:
  assumes "(quiet_change env)\<^sup>*\<^sup>* st st'" "change_ok env st"
  shows "change_ok env st' \<and> later st st' \<and> quiet_frame env st st'"
  using assms
proof (induction rule: rtranclp_induct)
  case (step st' st'')
  then have a: "change_ok env st'" "later st st'" "quiet_frame env st st'" by blast+
  have c: "any_change env st' st''" using step(2) by (simp add: any_change_def)
  show ?case
    using change_ok_any [OF a(1) c] later_trans [OF a(2) later_any [OF c]]
      quiet_frame_trans [OF a(3) quiet_frame_change [OF step(2) change_okD(1) [OF a(1)]]] by blast
qed simp

lemma any_many:
  assumes "(any_change env)\<^sup>*\<^sup>* st st'" "change_ok env st"
  shows "change_ok env st' \<and> later st st'"
  using assms
proof (induction rule: rtranclp_induct)
  case (step st' st'')
  then have a: "change_ok env st'" "later st st'" by blast+
  show ?case using change_ok_any [OF a(1) step(2)] later_trans [OF a(2) later_any [OF step(2)]] by blast
qed simp

lemma quiet_any: "(quiet_change env)\<^sup>*\<^sup>* st st' \<Longrightarrow> (any_change env)\<^sup>*\<^sup>* st st'"
  by (rule rtranclp_mono [THEN predicate2D]) (auto simp: any_change_def)

subsection \<open>The operations are such changes\<close>

lemma admit_new_quiet:
  assumes "map_of (dirs st) i = None" "now \<noteq> 0" "validateRequest (isAbs env) (limits st) r = None"
    and "i = taskIDOf env (salt st) (IdempotencyKey r)"
  shows "(quiet_change env)\<^sup>*\<^sup>* st (snd (admit_new env online fault now i r st))"
  using admit_new_store [of env online fault now i r st] quiet_change.admit [OF assms(1,2) good_request_new [OF assms(3,2,4)]]
  by (auto intro: r_into_rtranclp)

lemma submit_quiet:
  assumes "store_ok env st" "now \<noteq> 0"
  shows "(quiet_change env)\<^sup>*\<^sup>* st (snd (Submit env online fault now r st))"
proof (cases "validateRequest (isAbs env) (limits st) r")
  case (Some e)
  then show ?thesis by (simp add: Submit_def)
next
  case v: None
  define i where "i = taskIDOf env (salt st) (IdempotencyKey r)"
  note S = Submit_def [of env online fault now r st, unfolded v option.case Let_def i_def [symmetric]]
  show ?thesis
  proof (cases "map_of (dirs st) i")
    case None
    then show ?thesis using S admit_new_quiet [OF None assms(2) v i_def] by simp
  next
    case (Some d)
    show ?thesis
    proof (cases "states d \<noteq> [] \<and> legible env st i d")
      case True
      obtain p where p: "readPersistedRequest env i st = Inr p" using True Some by (auto simp: legible_def readPersisted_iff)
      obtain t where t: "getTaskUnlocked env online i st = Inr t" by (rule getTask_ok [OF assms(1) Some]) (use True in auto)
      show ?thesis using S Some p t by simp
    next
      case False
      have rem: "(quiet_change env)\<^sup>*\<^sup>* st (remove_dir i st)"
        using quiet_change.remove [OF Some] False by blast
      have new: "(quiet_change env)\<^sup>*\<^sup>* (remove_dir i st) (snd (admit_new env online fault now i r (remove_dir i st)))"
        by (rule admit_new_quiet) (use assms(2) v in \<open>simp_all add: i_def\<close>)
      obtain e st1 where r: "removeIncompleteAdmissionUnlocked i st = (e, st1)" by fastforce
      have "e = None \<and> st1 = remove_dir i st \<or> e \<noteq> None \<and> st1 = st"
        using r Some by (auto simp: removeIncompleteAdmissionUnlocked_def split: if_splits sum.splits)
      then have out: "(quiet_change env)\<^sup>*\<^sup>* st (snd (case (e, st1) of
          (Some e', st') \<Rightarrow> (Some (Inl (ErrStore ''cannot be repaired'')), st')
        | (None, st') \<Rightarrow> admit_new env online fault now i r st'))"
        using rem new by (auto intro: rtranclp_trans)
      show ?thesis
      proof (cases "readPersistedRequest env i st")
        case (Inl e1)
        then show ?thesis using S Some r out by simp
      next
        case (Inr p)
        then have "states d = []" using False Some by (auto simp: legible_def readPersisted_iff)
        from getTask_dead [OF Some this] obtain e2 where "getTaskUnlocked env online i st = Inl e2" by blast
        then show ?thesis using S Some r out Inr by simp
      qed
    qed
  qed
qed

lemma append_quiet:
  assumes "Revision r \<noteq> 1" "Status r \<noteq> Queued" "Status r \<noteq> Starting"
    and "\<And>d. map_of (dirs st) i = Some d \<Longrightarrow> legible env st i d \<or> length (states d) \<noteq> 1"
  shows "(quiet_change env)\<^sup>*\<^sup>* st (snd (appendState i r st))"
proof (cases "map_of (dirs st) i")
  case (Some d)
  then show ?thesis
    using quiet_change.append [OF Some _ assms(1-3) assms(4) [OF Some]]
    by (auto simp: appendState_def intro: r_into_rtranclp split: option.splits)
qed (simp add: appendState_def)

lemma mark_quiet:
  "map_of (dirs st) i = Some d \<Longrightarrow> marks_of d d' \<Longrightarrow> (quiet_change env)\<^sup>*\<^sup>* st (put_dir i d' st)"
  by (rule r_into_rtranclp, rule quiet_change.mark)

lemma latest_revision:
  assumes "latestState d = Inr s"
  shows "1 \<le> Revision s"
proof -
  obtain ss where ss: "stateHistory d = Inr ss" "s = last ss" using assms by (auto simp: latestState_def split: sum.splits)
  then have "set ss = set (filter readable_state (states d))" "ss \<noteq> []"
    by (auto simp: stateHistory_def Let_def split: if_splits)
  then have "last ss \<in> set (filter readable_state (states d))" using last_in_set [of ss] by simp
  then show ?thesis using ss(2) by (simp add: readable_state_def)
qed

lemma cancel_quiet: "(quiet_change env)\<^sup>*\<^sup>* st (snd (CancelTask env online now i reason st))"
proof -
  have m: "(quiet_change env)\<^sup>*\<^sup>* st (put_dir i (d\<lparr>cancelFile := True\<rparr>) st)" if "map_of (dirs st) i = Some d" for d
    by (rule mark_quiet [OF that]) (simp add: marks_of_def)
  have a: "(quiet_change env)\<^sup>*\<^sup>* st1 (snd (appendState i ((terminal_record q Cancelled now (-1) c m)\<lparr>StartedAt := None\<rparr>) st1))"
    if "latestState d = Inr q" "\<And>e. map_of (dirs st1) i = Some e \<Longrightarrow> legible env st1 i e" for st1 d q c m
    by (rule append_quiet) (use latest_revision [OF that(1)] that(2) in \<open>simp_all add: terminal_record_def\<close>)
  have l: "legible env (put_dir i (d\<lparr>cancelFile := True\<rparr>) st) i e"
    if "legible env st i d" "map_of (dirs (put_dir i (d\<lparr>cancelFile := True\<rparr>) st)) i = Some e" for d e
    using that(2) legible_frame [of "put_dir i (d\<lparr>cancelFile := True\<rparr>) st" st "d\<lparr>cancelFile := True\<rparr>" d env i]
    by (auto simp: that(1))
  consider "snd (CancelTask env online now i reason st) = st"
    | d where "map_of (dirs st) i = Some d"
        "snd (CancelTask env online now i reason st) = put_dir i (d\<lparr>cancelFile := True\<rparr>) st"
    | d q where "map_of (dirs st) i = Some d" "latestState (d\<lparr>cancelFile := True\<rparr>) = Inr q" "legible env st i d"
        "snd (CancelTask env online now i reason st) = snd (appendState i ((terminal_record q Cancelled now (-1)
          ''TASK_CANCELLED'' (str ''cancelled before execution''))\<lparr>StartedAt := None\<rparr>) (put_dir i (d\<lparr>cancelFile := True\<rparr>) st))"
    using cancel_store [of env online now i reason st] by blast
  then show ?thesis
  proof cases
    case 3
    show ?thesis unfolding 3(4) by (rule rtranclp_trans [OF m [OF 3(1)] a [OF 3(2) l [OF 3(3)]]])
  qed (simp_all add: m)
qed


lemma store_latest:
  assumes "store_ok env st" "map_of (dirs st) i = Some d" "latestState d = Inr s"
  shows "states d \<noteq> [] \<and> s = last (states d) \<and> valid_history (states d)"
proof -
  have n: "states d \<noteq> []" using assms(3) by (auto simp: latestState_def stateHistory_def)
  then have v: "valid_history (states d)" using store_ok_lookup [OF assms(1,2)] by (simp add: dir_ok_def)
  then show ?thesis using n assms(3) latestState_valid [OF v] by simp
qed

lemma append_any:
  assumes "Revision r \<noteq> 1" "Status r \<noteq> Starting"
    and "\<And>d. map_of (dirs st) i = Some d \<Longrightarrow> legible env st i d \<or> length (states d) \<noteq> 1"
  shows "(any_change env)\<^sup>*\<^sup>* st (snd (appendState i r st))"
proof (cases "Status r = Queued")
  case True
  show ?thesis
  proof (cases "map_of (dirs st) i")
    case (Some d)
    then show ?thesis
      using loud_change.requeue [OF Some _ assms(1) True assms(3) [OF Some]]
      by (auto simp: appendState_def any_change_def intro: r_into_rtranclp split: option.splits)
  qed (simp add: appendState_def)
next
  case False
  then show ?thesis using quiet_any [OF append_quiet [OF assms(1) _ assms(2,3)]] by blast
qed

abbreviation launch_file :: "launch_record \<Rightarrow> bytes \<Rightarrow> task_dir \<Rightarrow> task_dir" where
  "launch_file l tok d \<equiv> d\<lparr>launchFile := Some (l\<lparr>LaunchToken := tok\<rparr>)\<rparr>"

lemma start_cases:
  assumes "start now token spawned p current l st = (res, st')"
  obtains (idle) "st' = st" "res \<noteq> Started"
  | (launched) d latest tok e st2 where "map_of (dirs st) (TaskID p) = Some d" "latestState d = Inr latest"
      "Status latest = Queued"
      "appendState (TaskID p) (starting_record now (Revision latest + 1) tok) (put_dir (TaskID p) (launch_file l tok d) st)
        = (e, st2)"
      "st' = st2 \<and> (res = Started \<longleftrightarrow> e = None) \<or> res \<noteq> Started \<and> e = None \<and> st' = snd (appendState (TaskID p)
        (terminal_record (starting_record now (Revision latest + 1) tok) Failed now (-1) ''TASK_START_FAILED''
          (str ''task executor process could not be started'')) st2)"
proof (cases "map_of (dirs st) (TaskID p)")
  case None
  then show ?thesis using assms idle by (auto simp: start_def)
next
  case d: (Some d)
  show ?thesis
  proof (cases "latestState d")
    case (Inl e)
    then show ?thesis using assms idle d by (auto simp: start_def)
  next
    case l: (Inr latest)
    show ?thesis
    proof (cases "Status latest \<noteq> Queued \<or> Revision latest \<noteq> Revision current \<or> cancelFile d \<or> token = None \<or>
        startedFile d \<and> launchFile d \<noteq> None")
      case True
      then show ?thesis using assms idle d l by (auto simp: start_def split: if_splits option.splits)
    next
      case False
      then obtain tok where t: "token = Some tok" by (cases token) auto
      obtain e st2 where e: "appendState (TaskID p) (starting_record now (Revision latest + 1) tok)
          (put_dir (TaskID p) (launch_file l tok d) st) = (e, st2)" by fastforce
      have c: "(Status latest \<noteq> Queued \<or> Revision latest \<noteq> Revision current \<or> cancelFile d) = False"
        "(startedFile d \<and> launchFile d \<noteq> None) = False" using False by blast+
      have "start now token spawned p current l st = (case (e, st2) of
          (Some e, st2) \<Rightarrow> (StartFailed None, st2)
        | (None, st2) \<Rightarrow> if spawned then (Started, st2) else (TaskStartFinalized, snd (appendState (TaskID p)
            (terminal_record (starting_record now (Revision latest + 1) tok) Failed now (-1) ''TASK_START_FAILED''
              (str ''task executor process could not be started'')) st2)))"
        unfolding start_def d l t option.case sum.case Let_def c if_False e by (rule refl)
      then show ?thesis using assms launched [OF d l _ e] False by (cases e) (auto split: if_splits)
    qed
  qed
qed

lemma start_any:
  assumes "start now token spawned p current l st = (res, st')" "store_ok env st" "retry_ok st (TaskID p)"
    and "held_request env st (TaskID p) q"
  shows "(any_change env)\<^sup>*\<^sup>* st st'"
  using assms(1)
proof (cases rule: start_cases)
  case (launched d latest tok e st2)
  let ?i = "TaskID p" and ?d1 = "launch_file l tok d"
  define st1 where "st1 = put_dir ?i ?d1 st"
  define s where "s = starting_record now (Revision latest + 1) tok"
  have s: "Revision s \<noteq> 1" "Status s = Starting" "Revision s + 1 \<noteq> 1"
    using latest_revision [OF launched(2)] by (simp_all add: s_def starting_record_def)
  have a: "attempts d < maxDispatchAttempts"
    using store_latest [OF assms(2) launched(1,2)] launched(1,3) assms(3) by (auto simp: retry_ok_def)
  have m: "(any_change env)\<^sup>*\<^sup>* st st1"
    unfolding st1_def by (rule quiet_any [OF mark_quiet [OF launched(1)]]) (simp add: marks_of_def)
  have d1: "map_of (dirs st1) ?i = Some ?d1" by (simp add: st1_def)
  have h: "held_request env st1 ?i q" unfolding st1_def by (rule held_put [OF assms(4) launched(1)]) simp_all
  have "(any_change env)\<^sup>*\<^sup>* st1 (snd (appendState ?i s st1))"
  proof (cases "append_error ?d1 s")
    case None
    have "attempts ?d1 < maxDispatchAttempts" using a by (simp add: attempts_def)
    from loud_change.launch [OF d1 None s(1,2) held_legible [OF h d1] this] show ?thesis
      by (intro r_into_rtranclp) (simp add: any_change_def appendState_def d1 None)
  qed (simp add: appendState_def d1)
  then have sl: "(any_change env)\<^sup>*\<^sup>* st st2" using rtranclp_trans [OF m] launched(4) by (simp add: s_def st1_def)
  have "held_request env st2 ?i q" using held_append [OF h, of ?i s] launched(4) by (simp add: s_def st1_def)
  then have t: "(any_change env)\<^sup>*\<^sup>* st2 (snd (appendState ?i (terminal_record s Failed now (-1) c m) st2))" for c m
    by (intro append_any) (use s held_legible in \<open>simp_all add: terminal_record_def\<close>)
  show ?thesis using launched(5) sl rtranclp_trans [OF sl t] by (auto simp: s_def)
qed simp

lemma start_held:
  assumes "start now token spawned p current l st = (res, st')" "held_request env st j q"
  shows "held_request env st' j q"
  using assms(1)
proof (cases rule: start_cases)
  case (launched d latest tok e st2)
  have "held_request env (put_dir (TaskID p) (launch_file l tok d) st) j q"
    by (rule held_put [OF assms(2) launched(1)]) simp_all
  from held_append [OF this] have "held_request env st2 j q" using launched(4) by (metis snd_conv)
  from this held_append [OF this] show ?thesis using launched(5) by auto
qed (use assms(2) in simp)

lemma remove_tasks_any:
  assumes "store_ok env st" "\<forall>t \<in> set ts. \<forall>d. map_of (dirs st) (termID t) = Some d \<longrightarrow>
    (\<exists>r. latestState d = Inr r \<and> Terminal (Status r))"
  shows "(any_change env)\<^sup>*\<^sup>* st (remove_tasks ts st)"
  using assms
proof (induction ts arbitrary: st)
  case (Cons t ts)
  have one: "(any_change env)\<^sup>*\<^sup>* st (remove_dir (termID t) st)"
  proof (cases "map_of (dirs st) (termID t)")
    case None
    then have "remove_dir (termID t) st = st"
      by (simp add: remove_dir_def AList.delete_id map_of_eq_None_iff)
    then show ?thesis by simp
  next
    case (Some d)
    then obtain r where "latestState d = Inr r" "Terminal (Status r)" using Cons(3) by auto
    from loud_change.retire [OF Some this] show ?thesis by (intro r_into_rtranclp) (simp add: any_change_def)
  qed
  have "(any_change env)\<^sup>*\<^sup>* (remove_dir (termID t) st) (remove_tasks ts (remove_dir (termID t) st))"
    using Cons(3) store_ok_remove [OF Cons(2)] by (intro Cons(1)) auto
  then show ?case using rtranclp_trans [OF one] by (simp add: remove_tasks_def)
qed (simp add: remove_tasks_def)

lemma purge_any:
  assumes "store_ok env st"
  shows "(any_change env)\<^sup>*\<^sup>* st (Purge now st)"
proof (cases "readDirectoryBounded st")
  case (Inr ids)
  obtain k where "purge_loop (cutoff_of (limits st) now) (terminalTasks st ids) (length (terminalTasks st ids))
      (sum_list (map (\<lambda>(i, d, n). n) (measured st ids))) st = remove_tasks (take k (terminalTasks st ids)) st"
    using purge_loop_prefix [OF terminalTasks_sorted] by blast
  then have k: "Purge now st = remove_tasks (take k (terminalTasks st ids)) st" by (simp add: Purge_def Inr)
  show ?thesis unfolding k
  proof (rule remove_tasks_any [OF assms], intro ballI allI impI)
    fix t d
    assume "t \<in> set (take k (terminalTasks st ids))" "map_of (dirs st) (termID t) = Some d"
    then show "\<exists>r. latestState d = Inr r \<and> Terminal (Status r)"
      using terminalTasks_terminal [of t st ids] by (auto dest: in_set_takeD)
  qed
qed (simp add: Purge_def)

subsection \<open>The executors\<close>

definition executor_ok :: "executor \<Rightarrow> bool" where
  "executor_ok x =
     (case exPc x of
        Checked n l \<Rightarrow> 1 \<le> n
      | Claimed t n l \<Rightarrow> 1 \<le> n
      | Beating t n l \<Rightarrow> 1 \<le> n
      | Ready r l \<Rightarrow> 2 \<le> Revision r
      | Waiting r l \<Rightarrow> 2 \<le> Revision r
      | Ending r \<Rightarrow> 3 \<le> Revision r \<and> Terminal (Status r)
      | _ \<Rightarrow> True)"

lemma start_command_ok: "start_command n c run l x = (x', b) \<Longrightarrow> 2 \<le> Revision run \<Longrightarrow> executor_ok x'"
  by (auto simp: start_command_def finishExecutor_def executor_ok_def ending_record_def split: if_splits)

lemma end_command_ok: "2 \<le> Revision run \<Longrightarrow> executor_ok (end_command n run x)"
  by (simp add: end_command_def finishExecutor_def executor_ok_def ending_record_def executor_verdict_terminal)

lemma orphan_ok:
  assumes "executor_orphan n x = (x', b)" "executor_ok x"
  shows "executor_ok x'"
proof (cases "exPc x")
  case (Ready r l)
  then show ?thesis using assms start_command_ok [of n False r l x x' b] by (simp add: executor_orphan_def executor_ok_def)
next
  case (Waiting r l)
  then have "x' = end_command n r x" "2 \<le> Revision r" using assms by (simp_all add: executor_orphan_def executor_ok_def)
  then show ?thesis using end_command_ok by simp
qed (use assms in \<open>auto simp: executor_orphan_def executor_ok_def\<close>)

lemma executor_quiet:
  assumes "executor_step n x d = (x', d', b)" "executor_ok x" "map_of (dirs st) i = Some d"
    and "store_ok env st"
  shows "(quiet_change env)\<^sup>*\<^sup>* st (put_dir i d' st) \<and> executor_ok x'"
proof -
  have m: "(quiet_change env)\<^sup>*\<^sup>* st (put_dir i e st)" if "marks_of d e" for e by (rule mark_quiet [OF assms(3) that])
  have same: "(quiet_change env)\<^sup>*\<^sup>* st (put_dir i d st)" by (rule m) (simp add: marks_of_def)
  have app: "(quiet_change env)\<^sup>*\<^sup>* st (put_dir i e st)"
    if "append_to r d = Some e" "Revision r \<noteq> 1" "Status r \<noteq> Queued" "Status r \<noteq> Starting"
      "Status r = Running \<or> 3 \<le> Revision r" for r e
  proof -
    have a: "append_error d r = None" "e = d\<lparr>states := states d @ [r]\<rparr>"
      using that(1) by (auto simp: append_to_def split: option.splits)
    have n: "states d \<noteq> []" using append_error_dead [of d r] a(1) that(2) by blast
    have ok: "dir_ok env st i d" by (rule store_ok_lookup [OF assms(4,3)])
    then have v: "valid_history (states d)" using n by (simp add: dir_ok_def)
    have r: "Revision r = Suc (length (states d))" "validStateTransition (Status (last (states d))) (Status r)"
      using append_error_None [OF ok n] a(1) by blast+
    have "length (states d) \<noteq> 1"
    proof
      assume "length (states d) = 1"
      then have "Status (last (states d)) = Queued" "\<not> 3 \<le> Revision r"
        using v r(1) by (cases "states d"; auto simp: valid_history_def)+
      then show False using that(5) r(2) by (auto simp: validStateTransition_def)
    qed
    then show ?thesis using quiet_change.append [OF assms(3) a(1) that(2-4)] a(2) by (auto intro: r_into_rtranclp)
  qed
  show ?thesis
  proof (cases "exPc x")
    case Launched
    then show ?thesis
      using assms(1) same latest_revision [of d]
      by (auto simp: executor_step_def executor_ok_def check_launch_def Let_def split: option.splits sum.splits if_splits prod.splits)
  next
    case (Checked rv l)
    then have "marks_of d d'" using assms(1) by (auto simp: executor_step_def marks_of_def split: if_splits)
    moreover have "executor_ok x'" using assms(1,2) Checked by (auto simp: executor_step_def executor_ok_def split: if_splits)
    ultimately show ?thesis using m by blast
  next
    case (Claimed t rv l)
    then have "marks_of d d'" using assms(1) by (auto simp: executor_step_def marks_of_def)
    moreover have "executor_ok x'" using assms(1,2) Claimed by (auto simp: executor_step_def executor_ok_def)
    ultimately show ?thesis using m by blast
  next
    case (Beating t rv l)
    let ?r = "running_record t (rv + 1) (exToken x)"
    have r: "Revision ?r \<noteq> 1" "Status ?r = Running" using assms(2) Beating by (simp_all add: running_record_def executor_ok_def)
    show ?thesis
    proof (cases "append_to ?r d")
      case None
      then have "x' = x\<lparr>exPc := Gone\<rparr>" "d' = d" using assms(1) Beating by (simp_all add: executor_step_def Let_def)
      then show ?thesis using same by (simp add: executor_ok_def)
    next
      case (Some e)
      then have "x' = x\<lparr>exPc := Ready ?r l\<rparr>" "d' = e" using assms(1) Beating by (simp_all add: executor_step_def Let_def)
      moreover have "Status ?r \<noteq> Queued" "Status ?r \<noteq> Starting" using r(2) by simp_all
      ultimately show ?thesis using app [OF Some r(1)] assms(2) Beating by (simp add: executor_ok_def running_record_def)
    qed
  next
    case (Ready r l)
    then have "d' = d" "start_command n (cancelFile d) r l x = (x', b)" "2 \<le> Revision r"
      using assms(1,2) by (auto simp: executor_step_def executor_ok_def Let_def split: prod.splits)
    then show ?thesis using same start_command_ok by blast
  next
    case (Waiting r l)
    then have "d' = d" "x' = end_command n r x" "2 \<le> Revision r"
      using assms(1,2) by (auto simp: executor_step_def executor_ok_def)
    then show ?thesis using same end_command_ok by simp
  next
    case (Ending r)
    then have r: "Revision r \<noteq> 1" "Status r \<noteq> Queued" "Status r \<noteq> Starting" "Status r = Running \<or> 3 \<le> Revision r"
      using assms(2) by (auto simp: executor_ok_def)
    have x: "x' = x\<lparr>exPc := Gone\<rparr>" "d' = d \<or> append_to r d = Some d'"
      using assms(1) Ending by (auto simp: executor_step_def Let_def split: option.splits)
    have "(quiet_change env)\<^sup>*\<^sup>* st (put_dir i d' st)" using x(2) same app [OF _ r, of d'] by blast
    then show ?thesis using x(1) by (simp add: executor_ok_def)
  next
    case Gone
    then show ?thesis using assms same by (simp add: executor_step_def)
  qed
qed


subsection \<open>The pass of the worker\<close>

definition pass_ok :: "task_env \<Rightarrow> task_store \<Rightarrow> pass_state \<Rightarrow> bool" where
  "pass_ok env st ps \<longleftrightarrow>
     (\<forall>c \<in> set (candidates ps). 1 \<le> Revision (snd c) \<and> held_request env st (TaskID (fst c)) (fst c)) \<and>
     (case pending ps of
        None \<Rightarrow> True
      | Some (Append i r) \<Rightarrow> Revision r \<noteq> 1 \<and> Status r \<noteq> Starting \<and> (\<exists>p. held_request env st i p)
      | Some (Commit p s l) \<Rightarrow> 1 \<le> Revision s \<and> retry_ok st (TaskID p) \<and> held_request env st (TaskID p) p)"

definition worker_ok :: "task_env \<Rightarrow> task_store \<Rightarrow> worker option \<Rightarrow> bool" where
  "worker_ok env st wo \<longleftrightarrow> (\<forall>w ps. wo = Some w \<longrightarrow> pass w = Some ps \<longrightarrow> pass_ok env st ps)"

lemma pass_ok_frame:
  assumes "pass_ok env st ps" "quiet_frame env st st'"
  shows "pass_ok env st' ps"
proof -
  have "held_request env st i p \<Longrightarrow> held_request env st' i p" "retry_ok st i \<Longrightarrow> retry_ok st' i" for i p
    using assms(2) by (simp_all add: quiet_frame_def)
  then show ?thesis using assms(1) unfolding pass_ok_def by (auto split: option.splits pending.splits)
qed

lemma read_held:
  assumes "readPersistedRequest env i st = Inr p" "map_of (dirs st) i = Some d" "latestState d = Inr s"
  shows "held_request env st i p" "TaskID p = i"
proof -
  have "states d \<noteq> []" using assms(3) by (auto simp: latestState_def stateHistory_def)
  moreover have "holds_request env st i d p" using assms(1,2) by (simp add: readPersisted_iff)
  ultimately show "held_request env st i p" "TaskID p = i"
    using assms(2) by (auto simp: held_request_def holds_request_def good_request_def)
qed

lemma reconcile_cases:
  assumes "reconcile_entry env now st i w ps = (w', ps')"
  obtains (skip) "ps' = ps" "\<And>p d s. validTaskID i \<Longrightarrow> readPersistedRequest env i st = Inr p \<Longrightarrow>
      map_of (dirs st) i = Some d \<Longrightarrow> latestState d = Inr s \<Longrightarrow> Status s \<noteq> Starting \<and> Status s \<noteq> Running"
  | (candidate) p d s where "readPersistedRequest env i st = Inr p" "map_of (dirs st) i = Some d"
      "latestState d = Inr s" "Status s = Queued" "ps' = ps\<lparr>candidates := candidates ps @ [(p, s)]\<rparr>"
  | (occupied) p where "readPersistedRequest env i st = Inr p" "ps' = occupy i p ps"
  | (pend) r p where "ps' = ps\<lparr>pending := Some (Append i r)\<rparr>" "Revision r \<noteq> 1" "Status r \<noteq> Starting"
      "held_request env st i p"
proof (cases "validTaskID i")
  case False
  then have "ps' = ps" using assms by (simp add: reconcile_entry_def)
  then show ?thesis by (rule skip) (simp add: False)
next
  case v: True
  show ?thesis
  proof (cases "readPersistedRequest env i st")
    case (Inl e)
    then have "ps' = ps" using assms v by (simp add: reconcile_entry_def)
    then show ?thesis by (rule skip) (simp add: Inl)
  next
    case p: (Inr p)
    obtain d where d: "map_of (dirs st) i = Some d" using readPersisted_Inr [OF p] by blast
    show ?thesis
    proof (cases "latestState d")
      case (Inl e)
      then have "ps' = ps" using assms v by (simp add: reconcile_entry_def p d)
      then show ?thesis by (rule skip) (use Inl d in auto)
    next
      case s: (Inr s)
      note h = read_held(1) [OF p d s]
      have later: "Revision (terminal_record s x now (-1) c m) \<noteq> 1" "Revision (queued_record now (Revision s + 1)) \<noteq> 1" for x c m
        using latest_revision [OF s] by (simp_all add: terminal_record_def queued_record_def)
      note R = assms [unfolded reconcile_entry_def p Let_def d option.sel sum.case s] v
      consider "Status s = Queued" | "Status s = Starting \<or> Status s = Running"
        | "Status s \<noteq> Queued" "Status s \<noteq> Starting" "Status s \<noteq> Running" by blast
      then show ?thesis
      proof cases
        case 1
        show ?thesis
        proof (cases "cancelFile d")
          case True
          let ?r = "terminal_record s Cancelled now (-1) ''TASK_CANCELLED'' (str ''cancelled before execution'')"
          have "ps' = ps\<lparr>pending := Some (Append i ?r)\<rparr>" using R 1 True by simp
          moreover have "Status ?r \<noteq> Starting" by (simp add: terminal_record_def)
          ultimately show ?thesis using pend later(1) h by blast
        next
          case False
          then have "ps' = ps\<lparr>candidates := candidates ps @ [(p, s)]\<rparr>" using R 1 by simp
          then show ?thesis by (rule candidate [OF p d s 1])
        qed
      next
        case 2
        then have "reconcile_active now i d p s w ps = (w', ps')" using R by auto
        then have "ps' = occupy i p ps \<or> ps' = ps\<lparr>pending := Some (Append i (queued_record now (Revision s + 1)))\<rparr> \<or>
          ps' = ps\<lparr>pending := Some (Append i (terminal_record s Interrupted now (-1) ''EXECUTOR_LOST''
            (str ''executor heartbeat was lost; task was not rerun'')))\<rparr>"
          by (auto simp: reconcile_active_def Let_def split: if_splits)
        moreover have "Status (queued_record now (Revision s + 1)) \<noteq> Starting" by (simp add: queued_record_def)
        moreover have "Status (terminal_record s Interrupted now (-1) c m) \<noteq> Starting" for c m by (simp add: terminal_record_def)
        ultimately show ?thesis using occupied [OF p] pend later h by blast
      next
        case 3
        then have e: "ps' = ps" using R by simp
        show ?thesis
        proof (rule skip [OF e])
          fix q d' s'
          assume "map_of (dirs st) i = Some d'" "latestState d' = Inr s'"
          then have "s' = s" using d s by simp
          then show "Status s' \<noteq> Starting \<and> Status s' \<noteq> Running" using 3 by simp
        qed
      qed
    qed
  qed
qed

lemma dispatch_cases:
  assumes "dispatch_next le now st ps = Some ps'"
  obtains (skip) c rest where "candidates ps = c # rest" "ps' = ps\<lparr>candidates := rest\<rparr>"
  | (fail) p s rest code m where "candidates ps = (p, s) # rest" "ps' = fail_candidate now p s code m (ps\<lparr>candidates := rest\<rparr>)"
  | (commit) p s rest l d n where "candidates ps = (p, s) # rest"
      "ps' = ps\<lparr>candidates := rest, pending := Some (Commit p s l)\<rparr>" "int (active ps) < MaxConcurrency (limits st)"
      "\<not> locksConflict (LockKeys (Request p)) (heldLocks ps)" "map_of (dirs st) (TaskID p) = Some d"
      "dispatchAttempts d = Inr n" "n < maxDispatchAttempts"
proof (cases "candidates ps")
  case Nil
  then show ?thesis using assms by (simp add: dispatch_next_def)
next
  case (Cons c rest)
  obtain p s where c: "c = (p, s)" by fastforce
  note D = assms [unfolded dispatch_next_def Cons c list.case prod.case Let_def]
  have a: "int (active ps) < MaxConcurrency (limits st)" using D by (auto split: if_splits)
  show ?thesis
  proof (cases "locksConflict (LockKeys (Request p)) (heldLocks ps)")
    case True
    then show ?thesis using D a skip [OF Cons] by simp
  next
    case False
    then obtain d n where d: "map_of (dirs st) (TaskID p) = Some d" "dispatchAttempts d = Inr n"
      using D a by (auto split: option.splits sum.splits)
    show ?thesis
    proof (cases "n < maxDispatchAttempts")
      case n: True
      show ?thesis
      proof (cases "prepareLaunch le (limits st) d (Request p)")
        case (Inl m)
        then have "ps' = fail_candidate now p s ''TASK_START_FAILED'' (taskStartFailureMessage (Some m)) (ps\<lparr>candidates := rest\<rparr>)"
          using D a False d n by simp
        then show ?thesis by (rule fail [OF Cons [unfolded c]])
      next
        case (Inr l)
        then have "ps' = ps\<lparr>candidates := rest, pending := Some (Commit p s l)\<rparr>" using D a False d n by simp
        then show ?thesis by (rule commit [OF Cons [unfolded c] _ a False d n])
      qed
    next
      case n: False
      then have "ps' = fail_candidate now p s ''TASK_DISPATCH_RETRIES_EXHAUSTED''
          (str ''task exceeded the bounded pre-start recovery attempts'') (ps\<lparr>candidates := rest\<rparr>)"
        using D a False d by simp
      then show ?thesis by (rule fail [OF Cons [unfolded c]])
    qed
  qed
qed

lemma attempts_retry:
  assumes "store_ok env st" "map_of (dirs st) i = Some d" "dispatchAttempts d = Inr n" "n < maxDispatchAttempts"
  shows "retry_ok st i"
  unfolding retry_ok_def
proof (intro allI impI)
  fix d'
  assume "map_of (dirs st) i = Some d' \<and> states d' \<noteq> [] \<and> Status (last (states d')) = Queued"
  then have d: "d' = d" "states d \<noteq> []" using assms(2) by auto
  then have "valid_history (states d)" using store_ok_lookup [OF assms(1,2)] by (simp add: dir_ok_def)
  from stateHistory_valid [OF this] show "attempts d' < maxDispatchAttempts"
    using assms(3,4) d(1) by (simp add: dispatchAttempts_def attempts_def)
qed


lemma fail_candidate_ok:
  "\<forall>c \<in> set (candidates ps). 1 \<le> Revision (snd c) \<and> held_request env st (TaskID (fst c)) (fst c) \<Longrightarrow> 1 \<le> Revision s \<Longrightarrow>
   held_request env st (TaskID p) q \<Longrightarrow> pass_ok env st (fail_candidate now p s code m ps)"
  by (auto simp: pass_ok_def fail_candidate_def terminal_record_def)

lemma reconcile_ok:
  assumes "reconcile_entry env now st i w ps = (w', ps')" "pass_ok env st ps" "pending ps = None"
  shows "pass_ok env st ps'"
  using assms(1)
proof (cases rule: reconcile_cases)
  case (candidate p d s)
  then show ?thesis
    using assms(2,3) latest_revision [OF candidate(3)] read_held [OF candidate(1-3)] by (auto simp: pass_ok_def)
qed (use assms(2,3) in \<open>auto simp: pass_ok_def occupy_def\<close>)

lemma dispatch_ok:
  assumes "dispatch_next le now st ps = Some ps'" "pass_ok env st ps" "pending ps = None" "store_ok env st"
  shows "pass_ok env st ps'"
  using assms(1)
proof (cases rule: dispatch_cases)
  case (skip c rest)
  then show ?thesis using assms(2,3) by (simp add: pass_ok_def)
next
  case (fail p s rest code m)
  then show ?thesis
    using assms(2) fail_candidate_ok [of "ps\<lparr>candidates := rest\<rparr>" env st s p p] by (simp add: pass_ok_def)
next
  case (commit p s rest l d n)
  then show ?thesis using assms(2) attempts_retry [OF assms(4) commit(5-7)] by (simp add: pass_ok_def)
qed

lemma pass_step_ok:
  assumes "pass_step env le now token spawned w ps st = (w', st', l)" "pass_ok env st ps" "change_ok env st"
  shows "(any_change env)\<^sup>*\<^sup>* st st' \<and> (\<forall>j q. held_request env st j q \<longrightarrow> held_request env st' j q) \<and> worker_ok env st' (Some w')"
proof -
  have c: "\<forall>c \<in> set (candidates ps). 1 \<le> Revision (snd c) \<and> held_request env st (TaskID (fst c)) (fst c)"
    using assms(2) by (simp add: pass_ok_def)
  have none: "pass_ok env t (ps\<lparr>pending := None\<rparr>)" if "\<forall>j q. held_request env st j q \<longrightarrow> held_request env t j q" for t
    using c that by (simp add: pass_ok_def)
  show ?thesis
  proof (cases "pending ps")
    case None
    show ?thesis
    proof (cases "scanned ps")
      case True
      then have w: "w' = w\<lparr>pass := dispatch_next le now st ps\<rparr>" "st' = st" using assms(1) None True by (auto simp: pass_step_def)
      then show ?thesis
        using dispatch_ok [OF _ assms(2) None change_okD(1) [OF assms(3)]] by (simp add: worker_ok_def)
    next
      case False
      show ?thesis
      proof (cases "entries ps")
        case Nil
        then have w: "w' = w\<lparr>pass := Some (ps\<lparr>scanned := True, candidates := by_creation (candidates ps)\<rparr>)\<rparr>" "st' = st"
          using assms(1) None False by (simp_all add: pass_step_def)
        then show ?thesis using c None by (simp add: worker_ok_def pass_ok_def by_creation_def)
      next
        case (Cons i is1)
        obtain w1 ps1 where r: "reconcile_entry env now st i w (ps\<lparr>entries := is1\<rparr>) = (w1, ps1)" by fastforce
        then have w: "w' = w1\<lparr>pass := Some ps1\<rparr>" "st' = st" using assms(1) None False Cons by (simp_all add: pass_step_def)
        have "pass_ok env st (ps\<lparr>entries := is1\<rparr>)" using assms(2) by (simp add: pass_ok_def)
        from reconcile_ok [OF r this] None w show ?thesis by (simp add: worker_ok_def)
      qed
    qed
  next
    case (Some q)
    show ?thesis
    proof (cases q)
      case (Append i r)
      then have w: "w' = w\<lparr>pass := Some (ps\<lparr>pending := None\<rparr>)\<rparr>" "st' = snd (appendState i r st)"
        using assms(1) Some by (simp_all add: pass_step_def)
      have r: "Revision r \<noteq> 1" "Status r \<noteq> Starting" "\<exists>p. held_request env st i p"
        using assms(2) Some Append by (simp_all add: pass_ok_def)
      have "(any_change env)\<^sup>*\<^sup>* st st'" unfolding w(2) by (rule append_any [OF r(1,2)]) (use r(3) held_legible in blast)
      then show ?thesis using none [of st'] held_append w by (simp add: worker_ok_def)
    next
      case (Commit p s l0)
      have k: "1 \<le> Revision s" "retry_ok st (TaskID p)" "held_request env st (TaskID p) p"
        using assms(2) Some Commit by (simp_all add: pass_ok_def)
      obtain res st1 where r: "start now token spawned p s l0 st = (res, st1)" by fastforce
      have st1: "st' = st1" and w: "pass w' = Some (ps\<lparr>pending := None\<rparr>) \<or> pass w' = Some (occupy (TaskID p) p (ps\<lparr>pending := None\<rparr>)) \<or>
          (\<exists>m. pass w' = Some (fail_candidate now p s ''TASK_START_FAILED'' m (ps\<lparr>pending := None\<rparr>)))"
        using assms(1) Some Commit r by (auto simp: pass_step_def Let_def split: start_result.splits)
      have h: "\<forall>j q. held_request env st j q \<longrightarrow> held_request env st' j q" using start_held [OF r] st1 by blast
      have "pass_ok env st' ps'" if "pass w' = Some ps'" for ps'
      proof -
        have "pass_ok env st' (fail_candidate now p s code m (ps\<lparr>pending := None\<rparr>))" for code m
          by (rule fail_candidate_ok [where q = p]) (use c k h in simp_all)
        moreover have "pass_ok env st' (occupy (TaskID p) p (ps\<lparr>pending := None\<rparr>))" using c h by (simp add: pass_ok_def occupy_def)
        ultimately show ?thesis using w that none [OF h] by auto
      qed
      then show ?thesis
        using start_any [OF r change_okD(1) [OF assms(3)] k(2,3)] h st1 by (simp add: worker_ok_def)
    qed
  qed
qed

subsection \<open>The invariant of the system\<close>

definition base_inv :: "task_env \<Rightarrow> task_system \<Rightarrow> bool" where
  "base_inv env s \<longleftrightarrow> change_ok env (store s) \<and> (\<forall>x \<in> set (executors s). executor_ok x) \<and>
     worker_ok env (store s) (worker s)"

lemma base_quiet:
  assumes "base_inv env s" "(quiet_change env)\<^sup>*\<^sup>* (store s) st'"
  shows "base_inv env (s\<lparr>store := st'\<rparr>)" "later (store s) st'" "quiet_frame env (store s) st'"
proof -
  have q: "change_ok env st' \<and> later (store s) st' \<and> quiet_frame env (store s) st'"
    using quiet_many [OF assms(2)] assms(1) by (simp add: base_inv_def)
  then show "later (store s) st'" "quiet_frame env (store s) st'" by blast+
  have "worker_ok env st' (worker s)"
    using q assms(1) pass_ok_frame [of env "store s" _ st'] by (auto simp: base_inv_def worker_ok_def)
  then show "base_inv env (s\<lparr>store := st'\<rparr>)" using q assms(1) by (simp add: base_inv_def)
qed

lemma exec_change:
  assumes "base_inv env s" "k < length (executors s)" "system_exec n k s = s'"
  obtains x' b where "(quiet_change env)\<^sup>*\<^sup>* (store s) (store s')" "executors s' = (executors s)[k := x']" "executor_ok x'"
    "executions s' = executions s @ (if b then [the (claim (executors s ! k))] else [])" "worker s' = worker s"
    "lostReap s' = lostReap s"
    "(store s' = store s \<and> map_of (dirs (store s)) (exTask (executors s ! k)) = None \<and>
        executor_orphan n (executors s ! k) = (x', b)) \<or>
     (\<exists>d d'. map_of (dirs (store s)) (exTask (executors s ! k)) = Some d \<and>
        executor_step n (executors s ! k) d = (x', d', b) \<and> store s' = put_dir (exTask (executors s ! k)) d' (store s))"
proof (cases "map_of (dirs (store s)) (exTask (executors s ! k))")
  case None
  obtain x' b where o: "executor_orphan n (executors s ! k) = (x', b)" by fastforce
  have "executor_ok x'" using orphan_ok [OF o] assms(1,2) by (simp add: base_inv_def)
  then show ?thesis using that [of x' b] assms(3) None o by (auto simp: system_exec_def)
next
  case (Some d)
  obtain x' d' b where e: "executor_step n (executors s ! k) d = (x', d', b)" by (metis prod_cases3)
  have "executor_ok (executors s ! k)" using assms(1,2) by (simp add: base_inv_def)
  have ok: "store_ok env (store s)" using assms(1) change_okD(1) by (auto simp: base_inv_def)
  note q = executor_quiet [OF e \<open>executor_ok (executors s ! k)\<close> Some ok]
  have s': "s' = s\<lparr>store := put_dir (exTask (executors s ! k)) d' (store s), executors := (executors s)[k := x'],
      executions := executions s @ (if b then [the (claim (executors s ! k))] else [])\<rparr>"
    using assms(3) Some e by (simp add: system_exec_def Let_def)
  show ?thesis using that [of x' b] q Some e by (simp add: s')
qed


lemma tick_quiet: "(quiet_change env)\<^sup>*\<^sup>* (store s) (store (system_tick now k s))"
  using mark_quiet [of "store s" "exTask (executors s ! k)" _ _ env]
  by (auto simp: system_tick_def Let_def executor_tick_def marks_of_def split: option.splits pc.splits)

lemma tick_fields [simp]:
  "worker (system_tick now k s) = worker s" "executors (system_tick now k s) = executors s"
  "executions (system_tick now k s) = executions s" "lostReap (system_tick now k s) = lostReap s"
  by (simp_all add: system_tick_def Let_def split: option.splits)

lemma begin_pass_ok: "worker_ok env st (Some (begin_pass st w)) \<or> begin_pass st w = w"
  by (auto simp: begin_pass_def worker_ok_def pass_ok_def split: sum.splits)

text \<open>The changes of one step: quiet ones, those of the pass, and those of retention.\<close>

lemma base_step:
  assumes "base_inv env s" "task_step env s s'"
  shows "base_inv env s' \<and> later (store s) (store s')"
  using assms(2)
proof cases
  case (submit now online fault r)
  have "(quiet_change env)\<^sup>*\<^sup>* (store s) (snd (Submit env online fault now r (store s)))"
    using submit_quiet [OF change_okD(1) submit(2)] assms(1) by (simp add: base_inv_def)
  from base_quiet [OF assms(1) this] show ?thesis by (simp add: submit(1))
next
  case (cancel now online i reason)
  from base_quiet [OF assms(1) cancel_quiet] show ?thesis by (simp add: cancel(1))
next
  case (worker_start now)
  then show ?thesis using assms(1) by (simp add: base_inv_def worker_ok_def NewWorker_def)
next
  case worker_stop
  then show ?thesis using assms(1) by (simp add: base_inv_def worker_ok_def)
next
  case (begin_pass w)
  then show ?thesis
    using assms(1) begin_pass_ok [of env "store s" w] by (auto simp: base_inv_def)
next
  case (pass_step w ps now le token spawned)
  obtain w' st' l where e: "Task_Worker.pass_step env le now token spawned w ps (store s) = (w', st', l)"
    by (metis prod_cases3)
  have ok: "pass_ok env (store s) ps" "change_ok env (store s)"
    using assms(1) pass_step(2,3) by (auto simp: base_inv_def worker_ok_def)
  note r = pass_step_ok [OF e ok]
  have "\<forall>x \<in> set (case l of None \<Rightarrow> [] | Some (i, t) \<Rightarrow> [new_executor i t]). executor_ok x"
    by (auto simp: new_executor_def executor_ok_def split: option.splits)
  moreover have "change_ok env st' \<and> later (store s) st'" using any_many r ok(2) by blast
  ultimately show ?thesis
    using r assms(1) unfolding pass_step(1) system_pass_def e by (auto simp: base_inv_def)
next
  case (purge w now)
  have "change_ok env (Purge now (store s)) \<and> later (store s) (Purge now (store s))"
    using any_many [OF purge_any] change_okD(1) assms(1) by (auto simp: base_inv_def)
  then show ?thesis using assms(1) purge by (simp add: base_inv_def worker_ok_def)
next
  case (exec k n)
  show ?thesis
  proof (rule exec_change [OF assms(1) exec(2) exec(1) [symmetric]])
    fix x' b
    assume x: "(quiet_change env)\<^sup>*\<^sup>* (store s) (store s')" "executors s' = (executors s)[k := x']" "executor_ok x'" "worker s' = worker s"
    note q = base_quiet [OF assms(1) x(1)]
    have "\<forall>x \<in> set (executors s'). executor_ok x"
      using x(2,3) assms(1) set_update_subset_insert [of "executors s" k x'] by (auto simp: base_inv_def)
    then show ?thesis using q x(4) by (simp add: base_inv_def)
  qed
next
  case (tick k now)
  from base_quiet [OF assms(1) tick_quiet] show ?thesis
    by (simp add: tick(1) base_inv_def)
next
  case (grow i d n)
  have "marks_of d (d\<lparr>dirBytes := n\<rparr>)" by (simp add: marks_of_def)
  from base_quiet [OF assms(1) mark_quiet [OF grow(2) this]] show ?thesis by (simp add: grow(1))
next
  case (die k)
  have "\<forall>x \<in> set ((executors s)[k := (executors s ! k)\<lparr>exPc := Gone\<rparr>]). executor_ok x"
    using assms(1) set_update_subset_insert [of "executors s" k "(executors s ! k)\<lparr>exPc := Gone\<rparr>"]
    by (auto simp: base_inv_def executor_ok_def)
  then show ?thesis using assms(1) die by (simp add: base_inv_def)
qed

lemma new_system_base: "base_inv env (new_system l s)"
  by (simp add: base_inv_def new_system_def change_ok_def store_ok_def worker_ok_def)

lemma reachable_base: "task_reachable env s \<Longrightarrow> base_inv env s"
  by (induction rule: task_reachable.induct) (use new_system_base base_step in blast)+


subsection \<open>The length of a history\<close>

definition history_slack :: "status \<Rightarrow> nat" where
  "history_slack s = (case s of Queued \<Rightarrow> 1 | Starting \<Rightarrow> 0 | Running \<Rightarrow> 1 | _ \<Rightarrow> 2)"

lemma history_length:
  "contiguous ss \<Longrightarrow> ss \<noteq> [] \<Longrightarrow> Status (hd ss) = Queued \<Longrightarrow>
   length ss \<le> 2 * length (filter (\<lambda>s. Status s = Starting) ss) + history_slack (Status (last ss))"
proof (induction ss rule: rev_induct)
  case (snoc r ss)
  show ?case
  proof (cases "ss = []")
    case True
    then show ?thesis using snoc(4) by (simp add: history_slack_def)
  next
    case False
    have c: "contiguous ss" "validStateTransition (Status (last ss)) (Status r)"
      using snoc(2) False by (simp_all add: contiguous_snoc)
    have i: "length ss \<le> 2 * length (filter (\<lambda>s. Status s = Starting) ss) + history_slack (Status (last ss))"
      using snoc(1) [OF c(1) False] snoc(4) False by simp
    have "Suc (history_slack (Status (last ss))) \<le>
        (if Status r = Starting then 2 else 0) + history_slack (Status r)"
      using c(2) by (auto simp: validStateTransition_def history_slack_def split: status.splits)
    then show ?thesis using i by (cases "Status r = Starting") simp_all
  qed
qed simp

lemma history_bound_attempts:
  assumes "valid_history (states d)"
  shows "length (states d) \<le> 2 * attempts d + 2"
proof -
  have "history_slack s \<le> 2" for s by (simp add: history_slack_def split: status.splits)
  moreover have "length (states d) \<le> 2 * attempts d + history_slack (Status (last (states d)))"
    unfolding attempts_def by (rule history_length) (use assms in \<open>simp_all add: valid_history_def\<close>)
  ultimately show ?thesis by (meson add_le_cancel_left order_trans)
qed

subsection \<open>Executions\<close>

definition fresh :: "pc \<Rightarrow> bool" where
  "fresh c = (case c of Launched \<Rightarrow> True | Checked _ _ \<Rightarrow> True | _ \<Rightarrow> False)"

definition may_start :: "pc \<Rightarrow> bool" where
  "may_start c = (case c of Claimed _ _ _ \<Rightarrow> True | Beating _ _ _ \<Rightarrow> True | Ready _ _ \<Rightarrow> True | _ \<Rightarrow> False)"

definition spent :: "pc \<Rightarrow> bool" where
  "spent c \<longleftrightarrow> \<not> fresh c \<and> \<not> may_start c"

definition claims :: "task_system \<Rightarrow> nat option list" where
  "claims s = map claim (executors s)"

definition once_inv :: "task_system \<Rightarrow> bool" where
  "once_inv s \<longleftrightarrow>
     (\<forall>b. Some b \<in> set (claims s) \<longrightarrow> b < births (store s) \<and>
        (\<forall>i d. map_of (dirs (store s)) i = Some d \<longrightarrow> born d = b \<longrightarrow> startedFile d)) \<and>
     distinct (filter (\<lambda>c. c \<noteq> None) (claims s)) \<and> distinct (executions s) \<and>
     (\<forall>b \<in> set (executions s). \<exists>x \<in> set (executors s). claim x = Some b \<and> spent (exPc x)) \<and>
     (\<forall>x \<in> set (executors s). (fresh (exPc x) \<longrightarrow> claim x = None) \<and> (may_start (exPc x) \<longrightarrow> claim x \<noteq> None))"

lemma once_D:
  assumes "once_inv s"
  shows "Some b \<in> set (claims s) \<Longrightarrow> b < births (store s)"
    and "Some b \<in> set (claims s) \<Longrightarrow> map_of (dirs (store s)) i = Some d \<Longrightarrow> born d = b \<Longrightarrow> startedFile d"
    and "distinct (filter (\<lambda>c. c \<noteq> None) (claims s))" "distinct (executions s)"
    and "b \<in> set (executions s) \<Longrightarrow> \<exists>x \<in> set (executors s). claim x = Some b \<and> spent (exPc x)"
    and "x \<in> set (executors s) \<Longrightarrow> fresh (exPc x) \<Longrightarrow> claim x = None"
    and "x \<in> set (executors s) \<Longrightarrow> may_start (exPc x) \<Longrightarrow> claim x \<noteq> None"
  using assms by (simp_all add: once_inv_def)

lemma once_store:
  assumes "once_inv s" "later (store s) (store s')" "executors s' = executors s" "executions s' = executions s"
  shows "once_inv s'"
proof -
  have "b < births (store s') \<and> (\<forall>i d. map_of (dirs (store s')) i = Some d \<longrightarrow> born d = b \<longrightarrow> startedFile d)"
    if "Some b \<in> set (claims s)" for b
  proof -
    have b: "b < births (store s)" "\<forall>i d. map_of (dirs (store s)) i = Some d \<longrightarrow> born d = b \<longrightarrow> startedFile d"
      using once_D(1,2) [OF assms(1) that] by simp_all
    have "startedFile d" if d: "map_of (dirs (store s')) i = Some d" "born d = b" for i d
    proof -
      have "births (store s) \<le> born d \<or> (\<exists>e. map_of (dirs (store s)) i = Some e \<and> born d = born e \<and>
          (startedFile e \<longrightarrow> startedFile d))" using assms(2) d(1) by (simp add: later_def)
      then show ?thesis using b d(2) by force
    qed
    then show ?thesis using b(1) assms(2) by (auto simp: later_def)
  qed
  moreover have "claims s' = claims s" by (simp add: claims_def assms(3))
  ultimately show ?thesis using assms(1) unfolding once_inv_def assms(3,4) by simp
qed

lemma updated_member:
  assumes "x \<in> set (xs[k := y])"
  shows "x = y \<or> x \<in> set xs"
  using assms set_update_subset_insert [of xs k y] by blast

lemma kept_member:
  assumes "x \<in> set xs" "k < length xs" "P (xs ! k) \<longrightarrow> P y" "P x"
  shows "\<exists>z \<in> set (xs[k := y]). P z"
proof -
  obtain l where l: "l < length xs" "x = xs ! l" using assms(1) by (metis in_set_conv_nth)
  have "xs[k := y] ! l \<in> set (xs[k := y])" using l(1) by (metis length_list_update nth_mem)
  moreover have "P (xs[k := y] ! l)" using assms(2-4) l by (cases "l = k") simp_all
  ultimately show ?thesis by blast
qed

lemma once_update:
  assumes "once_inv s" "k < length (executors s)" "claim x' = claim (executors s ! k)"
    and "fresh (exPc x') \<longrightarrow> fresh (exPc (executors s ! k))"
    and "may_start (exPc x') \<longrightarrow> may_start (exPc (executors s ! k))"
  shows "once_inv (s\<lparr>executors := (executors s)[k := x']\<rparr>)"
proof -
  let ?s = "s\<lparr>executors := (executors s)[k := x']\<rparr>"
  have c: "claims ?s = claims s"
    using assms(2,3) by (simp add: claims_def map_update list_update_same_conv)
  have k: "executors s ! k \<in> set (executors s)" using assms(2) by simp
  have 4: "(fresh (exPc x) \<longrightarrow> claim x = None) \<and> (may_start (exPc x) \<longrightarrow> claim x \<noteq> None)"
    if "x \<in> set (executors ?s)" for x
  proof -
    have "x = x' \<or> x \<in> set (executors s)" using updated_member [of x "executors s" k x'] that by simp
    then show ?thesis
    proof
      assume "x = x'"
      then show ?thesis using assms(3-5) once_D(6,7) [OF assms(1) k] by metis
    next
      assume "x \<in> set (executors s)"
      then show ?thesis using once_D(6,7) [OF assms(1)] by metis
    qed
  qed
  have 3: "\<exists>x \<in> set (executors ?s). claim x = Some b \<and> spent (exPc x)" if run: "b \<in> set (executions s)" for b
  proof -
    obtain x where x: "x \<in> set (executors s)" "claim x = Some b \<and> spent (exPc x)"
      using once_D(5) [OF assms(1) run] by (rule bexE)
    have "claim (executors s ! k) = Some b \<and> spent (exPc (executors s ! k)) \<longrightarrow> claim x' = Some b \<and> spent (exPc x')"
      using assms(3-5) by (auto simp: spent_def)
    from kept_member [OF x(1) assms(2) this x(2)] show ?thesis by simp
  qed
  show ?thesis using assms(1) 3 4 unfolding once_inv_def c by simp
qed


lemma filter_nth_distinct:
  assumes "distinct (filter P xs)" "i < length xs" "j < length xs" "xs ! i = xs ! j" "P (xs ! i)"
  shows "i = j"
  using assms
proof (induction xs arbitrary: i j)
  case (Cons x xs)
  have n: "xs ! m \<noteq> x" if "P x" "m < length xs" for m
    using Cons(2) that nth_mem [OF that(2)] by auto
  show ?case
  proof (cases i)
    case 0
    then show ?thesis using Cons(4-6) n by (cases j) auto
  next
    case (Suc i')
    then show ?thesis using Cons n by (cases j) (auto split: if_splits)
  qed
qed simp

lemma once_run:
  assumes "once_inv s" "k < length (executors s)" "may_start (exPc (executors s ! k))"
    and "claim x' = claim (executors s ! k)" "spent (exPc x')"
  shows "once_inv (s\<lparr>executors := (executors s)[k := x'], executions := executions s @ [the (claim (executors s ! k))]\<rparr>)"
proof -
  let ?x = "executors s ! k" and ?s = "s\<lparr>executors := (executors s)[k := x']\<rparr>"
  have k: "?x \<in> set (executors s)" using assms(2) by simp
  then obtain b where b: "claim ?x = Some b" using once_D(7) [OF assms(1) k assms(3)] by auto
  have i: "once_inv ?s" by (rule once_update [OF assms(1,2,4)]) (use assms(5) in \<open>simp_all add: spent_def\<close>)
  have x': "x' \<in> set (executors ?s)" "claim x' = Some b" "spent (exPc x')"
    using assms(2,4,5) b by (simp_all add: set_update_memI)
  have "b \<notin> set (executions s)"
  proof
    assume "b \<in> set (executions s)"
    then obtain y where y: "y \<in> set (executors s)" "claim y = Some b" "spent (exPc y)"
      using once_D(5) [OF assms(1)] by metis
    obtain l where l: "l < length (executors s)" "y = executors s ! l" using y(1) by (metis in_set_conv_nth)
    have "l \<noteq> k" using y(3) l(2) assms(3) by (auto simp: spent_def)
    moreover have "distinct (filter (\<lambda>c. c \<noteq> None) (claims s))" by (rule once_D(3) [OF assms(1)])
    moreover have "claims s ! l = Some b" "claims s ! k = Some b" "l < length (claims s)" "k < length (claims s)"
      using l y(2) b assms(2) by (simp_all add: claims_def)
    ultimately show False using filter_nth_distinct [of "\<lambda>c. c \<noteq> None" "claims s" l k] by simp
  qed
  moreover have "claims (?s\<lparr>executions := executions s @ [b]\<rparr>) = claims ?s" by (simp add: claims_def)
  ultimately show ?thesis using i x' b unfolding once_inv_def by auto
qed


lemma once_claim:
  assumes "once_inv s" "change_ok env (store s)" "k < length (executors s)" "fresh (exPc (executors s ! k))"
    and "map_of (dirs (store s)) i = Some d" "\<not> startedFile d" "claim x' = Some (born d)" "may_start (exPc x')"
  shows "once_inv (s\<lparr>store := put_dir i (d\<lparr>startedFile := True\<rparr>) (store s), executors := (executors s)[k := x']\<rparr>)"
    (is "once_inv ?s")
proof -
  let ?b = "born d"
  have k: "executors s ! k \<in> set (executors s)" using assms(3) by simp
  have nk: "claims s ! k = None" "k < length (claims s)"
    using once_D(6) [OF assms(1) k assms(4)] assms(3) by (simp_all add: claims_def)
  have new: "Some ?b \<notin> set (claims s)" using once_D(2) [OF assms(1) _ assms(5) refl] assms(6) by blast
  have c: "claims ?s = (claims s)[k := Some ?b]" by (simp add: claims_def map_update assms(7))
  have split: "claims s = take k (claims s) @ None # drop (Suc k) (claims s)"
    "(claims s)[k := Some ?b] = take k (claims s) @ Some ?b # drop (Suc k) (claims s)"
    using id_take_nth_drop [OF nk(2)] nk by (simp_all add: upd_conv_take_nth_drop)
  let ?P = "\<lambda>c :: nat option. c \<noteq> None"
  have "distinct (filter ?P (take k (claims s)) @ filter ?P (drop (Suc k) (claims s)))"
    using once_D(3) [OF assms(1)] by (subst (asm) split(1)) simp
  moreover have "Some ?b \<notin> set (take k (claims s)) \<union> set (drop (Suc k) (claims s))"
    using new by (auto dest: in_set_takeD in_set_dropD)
  ultimately have 2: "distinct (filter ?P (claims ?s))" unfolding c split(2) by simp
  have old: "b < births (store s) \<and> (\<forall>j e. map_of (dirs (store ?s)) j = Some e \<longrightarrow> born e = b \<longrightarrow> startedFile e)"
    if b: "Some b \<in> set (claims s)" for b
  proof (intro conjI allI impI)
    show "b < births (store s)" by (rule once_D(1) [OF assms(1) b])
    fix j e
    assume "map_of (dirs (store ?s)) j = Some e" "born e = b"
    then show "startedFile e" using once_D(2) [OF assms(1) b, of j e] by (cases "j = i") auto
  qed
  have 1: "b < births (store ?s) \<and> (\<forall>j e. map_of (dirs (store ?s)) j = Some e \<longrightarrow> born e = b \<longrightarrow> startedFile e)"
    if "Some b \<in> set (claims ?s)" for b
  proof -
    have "Some b = Some ?b \<or> Some b \<in> set (claims s)" using that updated_member unfolding c by metis
    then show ?thesis
    proof
      assume e: "Some b = Some ?b"
      have "startedFile e" if j: "map_of (dirs (store ?s)) j = Some e" "born e = b" for j e
        using j e change_ok_inj [OF assms(2) _ assms(5), of j e] by (cases "j = i") auto
      then show ?thesis using e change_okD(2) [OF assms(2,5)] by simp
    qed (use old in simp)
  qed
  have 4: "(fresh (exPc x) \<longrightarrow> claim x = None) \<and> (may_start (exPc x) \<longrightarrow> claim x \<noteq> None)"
    if "x \<in> set (executors ?s)" for x
  proof -
    have "x = x' \<or> x \<in> set (executors s)" using updated_member [of x "executors s" k x'] that by simp
    moreover have "\<not> fresh (exPc x')" using assms(8) by (auto simp: fresh_def may_start_def split: pc.splits)
    ultimately show ?thesis using assms(7) once_D(6,7) [OF assms(1), of x] by auto
  qed
  have 3: "\<exists>x \<in> set (executors ?s). claim x = Some b \<and> spent (exPc x)" if run: "b \<in> set (executions s)" for b
  proof -
    obtain x where x: "x \<in> set (executors s)" "claim x = Some b \<and> spent (exPc x)"
      using once_D(5) [OF assms(1) run] by (rule bexE)
    have "claim (executors s ! k) = Some b \<and> spent (exPc (executors s ! k)) \<longrightarrow> claim x' = Some b \<and> spent (exPc x')"
      using assms(4) by (simp add: spent_def)
    from kept_member [OF x(1) assms(3) this x(2)] show ?thesis by simp
  qed
  show ?thesis using once_D(4) [OF assms(1)] 1 2 3 4 by (simp add: once_inv_def)
qed

lemma executor_kinds:
  assumes "executor_step n x d = (x', d', b)"
  obtains (claims) "\<not> b" "fresh (exPc x)" "\<not> startedFile d" "claim x' = Some (born d)" "may_start (exPc x')"
      "d' = d\<lparr>startedFile := True\<rparr>"
  | (runs) "b" "may_start (exPc x)" "claim x' = claim x" "spent (exPc x')"
  | (goes) "\<not> b" "claim x' = claim x" "fresh (exPc x') \<longrightarrow> fresh (exPc x)" "may_start (exPc x') \<longrightarrow> may_start (exPc x)"
proof (cases "exPc x")
  case Launched
  then show ?thesis using assms goes
    by (auto simp: executor_step_def Let_def fresh_def may_start_def split: option.splits)
next
  case (Checked rv l)
  show ?thesis
  proof (cases "startedFile d")
    case True
    then show ?thesis using assms goes Checked by (auto simp: executor_step_def fresh_def may_start_def)
  next
    case False
    then show ?thesis using assms claims Checked by (auto simp: executor_step_def fresh_def may_start_def)
  qed
next
  case (Claimed t rv l)
  then show ?thesis using assms goes by (auto simp: executor_step_def fresh_def may_start_def)
next
  case (Beating t rv l)
  then show ?thesis using assms goes
    by (auto simp: executor_step_def Let_def fresh_def may_start_def split: option.splits)
next
  case (Ready r l)
  then have s: "start_command n (cancelFile d) r l x = (x', b)"
    using assms by (auto simp: executor_step_def Let_def split: prod.splits)
  show ?thesis
  proof (cases b)
    case True
    then show ?thesis using s Ready runs
      by (auto simp: start_command_def fresh_def may_start_def spent_def split: if_splits)
  next
    case False
    then show ?thesis using s Ready goes
      by (auto simp: start_command_def finishExecutor_def fresh_def may_start_def split: if_splits)
  qed
next
  case (Waiting r l)
  then show ?thesis using assms goes
    by (auto simp: executor_step_def end_command_def finishExecutor_def fresh_def may_start_def)
next
  case (Ending r)
  then show ?thesis using assms goes
    by (auto simp: executor_step_def Let_def fresh_def may_start_def split: option.splits)
next
  case Gone
  then show ?thesis using assms goes by (auto simp: executor_step_def fresh_def may_start_def)
qed

lemma orphan_kinds:
  assumes "executor_orphan n x = (x', b)"
  obtains (runs) "b" "may_start (exPc x)" "claim x' = claim x" "spent (exPc x')"
  | (goes) "\<not> b" "claim x' = claim x" "fresh (exPc x') \<longrightarrow> fresh (exPc x)" "may_start (exPc x') \<longrightarrow> may_start (exPc x)"
proof (cases "exPc x")
  case (Ready r l)
  then have s: "start_command n False r l x = (x', b)" using assms by (simp add: executor_orphan_def)
  show ?thesis
  proof (cases b)
    case True
    then show ?thesis using s Ready runs
      by (auto simp: start_command_def fresh_def may_start_def spent_def split: if_splits)
  next
    case False
    then show ?thesis using s Ready goes
      by (auto simp: start_command_def finishExecutor_def fresh_def may_start_def split: if_splits)
  qed
qed (use assms goes in \<open>auto simp: executor_orphan_def end_command_def finishExecutor_def fresh_def may_start_def\<close>)


lemma once_new:
  assumes "once_inv s"
  shows "once_inv (s\<lparr>executors := executors s @ [new_executor i t]\<rparr>)"
proof -
  have n: "claim (new_executor i t) = None" "fresh (exPc (new_executor i t))" "\<not> may_start (exPc (new_executor i t))"
    by (simp_all add: new_executor_def fresh_def may_start_def)
  have c: "claims (s\<lparr>executors := executors s @ [new_executor i t]\<rparr>) = claims s @ [None]" by (simp add: claims_def n)
  show ?thesis using assms n unfolding once_inv_def c by auto
qed

lemma once_exec:
  assumes "once_inv s" "base_inv env s" "k < length (executors s)" "task_step env s (system_exec n k s)"
  shows "once_inv (system_exec n k s)"
proof -
  let ?x = "executors s ! k"
  have l: "later (store s) (store (system_exec n k s))" using base_step [OF assms(2,4)] by blast
  have moved: "once_inv (s\<lparr>store := store (system_exec n k s)\<rparr>)" by (rule once_store [OF assms(1)]) (use l in simp_all)
  show ?thesis
  proof (cases "map_of (dirs (store s)) (exTask ?x)")
    case None
    obtain x' b where o: "executor_orphan n ?x = (x', b)" by fastforce
    from o show ?thesis
    proof (cases rule: orphan_kinds)
      case runs
      then show ?thesis using once_run [OF assms(1,3) runs(2-4)] o None by (simp add: system_exec_def)
    next
      case goes
      then show ?thesis using once_update [OF assms(1,3) goes(2-4)] o None by (simp add: system_exec_def)
    qed
  next
    case (Some d)
    obtain x' d' b where e: "executor_step n ?x d = (x', d', b)" by (metis prod_cases3)
    let ?m = "s\<lparr>store := put_dir (exTask ?x) d' (store s)\<rparr>"
    have s': "system_exec n k s = s\<lparr>store := put_dir (exTask ?x) d' (store s), executors := (executors s)[k := x'],
        executions := executions s @ (if b then [the (claim ?x)] else [])\<rparr>"
      by (simp add: system_exec_def Some e Let_def)
    have m: "once_inv ?m" using moved by (simp add: s')
    from e show ?thesis
    proof (cases rule: executor_kinds)
      case claims
      from assms(2) have "change_ok env (store s)" by (simp add: base_inv_def)
      from once_claim [OF assms(1) this assms(3) claims(2) Some claims(3-5)] show ?thesis
        using claims(1,6) by (simp add: s')
    next
      case runs
      then show ?thesis using once_run [OF m, of k x'] assms(3) by (simp add: s')
    next
      case goes
      then show ?thesis using once_update [OF m, of k x'] assms(3) by (simp add: s')
    qed
  qed
qed

lemma once_step:
  assumes "once_inv s" "base_inv env s" "task_step env s s'"
  shows "once_inv s'"
proof -
  have l: "later (store s) (store s')" using base_step [OF assms(2,3)] by blast
  have same: "once_inv s'" if "executors s' = executors s" "executions s' = executions s"
    by (rule once_store [OF assms(1) l that])
  from assms(3) show ?thesis
  proof cases
    case (pass_step w ps now le token spawned)
    obtain w' st' r where e: "Task_Worker.pass_step env le now token spawned w ps (store s) = (w', st', r)"
      by (metis prod_cases3)
    obtain f where f: "s' = s\<lparr>store := st', worker := Some w',
        executors := executors s @ (case r of None \<Rightarrow> [] | Some (i, t) \<Rightarrow> [new_executor i t]), lostReap := f\<rparr>"
      unfolding pass_step(1) system_pass_def e by simp
    define m where "m = s\<lparr>store := st', worker := Some w', lostReap := f\<rparr>"
    have s': "s' = m\<lparr>executors := executors m @ (case r of None \<Rightarrow> [] | Some (i, t) \<Rightarrow> [new_executor i t])\<rparr>"
      by (simp add: f m_def)
    have m: "once_inv m" by (rule once_store [OF assms(1)]) (use l f in \<open>simp_all add: m_def\<close>)
    show ?thesis
    proof (cases r)
      case (Some it)
      obtain i t where "it = (i, t)" by fastforce
      then show ?thesis using once_new [OF m, of i t] Some by (simp add: s')
    qed (use m s' in simp)
  next
    case (exec k n)
    then show ?thesis using once_exec [OF assms(1,2) exec(2)] assms(3) by simp
  next
    case (die k)
    have "once_inv (s\<lparr>executors := (executors s)[k := (executors s ! k)\<lparr>exPc := Gone\<rparr>]\<rparr>)"
      by (rule once_update [OF assms(1) die(2)]) (simp_all add: fresh_def may_start_def)
    then show ?thesis by (simp add: die(1))
  qed (rule same; simp)+
qed

lemma reachable_once: "task_reachable env s \<Longrightarrow> once_inv s"
proof (induction rule: task_reachable.induct)
  case (init l s)
  then show ?case by (simp add: once_inv_def new_system_def claims_def)
next
  case (step s s')
  then show ?case using once_step reachable_base by blast
qed


subsection \<open>Properties\<close>

text \<open>C14: the at-most-once guarantee: whatever the front ends, the worker and the executors do and in
  whatever order they die, no command is started twice for one admission, and the marker of a task
  whose command was started stays until the task is removed.\<close>

theorem at_most_once:
  assumes "task_reachable env s"
  shows "distinct (executions s) \<and> (\<forall>i d. map_of (dirs (store s)) i = Some d \<and> born d \<in> set (executions s) \<longrightarrow> startedFile d)"
proof (intro conjI allI impI)
  note o = reachable_once [OF assms]
  show "distinct (executions s)" by (rule once_D(4) [OF o])
  fix i d
  assume d: "map_of (dirs (store s)) i = Some d \<and> born d \<in> set (executions s)"
  then obtain x where "x \<in> set (executors s)" "claim x = Some (born d) \<and> spent (exPc x)"
    using once_D(5) [OF o] by (meson bexE)
  then have "Some (born d) \<in> set (claims s)" by (simp add: claims_def image_iff rev_bexI)
  from once_D(2) [OF o this, of i d] d show "startedFile d" by simp
qed

text \<open>C16: the files of every admitted task are consistent at any time: its request passed the validation, its
  history goes from one revision to the next along the allowed transitions, and the bound of eight
  dispatches keeps it far below the 32 records that a history can hold, so that no transition is ever
  refused for want of room. If the request can be read back from its file, as it can when the file
  is within 2 MiB and the strings are valid text, the task is read with its last status and its
  revision; if not, the task cannot be read and never leaves its first state.\<close>

theorem histories_valid:
  assumes "task_reachable env s" "map_of (dirs (store s)) i = Some d" "states d \<noteq> []"
  shows "(\<exists>q. requestFile d = Some q \<and> validateRequest (isAbs env) (limits (store s)) (Request q) = None
      \<and> (request_fits env q \<and> read_back q = q \<longrightarrow> readPersistedRequest env i (store s) = Inr q))
    \<and> (case readPersistedRequest env i (store s) of
        Inr p \<Rightarrow> \<exists>t. getTaskUnlocked env online i (store s) = Inr t \<and> tkStatus t = Status (last (states d))
          \<and> tkRevision t = length (states d) \<and> History t = map task_event_of (states d)
      | Inl e \<Rightarrow> getTaskUnlocked env online i (store s) = Inl e
          \<and> length (states d) = 1 \<and> Status (hd (states d)) = Queued)
    \<and> contiguous (states d) \<and> attempts d \<le> maxDispatchAttempts \<and> length (states d) \<le> 18 \<and> 18 < maxStateRecords"
proof -
  have c: "change_ok env (store s)" using reachable_base [OF assms(1)] by (simp add: base_inv_def)
  note ok = store_ok_lookup [OF change_okD(1) [OF c] assms(2)]
  have v: "valid_history (states d)" using ok assms(3) by (simp add: dir_ok_def)
  have a: "attempts d \<le> maxDispatchAttempts" by (rule change_okD(3) [OF c assms(2)])
  have n: "length (states d) \<le> 18" using history_bound_attempts [OF v] a by (simp add: maxDispatchAttempts_def)
  obtain q where q: "requestFile d = Some q" "good_request env (store s) i q" using ok assms(3) by (auto simp: dir_ok_def)
  have r: "readPersistedRequest env i (store s) = Inr q" if "request_fits env q \<and> read_back q = q"
    using that q assms(2) by (auto simp: readPersisted_iff holds_request_def)
  have t: "case readPersistedRequest env i (store s) of
        Inr p \<Rightarrow> \<exists>t. getTaskUnlocked env online i (store s) = Inr t \<and> tkStatus t = Status (last (states d))
          \<and> tkRevision t = length (states d) \<and> History t = map task_event_of (states d)
      | Inl e \<Rightarrow> getTaskUnlocked env online i (store s) = Inl e
          \<and> length (states d) = 1 \<and> Status (hd (states d)) = Queued"
  proof (cases "readPersistedRequest env i (store s)")
    case (Inl e)
    have "\<not> legible env (store s) i d" using Inl assms(2) readPersisted_iff [of env i "store s"] by (auto simp: legible_def)
    then show ?thesis using ok v assms(3) Inl by (auto simp: dir_ok_def valid_history_def getTaskUnlocked_def)
  next
    case (Inr p)
    then show ?thesis using history_last [OF v] by (simp add: getTaskUnlocked_def assms(2) stateHistory_valid [OF v] Let_def)
  qed
  have "validateRequest (isAbs env) (limits (store s)) (Request q) = None" using q(2) by (simp add: good_request_def)
  then show ?thesis using q(1) r t v a n by (auto simp: valid_history_def maxStateRecords_def)
qed

subsection \<open>Idempotent submission\<close>

text \<open>A task that can be read stays until retention removes it, and then it has ended.\<close>

definition retired_by :: "task_system \<Rightarrow> task_system \<Rightarrow> bytes \<Rightarrow> bool" where
  "retired_by u v i \<longleftrightarrow> (\<exists>now. store v = Purge now (store u)) \<and> map_of (dirs (store v)) i = None
     \<and> (\<exists>d. map_of (dirs (store u)) i = Some d \<and> Terminal (Status (last (states d))))"

lemma remove_tasks_held:
  "held_request env st i p \<Longrightarrow> i \<notin> termID ` set ts \<Longrightarrow> held_request env (remove_tasks ts st) i p"
  using holds_frame [of "remove_tasks ts st" st _ _ env i p] by (auto simp: held_request_def remove_tasks_lookup)

lemma held_step:
  assumes "base_inv env s" "task_step env s s'" "held_request env (store s) i p"
  shows "held_request env (store s') i p \<or> retired_by s s' i"
proof -
  have ok: "store_ok env (store s)" using assms(1) change_okD(1) by (auto simp: base_inv_def)
  have quiet: "held_request env (store s') i p" if "(quiet_change env)\<^sup>*\<^sup>* (store s) (store s')"
    using base_quiet(3) [OF assms(1) that] assms(3) by (simp add: quiet_frame_def)
  from assms(2) show ?thesis
  proof cases
    case (submit now online fault r)
    then show ?thesis using quiet submit_quiet [OF ok] by simp
  next
    case (cancel now online j reason)
    then show ?thesis using quiet cancel_quiet by simp
  next
    case (pass_step w ps now le token spawned)
    obtain w' st' l where e: "Task_Worker.pass_step env le now token spawned w ps (store s) = (w', st', l)"
      by (metis prod_cases3)
    have "pass_ok env (store s) ps" "change_ok env (store s)"
      using assms(1) pass_step(2,3) by (auto simp: base_inv_def worker_ok_def)
    from pass_step_ok [OF e this] show ?thesis using assms(3) unfolding pass_step(1) system_pass_def e by simp
  next
    case (purge w now)
    have st: "store s' = Purge now (store s)" using purge(1) by simp
    show ?thesis
    proof (cases "readDirectoryBounded (store s)")
      case (Inl e)
      then show ?thesis using assms(3) st by (simp add: Purge_def)
    next
      case (Inr ids)
      obtain k where "purge_loop (cutoff_of (limits (store s)) now) (terminalTasks (store s) ids) (length (terminalTasks (store s) ids))
          (sum_list (map (\<lambda>(i, d, n). n) (measured (store s) ids))) (store s) = remove_tasks (take k (terminalTasks (store s) ids)) (store s)"
        using purge_loop_prefix [OF terminalTasks_sorted] by blast
      then have k: "Purge now (store s) = remove_tasks (take k (terminalTasks (store s) ids)) (store s)"
        by (simp add: Purge_def Inr)
      show ?thesis
      proof (cases "i \<in> termID ` set (take k (terminalTasks (store s) ids))")
        case False
        then show ?thesis using remove_tasks_held [OF assms(3)] by (simp add: st k)
      next
        case True
        then obtain t where "t \<in> set (terminalTasks (store s) ids)" "i = termID t" by (auto dest: in_set_takeD)
        with terminalTasks_terminal obtain d r where d: "map_of (dirs (store s)) i = Some d" "latestState d = Inr r"
          "Terminal (Status r)" by blast
        then have "Terminal (Status (last (states d)))" using store_latest [OF ok d(1,2)] by simp
        moreover have "map_of (dirs (store s')) i = None" using True by (simp add: st k remove_tasks_lookup)
        ultimately show ?thesis using d(1) st unfolding retired_by_def by blast
      qed
    qed
  next
    case (exec k n)
    show ?thesis by (rule exec_change [OF assms(1) exec(2) exec(1) [symmetric]]) (blast intro: quiet)
  next
    case (tick k now)
    then show ?thesis using quiet [OF _] tick_quiet by simp
  next
    case (grow j d n)
    have "marks_of d (d\<lparr>dirBytes := n\<rparr>)" by (simp add: marks_of_def)
    then show ?thesis using quiet mark_quiet [OF grow(2)] grow(1) by simp
  qed (use assms(3) in simp_all)
qed

lemma held_run:
  assumes "(task_step env)\<^sup>*\<^sup>* s s'" "base_inv env s" "held_request env (store s) i p"
  shows "held_request env (store s') i p \<or>
    (\<exists>u v. (task_step env)\<^sup>*\<^sup>* s u \<and> task_step env u v \<and> (task_step env)\<^sup>*\<^sup>* v s' \<and> retired_by u v i)"
  using assms
proof (induction rule: rtranclp_induct)
  case (step t s')
  have b: "base_inv env t" using step(1,4) by (induction rule: rtranclp_induct) (use base_step in blast)+
  from step.IH [OF step(4,5)] show ?case
  proof
    assume h: "held_request env (store t) i p"
    from held_step [OF b step(2) h] show ?thesis using step(1,2) by blast
  next
    assume "\<exists>u v. (task_step env)\<^sup>*\<^sup>* s u \<and> task_step env u v \<and> (task_step env)\<^sup>*\<^sup>* v t \<and> retired_by u v i"
    then show ?thesis using step(2) by (meson rtranclp.rtrancl_into_rtrancl)
  qed
qed simp

lemma run_fields:
  "(task_step env)\<^sup>*\<^sup>* s s' \<Longrightarrow> base_inv env s \<Longrightarrow> base_inv env s' \<and> later (store s) (store s')"
proof (induction rule: rtranclp_induct)
  case (step t s')
  then show ?case using base_step later_trans by blast
qed simp

text \<open>A directory of the id that is there after the retirement is a later one.\<close>

lemma retired_later:
  assumes "base_inv env s" "(task_step env)\<^sup>*\<^sup>* s u" "task_step env u v" "(task_step env)\<^sup>*\<^sup>* v s'"
    and "retired_by u v i" "map_of (dirs (store s')) i = Some d"
  shows "births (store s) \<le> born d"
proof -
  have v: "base_inv env v \<and> later (store s) (store v)" 
    by (rule run_fields [OF rtranclp.rtrancl_into_rtrancl [OF assms(2,3)] assms(1)])
  have l: "later (store v) (store s')" using run_fields [OF assms(4)] v by blast
  have "map_of (dirs (store v)) i = None" using assms(5) by (simp add: retired_by_def)
  then have "births (store v) \<le> born d" using l assms(6) unfolding later_def by fastforce
  then show ?thesis using v by (simp add: later_def)
qed

text \<open>C12: once a submission was answered with a task, then whatever front ends, worker and executors do
  afterwards, and however they die, submitting with the same idempotency key again creates no second
  task: with the same request it returns the same task, marked as duplicated, with a different request
  it is refused as a conflict, and the store does not change. The one way out is retention: it has
  removed the task in between, after the task had ended.\<close>

theorem submit_idempotent:
  assumes "task_reachable env s" "Submit env online fault now r (store s) = (Some (Inr res), st')" "now \<noteq> 0"
    and "(task_step env)\<^sup>*\<^sup>* (s\<lparr>store := st'\<rparr>) s'"
    and "IdempotencyKey r2 = IdempotencyKey r" "validateRequest (isAbs env) (limits (store s)) r2 = None"
  shows "(\<exists>t. Submit env online2 fault2 now2 r2 (store s') =
      (Some (if payloadHashOf env r2 = payloadHashOf env r then Inr \<lparr>subTask = t, Duplicated = True\<rparr>
             else Inl ErrIdempotencyConflict), store s') \<and> tkID t = tkID (subTask res))
    \<or> (\<exists>u v. (task_step env)\<^sup>*\<^sup>* (s\<lparr>store := st'\<rparr>) u \<and> task_step env u v \<and> (task_step env)\<^sup>*\<^sup>* v s'
        \<and> retired_by u v (tkID (subTask res)))"
proof -
  let ?i = "taskIDOf env (salt (store s)) (IdempotencyKey r)" and ?s = "s\<lparr>store := st'\<rparr>"
  have b0: "base_inv env s" by (rule reachable_base [OF assms(1)])
  have "task_step env s (s\<lparr>store := snd (Submit env online fault now r (store s))\<rparr>)" by (rule task_step.submit [OF assms(3)])
  then have b: "base_inv env ?s" using base_step [OF b0] by (simp add: assms(2))
  note sub = submit_Inr [OF assms(2) refl assms(3)]
  then obtain p where p: "readPersistedRequest env ?i st' = Inr p" "PayloadHash p = payloadHashOf env r" by blast
  have t: "getTaskUnlocked env online ?i st' = Inr (subTask res)" using sub by blast
  obtain d where d: "map_of (dirs st') ?i = Some d" "states d \<noteq> []" using getTask_dir [OF t] by blast
  have h: "held_request env (store ?s) ?i p" using d p(1) by (simp add: held_request_def readPersisted_iff)
  have i: "tkID (subTask res) = ?i" using getTask_Inr [OF t] by blast
  from held_run [OF assms(4) b h] show ?thesis
  proof
    assume "held_request env (store s') ?i p"
    then obtain e where e: "map_of (dirs (store s')) ?i = Some e" "states e \<noteq> []" "holds_request env (store s') ?i e p"
      by (auto simp: held_request_def)
    have l: "limits (store s') = limits (store s)" "salt (store s') = salt (store s)"
      using run_fields [OF assms(4) b] sub by (simp_all add: later_def)
    have ok: "store_ok env (store s')" using run_fields [OF assms(4) b] change_okD(1) by (auto simp: base_inv_def)
    have q: "readPersistedRequest env ?i (store s') = Inr p" using e by (simp add: readPersisted_iff)
    obtain t2 where t2: "getTaskUnlocked env online2 ?i (store s') = Inr t2" "tkID t2 = ?i"
      by (rule getTask_ok [OF ok e(1,2)]) (use e(3) in \<open>auto simp: legible_def\<close>)
    have key: "?i = taskIDOf env (salt (store s')) (IdempotencyKey r2)" by (simp add: l(2) assms(5))
    have valid: "validateRequest (isAbs env) (limits (store s')) r2 = None" by (simp add: l(1) assms(6))
    have "Submit env online2 fault2 now2 r2 (store s') =
      (Some (if payloadHashOf env r2 = payloadHashOf env r then Inr \<lparr>subTask = t2, Duplicated = True\<rparr>
             else Inl ErrIdempotencyConflict), store s')"
      using submit_known [OF valid key e(1) q t2(1), of fault2 now2] p(2)
      by (cases "payloadHashOf env r2 = payloadHashOf env r") simp_all
    then show ?thesis using t2(2) i by metis
  qed (simp add: i)
qed


subsection \<open>A run\<close>

definition sample_launch :: launch_env where
  "sample_launch = \<lparr>AllowShell = True, AllowRunScript = False, validateAdmittedTaskPath = Some,
     ValidateWorkingDirectory = (\<lambda>p. True), BuildShellCommand = (\<lambda>sh c. Inr (str ''sh'', [c])),
     copyScript = (\<lambda>p n h. None), BuildScriptCommand = (\<lambda>p a. Inr (p, a))\<rparr>"

text \<open>A schedule is a list of steps, each of which must be possible; then its end is reachable.\<close>

datatype action = ASubmit request | AWorker | ABegin | APass int | AExec int

definition run_action :: "action \<Rightarrow> task_system \<Rightarrow> task_system option" where
  "run_action a s =
     (case a of
        ASubmit r \<Rightarrow> Some (s\<lparr>store := snd (Submit sample_env True NoFault 5 r (store s))\<rparr>)
      | AWorker \<Rightarrow> (case worker s of None \<Rightarrow> Some (s\<lparr>worker := Some (NewWorker 5)\<rparr>) | Some w \<Rightarrow> None)
      | ABegin \<Rightarrow>
          (case worker s of None \<Rightarrow> None
           | Some w \<Rightarrow> (case pass w of None \<Rightarrow> Some (s\<lparr>worker := Some (begin_pass (store s) w)\<rparr>) | Some ps \<Rightarrow> None))
      | APass now \<Rightarrow>
          (case worker s of None \<Rightarrow> None
           | Some w \<Rightarrow> (case pass w of None \<Rightarrow> None
              | Some ps \<Rightarrow> if now = 0 then None
                  else Some (system_pass sample_env sample_launch now (Some (replicate 64 0x61)) True w ps s)))
      | AExec now \<Rightarrow>
          if executors s = [] \<or> now = 0 then None
          else Some (system_exec \<lparr>exNow = now, exMillis = 0, spawnOK = True, cause = NotStopped, waited = WaitOK,
            launchJSON = (\<lambda>l. Program l)\<rparr> 0 s))"

fun run_actions :: "action list \<Rightarrow> task_system \<Rightarrow> task_system option" where
  "run_actions [] s = Some s"
| "run_actions (a # as) s = (case run_action a s of None \<Rightarrow> None | Some s' \<Rightarrow> run_actions as s')"

lemma run_action_step: "run_action a s = Some s' \<Longrightarrow> task_step sample_env s s'"
proof (cases a)
  case (AExec now)
  have "cause_possible s 0 NotStopped"
    by (simp add: cause_possible_def Let_def possible_cause_def split: option.splits pc.splits)
  then show "run_action a s = Some s' \<Longrightarrow> ?thesis"
    using AExec by (auto simp: run_action_def intro: task_step.exec split: if_splits)
qed (auto simp: run_action_def intro: task_step.intros split: option.splits if_splits)

lemma run_actions_reachable:
  "task_reachable sample_env s \<Longrightarrow> run_actions as s = Some s' \<Longrightarrow> task_reachable sample_env s'"
  by (induction as arbitrary: s) (auto dest!: run_action_step intro: task_reachable.step split: option.splits)

definition sample_new :: task_system where
  "sample_new = new_system (limits sample_tasks) []"

lemma reach_new: "task_reachable sample_env sample_new"
  unfolding sample_new_def by (rule task_reachable.init) code_simp

text \<open>A task is submitted, dispatched, claimed by its executor, and its command is started.\<close>

definition sample_started :: "task_system option" where
  "sample_started = run_actions [ASubmit sample_request, AWorker, ABegin, APass 5, APass 5, APass 5, APass 5,
     AExec 6, AExec 6, AExec 6, AExec 6, AExec 6] sample_new"

lemma sample_started_run:
  "case sample_started of None \<Rightarrow> False | Some s \<Rightarrow> executions s = [0] \<and> dirs (store s) \<noteq> [] \<and>
     born (snd (hd (dirs (store s)))) = 0 \<and> length (states (snd (hd (dirs (store s))))) = 3"
  by code_simp

lemma reach_started:
  obtains s i d where "task_reachable sample_env s" "executions s = [0]" "map_of (dirs (store s)) i = Some d" "born d = 0"
    "length (states d) = 3"
proof (cases sample_started)
  case None
  then show ?thesis using sample_started_run by simp
next
  case (Some s)
  note r = sample_started_run [unfolded Some option.case]
  have "task_reachable sample_env s"
    using Some unfolding sample_started_def by (rule run_actions_reachable [OF reach_new])
  moreover have "map_of (dirs (store s)) (fst (hd (dirs (store s)))) = Some (snd (hd (dirs (store s))))"
    using r by (cases "dirs (store s)") auto
  ultimately show ?thesis using that r by blast
qed

lemma at_most_once_witness:
  "\<exists>s i d. task_reachable sample_env s \<and> executions s = [0] \<and> map_of (dirs (store s)) i = Some d \<and> startedFile d"
proof -
  obtain s i d where s: "task_reachable sample_env s" "executions s = [0]" "map_of (dirs (store s)) i = Some d" "born d = 0"
    by (rule reach_started)
  have "startedFile d" using at_most_once [OF s(1)] s(2-4) by auto
  with s show ?thesis by blast
qed

lemma submit_idempotent_witness:
  "\<exists>t. Submit sample_env False NoFault 9 sample_request (snd sample_submit) =
     (Some (Inr \<lparr>subTask = t, Duplicated = True\<rparr>), snd sample_submit)"
proof -
  let ?s = "sample_new\<lparr>store := snd sample_submit\<rparr>"
  let ?s' = "?s\<lparr>worker := Some (NewWorker 7)\<rparr>"
  have s: "store sample_new = sample_tasks" by (simp add: sample_new_def new_system_def sample_tasks_def)
  have sub: "Submit sample_env True NoFault 5 sample_request (store sample_new) =
      (Some (Inr (projr (the (fst sample_submit)))), snd sample_submit)" using sample_submit_eq by (simp add: s)
  have run: "(task_step sample_env)\<^sup>*\<^sup>* ?s ?s'"
    by (rule r_into_rtranclp, rule task_step.worker_start) (simp add: sample_new_def new_system_def)
  have "task_step sample_env sample_new ?s"
    using task_step.submit [of 5 sample_env sample_new True NoFault sample_request] sub by simp
  then have b: "base_inv sample_env ?s" using base_step reachable_base [OF reach_new] by blast
  let ?i = "taskIDOf sample_env (salt sample_tasks) (IdempotencyKey sample_request)"
  obtain t p where t: "sample_submit = (Some (Inr \<lparr>subTask = t, Duplicated = False\<rparr>), admit 3 ?i p 5 sample_tasks)" "tkID t = ?i"
    using sample_admits by blast
  obtain d where d: "map_of (dirs (snd sample_submit)) ?i = Some d" "born d = 0" "births (snd sample_submit) = 1"
    by (simp add: t(1) admit_lookup admit_births) (simp add: sample_tasks_def)
  have kept: "\<not> retired_by u v ?i"
    if "(task_step sample_env)\<^sup>*\<^sup>* ?s u" "task_step sample_env u v" "(task_step sample_env)\<^sup>*\<^sup>* v ?s'" for u v
    using retired_later [OF b that, of ?i d] d by auto
  have valid: "validateRequest (isAbs sample_env) (limits (store sample_new)) sample_request = None"
    using sample_valid by (simp add: s)
  have i: "tkID (subTask (projr (the (fst sample_submit)))) = ?i" by (simp add: t)
  show ?thesis using submit_idempotent [OF reach_new sub _ run refl valid, of False NoFault 9] kept unfolding i by auto
qed

lemma histories_valid_witness:
  "\<exists>s i t. task_reachable sample_env s \<and> getTaskUnlocked sample_env True i (store s) = Inr t \<and> tkRevision t = 3"
proof -
  obtain s i d where s: "task_reachable sample_env s" "map_of (dirs (store s)) i = Some d" "length (states d) = 3"
    by (rule reach_started)
  then have "states d \<noteq> []" by auto
  from histories_valid [OF s(1,2) this, of True] s(3)
  have "\<exists>t. getTaskUnlocked sample_env True i (store s) = Inr t \<and> tkRevision t = 3"
    by (cases "readPersistedRequest sample_env i (store s)") auto
  with s(1) show ?thesis by blast
qed

end
