(* ===== verification/Task_Scheduling.thy ===== *)
theory Task_Scheduling
  imports Task_System
begin

text \<open>
  What the worker promises about the tasks that are active at the same time: their number is within
  \<^verbatim>\<open>MaxConcurrency\<close> and they share no lock key. The pass counts what it finds; the invariant relates what it
  has counted to what is active while front ends and executors go on. The one way in which the count
  can be wrong, a task that comes to life while the worker takes it back, is shown by a run.
\<close>

definition sharing_ok :: "task_env \<Rightarrow> task_store \<Rightarrow> bool" where
  "sharing_ok env st \<longleftrightarrow> int (card (active_ids st)) \<le> MaxConcurrency (limits st) \<and>
     (\<forall>i j p q. active_at st i \<longrightarrow> active_at st j \<longrightarrow> i \<noteq> j \<longrightarrow> held_request env st i p \<longrightarrow> held_request env st j q \<longrightarrow>
        set (LockKeys (Request p)) \<inter> set (LockKeys (Request q)) = {})"

definition pending_ids :: "pass_state \<Rightarrow> bytes set" where
  "pending_ids ps = (case pending ps of Some (Append i r) \<Rightarrow> {i} | _ \<Rightarrow> {})"

definition pass_counts :: "task_env \<Rightarrow> task_store \<Rightarrow> pass_state \<Rightarrow> bool" where
  "pass_counts env st ps \<longleftrightarrow> length (counted ps) = active ps \<and> (scanned ps \<longrightarrow> entries ps = []) \<and>
     active_ids st \<subseteq> set (entries ps) \<union> set (counted ps) \<union> pending_ids ps \<and>
     (\<forall>i p. i \<in> set (counted ps) \<longrightarrow> active_at st i \<longrightarrow> held_request env st i p \<longrightarrow>
        set (LockKeys (Request p)) \<subseteq> set (heldLocks ps)) \<and>
     (\<forall>c \<in> set (candidates ps). held_request env st (TaskID (fst c)) (fst c)) \<and>
     (case pending ps of
        Some (Commit p s l) \<Rightarrow> scanned ps \<and> held_request env st (TaskID p) p \<and>
          int (active ps) < MaxConcurrency (limits st) \<and> \<not> locksConflict (LockKeys (Request p)) (heldLocks ps)
      | _ \<Rightarrow> True)"

definition sched_inv :: "task_env \<Rightarrow> task_system \<Rightarrow> bool" where
  "sched_inv env s \<longleftrightarrow> sharing_ok env (store s) \<and>
     (\<forall>w ps. worker s = Some w \<longrightarrow> pass w = Some ps \<longrightarrow> pass_counts env (store s) ps)"

lemma finite_active: "finite (active_ids st)"
proof (rule finite_subset)
  show "active_ids st \<subseteq> fst ` set (dirs st)"
    by (auto simp: active_ids_def active_at_def dest: map_of_SomeD split: option.splits intro: rev_image_eqI)
qed simp

lemma held_unique: "held_request env st i p \<Longrightarrow> held_request env st i q \<Longrightarrow> p = q"
  using holds_unique by (auto simp: held_request_def)

lemma active_longer:
  assumes "store_ok env st" "map_of (dirs st) i = Some d" "active_dir d"
  shows "states d \<noteq> []" "length (states d) \<noteq> 1"
proof -
  show n: "states d \<noteq> []" using assms(3) by (simp add: active_dir_def)
  have "valid_history (states d)" using store_ok_lookup [OF assms(1,2)] n by (simp add: dir_ok_def)
  then show "length (states d) \<noteq> 1" using assms(3) by (cases "states d") (auto simp: valid_history_def active_dir_def)
qed

lemma active_held:
  assumes "store_ok env st" "active_at st i"
  obtains p d where "held_request env st i p" "map_of (dirs st) i = Some d" "states d \<noteq> []" "active_dir d"
    "readPersistedRequest env i st = Inr p" "good_request env st i p"
proof -
  obtain d where d: "map_of (dirs st) i = Some d" "active_dir d"
    using assms(2) by (auto simp: active_at_def split: option.splits)
  note n = active_longer [OF assms(1) d]
  then obtain p where "holds_request env st i d p"
    using store_ok_lookup [OF assms(1) d(1)] by (auto simp: dir_ok_def legible_def)
  then show ?thesis using that [of p d] d n by (auto simp: held_request_def readPersisted_iff holds_request_def)
qed

text \<open>A change that makes nothing active and keeps the requests of what is active.\<close>

definition calm :: "task_env \<Rightarrow> task_store \<Rightarrow> task_store \<Rightarrow> bool" where
  "calm env st st' \<longleftrightarrow> limits st' = limits st \<and> (\<forall>i. active_at st' i \<longrightarrow> active_at st i) \<and>
     (\<forall>i p. active_at st' i \<longrightarrow> held_request env st i p \<longrightarrow> held_request env st' i p)"

lemma calm_quiet: "quiet_frame env st st' \<Longrightarrow> later st st' \<Longrightarrow> calm env st st'"
  by (simp add: calm_def quiet_frame_def later_def)

lemma calm_held:
  assumes "calm env st st'" "store_ok env st" "active_at st' i" "held_request env st' i p"
  shows "active_at st i" "held_request env st i p"
proof -
  show a: "active_at st i" using assms(1,3) by (simp add: calm_def)
  obtain q where q: "held_request env st i q" by (rule active_held [OF assms(2) a])
  then have "held_request env st' i q" using assms(1,3) by (simp add: calm_def)
  with assms(4) have "p = q" by (rule held_unique)
  with q show "held_request env st i p" by simp
qed

lemma calm_active: "calm env st st' \<Longrightarrow> active_ids st' \<subseteq> active_ids st"
  by (auto simp: calm_def active_ids_def)

lemma sharing_calm:
  assumes "sharing_ok env st" "calm env st st'" "store_ok env st"
  shows "sharing_ok env st'"
  unfolding sharing_ok_def
proof (intro conjI allI impI)
  have "card (active_ids st') \<le> card (active_ids st)"
    by (rule card_mono [OF finite_active calm_active [OF assms(2)]])
  then show "int (card (active_ids st')) \<le> MaxConcurrency (limits st')"
    using assms(1,2) by (simp add: sharing_ok_def calm_def)
  fix i j p q
  assume a: "active_at st' i" "active_at st' j" "i \<noteq> j" "held_request env st' i p" "held_request env st' j q"
  note h = calm_held [OF assms(2,3) a(1,4)] calm_held [OF assms(2,3) a(2,5)]
  show "set (LockKeys (Request p)) \<inter> set (LockKeys (Request q)) = {}"
    using assms(1) a(3) h unfolding sharing_ok_def by blast
qed

lemma counts_calm:
  assumes "pass_counts env st ps" "calm env st st'" "store_ok env st" "\<forall>i p. held_request env st i p \<longrightarrow> held_request env st' i p"
  shows "pass_counts env st' ps"
  unfolding pass_counts_def
proof (intro conjI)
  show "length (counted ps) = active ps" "scanned ps \<longrightarrow> entries ps = []" using assms(1) by (simp_all add: pass_counts_def)
  show "active_ids st' \<subseteq> set (entries ps) \<union> set (counted ps) \<union> pending_ids ps"
    using calm_active [OF assms(2)] assms(1) by (auto simp: pass_counts_def)
  show "\<forall>i p. i \<in> set (counted ps) \<longrightarrow> active_at st' i \<longrightarrow> held_request env st' i p \<longrightarrow>
      set (LockKeys (Request p)) \<subseteq> set (heldLocks ps)"
    using calm_held [OF assms(2,3)] assms(1) unfolding pass_counts_def by blast
  show "\<forall>c \<in> set (candidates ps). held_request env st' (TaskID (fst c)) (fst c)"
    using assms(1,4) by (simp add: pass_counts_def)
  show "case pending ps of Some (Commit p s l) \<Rightarrow> scanned ps \<and> held_request env st' (TaskID p) p \<and>
      int (active ps) < MaxConcurrency (limits st') \<and> \<not> locksConflict (LockKeys (Request p)) (heldLocks ps) | _ \<Rightarrow> True"
    using assms(1,2,4) by (auto simp: pass_counts_def calm_def split: option.splits pending.splits)
qed

lemma sched_quiet:
  assumes "sched_inv env s" "base_inv env s" "(quiet_change env)\<^sup>*\<^sup>* (store s) (store s')" "worker s' = worker s"
  shows "sched_inv env s'"
proof -
  have ok: "store_ok env (store s)" using assms(2) change_okD(1) by (auto simp: base_inv_def)
  note q = base_quiet(2,3) [OF assms(2,3)]
  have c: "calm env (store s) (store s')" by (rule calm_quiet [OF q(2,1)])
  have h: "\<forall>i p. held_request env (store s) i p \<longrightarrow> held_request env (store s') i p" using q(2) by (simp add: quiet_frame_def)
  show ?thesis
    using assms(1) sharing_calm [OF _ c ok] counts_calm [OF _ c ok h] by (simp add: sched_inv_def assms(4))
qed


subsection \<open>The steps of the pass\<close>

lemma append_calm:
  assumes "store_ok env st" "Revision r \<noteq> 1" "Status r \<noteq> Starting"
    and "\<And>d. map_of (dirs st) i = Some d \<Longrightarrow> legible env st i d \<or> length (states d) \<noteq> 1"
  shows "calm env st (snd (appendState i r st)) \<and> (\<forall>j p. held_request env st j p \<longrightarrow> held_request env (snd (appendState i r st)) j p)"
proof -
  have "snd (appendState i r st) = st \<or> (\<exists>d. map_of (dirs st) i = Some d \<and> append_error d r = None \<and>
      snd (appendState i r st) = put_dir i (d\<lparr>states := states d @ [r]\<rparr>) st)"
    by (cases "map_of (dirs st) i") (simp_all add: appendState_def split: option.splits)
  then consider "snd (appendState i r st) = st"
    | d where "map_of (dirs st) i = Some d" "append_error d r = None"
        "snd (appendState i r st) = put_dir i (d\<lparr>states := states d @ [r]\<rparr>) st" by blast
  then show ?thesis
  proof cases
    case 1
    then show ?thesis by (simp add: calm_def)
  next
    case 2
    note a = append_dir_ok(2,3) [OF assms(1) 2(1,2) assms(2) assms(4) [OF 2(1)]]
    have "active_dir (d\<lparr>states := states d @ [r]\<rparr>) \<longrightarrow> active_dir d"
      using a assms(3) by (auto simp: active_dir_def validStateTransition_def split: status.splits)
    then have act: "active_at (snd (appendState i r st)) j \<longrightarrow> active_at st j" for j
      using 2(1) unfolding 2(3) by (cases "j = i") (simp_all add: active_at_def)
    have held: "held_request env st j p \<longrightarrow> held_request env (snd (appendState i r st)) j p" for j p
      using held_put [OF _ 2(1), of env j p] unfolding 2(3) by simp
    show ?thesis using act held unfolding calm_def 2(3) by simp
  qed
qed

lemma counts_pending:
  assumes "pass_counts env st ps" "pending ps = Some (Append i r)" "\<not> active_at st i"
  shows "pass_counts env st (ps\<lparr>pending := None\<rparr>)"
  using assms by (auto simp: pass_counts_def pending_ids_def active_ids_def)

lemma counts_fail:
  assumes "pass_counts env st ps" "pending_ids ps = {}"
  shows "pass_counts env st (ps\<lparr>pending := None\<rparr>)" "pass_counts env st (fail_candidate now p s code m ps)"
  using assms by (auto simp: pass_counts_def pending_ids_def fail_candidate_def)

lemma counts_drop: "pass_counts env st ps \<Longrightarrow> pending ps = None \<Longrightarrow> pass_counts env st (ps\<lparr>candidates := drop 1 (candidates ps)\<rparr>)"
  by (simp add: pass_counts_def pending_ids_def) (auto dest: in_set_dropD)

lemma counts_reconcile:
  assumes "pass_counts env st ps" "pending ps = None" "\<not> scanned ps" "entries ps = i # is" "store_ok env st"
    and "\<forall>b. 16 \<le> length (sha256 env b)" "reconcile_entry env now st i w (ps\<lparr>entries := is\<rparr>) = (w', ps')"
  shows "pass_counts env st ps'"
proof -
  have c: "length (counted ps) = active ps" "active_ids st \<subseteq> insert i (set is \<union> set (counted ps))"
    "\<forall>c \<in> set (candidates ps). held_request env st (TaskID (fst c)) (fst c)"
    "\<forall>i p. i \<in> set (counted ps) \<longrightarrow> active_at st i \<longrightarrow> held_request env st i p \<longrightarrow>
        set (LockKeys (Request p)) \<subseteq> set (heldLocks ps)"
    using assms(1,2,4) by (auto simp: pass_counts_def pending_ids_def)
  from assms(7) show ?thesis
  proof (cases rule: reconcile_cases)
    case skip
    have "\<not> active_at st i"
    proof
      assume a: "active_at st i"
      obtain p d where d: "map_of (dirs st) i = Some d" "states d \<noteq> []" "active_dir d"
          "readPersistedRequest env i st = Inr p" "good_request env st i p"
        using active_held [OF assms(5) a] by blast
      have v: "valid_history (states d)" using store_ok_lookup [OF assms(5) d(1)] d(2) by (simp add: dir_ok_def)
      have "length (hex_encode (take 16 (sha256 env (salt st @ [0] @ IdempotencyKey (Request p))))) = 32"
        using assms(6) by (simp add: length_hex_encode)
      then have "validTaskID i"
        using d(5) hex_encode_hex by (simp add: good_request_def validTaskID_def taskIDOf_def str_def)
      from skip(2) [OF this d(4,1) latestState_valid [OF v]] d(3) show False by (simp add: active_dir_def)
    qed
    then have "active_ids st \<subseteq> set is \<union> set (counted ps)" using c(2) by (auto simp: active_ids_def)
    then show ?thesis using c assms(2,3) by (simp add: skip(1) pass_counts_def pending_ids_def)
  next
    case (candidate p d s)
    have h: "TaskID p = i" "held_request env st i p"
      using read_held [OF candidate(1-3)] by simp_all
    have "\<not> active_at st i"
      using candidate(2,4) store_latest [OF assms(5) candidate(2,3)] by (simp add: active_at_def active_dir_def)
    then have "active_ids st \<subseteq> set is \<union> set (counted ps)" using c(2) by (auto simp: active_ids_def)
    then show ?thesis using c assms(2,3) h by (simp add: candidate(5) pass_counts_def pending_ids_def)
  next
    case (occupied p)
    have "held_request env st i p \<or> \<not> active_at st i"
      using readPersisted_Inr [OF occupied(1)] by (auto simp: held_request_def active_at_def active_dir_def)
    then have i: "q = p" if "active_at st i" "held_request env st i q" for q using that held_unique by blast
    have k: "set (LockKeys (Request q)) \<subseteq> set (LockKeys (Request p) @ heldLocks ps)"
      if "j \<in> set (i # counted ps)" "active_at st j" "held_request env st j q" for j q
    proof (cases "j = i")
      case True
      then show ?thesis using i that by simp
    next
      case False
      then have "set (LockKeys (Request q)) \<subseteq> set (heldLocks ps)" using c(4) that by simp
      then show ?thesis by auto
    qed
    then show ?thesis
      using c(1-3) assms(2,3) unfolding occupied(2) occupy_def pass_counts_def pending_ids_def by auto
  next
    case (pend r)
    then show ?thesis using c assms(3) by (auto simp: pass_counts_def pending_ids_def)
  qed
qed

lemma counts_dispatch:
  assumes "pass_counts env st ps" "pending ps = None" "scanned ps" "dispatch_next le now st ps = Some ps'"
  shows "pass_counts env st ps'"
  using assms(4)
proof (cases rule: dispatch_cases)
  case (skip c rest)
  then show ?thesis using counts_drop [OF assms(1,2)] by simp
next
  case (fail p s rest code m)
  have "pass_counts env st (ps\<lparr>candidates := rest\<rparr>)" using counts_drop [OF assms(1,2)] fail(1) by simp
  from counts_fail(2) [OF this, of now p s code m] show ?thesis using assms(2) fail(2) by (simp add: pending_ids_def)
next
  case (commit p s rest l d n)
  have "held_request env st (TaskID p) p" using assms(1) commit(1) by (simp add: pass_counts_def)
  then show ?thesis
    using counts_drop [OF assms(1,2)] commit(1,3,4) assms(2,3)
    by (auto simp: commit(2) pass_counts_def pending_ids_def)
qed


text \<open>What a start does: nothing, a task that is active under the lock, or one that has already failed.\<close>

lemma start_sched:
  assumes "start now token spawned p s l st = (res, st')" "change_ok env st" "retry_ok st (TaskID p)" "now \<noteq> 0"
    and "held_request env st (TaskID p) p0"
  shows "limits st' = limits st \<and> (\<forall>j q. held_request env st j q \<longrightarrow> held_request env st' j q) \<and>
    (\<forall>j. active_at st' j \<longrightarrow> active_at st j \<or> res = Started \<and> j = TaskID p)"
  using assms(1)
proof (cases rule: start_cases)
  case (launched d latest tok e st2)
  let ?i = "TaskID p" and ?d1 = "launch_file l tok d"
  define st1 where "st1 = put_dir ?i ?d1 st"
  define r where "r = starting_record now (Revision latest + 1) tok"
  note ok = change_okD(1) [OF assms(2)]
  note d = store_latest [OF ok launched(1,2)]
  have d1: "map_of (dirs st1) ?i = Some ?d1" by (simp add: st1_def)
  have st1: "limits st1 = limits st" "\<And>j q. held_request env st j q \<Longrightarrow> held_request env st1 j q" "\<And>j. active_at st1 j \<Longrightarrow> active_at st j"
    using launched(1) held_put [OF _ launched(1), where d' = ?d1]
    by (auto simp: st1_def active_at_def active_dir_def split: if_splits option.splits)
  let ?d2 = "?d1\<lparr>states := states d @ [r]\<rparr>"
  have e: "appendState ?i r st1 = (e, st2)" using launched(4) by (simp add: r_def st1_def)
  show ?thesis
  proof (cases e)
    case (Some x)
    then have "st2 = st1" using e by (auto simp: appendState_def d1 split: option.splits)
    then have "st' = st1" using launched(5) Some by auto
    then show ?thesis using st1 by auto
  next
    case None
    then have a: "append_error ?d1 r = None" and st2: "st2 = put_dir ?i ?d2 st1"
      using e by (auto simp: appendState_def d1 split: option.splits)
    have s2: "limits st2 = limits st" "\<And>j q. held_request env st j q \<Longrightarrow> held_request env st2 j q"
      "\<And>j. active_at st2 j \<Longrightarrow> active_at st j \<or> j = ?i" "map_of (dirs st2) ?i = Some ?d2"
    proof -
      show "limits st2 = limits st" "map_of (dirs st2) ?i = Some ?d2" using st1(1) by (simp_all add: st2)
      show "active_at st2 j \<Longrightarrow> active_at st j \<or> j = ?i" for j
        using st1(3) [of j] by (cases "j = ?i") (simp_all add: st2 active_at_def)
      show "held_request env st j q \<Longrightarrow> held_request env st2 j q" for j q
        using held_put [OF st1(2) d1, of j q ?d2] by (simp add: st2)
    qed
    show ?thesis
    proof (cases "res = Started")
      case True
      then have "st' = st2" using launched(5) by auto
      then show ?thesis using s2 True by auto
    next
      case False
      let ?f = "terminal_record r Failed now (-1) ''TASK_START_FAILED'' (str ''task executor process could not be started'')"
      have st': "st' = snd (appendState ?i ?f st2)" using launched(5) False None by (auto simp: r_def)
      have "change_ok env st2"
      proof -
        have m: "quiet_change env st st1" unfolding st1_def by (rule quiet_change.mark [OF launched(1)]) (simp add: marks_of_def)
        then have c1: "change_ok env st1" using change_ok_any [OF assms(2)] by (simp add: any_change_def)
        have "attempts ?d1 < maxDispatchAttempts"
          using assms(3) launched(1,3) d by (auto simp: retry_ok_def attempts_def)
        moreover have "Revision r \<noteq> 1" "Status r = Starting"
          using latest_revision [OF launched(2)] by (simp_all add: r_def starting_record_def)
        ultimately have "loud_change env st1 (put_dir ?i (?d1\<lparr>states := states ?d1 @ [r]\<rparr>) st1)"
          using a d1 held_legible [OF st1(2) [OF assms(5)] d1] by (intro loud_change.launch) simp_all
        then show ?thesis using change_ok_any [OF c1] by (simp add: st2 any_change_def)
      qed
      note c2 = this and ok2 = change_okD(1) [OF this]
      have v: "valid_history (states ?d2)" using store_ok_lookup [OF ok2 s2(4)] by (simp add: dir_ok_def)
      have r2: "Revision r = length (states ?d2)" using history_last [OF v] by simp
      have "length (states ?d2) \<le> 18"
        using history_bound_attempts [OF v] change_okD(3) [OF c2 s2(4)] by (simp add: maxDispatchAttempts_def)
      then have f: "append_error ?d2 ?f = None"
        using append_error_None [OF store_ok_lookup [OF ok2 s2(4)], of ?f] r2 assms(4)
        by (simp add: terminal_record_def readable_state_def maxStateRecords_def validStateTransition_def r_def starting_record_def)
      have fin: "st' = put_dir ?i (?d2\<lparr>states := states ?d2 @ [?f]\<rparr>) st2" using s2(4) f by (simp add: st' appendState_def)
      have "\<not> active_dir (?d2\<lparr>states := states ?d2 @ [?f]\<rparr>)" by (simp add: active_dir_def terminal_record_def)
      then have "active_at st' j \<longrightarrow> active_at st j" for j
        using s2(3) [of j] by (cases "j = ?i") (simp_all add: fin active_at_def)
      moreover have "held_request env st j q \<longrightarrow> held_request env st' j q" for j q
        using held_put [OF s2(2) s2(4), of j q "?d2\<lparr>states := states ?d2 @ [?f]\<rparr>"] by (simp add: fin)
      ultimately show ?thesis using s2(1) by (simp add: fin)
    qed
  qed
qed simp


lemma sched_commit:
  assumes "sharing_ok env st" "pass_counts env st ps" "pending ps = Some (Commit p s l)" "change_ok env st" "retry_ok st (TaskID p)"
    and "now \<noteq> 0" "start now token spawned p s l st = (res, st')"
  shows "sharing_ok env st' \<and> (res = Started \<longrightarrow> pass_counts env st' (occupy (TaskID p) p (ps\<lparr>pending := None\<rparr>))) \<and>
    (res \<noteq> Started \<longrightarrow> pass_counts env st' ps)"
proof -
  let ?i = "TaskID p"
  note ok = change_okD(1) [OF assms(4)]
  have "held_request env st ?i p" using assms(2,3) by (auto simp: pass_counts_def)
  note r = start_sched [OF assms(7,4-6) this]
  show ?thesis
  proof (cases "res = Started")
    case False
    then have c: "calm env st st'" using r unfolding calm_def by blast
    show ?thesis using sharing_calm [OF assms(1) c ok] counts_calm [OF assms(2) c ok] r False by blast
  next
    case True
    have p: "scanned ps" "held_request env st ?i p" "int (active ps) < MaxConcurrency (limits st)"
      "\<not> locksConflict (LockKeys (Request p)) (heldLocks ps)" "entries ps = []" "length (counted ps) = active ps"
      "active_ids st \<subseteq> set (counted ps)"
      using assms(2,3) by (auto simp: pass_counts_def pending_ids_def)
    have act: "active_ids st' \<subseteq> set (?i # counted ps)" using r p(7) by (auto simp: active_ids_def)
    have "card (active_ids st') \<le> length (?i # counted ps)"
      using card_mono [OF _ act] card_length [of "?i # counted ps"] by simp
    then have lim: "int (card (active_ids st')) \<le> MaxConcurrency (limits st')" using p(3,6) r by simp
    have old: "held_request env st j q" "active_at st j" if "active_at st' j" "held_request env st' j q" "j \<noteq> ?i" for j q
    proof -
      show a: "active_at st j" using r that by blast
      obtain q' where "held_request env st j q'" by (rule active_held [OF ok a])
      with r that(2) show "held_request env st j q" using held_unique by blast
    qed
    have new: "q = p" if "held_request env st' ?i q" for q using r p(2) that held_unique by blast
    have keys: "set (LockKeys (Request q)) \<subseteq> set (heldLocks ps)" if "active_at st' j" "held_request env st' j q" "j \<noteq> ?i" for j q
      using old [OF that] assms(2) p(7) unfolding pass_counts_def active_ids_def by blast
    have free: "set (LockKeys (Request p)) \<inter> set (heldLocks ps) = {}"
      using p(4) by (auto simp: locksConflict_def list_ex_iff)
    have "sharing_ok env st'"
      unfolding sharing_ok_def
    proof (intro conjI allI impI)
      fix j k q q'
      assume a: "active_at st' j" "active_at st' k" "j \<noteq> k" "held_request env st' j q" "held_request env st' k q'"
      consider "j = ?i" "k \<noteq> ?i" | "k = ?i" "j \<noteq> ?i" | "j \<noteq> ?i" "k \<noteq> ?i" using a(3) by blast
      then show "set (LockKeys (Request q)) \<inter> set (LockKeys (Request q')) = {}"
      proof cases
        case 1
        then have "q = p" using new a(4) by blast
        then show ?thesis using keys [OF a(2,5) 1(2)] free by blast
      next
        case 2
        then have "q' = p" using new a(5) by blast
        then show ?thesis using keys [OF a(1,4) 2(2)] free by blast
      next
        case 3
        then show ?thesis using old [OF a(1,4)] old [OF a(2,5)] a(3) assms(1) unfolding sharing_ok_def by blast
      qed
    qed (rule lim)
    moreover have "pass_counts env st' (occupy ?i p (ps\<lparr>pending := None\<rparr>))"
    proof -
      have k: "set (LockKeys (Request q)) \<subseteq> set (LockKeys (Request p) @ heldLocks ps)"
        if "active_at st' j" "held_request env st' j q" for j q
        using new keys [OF that] that by (cases "j = ?i") auto
      have "\<forall>c \<in> set (candidates ps). held_request env st' (TaskID (fst c)) (fst c)"
        using assms(2) r by (auto simp: pass_counts_def)
      then show ?thesis using p k act by (auto simp: pass_counts_def pending_ids_def occupy_def)
    qed
    ultimately show ?thesis using True by blast
  qed
qed

lemma sched_pass:
  assumes "sched_inv env s" "base_inv env s" "\<forall>b. 16 \<le> length (sha256 env b)" "worker s = Some w" "pass w = Some ps" "now \<noteq> 0"
    and "\<not> lostReap (system_pass env le now token spawned w ps s)"
  shows "sched_inv env (system_pass env le now token spawned w ps s)"
proof -
  let ?st = "store s"
  have c: "change_ok env ?st" and ok: "store_ok env ?st" and po: "pass_ok env ?st ps"
    using assms(2,4,5) change_okD(1) by (auto simp: base_inv_def worker_ok_def)
  have sh: "sharing_ok env ?st" and pc: "pass_counts env ?st ps" using assms(1,4,5) by (simp_all add: sched_inv_def)
  obtain w' st' r where e: "Task_Worker.pass_step env le now token spawned w ps ?st = (w', st', r)" by (metis prod_cases3)
  have goal: "sched_inv env (system_pass env le now token spawned w ps s) \<longleftrightarrow>
      sharing_ok env st' \<and> (\<forall>ps'. pass w' = Some ps' \<longrightarrow> pass_counts env st' ps')"
    by (simp add: sched_inv_def system_pass_def e)
  have lost: "\<not> active_at st' i" if "pending ps = Some (Append i x)" for i x
    using assms(7) that by (simp add: system_pass_def e)
  show ?thesis
  proof (cases "pending ps")
    case None
    show ?thesis
    proof (cases "scanned ps")
      case True
      then have "w' = w\<lparr>pass := dispatch_next le now ?st ps\<rparr>" "st' = ?st"
        using e None by (auto simp: pass_step_def)
      then show ?thesis using goal sh counts_dispatch [OF pc None True] by simp
    next
      case False
      show ?thesis
      proof (cases "entries ps")
        case Nil
        then have "w' = w\<lparr>pass := Some (ps\<lparr>scanned := True, candidates := by_creation (candidates ps)\<rparr>)\<rparr>" "st' = ?st"
          using e None False by (simp_all add: pass_step_def)
        moreover have "pass_counts env ?st (ps\<lparr>scanned := True, candidates := by_creation (candidates ps)\<rparr>)"
          using pc None Nil by (auto simp: pass_counts_def pending_ids_def by_creation_def)
        ultimately show ?thesis using goal sh by simp
      next
        case (Cons i js)
        obtain w1 ps1 where re: "reconcile_entry env now ?st i w (ps\<lparr>entries := js\<rparr>) = (w1, ps1)" by fastforce
        then have "w' = w1\<lparr>pass := Some ps1\<rparr>" "st' = ?st" using e None False Cons by (simp_all add: pass_step_def)
        then show ?thesis using goal sh counts_reconcile [OF pc None False Cons ok assms(3) re] by simp
      qed
    qed
  next
    case (Some q)
    show ?thesis
    proof (cases q)
      case (Append i x)
      then have w: "w' = w\<lparr>pass := Some (ps\<lparr>pending := None\<rparr>)\<rparr>" "st' = snd (appendState i x ?st)"
        using e Some by (simp_all add: pass_step_def)
      have x: "Revision x \<noteq> 1" "Status x \<noteq> Starting" using po Some Append by (simp_all add: pass_ok_def)
      have leg: "legible env ?st i d \<or> length (states d) \<noteq> 1" if "map_of (dirs ?st) i = Some d" for d
        using po Some Append held_legible [OF _ that] by (auto simp: pass_ok_def)
      note a = append_calm [OF ok x leg, folded w(2)]
      have "pass_counts env st' ps" using counts_calm [OF pc _ ok] a by blast
      then have "pass_counts env st' (ps\<lparr>pending := None\<rparr>)" using counts_pending lost Some Append by blast
      then show ?thesis using goal w(1) sharing_calm [OF sh _ ok] a by simp
    next
      case (Commit p x l0)
      have k: "retry_ok ?st (TaskID p)" using po Some Commit by (simp add: pass_ok_def)
      obtain res st1 where st: "start now token spawned p x l0 ?st = (res, st1)" by fastforce
      have P: "pending ps = Some (Commit p x l0)" using Some Commit by simp
      note r = sched_commit [OF sh pc P c k assms(6) st]
      have st1: "st' = st1" and w: "res = Started \<and> pass w' = Some (occupy (TaskID p) p (ps\<lparr>pending := None\<rparr>)) \<or>
          res \<noteq> Started \<and> (pass w' = Some (ps\<lparr>pending := None\<rparr>) \<or>
          (\<exists>m. pass w' = Some (fail_candidate now p x ''TASK_START_FAILED'' m (ps\<lparr>pending := None\<rparr>))))"
        using e P st by (auto simp: pass_step_def Let_def split: start_result.splits)
      have "pass_counts env st' ps'" if "pass w' = Some ps'" for ps'
      proof (cases "res = Started")
        case True
        then show ?thesis using w that r st1 by auto
      next
        case False
        have n: "pending_ids ps = {}" "pending_ids (ps\<lparr>pending := None\<rparr>) = {}" using P by (simp_all add: pending_ids_def)
        have "pass_counts env st' ps" using r False st1 by blast
        note f = counts_fail(1) [OF this n(1)]
        show ?thesis using w that False f counts_fail(2) [OF f n(2)] by auto
      qed
      then show ?thesis using goal r st1 by simp
    qed
  qed
qed


lemma purge_calm:
  assumes "store_ok env st"
  shows "calm env st (Purge now st)"
proof -
  have "\<exists>ts. Purge now st = remove_tasks ts st"
  proof (cases "readDirectoryBounded st")
    case (Inl e)
    then show ?thesis by (intro exI [of _ "[]"]) (simp add: Purge_def remove_tasks_def)
  next
    case (Inr ids)
    obtain k where "purge_loop (cutoff_of (limits st) now) (terminalTasks st ids) (length (terminalTasks st ids))
        (sum_list (map (\<lambda>(i, d, n). n) (measured st ids))) st = remove_tasks (take k (terminalTasks st ids)) st"
      using purge_loop_prefix [OF terminalTasks_sorted] by blast
    then show ?thesis by (intro exI [of _ "take k (terminalTasks st ids)"]) (simp add: Purge_def Inr)
  qed
  then obtain ts where ts: "Purge now st = remove_tasks ts st" ..
  show ?thesis
    using remove_tasks_held [of env st]
    by (auto simp: ts calm_def active_at_def remove_tasks_lookup split: if_splits)
qed

lemma begin_counts:
  assumes "pass (begin_pass st w) = Some ps" "pass w = None"
  shows "pass_counts env st ps"
proof -
  obtain ids where ids: "readDirectoryBounded st = Inr ids"
    "ps = \<lparr>entries = ids, active = 0, heldLocks = [], candidates = [], scanned = False, pending = None, counted = []\<rparr>"
    using assms by (auto simp: begin_pass_def split: sum.splits)
  then have "set ids = fst ` set (dirs st)" by (simp add: readDirectoryBounded_def split: if_splits) (metis set_map set_sort)
  then have "active_ids st \<subseteq> set ids"
    by (auto simp: active_ids_def active_at_def dest: map_of_SomeD split: option.splits intro: rev_image_eqI)
  then show ?thesis by (simp add: ids(2) pass_counts_def pending_ids_def)
qed

lemma sched_step:
  assumes "sched_inv env s" "base_inv env s" "\<forall>b. 16 \<le> length (sha256 env b)" "task_step env s s'" "\<not> lostReap s'"
  shows "sched_inv env s'"
proof -
  have ok: "store_ok env (store s)" using assms(2) change_okD(1) by (auto simp: base_inv_def)
  note quiet = sched_quiet [OF assms(1,2)]
  from assms(4) show ?thesis
  proof cases
    case (submit now online fault r)
    then show ?thesis using quiet submit_quiet [OF ok] by simp
  next
    case (cancel now online i reason)
    then show ?thesis using quiet cancel_quiet by simp
  next
    case (worker_start now)
    then show ?thesis using assms(1) by (simp add: sched_inv_def NewWorker_def)
  next
    case worker_stop
    then show ?thesis using assms(1) by (simp add: sched_inv_def)
  next
    case (begin_pass w)
    then show ?thesis using assms(1) begin_counts by (simp add: sched_inv_def)
  next
    case (pass_step w ps now le token spawned)
    then show ?thesis using sched_pass [OF assms(1-3)] assms(5) by simp
  next
    case (purge w now)
    then show ?thesis using assms(1) sharing_calm [OF _ purge_calm [OF ok] ok] by (simp add: sched_inv_def)
  next
    case (exec k n)
    show ?thesis
      by (rule exec_change [OF assms(2) exec(2) exec(1) [symmetric]]) (blast intro: quiet)
  next
    case (tick k now)
    then show ?thesis using quiet [OF tick_quiet] by simp
  next
    case (grow i d n)
    have "marks_of d (d\<lparr>dirBytes := n\<rparr>)" by (simp add: marks_of_def)
    then show ?thesis using quiet mark_quiet [OF grow(2)] grow(1) by simp
  next
    case (die k)
    then show ?thesis using assms(1) by (simp add: sched_inv_def)
  qed
qed

lemma lost_stays: "task_step env s s' \<Longrightarrow> lostReap s \<Longrightarrow> lostReap s'"
  by (auto elim!: task_step.cases simp: system_pass_def system_exec_def Let_def split: prod.splits option.splits)

lemma reachable_sched:
  "task_reachable env s \<Longrightarrow> \<forall>b. 16 \<le> length (sha256 env b) \<Longrightarrow> \<not> lostReap s \<Longrightarrow> sched_inv env s"
proof (induction rule: task_reachable.induct)
  case (init l s)
  have "active_ids (store (new_system l s)) = {}" by (simp add: active_ids_def active_at_def new_system_def)
  then have "sharing_ok env (store (new_system l s))"
    using init by (simp add: sharing_ok_def validateLimits_def new_system_def active_ids_def)
  then show ?case by (simp add: sched_inv_def new_system_def)
next
  case (step s s')
  then show ?case using sched_step reachable_base lost_stays by blast
qed

subsection \<open>Properties\<close>

lemma uniqueStrings_valid: "uniqueStrings seen vs n \<Longrightarrow> v \<in> set vs \<Longrightarrow> utf8_valid v"
  by (induction seen vs n rule: uniqueStrings.induct) (auto simp: validBoundedText_def split: if_splits)

lemma good_lock_keys:
  assumes "good_request env st i p"
  shows "LockKeys (Request (read_back p)) = LockKeys (Request p)"
proof -
  have "validUniqueStrings (LockKeys (Request p)) 128"
    using assms by (auto simp: good_request_def validateRequest_def split: if_splits)
  then have "\<forall>k \<in> set (LockKeys (Request p)). json_string k = k"
    using uniqueStrings_valid json_string_valid by (auto simp: validUniqueStrings_def)
  then show ?thesis by (simp add: read_back_def Let_def map_idI)
qed

text \<open>C15: unless a task came to life while the worker was taking it back, the tasks that are starting or
  running are never more than \<^verbatim>\<open>MaxConcurrency\<close>, and no two of them hold the same lock key. SHA-256
  digests are taken to have at least the 16 bytes that the code cuts off.\<close>

theorem concurrency_respected:
  assumes "task_reachable env s" "\<forall>b. 16 \<le> length (sha256 env b)" "\<not> lostReap s"
  shows "int (card (active_ids (store s))) \<le> MaxConcurrency (limits (store s)) \<and>
    (\<forall>i j p q. active_at (store s) i \<and> active_at (store s) j \<and> i \<noteq> j \<and>
      requestFile (the (map_of (dirs (store s)) i)) = Some p \<and> requestFile (the (map_of (dirs (store s)) j)) = Some q \<longrightarrow>
      set (LockKeys (Request p)) \<inter> set (LockKeys (Request q)) = {})"
proof -
  have s: "sharing_ok env (store s)" using reachable_sched [OF assms] by (simp add: sched_inv_def)
  have ok: "store_ok env (store s)" using reachable_base [OF assms(1)] change_okD(1) by (auto simp: base_inv_def)
  have h: "held_request env (store s) i (read_back p) \<and> LockKeys (Request (read_back p)) = LockKeys (Request p)"
    if act: "active_at (store s) i" and written: "requestFile (the (map_of (dirs (store s)) i)) = Some p" for i p
  proof -
    obtain q d where q: "held_request env (store s) i q" "map_of (dirs (store s)) i = Some d" "states d \<noteq> []"
      using active_held [OF ok act] by blast
    then have "q = read_back p" using written by (auto simp: held_request_def holds_request_def)
    moreover have "good_request env (store s) i p"
      using store_ok_lookup [OF ok q(2)] q(2,3) written by (auto simp: dir_ok_def)
    ultimately show ?thesis using q(1) good_lock_keys by blast
  qed
  have "set (LockKeys (Request p)) \<inter> set (LockKeys (Request q)) = {}"
    if "active_at (store s) i" "active_at (store s) j" "i \<noteq> j" "requestFile (the (map_of (dirs (store s)) i)) = Some p"
      "requestFile (the (map_of (dirs (store s)) j)) = Some q" for i j p q
  proof -
    note p = h [OF that(1,4)] and q = h [OF that(2,5)]
    have "set (LockKeys (Request (read_back p))) \<inter> set (LockKeys (Request (read_back q))) = {}"
      using s that(1-3) p q unfolding sharing_ok_def by blast
    then show ?thesis using p q by metis
  qed
  then show ?thesis using s unfolding sharing_ok_def by blast
qed

lemma concurrency_respected_witness:
  "\<exists>s. task_reachable sample_env s \<and> executions s = [0] \<and> card (active_ids (store s)) \<le> 1"
proof (cases sample_started)
  case None
  then show ?thesis using sample_started_run by simp
next
  case (Some s)
  have r: "task_reachable sample_env s"
    using Some unfolding sample_started_def by (rule run_actions_reachable [OF reach_new])
  have "case sample_started of None \<Rightarrow> False | Some s \<Rightarrow> \<not> lostReap s \<and> MaxConcurrency (limits (store s)) = 1"
    by code_simp
  then have l: "\<not> lostReap s" "MaxConcurrency (limits (store s)) = 1" unfolding Some option.case by blast+
  have "\<forall>b. 16 \<le> length (sha256 sample_env b)" by (auto simp: sample_env_def min_def)
  then have "int (card (active_ids (store s))) \<le> 1" using concurrency_respected [OF r _ l(1)] l(2) by simp
  then show ?thesis using r sample_started_run [unfolded Some option.case] by auto
qed

text \<open>
  The run that breaks the limit. The executor of a task sleeps for longer than the grace period; the worker
  decides to queue the task again; before it appends that state the executor wakes up, claims the task
  and says that it runs. The append is refused, its error is dropped, and the task is not counted.
\<close>

definition late :: int where "late = 100 * second"

definition sample_second :: request where
  "sample_second = sample_request\<lparr>IdempotencyKey := str ''k2''\<rparr>"

definition sample_overlap :: "task_system option" where
  "sample_overlap = run_actions
     ([ASubmit sample_request, ASubmit sample_second, AWorker, ABegin] @ replicate 6 (APass 5) @
      [ABegin] @ replicate 4 (APass late) @ [ABegin, APass (2 * late)] @ replicate 4 (AExec (2 * late)) @
      replicate 5 (APass (2 * late))) sample_new"

definition overlaps :: "task_system \<Rightarrow> bytes \<Rightarrow> bytes \<Rightarrow> bool" where
  "overlaps s i j \<longleftrightarrow> MaxConcurrency (limits (store s)) = 1 \<and> lostReap s \<and> i \<noteq> j \<and>
     active_at (store s) i \<and> active_at (store s) j \<and>
     (case readPersistedRequest sample_env i (store s) of Inl e \<Rightarrow> False | Inr p \<Rightarrow>
        (case readPersistedRequest sample_env j (store s) of Inl e \<Rightarrow> False | Inr q \<Rightarrow>
           LockKeys (Request p) = LockKeys (Request q) \<and> LockKeys (Request p) \<noteq> []))"

lemma sample_overlap_run:
  "case sample_overlap of None \<Rightarrow> False
   | Some s \<Rightarrow> overlaps s (taskIDOf sample_env [] (str ''k1'')) (taskIDOf sample_env [] (str ''k2''))"
  by code_simp

text \<open>A task that comes to life between the decision of the worker to queue it again and the refused
  append is not counted in that pass: a second task is started although only one may be active, and
  both hold the same lock key.\<close>

theorem lost_reap_overlaps:
  "\<exists>s i j p q. task_reachable sample_env s \<and> MaxConcurrency (limits (store s)) = 1 \<and> lostReap s \<and> i \<noteq> j \<and>
     active_at (store s) i \<and> active_at (store s) j \<and> readPersistedRequest sample_env i (store s) = Inr p \<and>
     readPersistedRequest sample_env j (store s) = Inr q \<and> LockKeys (Request p) = LockKeys (Request q) \<and>
     LockKeys (Request p) \<noteq> []"
proof (cases sample_overlap)
  case None
  then show ?thesis using sample_overlap_run by simp
next
  case (Some s)
  have r: "task_reachable sample_env s"
    using Some unfolding sample_overlap_def by (rule run_actions_reachable [OF reach_new])
  obtain i j where "overlaps s i j" using sample_overlap_run unfolding Some option.case by blast
  then obtain p q where "readPersistedRequest sample_env i (store s) = Inr p"
    "readPersistedRequest sample_env j (store s) = Inr q" "LockKeys (Request p) = LockKeys (Request q)"
    "LockKeys (Request p) \<noteq> []"
    unfolding overlaps_def by (cases "readPersistedRequest sample_env i (store s)";
      cases "readPersistedRequest sample_env j (store s)") simp_all
  with r \<open>overlaps s i j\<close> show ?thesis unfolding overlaps_def by blast
qed

end
