(* ===== verification/Go_Strings.thy ===== *)
theory Go_Strings
  imports Go_Hex
begin

text \<open>
  What the text edit engine uses of Go's \<^verbatim>\<open>strings\<close>, \<^verbatim>\<open>strconv\<close>, \<^verbatim>\<open>unicode/utf8\<close> and
  \<^verbatim>\<open>path/filepath\<close> (as built for Unix). A Go string is its list of bytes; runes are decoded by
  \<^verbatim>\<open>decode_rune\<close>, an invalid byte being one rune U+FFFD that is not a space.
\<close>

subsection \<open>Splitting and joining\<close>

text \<open>\<^verbatim>\<open>strings.Split(s, c)\<close> for a one-byte separator and \<^verbatim>\<open>strings.Join\<close>.\<close>

fun split_on :: "byte \<Rightarrow> bytes \<Rightarrow> bytes list" where
  "split_on c [] = [[]]"
| "split_on c (x # xs) =
     (if x = c then [] # split_on c xs
      else (case split_on c xs of [] \<Rightarrow> [[x]] | l # ls \<Rightarrow> (x # l) # ls))"

fun join_with :: "bytes \<Rightarrow> bytes list \<Rightarrow> bytes" where
  "join_with sep [] = []"
| "join_with sep [l] = l"
| "join_with sep (l # m # ls) = l @ sep @ join_with sep (m # ls)"

abbreviation (input) newline :: byte where "newline \<equiv> 0x0A"
abbreviation (input) lines_of :: "bytes \<Rightarrow> bytes list" where "lines_of \<equiv> split_on newline"
abbreviation (input) unlines :: "bytes list \<Rightarrow> bytes" where "unlines \<equiv> join_with [newline]"

lemma split_on_ne [simp]: "split_on c s \<noteq> []"
  by (induction s) (auto split: list.splits)

lemma length_split_on: "length (split_on c s) = length (filter (\<lambda>x. x = c) s) + 1"
  by (induction s) (auto split: list.splits)

lemma join_with_Cons: "ls \<noteq> [] \<Longrightarrow> join_with sep (l # ls) = l @ sep @ join_with sep ls"
  by (cases ls) auto

lemma join_split: "join_with [c] (split_on c s) = s"
proof (induction s)
  case (Cons x xs)
  obtain l ls where e: "split_on c xs = l # ls" using split_on_ne by (cases "split_on c xs") auto
  show ?case using Cons e by (cases ls) auto
qed simp

lemma split_on_clean: "c \<notin> set l \<Longrightarrow> split_on c l = [l]"
  by (induction l) auto

lemma split_on_append: "c \<notin> set l \<Longrightarrow> split_on c (l @ c # s) = l # split_on c s"
  by (induction l) auto

lemma split_join:
  "ls \<noteq> [] \<Longrightarrow> (\<And>l. l \<in> set ls \<Longrightarrow> c \<notin> set l) \<Longrightarrow> split_on c (join_with [c] ls) = ls"
proof (induction ls)
  case (Cons l ls)
  then show ?case by (cases ls) (auto simp: split_on_clean split_on_append)
qed simp

lemma split_on_lines_clean: "l \<in> set (split_on c s) \<Longrightarrow> c \<notin> set l"
  by (induction s arbitrary: l) (auto split: if_splits list.splits)

lemma join_append:
  "as \<noteq> [] \<Longrightarrow> bs \<noteq> [] \<Longrightarrow> join_with sep (as @ bs) = join_with sep as @ sep @ join_with sep bs"
proof (induction as)
  case (Cons a as)
  then show ?case by (cases as) (auto simp: join_with_Cons)
qed simp

subsection \<open>Prefixes and searching\<close>

definition has_prefix :: "bytes \<Rightarrow> bytes \<Rightarrow> bool" where
  "has_prefix p s \<longleftrightarrow> take (length p) s = p"

definition trim_prefix :: "bytes \<Rightarrow> bytes \<Rightarrow> bytes" where
  "trim_prefix p s = (if has_prefix p s then drop (length p) s else s)"

lemma has_prefix_append [simp]: "has_prefix p (p @ s)"
  by (simp add: has_prefix_def)

lemma has_prefixE: "has_prefix p s \<Longrightarrow> (\<And>t. s = p @ t \<Longrightarrow> thesis) \<Longrightarrow> thesis"
  unfolding has_prefix_def by (metis append_take_drop_id)

lemma has_prefix_iff: "has_prefix p s \<longleftrightarrow> (\<exists>t. s = p @ t)"
  by (auto elim: has_prefixE)

lemma has_prefix_Nil [simp]: "has_prefix [] s"
  by (simp add: has_prefix_def)

text \<open>\<^verbatim>\<open>strings.Index\<close>, \<^verbatim>\<open>strings.Contains\<close>, \<^verbatim>\<open>strings.Replace(s, old, new, 1)\<close> and, for a
  non-empty \<^verbatim>\<open>old\<close>, \<^verbatim>\<open>strings.ReplaceAll\<close>.\<close>

fun index_of :: "bytes \<Rightarrow> bytes \<Rightarrow> nat option" where
  "index_of w [] = (if w = [] then Some 0 else None)"
| "index_of w (x # xs) = (if has_prefix w (x # xs) then Some 0 else map_option Suc (index_of w xs))"

definition contains :: "bytes \<Rightarrow> bytes \<Rightarrow> bool" where
  "contains s w \<longleftrightarrow> index_of w s \<noteq> None"

definition replace_first :: "bytes \<Rightarrow> bytes \<Rightarrow> bytes \<Rightarrow> bytes" where
  "replace_first s old new =
     (case index_of old s of None \<Rightarrow> s | Some i \<Rightarrow> take i s @ new @ drop (i + length old) s)"

function replace_all :: "bytes \<Rightarrow> bytes \<Rightarrow> bytes \<Rightarrow> bytes" where
  "replace_all old new s =
     (if s = [] then []
      else if old \<noteq> [] \<and> has_prefix old s then new @ replace_all old new (drop (length old) s)
      else hd s # replace_all old new (tl s))"
  by pat_completeness auto
termination by (relation "measure (\<lambda>(old, new, s). length s)") auto

declare replace_all.simps [simp del]

lemma index_of_Some:
  "index_of w s = Some i \<Longrightarrow> i + length w \<le> length s \<and> s = take i s @ w @ drop (i + length w) s"
proof (induction s arbitrary: i)
  case (Cons x xs)
  show ?case
  proof (cases "has_prefix w (x # xs)")
    case True
    then obtain t where "x # xs = w @ t" by (rule has_prefixE)
    moreover have "i = 0" using True Cons.prems by simp
    ultimately show ?thesis by simp
  next
    case False
    then obtain j where "index_of w xs = Some j" "i = Suc j" using Cons.prems by auto
    then show ?thesis using Cons.IH [of j] by simp
  qed
qed (auto split: if_splits)

lemma index_of_least:
  "index_of w s = Some i \<Longrightarrow> j < i \<Longrightarrow> \<not> has_prefix w (drop j s)"
proof (induction s arbitrary: i j)
  case (Cons x xs)
  then show ?case by (cases j) (auto split: if_splits)
qed (auto split: if_splits)

lemma index_of_None: "index_of w s = None \<longleftrightarrow> (\<nexists>a b. s = a @ w @ b)"
proof (induction s)
  case (Cons x xs)
  have "(\<exists>a b. x # xs = a @ w @ b) \<longleftrightarrow> has_prefix w (x # xs) \<or> (\<exists>a b. xs = a @ w @ b)"
  proof
    assume "\<exists>a b. x # xs = a @ w @ b"
    then obtain a b where e: "x # xs = a @ w @ b" by blast
    then show "has_prefix w (x # xs) \<or> (\<exists>a b. xs = a @ w @ b)"
      by (cases a) (auto simp: has_prefix_iff)
  next
    assume "has_prefix w (x # xs) \<or> (\<exists>a b. xs = a @ w @ b)"
    then show "\<exists>a b. x # xs = a @ w @ b"
      by (metis append_Cons append_Nil has_prefix_iff)
  qed
  then show ?case using Cons by auto
qed auto

lemma contains_iff: "contains s w \<longleftrightarrow> (\<exists>a b. s = a @ w @ b)"
  using index_of_None by (auto simp: contains_def)

subsection \<open>Spaces\<close>

abbreviation (input) is_indent :: "byte \<Rightarrow> bool" where "is_indent b \<equiv> b = 0x20 \<or> b = 0x09"

text \<open>\<^verbatim>\<open>strings.TrimLeft(s, " \t")\<close>.\<close>

definition trim_indent :: "bytes \<Rightarrow> bytes" where
  "trim_indent s = dropWhile is_indent s"

text \<open>\<^verbatim>\<open>utf8.DecodeLastRuneInString\<close>: the start of the last rune is looked for in the four bytes
  before the end.\<close>

definition last_rune_start :: "bytes \<Rightarrow> nat" where
  "last_rune_start s =
     (let n = length s in
      if 2 \<le> n \<and> rune_start (s ! (n - 2)) then n - 2
      else if 3 \<le> n \<and> rune_start (s ! (n - 3)) then n - 3
      else if 4 \<le> n \<and> rune_start (s ! (n - 4)) then n - 4
      else n - 5)"

definition decode_last_rune :: "bytes \<Rightarrow> rune \<times> nat" where
  "decode_last_rune s =
     (if s = [] then (rune_error, 0)
      else if last s < 0x80 then (uint (last s), 1)
      else (let start = last_rune_start s; (r, sz) = decode_rune (drop start s) in
            if start + sz \<noteq> length s then (rune_error, 1) else (r, sz)))"

function trim_left :: "bytes \<Rightarrow> bytes" where
  "trim_left s =
     (if s \<noteq> [] \<and> is_space (fst (decode_rune s)) then trim_left (drop (snd (decode_rune s)) s) else s)"
  by pat_completeness auto
termination by (relation "measure length") (use decode_rune_step_measure in auto)

declare trim_left.simps [simp del]

lemma decode_last_rune_pos: "s \<noteq> [] \<Longrightarrow> 1 \<le> snd (decode_last_rune s)"
proof -
  assume s: "s \<noteq> []"
  then have "last_rune_start s < length s" by (auto simp: last_rune_start_def Let_def)
  then have "1 \<le> snd (decode_rune (drop (last_rune_start s) s))" by (intro decode_rune_size(1)) simp
  with s show ?thesis by (auto simp: decode_last_rune_def Let_def split: prod.splits)
qed

function trim_right :: "bytes \<Rightarrow> bytes" where
  "trim_right s =
     (if s \<noteq> [] \<and> is_space (fst (decode_last_rune s))
      then trim_right (take (length s - snd (decode_last_rune s)) s) else s)"
  by pat_completeness auto
termination
proof (relation "measure length", goal_cases)
  case (2 s)
  then have "1 \<le> snd (decode_last_rune s)" "0 < length s" using decode_last_rune_pos by auto
  then show ?case by simp
qed simp

declare trim_right.simps [simp del]

text \<open>\<^verbatim>\<open>strings.TrimSpace\<close> and \<^verbatim>\<open>strings.Fields\<close>.\<close>

definition trim_space :: "bytes \<Rightarrow> bytes" where
  "trim_space s = trim_right (trim_left s)"

function fields_from :: "bytes \<Rightarrow> bytes \<Rightarrow> bytes list" where
  "fields_from acc s =
     (if s = [] then (if acc = [] then [] else [acc])
      else if is_space (fst (decode_rune s))
      then (if acc = [] then [] else [acc]) @ fields_from [] (drop (snd (decode_rune s)) s)
      else fields_from (acc @ take (snd (decode_rune s)) s) (drop (snd (decode_rune s)) s))"
  by pat_completeness auto
termination
  by (relation "measure (\<lambda>(acc, s). length s)") (use decode_rune_step_measure in auto)

declare fields_from.simps [simp del]

definition string_fields :: "bytes \<Rightarrow> bytes list" where
  "string_fields s = fields_from [] s"

subsection \<open>Numbers\<close>

text \<open>\<^verbatim>\<open>strconv.Atoi\<close> of a digit sequence, clamped at the largest \<^verbatim>\<open>int\<close> as its range error
  does, and \<^verbatim>\<open>strconv.Itoa\<close> of a natural number.\<close>

definition is_digit :: "byte \<Rightarrow> bool" where
  "is_digit b \<longleftrightarrow> 0x30 \<le> b \<and> b \<le> 0x39"

definition digits_value :: "bytes \<Rightarrow> int" where
  "digits_value ds = foldl (\<lambda>v d. v * 10 + (uint d - 48)) 0 ds"

definition max_int :: int where
  "max_int = 2 ^ 63 - 1"

definition atoi :: "bytes \<Rightarrow> int" where
  "atoi ds = min (digits_value ds) max_int"

function itoa :: "nat \<Rightarrow> bytes" where
  "itoa n = (if n < 10 then [of_nat (48 + n)] else itoa (n div 10) @ [of_nat (48 + n mod 10)])"
  by pat_completeness auto
termination by (relation "measure (\<lambda>n. n)") auto

declare itoa.simps [simp del]

lemma uint_digit: "d < 10 \<Longrightarrow> uint (of_nat (48 + d) :: byte) = int (48 + d)"
proof -
  have "list_all (\<lambda>d. uint (of_nat (48 + d) :: byte) = int (48 + d)) [0..<10]" by code_simp
  then have "\<forall>d \<in> set [0..<10]. uint (of_nat (48 + d) :: byte) = int (48 + d)"
    unfolding list_all_iff .
  then show "d < 10 \<Longrightarrow> uint (of_nat (48 + d) :: byte) = int (48 + d)" by simp
qed

lemma is_digit_digit: "d < 10 \<Longrightarrow> is_digit (of_nat (48 + d))"
proof -
  have "list_all (\<lambda>d. is_digit (of_nat (48 + d))) [0..<10]" by code_simp
  then have "\<forall>d \<in> set [0..<10]. is_digit (of_nat (48 + d))" unfolding list_all_iff .
  then show "d < 10 \<Longrightarrow> is_digit (of_nat (48 + d))" by simp
qed

lemma itoa_digits: "list_all is_digit (itoa n) \<and> itoa n \<noteq> []"
proof (induction n rule: itoa.induct)
  case (1 n)
  then show ?case
    using is_digit_digit [of n] is_digit_digit [of "n mod 10"] by (subst (1 2) itoa.simps) simp
qed

lemma digits_value_snoc: "digits_value (ds @ [d]) = digits_value ds * 10 + (uint d - 48)"
  by (simp add: digits_value_def)

lemma digits_value_itoa: "digits_value (itoa n) = int n"
proof (induction n rule: itoa.induct)
  case (1 n)
  show ?case
  proof (cases "n < 10")
    case True
    then show ?thesis by (subst itoa.simps) (simp add: digits_value_def uint_digit del: of_nat_add)
  next
    case False
    then have "itoa n = itoa (n div 10) @ [of_nat (48 + n mod 10)]" by (subst itoa.simps) simp
    then have "digits_value (itoa n) = int (n div 10) * 10 + (uint (of_nat (48 + n mod 10) :: byte) - 48)"
      using False 1 by (simp add: digits_value_snoc)
    also have "\<dots> = int (n div 10) * 10 + int (n mod 10)"
      by (subst uint_digit) (simp_all only: mod_less_divisor zero_less_numeral of_nat_add
        of_nat_numeral add_diff_cancel_left')
    also have "\<dots> = int (n div 10 * 10 + n mod 10)" by (simp only: of_nat_add of_nat_mult of_nat_numeral)
    also have "\<dots> = int n" by (simp only: div_mult_mod_eq)
    finally show ?thesis .
  qed
qed

lemma atoi_itoa: "int n \<le> max_int \<Longrightarrow> atoi (itoa n) = int n"
  by (simp add: atoi_def digits_value_itoa)

lemma digits_value_nonneg: "list_all is_digit ds \<Longrightarrow> 0 \<le> digits_value ds"
proof (induction ds rule: rev_induct)
  case (snoc d ds)
  have "48 \<le> uint d" using snoc.prems by (simp add: is_digit_def word_le_def)
  then show ?case using snoc by (simp add: digits_value_snoc)
qed (simp add: digits_value_def)

lemma atoi_nonneg: "list_all is_digit ds \<Longrightarrow> 0 \<le> atoi ds"
  by (simp add: atoi_def digits_value_nonneg max_int_def)

subsection \<open>Paths\<close>

text \<open>\<^verbatim>\<open>filepath.Base\<close> on Unix, where \<^verbatim>\<open>ToSlash\<close> and \<^verbatim>\<open>FromSlash\<close> are the identity.\<close>

abbreviation (input) slash :: byte where "slash \<equiv> 0x2F"

definition strip_slashes :: "bytes \<Rightarrow> bytes" where
  "strip_slashes p = rev (dropWhile (\<lambda>b. b = slash) (rev p))"

definition path_base :: "bytes \<Rightarrow> bytes" where
  "path_base p =
     (if p = [] then str ''.''
      else let b = last (split_on slash (strip_slashes p)) in if b = [] then [slash] else b)"

end
