(* ===== verification/Text_Endings.thy ===== *)
theory Text_Endings
  imports Go_Strings
begin

text \<open>
  The line endings of a text held in memory (\<^verbatim>\<open>handler/line_endings.go\<close> and
  \<^verbatim>\<open>restoreDocumentLineEndings\<close> of \<^verbatim>\<open>handler/text_document.go\<close>): detection, conversion, and
  restoring the style of a document after an edit. Theory \<^verbatim>\<open>Text_Endings_Correct\<close> shows that the
  conversion agrees with the streaming converter.
\<close>

subsection \<open>Definitions\<close>

datatype line_ending_style = LineEndingCRLF | LineEndingLF | LineEndingMixed | LineEndingNone

record line_ending_info =
  infoStyle :: line_ending_style
  infoCRLFCount :: nat
  infoLFCount :: nat

definition determineStyle :: "nat \<Rightarrow> nat \<Rightarrow> line_ending_style" where
  "determineStyle crlfCount lfCount =
     (if crlfCount = 0 \<and> lfCount = 0 then LineEndingNone
      else if 0 < crlfCount \<and> lfCount = 0 then LineEndingCRLF
      else if crlfCount = 0 \<and> 0 < lfCount then LineEndingLF
      else LineEndingMixed)"

fun detectLoop :: "bytes \<Rightarrow> nat \<Rightarrow> nat \<Rightarrow> nat \<times> nat" where
  "detectLoop [] crlf lf = (crlf, lf)"
| "detectLoop [x] crlf lf = (if x = 0x0A then (crlf, lf + 1) else (crlf, lf))"
| "detectLoop (x # y # data) crlf lf =
     (if x = 0x0D \<and> y = 0x0A then detectLoop data (crlf + 1) lf
      else if x = 0x0A then detectLoop (y # data) crlf (lf + 1)
      else detectLoop (y # data) crlf lf)"

definition DetectLineEndings :: "bytes \<Rightarrow> line_ending_info" where
  "DetectLineEndings data =
     (let (crlf, lf) = detectLoop data 0 0 in
      \<lparr>infoStyle = determineStyle crlf lf, infoCRLFCount = crlf, infoLFCount = lf\<rparr>)"

abbreviation (input) crlf_bytes :: bytes where "crlf_bytes \<equiv> [0x0D, 0x0A]"
abbreviation (input) lf_bytes :: bytes where "lf_bytes \<equiv> [0x0A]"

definition ConvertLineEndings :: "bytes \<Rightarrow> line_ending_style \<Rightarrow> bytes" where
  "ConvertLineEndings text' targetStyle =
     (let hasCRLF = contains text' crlf_bytes in
      if targetStyle = LineEndingCRLF then
        (if \<not> hasCRLF then replace_all lf_bytes crlf_bytes text'
         else replace_all lf_bytes crlf_bytes (replace_all crlf_bytes lf_bytes text'))
      else if \<not> hasCRLF then text'
      else replace_all crlf_bytes lf_bytes text')"

definition restoreDocumentLineEndings :: "bytes \<Rightarrow> line_ending_style \<Rightarrow> bytes" where
  "restoreDocumentLineEndings content style =
     (case style of
        LineEndingCRLF \<Rightarrow> ConvertLineEndings content LineEndingCRLF
      | _ \<Rightarrow> ConvertLineEndings content LineEndingLF)"

end
