(* ===== verification/Text_Endings_Correct.thy ===== *)
theory Text_Endings_Correct
  imports Text_Endings Line_Endings
begin

text \<open>
  The in-memory conversion of \<^verbatim>\<open>handler/line_endings.go\<close> is the conversion of the streaming reader, and
  restoring the endings of a document gives back its text.
\<close>

subsection \<open>The replacements as conversions\<close>

lemma detectLoop_countEndings:
  "detectLoop data a b =
     (a + fst (countEndings 0x0D 0x0A data), b + snd (countEndings 0x0D 0x0A data))"
  by (induction data a b rule: detectLoop.induct) (auto split: prod.splits)

lemma replace_crlf: "replace_all crlf_bytes lf_bytes s = convertEndings 0x0D 0x0A False s"
proof (induction s rule: induct_list012)
  case (3 x y xs)
  then show ?case
    by (subst replace_all.simps) (auto simp: has_prefix_def targetEnding_def)
qed (simp_all add: replace_all.simps has_prefix_def targetEnding_def)

lemma replace_lf: "replace_all lf_bytes crlf_bytes s = concat (map (\<lambda>x. if x = 0x0A then crlf_bytes else [x]) s)"
  by (induction s) (subst replace_all.simps; simp add: has_prefix_def)+

lemma replace_lf_convert:
  "replace_all lf_bytes crlf_bytes (convertEndings 0x0D 0x0A False s) = convertEndings 0x0D 0x0A True s"
  unfolding replace_lf
  by (induction s rule: induct_list012)
    (auto simp: targetEnding_def)

lemma no_crlf_unchanged:
  "\<not> contains s crlf_bytes \<Longrightarrow> convertEndings 0x0D 0x0A False s = s"
proof (induction s rule: induct_list012)
  case (3 x y xs)
  have "\<not> (x = 0x0D \<and> y = 0x0A)"
    using 3(3) unfolding contains_iff by (metis append_Cons append_Nil)
  moreover have "\<not> contains (y # xs) crlf_bytes"
    using 3(3) unfolding contains_iff by (metis append_Cons)
  ultimately show ?case using 3 by (auto simp: targetEnding_def)
qed (simp_all add: targetEnding_def)

lemma ConvertLineEndings_convert:
  "ConvertLineEndings s style = convertEndings 0x0D 0x0A (style = LineEndingCRLF) s"
proof (cases "contains s crlf_bytes")
  case False
  then show ?thesis
    using replace_lf_convert [of s] by (auto simp: ConvertLineEndings_def no_crlf_unchanged)
qed (auto simp: ConvertLineEndings_def replace_crlf replace_lf_convert Let_def)

subsection \<open>Restoring a document's style\<close>

lemma convert_lf_same:
  fixes s :: bytes
  shows "fst (countEndings 0x0D 0x0A s) = 0 \<Longrightarrow> convertEndings 0x0D 0x0A False s = s"
  by (induction s rule: induct_list012)
    (auto simp: targetEnding_def split: prod.splits if_splits)

lemma convert_crlf_same:
  fixes s :: bytes
  shows "snd (countEndings 0x0D 0x0A s) = 0 \<Longrightarrow> convertEndings 0x0D 0x0A True s = s"
  by (induction s rule: induct_list012)
    (auto simp: targetEnding_def split: prod.splits if_splits)

text \<open>A text whose carriage returns are all single stays free of pairs once they are removed.\<close>

lemma convert_head_lf:
  assumes "\<not> contains (x # s) [0x0D, 0x0D, 0x0A]" "\<not> (x = 0x0D \<and> s \<noteq> [] \<and> hd s = 0x0A)" "x \<noteq> 0x0A"
  shows "convertEndings 0x0D 0x0A t (x # convertEndings 0x0D 0x0A False s)
    = x # convertEndings 0x0D 0x0A t (convertEndings 0x0D 0x0A False s)"
proof (cases "x = 0x0D")
  case True
  have n: "\<not> (\<exists>a b. x # s = a @ [0x0D, 0x0D, 0x0A] @ b)" using assms(1) by (simp add: contains_iff)
  have h: "\<nexists>u. s = 0x0D # 0x0A # u"
  proof
    assume "\<exists>u. s = 0x0D # 0x0A # u"
    then obtain u where "s = 0x0D # 0x0A # u" by blast
    then have "x # s = [] @ [0x0D, 0x0D, 0x0A] @ u" using True by simp
    then show False using n by blast
  qed
  show ?thesis
  proof (cases s)
    case (Cons a u)
    have "a \<noteq> 0x0A" using assms(2) True Cons by simp
    then show ?thesis
    proof (cases u)
      case u: (Cons b v)
      have "\<not> (a = 0x0D \<and> b = 0x0A)" using h Cons u by blast
      then show ?thesis using \<open>a \<noteq> 0x0A\<close> True by (auto simp add: Cons u convertEndings_cr)
    qed (simp add: Cons True convertEndings_cr)
  qed (use True in simp)
next
  case False
  then show ?thesis using assms(3) by (rule convertEndings_other)
qed

lemma contains_tail: "\<not> contains (x # s) w \<Longrightarrow> \<not> contains s w"
  unfolding contains_iff by (metis append_Cons)

lemma convert_roundtrip:
  "\<not> contains s [0x0D, 0x0D, 0x0A] \<Longrightarrow>
   convertEndings 0x0D 0x0A t (convertEndings 0x0D 0x0A False s) = convertEndings 0x0D 0x0A t s"
proof (induction s rule: induct_list012)
  case (3 x y xs)
  note c = contains_tail [OF 3(3)] contains_tail [OF contains_tail [OF 3(3)]]
  consider "x = 0x0D" "y = 0x0A" | "x = 0x0A" | "\<not> (x = 0x0D \<and> y = 0x0A)" "x \<noteq> 0x0A" by blast
  then show ?case
  proof cases
    case 1
    then show ?thesis using 3 c by (simp add: targetEnding_def convertEndings_lf)
  next
    case 2
    then show ?thesis using 3 c by (simp add: targetEnding_def convertEndings_lf)
  next
    case other: 3
    then show ?thesis using 3 other c convert_head_lf [of x "y # xs"] by auto
  qed
qed (simp_all add: targetEnding_def)

text \<open>C34: writing back the endings of a document's style after normalising them to LF restores its
  text exactly, when the style is not mixed and no CR CR LF occurs in it.\<close>

theorem line_endings_restored:
  assumes "infoStyle (DetectLineEndings s) \<noteq> LineEndingMixed" "\<not> contains s [0x0D, 0x0D, 0x0A]"
  shows "restoreDocumentLineEndings (ConvertLineEndings s LineEndingLF)
    (infoStyle (DetectLineEndings s)) = s"
proof -
  obtain a b where ab: "countEndings 0x0D 0x0A s = (a, b)" by fastforce
  have st: "infoStyle (DetectLineEndings s) = determineStyle a b"
    by (simp add: DetectLineEndings_def detectLoop_countEndings ab)
  have "a = 0 \<or> b = 0" using assms(1) unfolding st by (auto simp: determineStyle_def split: if_splits)
  moreover have "restoreDocumentLineEndings (ConvertLineEndings s LineEndingLF) (determineStyle a b)
    = convertEndings 0x0D 0x0A (determineStyle a b = LineEndingCRLF) s"
    using convert_roundtrip [OF assms(2)]
    by (cases "determineStyle a b") (simp_all add: restoreDocumentLineEndings_def ConvertLineEndings_convert)
  ultimately show ?thesis
    using convert_lf_same [of s] convert_crlf_same [of s] ab unfolding st
    by (auto simp: determineStyle_def split: if_splits)
qed

theorem line_endings_restored_witness:
  "restoreDocumentLineEndings (ConvertLineEndings (str ''a'' @ [13, 10, 98, 13, 10]) LineEndingLF)
     (infoStyle (DetectLineEndings (str ''a'' @ [13, 10, 98, 13, 10]))) = str ''a'' @ [13, 10, 98, 13, 10]
   \<and> infoStyle (DetectLineEndings (str ''a'' @ [13, 10, 98, 13, 10])) = LineEndingCRLF"
proof -
  have st: "infoStyle (DetectLineEndings (str ''a'' @ [13, 10, 98, 13, 10])) = LineEndingCRLF" by code_simp
  have "\<not> contains (str ''a'' @ [13, 10, 98, 13, 10]) [0x0D, 0x0D, 0x0A]" by code_simp
  with st show ?thesis using line_endings_restored [of "str ''a'' @ [13, 10, 98, 13, 10]"] by simp
qed

text \<open>The in-memory conversion of a text is the conversion that the streaming reader performs
  on it, for both target styles.\<close>

theorem in_memory_conversion_streams:
  "ConvertLineEndings s LineEndingCRLF = convertEndings 0x0D 0x0A True s
   \<and> ConvertLineEndings s LineEndingLF = convertEndings 0x0D 0x0A False s
   \<and> (infoCRLFCount (DetectLineEndings s), infoLFCount (DetectLineEndings s))
      = countEndings 0x0D 0x0A s"
  by (simp add: ConvertLineEndings_convert DetectLineEndings_def detectLoop_countEndings split: prod.splits)

text \<open>Two carriage returns before a line feed are not restored: the document's style is CR LF, but
  normalising leaves a pair that the restoring conversion takes for one ending.\<close>

lemma double_cr_lost:
  "infoStyle (DetectLineEndings [97, 13, 13, 10]) = LineEndingCRLF
   \<and> restoreDocumentLineEndings (ConvertLineEndings [97, 13, 13, 10] LineEndingLF) LineEndingCRLF
      = [97, 13, 10]"
  by code_simp

end
