(* ===== verification/Edit_Patch.thy ===== *)
theory Edit_Patch
  imports Text_Endings
begin

text \<open>
  Strict application of a unified diff to a text (\<^verbatim>\<open>handler/edit_patch.go\<close>): the parser of the
  patch, the check of its file header, and the loop that applies the hunks. A line is its bytes
  without the newline. Every error of the code is a constructor of \<^verbatim>\<open>patch_error\<close>;
  \<^verbatim>\<open>PatchPanic\<close> stands for the run-time error of indexing an empty hunk line.
\<close>

subsection \<open>Definitions\<close>

definition maxPatchHunks :: nat where
  "maxPatchHunks = 1000"

record patch_hunk =
  oldStart :: int
  oldCount :: int
  newStart :: int
  newCount :: int
  hunkLines :: "bytes list"

datatype patch_error =
    PatchEmpty
  | PatchTooLarge int
  | PatchHeaderMissing
  | PatchCreation
  | PatchPathMismatch bytes bytes
  | PatchMultiFile
  | InvalidHunkHeader nat
  | NoNewlineMarker
  | BodyLacksPrefix nat
  | InvalidPrefix nat
  | CountMismatch int int int int
  | TooManyHunks
  | NoHunks
  | ZeroLineNumbers
  | HunksOutOfOrder
  | NewStartMismatch int int
  | ContextMismatch nat
  | DeletionMismatch nat
  | PatchPanic

text \<open>The regular expression \<^verbatim>\<open>^@@ -(\d+)(?:,(\d+))? \+(\d+)(?:,(\d+))? @@(?: .*)?$\<close> on a line:
  its four groups, an absent one being empty.\<close>

definition take_number :: "bytes \<Rightarrow> (bytes \<times> bytes) option" where
  "take_number s =
     (if takeWhile is_digit s = [] then None else Some (takeWhile is_digit s, dropWhile is_digit s))"

definition take_count :: "bytes \<Rightarrow> bytes \<times> bytes" where
  "take_count s =
     (case s of
        c # t \<Rightarrow> if c = 0x2C then (case take_number t of Some r \<Rightarrow> r | None \<Rightarrow> ([], s)) else ([], s)
      | [] \<Rightarrow> ([], s))"

definition expect :: "bytes \<Rightarrow> bytes \<Rightarrow> bytes option" where
  "expect p s = (if has_prefix p s then Some (drop (length p) s) else None)"

definition unifiedHunkHeader :: "bytes \<Rightarrow> (bytes \<times> bytes \<times> bytes \<times> bytes) option" where
  "unifiedHunkHeader line =
     (case expect (str ''@@ -'') line of None \<Rightarrow> None
      | Some s1 \<Rightarrow>
     (case take_number s1 of None \<Rightarrow> None
      | Some (a, s2) \<Rightarrow>
     (case take_count s2 of (b, s3) \<Rightarrow>
     (case expect (str '' +'') s3 of None \<Rightarrow> None
      | Some s4 \<Rightarrow>
     (case take_number s4 of None \<Rightarrow> None
      | Some (c, s5) \<Rightarrow>
     (case take_count s5 of (d, s6) \<Rightarrow>
     (case expect (str '' @@'') s6 of None \<Rightarrow> None
      | Some s7 \<Rightarrow> if s7 = [] \<or> hd s7 = 0x20 then Some (a, b, c, d) else None)))))))"

definition mustPatchInt :: "bytes \<Rightarrow> int" where
  "mustPatchInt v = atoi v"

definition patchCount :: "bytes \<Rightarrow> int" where
  "patchCount v = (if v = [] then 1 else mustPatchInt v)"

definition validatePatchHeaderPath :: "bytes \<Rightarrow> bytes \<Rightarrow> patch_error + unit" where
  "validatePatchHeaderPath header targetPath =
     (case string_fields header of
        [] \<Rightarrow> Inl PatchCreation
      | f # _ \<Rightarrow>
          if f = str ''/dev/null'' then Inl PatchCreation
          else if path_base (trim_prefix (str ''b/'') (trim_prefix (str ''a/'') f)) \<noteq> path_base targetPath
          then Inl (PatchPathMismatch f (path_base targetPath))
          else Inr ())"

definition file_header :: "bytes \<Rightarrow> bool" where
  "file_header line \<longleftrightarrow> has_prefix (str ''--- '') line \<or> has_prefix (str ''+++ '') line"

text \<open>The lines of a hunk's body: the loop stops at the next hunk header, at the empty last line, or at
  the end; it returns the line index, the lines left, the two counts and the body.\<close>

fun parseBody :: "nat \<Rightarrow> bytes list \<Rightarrow> int \<Rightarrow> int \<Rightarrow> bytes list \<Rightarrow>
    patch_error + (nat \<times> bytes list \<times> int \<times> int \<times> bytes list)" where
  "parseBody index [] oldSeen newSeen body = Inr (index, [], oldSeen, newSeen, body)"
| "parseBody index (line # rest) oldSeen newSeen body =
     (if unifiedHunkHeader line \<noteq> None then Inr (index, line # rest, oldSeen, newSeen, body)
      else if file_header line then Inl PatchMultiFile
      else if line = 0x5C # str '' No newline at end of file'' then Inl NoNewlineMarker
      else if line = [] \<and> rest = [] then Inr (index, line # rest, oldSeen, newSeen, body)
      else if line = [] then Inl (BodyLacksPrefix (index + 1))
      else if hd line = 0x20 then parseBody (index + 1) rest (oldSeen + 1) (newSeen + 1) (body @ [line])
      else if hd line = 0x2D then parseBody (index + 1) rest (oldSeen + 1) newSeen (body @ [line])
      else if hd line = 0x2B then parseBody (index + 1) rest oldSeen (newSeen + 1) (body @ [line])
      else Inl (InvalidPrefix (index + 1)))"

lemma parseBody_shorter:
  "parseBody index ls o' n body = Inr (index', ls', o'', n'', body') \<Longrightarrow> length ls' \<le> length ls"
  by (induction index ls o' n body arbitrary: index' ls' o'' n'' body' rule: parseBody.induct)
    (auto split: if_splits)

function parseHunks :: "nat \<Rightarrow> bytes list \<Rightarrow> patch_hunk list \<Rightarrow> patch_error + patch_hunk list" where
  "parseHunks index [] hunks = Inr hunks"
| "parseHunks index (line # rest) hunks =
     (if line = [] then parseHunks (index + 1) rest hunks
      else if file_header line then Inl PatchMultiFile
      else (case unifiedHunkHeader line of
        None \<Rightarrow> Inl (InvalidHunkHeader (index + 1))
      | Some (a, b, c, d) \<Rightarrow>
          (case parseBody (index + 1) rest 0 0 [] of
             Inl e \<Rightarrow> Inl e
           | Inr (index', rest', oldSeen, newSeen, body) \<Rightarrow>
               if oldSeen \<noteq> patchCount b \<or> newSeen \<noteq> patchCount d
               then Inl (CountMismatch (patchCount b) (patchCount d) oldSeen newSeen)
               else (let hunks' = hunks @ [\<lparr>oldStart = mustPatchInt a, oldCount = patchCount b,
                       newStart = mustPatchInt c, newCount = patchCount d, hunkLines = body\<rparr>] in
                 if maxPatchHunks < length hunks' then Inl TooManyHunks
                 else parseHunks index' rest' hunks'))))"
  by pat_completeness auto
termination
  by (relation "measure (\<lambda>(index, ls, hunks). length ls)")
    (auto dest: parseBody_shorter simp: le_imp_less_Suc)

definition parseUnifiedPatch :: "bytes \<Rightarrow> bytes \<Rightarrow> int \<Rightarrow> patch_error + patch_hunk list" where
  "parseUnifiedPatch patchText targetPath maxBytes =
     (if blank patchText then Inl PatchEmpty
      else if int (length patchText) > maxBytes then Inl (PatchTooLarge maxBytes)
      else (let ls = lines_of (ConvertLineEndings patchText LineEndingLF) in
        if length ls < 3 \<or> \<not> has_prefix (str ''--- '') (ls ! 0) \<or> \<not> has_prefix (str ''+++ '') (ls ! 1)
        then Inl PatchHeaderMissing
        else (case validatePatchHeaderPath (trim_space (trim_prefix (str ''--- '') (ls ! 0))) targetPath of
          Inl e \<Rightarrow> Inl e
        | Inr _ \<Rightarrow>
          (case validatePatchHeaderPath (trim_space (trim_prefix (str ''+++ '') (ls ! 1))) targetPath of
            Inl e \<Rightarrow> Inl e
          | Inr _ \<Rightarrow>
            (case parseHunks 2 (drop 2 ls) [] of
              Inl e \<Rightarrow> Inl e
            | Inr hunks \<Rightarrow> if hunks = [] then Inl NoHunks else Inr hunks)))))"

text \<open>The lines of one hunk against the source: the next source index and the output.\<close>

fun applyBody :: "bytes list \<Rightarrow> bytes list \<Rightarrow> nat \<Rightarrow> bytes list \<Rightarrow> patch_error + (nat \<times> bytes list)" where
  "applyBody src [] sourceIndex output = Inr (sourceIndex, output)"
| "applyBody src (patchLine # ls) sourceIndex output =
     (case patchLine of
        [] \<Rightarrow> Inl PatchPanic
      | c # text' \<Rightarrow>
          if c = 0x20 then
            (if length src \<le> sourceIndex \<or> src ! sourceIndex \<noteq> text'
             then Inl (ContextMismatch (sourceIndex + 1))
             else applyBody src ls (sourceIndex + 1) (output @ [text']))
          else if c = 0x2D then
            (if length src \<le> sourceIndex \<or> src ! sourceIndex \<noteq> text'
             then Inl (DeletionMismatch (sourceIndex + 1))
             else applyBody src ls (sourceIndex + 1) output)
          else if c = 0x2B then applyBody src ls sourceIndex (output @ [text'])
          else applyBody src ls sourceIndex output)"

definition hunkIndexOf :: "patch_hunk \<Rightarrow> int" where
  "hunkIndexOf h = (if oldCount h = 0 then oldStart h else oldStart h - 1)"

definition expectedNewStart :: "patch_hunk \<Rightarrow> bytes list \<Rightarrow> int" where
  "expectedNewStart h output =
     (if newCount h = 0 then int (length output) else int (length output) + 1)"

primrec applyHunks :: "bytes list \<Rightarrow> patch_hunk list \<Rightarrow> bytes list \<Rightarrow> nat \<Rightarrow> int \<Rightarrow> patch_error + bytes" where
  "applyHunks src [] output sourceIndex lastOldEnd =
     Inr (unlines (output @ drop sourceIndex src))"
| "applyHunks src (h # hs) output sourceIndex lastOldEnd =
     (if oldStart h < 0 \<or> newStart h < 0 \<or> oldStart h = 0 \<and> oldCount h \<noteq> 0
         \<or> newStart h = 0 \<and> newCount h \<noteq> 0
      then Inl ZeroLineNumbers
      else if hunkIndexOf h < int sourceIndex \<or> oldStart h < lastOldEnd
         \<or> hunkIndexOf h > int (length src)
      then Inl HunksOutOfOrder
      else (let output1 = output @ take (nat (hunkIndexOf h) - sourceIndex) (drop sourceIndex src) in
        if newStart h \<noteq> expectedNewStart h output1
        then Inl (NewStartMismatch (newStart h) (expectedNewStart h output1))
        else (case applyBody src (hunkLines h) (nat (hunkIndexOf h)) output1 of
          Inl e \<Rightarrow> Inl e
        | Inr (sourceIndex', output') \<Rightarrow>
            applyHunks src hs output' sourceIndex' (oldStart h + oldCount h))))"

definition applyPatchHunks :: "bytes \<Rightarrow> patch_hunk list \<Rightarrow> patch_error + bytes" where
  "applyPatchHunks content hunks = applyHunks (lines_of content) hunks [] 0 0"

definition applyUnifiedPatch :: "bytes \<Rightarrow> bytes \<Rightarrow> bytes \<Rightarrow> int \<Rightarrow> patch_error + bytes" where
  "applyUnifiedPatch content patchText targetPath maxBytes =
     (case parseUnifiedPatch patchText targetPath maxBytes of
        Inl e \<Rightarrow> Inl e
      | Inr hunks \<Rightarrow> applyPatchHunks content hunks)"

subsection \<open>What applying a patch means\<close>

text \<open>The lines a hunk takes from the source and the lines it puts in their place.\<close>

definition old_block :: "bytes list \<Rightarrow> bytes list" where
  "old_block ls = map tl (filter (\<lambda>l. hd l = 0x20 \<or> hd l = 0x2D) ls)"

definition new_block :: "bytes list \<Rightarrow> bytes list" where
  "new_block ls = map tl (filter (\<lambda>l. hd l = 0x20 \<or> hd l = 0x2B) ls)"

definition hunk_ok :: "patch_hunk \<Rightarrow> bool" where
  "hunk_ok h \<longleftrightarrow> (\<forall>l \<in> set (hunkLines h). l \<noteq> [] \<and> hd l \<in> {0x20, 0x2D, 0x2B})
     \<and> oldCount h = int (length (old_block (hunkLines h)))
     \<and> newCount h = int (length (new_block (hunkLines h)))"

text \<open>Gaps of unchanged lines with the blocks of the hunks between them.\<close>

fun weave :: "(bytes list \<Rightarrow> bytes list) \<Rightarrow> bytes list list \<Rightarrow> patch_hunk list \<Rightarrow> bytes list" where
  "weave block (g # gs) (h # hs) = g @ block (hunkLines h) @ weave block gs hs"
| "weave block (g # gs) [] = g"
| "weave block [] hs = []"

definition one_line :: "int \<Rightarrow> int" where
  "one_line n = (if n = 0 then 0 else 1)"

text \<open>The header numbers of every hunk are the places of its blocks (the line before the place for an
  empty block), and a hunk does not start before the line after the previous one.\<close>

fun located :: "nat \<Rightarrow> nat \<Rightarrow> int \<Rightarrow> bytes list list \<Rightarrow> patch_hunk list \<Rightarrow> bool" where
  "located op np e [g] [] \<longleftrightarrow> True"
| "located op np e (g # gs) (h # hs) \<longleftrightarrow>
     oldStart h = int (op + length g) + one_line (oldCount h)
     \<and> newStart h = int (np + length g) + one_line (newCount h)
     \<and> e \<le> oldStart h
     \<and> located (op + length g + length (old_block (hunkLines h)))
         (np + length g + length (new_block (hunkLines h))) (oldStart h + oldCount h) gs hs"
| "located op np e gs hs \<longleftrightarrow> False"

subsection \<open>Applying the hunks\<close>

lemma block_simps [simp]:
  "old_block [] = []" "new_block [] = []"
  "old_block ((c # t) # ls) = (if c = 0x20 \<or> c = 0x2D then t # old_block ls else old_block ls)"
  "new_block ((c # t) # ls) = (if c = 0x20 \<or> c = 0x2B then t # new_block ls else new_block ls)"
  by (simp_all add: old_block_def new_block_def)

lemma drop_nth_Cons:
  "(\<exists>rest. drop i xs = y # ys @ rest) \<longleftrightarrow> i < length xs \<and> xs ! i = y \<and> (\<exists>rest. drop (Suc i) xs = ys @ rest)"
  by (cases "i < length xs") (auto simp flip: Cons_nth_drop_Suc)

lemma applyBody_iff:
  "\<forall>l \<in> set ls. l \<noteq> [] \<Longrightarrow>
   applyBody src ls i out = Inr (j, out') \<longleftrightarrow>
     j = i + length (old_block ls) \<and> out' = out @ new_block ls
     \<and> (\<exists>rest. drop i src = old_block ls @ rest)"
proof (induction ls arbitrary: i out)
  case (Cons l ls)
  then obtain c t where l: "l = c # t" by (cases l) auto
  show ?case using Cons
    by (auto simp: l drop_nth_Cons not_le)
qed auto

lemma drop_split:
  assumes "i \<le> k" "k \<le> length xs"
  shows "drop i xs = g @ ys \<and> length g = k - i \<longleftrightarrow> g = take (k - i) (drop i xs) \<and> drop k xs = ys"
proof
  assume a: "drop i xs = g @ ys \<and> length g = k - i"
  have "drop k xs = drop (k - i) (drop i xs)" using assms by simp
  also have "\<dots> = ys" using a by simp
  finally show "g = take (k - i) (drop i xs) \<and> drop k xs = ys" using a by simp
next
  assume a: "g = take (k - i) (drop i xs) \<and> drop k xs = ys"
  have "drop i xs = take (k - i) (drop i xs) @ drop (k - i) (drop i xs)" by (simp only: append_take_drop_id)
  with a assms show "drop i xs = g @ ys \<and> length g = k - i" by simp
qed

lemma located_Cons_gaps: "located op np e gs (h # hs) \<Longrightarrow> \<exists>g gs'. gs = g # gs'"
  by (cases gs) auto

lemma hunk_ok_ne: "hunk_ok h \<Longrightarrow> \<forall>l \<in> set (hunkLines h). l \<noteq> []"
  by (simp add: hunk_ok_def)

text \<open>One hunk that is applied: its place \<^verbatim>\<open>k\<close>, and what is left to do.\<close>

lemma applyHunks_Cons:
  assumes "hunk_ok h" "si \<le> length src"
  shows "applyHunks src (h # hs) out si e = Inr r \<longleftrightarrow>
    (\<exists>k rest. si \<le> k \<and> k \<le> length src \<and> oldStart h = int k + one_line (oldCount h) \<and> e \<le> oldStart h
      \<and> newStart h = int (length out + (k - si)) + one_line (newCount h)
      \<and> drop k src = old_block (hunkLines h) @ rest
      \<and> applyHunks src hs (out @ take (k - si) (drop si src) @ new_block (hunkLines h))
          (k + length (old_block (hunkLines h))) (oldStart h + oldCount h) = Inr r)"
    (is "?L \<longleftrightarrow> (\<exists>k rest. ?R k rest)")
proof -
  note body = applyBody_iff [OF hunk_ok_ne [OF assms(1)]]
  have c: "0 \<le> oldCount h" "0 \<le> newCount h" using assms(1) by (simp_all add: hunk_ok_def)
  have idx: "hunkIndexOf h = oldStart h - one_line (oldCount h)" by (simp add: hunkIndexOf_def one_line_def)
  have new: "expectedNewStart h xs = int (length xs) + one_line (newCount h)" for xs
    by (simp add: expectedNewStart_def one_line_def)
  show ?thesis
  proof
    assume ?L
    define k where "k = nat (hunkIndexOf h)"
    have z: "0 \<le> oldStart h" "oldStart h = 0 \<longrightarrow> oldCount h = 0" and
      o: "int si \<le> hunkIndexOf h" "e \<le> oldStart h" "hunkIndexOf h \<le> int (length src)"
      and n: "newStart h = expectedNewStart h (out @ take (k - si) (drop si src))"
      and b: "(case applyBody src (hunkLines h) k (out @ take (k - si) (drop si src)) of
          Inl e \<Rightarrow> Inl e
        | Inr (si', out') \<Rightarrow> applyHunks src hs out' si' (oldStart h + oldCount h)) = Inr r"
      using \<open>?L\<close> by (auto simp: Let_def k_def split: if_splits)
    have k: "hunkIndexOf h = int k" using o(1) by (simp add: k_def)
    obtain rest where "drop k src = old_block (hunkLines h) @ rest"
      "applyHunks src hs (out @ take (k - si) (drop si src) @ new_block (hunkLines h))
          (k + length (old_block (hunkLines h))) (oldStart h + oldCount h) = Inr r"
      using b body by (auto split: sum.splits prod.splits)
    then have "?R k rest" using o n k idx new assms(2) by auto
    then show "\<exists>k rest. ?R k rest" by blast
  next
    assume "\<exists>k rest. ?R k rest"
    then obtain k rest where R: "?R k rest" by blast
    then have k: "hunkIndexOf h = int k" by (simp add: idx)
    have "oldStart h = 0 \<Longrightarrow> oldCount h = 0" "newStart h = 0 \<Longrightarrow> newCount h = 0"
      "0 \<le> oldStart h" "0 \<le> newStart h"
      using R by (auto simp: one_line_def split: if_splits)
    then have z: "\<not> (oldStart h < 0 \<or> newStart h < 0 \<or> oldStart h = 0 \<and> oldCount h \<noteq> 0
      \<or> newStart h = 0 \<and> newCount h \<noteq> 0)" by linarith
    have o: "\<not> (int k < int si \<or> oldStart h < e \<or> int k > int (length src))"
      using R by linarith
    have n: "\<not> (newStart h \<noteq> expectedNewStart h (out @ take (k - si) (drop si src)))"
      using R by (auto simp: new min_def of_nat_diff)
    have b: "applyBody src (hunkLines h) k (out @ take (k - si) (drop si src)) =
        Inr (k + length (old_block (hunkLines h)),
          (out @ take (k - si) (drop si src)) @ new_block (hunkLines h))"
      using R body by blast
    show ?L
      unfolding applyHunks.simps k nat_int Let_def if_not_P [OF z] if_not_P [OF o] if_not_P [OF n] b
        sum.case prod.case append_assoc using R by blast
  qed
qed

lemma applyHunks_gap:
  assumes "hunk_ok h" "si \<le> length src"
  shows "applyHunks src (h # hs) out si e = Inr r \<longleftrightarrow>
    (\<exists>g rest. drop si src = g @ old_block (hunkLines h) @ rest
      \<and> oldStart h = int (si + length g) + one_line (oldCount h)
      \<and> newStart h = int (length out + length g) + one_line (newCount h) \<and> e \<le> oldStart h
      \<and> applyHunks src hs (out @ g @ new_block (hunkLines h))
          (si + length g + length (old_block (hunkLines h))) (oldStart h + oldCount h) = Inr r)"
    (is "?L \<longleftrightarrow> (\<exists>g rest. ?R g rest)")
proof
  assume ?L
  then obtain k rest where k: "si \<le> k" "k \<le> length src" "oldStart h = int k + one_line (oldCount h)"
    "e \<le> oldStart h" "newStart h = int (length out + (k - si)) + one_line (newCount h)"
    "drop k src = old_block (hunkLines h) @ rest"
    "applyHunks src hs (out @ take (k - si) (drop si src) @ new_block (hunkLines h))
      (k + length (old_block (hunkLines h))) (oldStart h + oldCount h) = Inr r"
    unfolding applyHunks_Cons [OF assms] by blast
  have "length (take (k - si) (drop si src)) = k - si" using k(1,2) by simp
  then have "?R (take (k - si) (drop si src)) rest"
    using k drop_split [OF k(1,2), of "take (k - si) (drop si src)" "old_block (hunkLines h) @ rest"]
    by simp
  then show "\<exists>g rest. ?R g rest" by blast
next
  assume "\<exists>g rest. ?R g rest"
  then obtain g rest where R: "?R g rest" by blast
  define k where "k = si + length g"
  have "length src - si = length (g @ old_block (hunkLines h) @ rest)"
    using arg_cong [OF conjunct1 [OF R], of length] by simp
  then have k: "si \<le> k" "k \<le> length src" using assms(2) by (simp_all add: k_def)
  have s: "g = take (k - si) (drop si src)" "drop k src = old_block (hunkLines h) @ rest"
    using drop_split [OF k, of g "old_block (hunkLines h) @ rest"] R by (simp_all add: k_def)
  show ?L unfolding applyHunks_Cons [OF assms]
  proof (intro exI conjI)
    show "si \<le> k" "k \<le> length src" by (rule k)+
    show "newStart h = int (length out + (k - si)) + one_line (newCount h)" using R by (simp add: k_def)
    show "oldStart h = int k + one_line (oldCount h)" "e \<le> oldStart h" using R by (simp_all add: k_def)
    show "applyHunks src hs (out @ take (k - si) (drop si src) @ new_block (hunkLines h))
        (k + length (old_block (hunkLines h))) (oldStart h + oldCount h) = Inr r"
      unfolding s(1) [symmetric] using R unfolding k_def by blast
  qed (rule s(2))
qed

text \<open>The loop succeeds exactly when the rest of the source is gaps and old blocks in the stated places.\<close>

lemma applyHunks_iff:
  assumes "\<forall>h \<in> set hs. hunk_ok h" "si \<le> length src"
  shows "applyHunks src hs out si e = Inr r \<longleftrightarrow>
     (\<exists>gs. drop si src = weave old_block gs hs \<and> located si (length out) e gs hs
        \<and> r = unlines (out @ weave new_block gs hs))"
  using assms
proof (induction hs arbitrary: out si e)
  case Nil
  have "located si (length out) e gs [] \<longleftrightarrow> (\<exists>g. gs = [g])" for gs by (cases gs rule: list_cases4) auto
  then show ?case by (auto intro: exI [of _ "[drop si src]"])
next
  case (Cons h hs)
  let ?ob = "old_block (hunkLines h)"
  let ?nb = "new_block (hunkLines h)"
  have ok: "hunk_ok h" "\<forall>h \<in> set hs. hunk_ok h" using Cons.prems by auto
  have IH: "applyHunks src hs (out @ g @ ?nb) (si + length g + length ?ob) e' = Inr r \<longleftrightarrow>
    (\<exists>gs. rest = weave old_block gs hs \<and> located (si + length g + length ?ob)
        (length out + length g + length ?nb) e' gs hs
      \<and> r = unlines (out @ g @ ?nb @ weave new_block gs hs))"
    if d: "drop si src = g @ ?ob @ rest" for g rest e'
  proof -
    have l: "si + length g + length ?ob \<le> length src"
      using arg_cong [OF d, of length] Cons.prems(2) by simp
    have "drop (length g + length ?ob) (drop si src) = rest" unfolding d by simp
    then have "drop (si + length g + length ?ob) src = rest" by (simp add: ac_simps)
    then show ?thesis using Cons.IH [OF ok(2) l, of "out @ g @ ?nb" e'] by (simp add: add.assoc)
  qed
  have ex: "(\<exists>gs. P gs \<and> located si np e gs (h # hs) \<and> Q gs)
    \<longleftrightarrow> (\<exists>g gs. P (g # gs) \<and> located si np e (g # gs) (h # hs) \<and> Q (g # gs))" for P Q np
    using located_Cons_gaps by blast
  show ?case
    unfolding applyHunks_gap [OF ok(1) Cons.prems(2)] ex weave.simps located.simps
  proof (intro iffI; elim exE conjE)
    fix g rest
    assume a: "drop si src = g @ ?ob @ rest"
      "applyHunks src hs (out @ g @ ?nb) (si + length g + length ?ob) (oldStart h + oldCount h) = Inr r"
      and l: "oldStart h = int (si + length g) + one_line (oldCount h)"
        "newStart h = int (length out + length g) + one_line (newCount h)" "e \<le> oldStart h"
    show "\<exists>g gs. drop si src = g @ ?ob @ weave old_block gs hs \<and>
        (oldStart h = int (si + length g) + one_line (oldCount h) \<and>
         newStart h = int (length out + length g) + one_line (newCount h) \<and> e \<le> oldStart h \<and>
         located (si + length g + length ?ob) (length out + length g + length ?nb)
           (oldStart h + oldCount h) gs hs) \<and> r = unlines (out @ g @ ?nb @ weave new_block gs hs)"
      using IH [OF a(1)] a l by blast
  qed (use IH in blast)
qed

subsection \<open>What the parser yields\<close>

lemma parseBody_counts:
  "parseBody index ls a b body = Inr (index', ls', a', b', body') \<Longrightarrow>
   \<exists>body''. body' = body @ body'' \<and> (\<forall>l \<in> set body''. l \<noteq> [] \<and> hd l \<in> {0x20, 0x2D, 0x2B})
     \<and> set body'' \<subseteq> set ls \<and> set ls' \<subseteq> set ls
     \<and> a' = a + int (length (old_block body'')) \<and> b' = b + int (length (new_block body''))"
proof (induction index ls a b body arbitrary: index' ls' a' b' body' rule: parseBody.induct)
  case (2 index line rest a b body)
  show ?case
  proof (cases "unifiedHunkHeader line \<noteq> None \<or> line = []")
    case True
    then show ?thesis using "2.prems" by (auto split: if_splits)
  next
    case False
    then obtain c t where l: "line = c # t" by (cases line) auto
    have u: "unifiedHunkHeader line = None" using False by (cases "unifiedHunkHeader line") auto
    have f: "\<not> file_header line" "line \<noteq> 0x5C # str '' No newline at end of file''"
      and c: "c \<in> {0x20, 0x2D, 0x2B}" using "2.prems" u by (auto simp: l split: if_splits)
    define a1 where "a1 = a + (if c = 0x20 \<or> c = 0x2D then 1 else 0)"
    define b1 where "b1 = b + (if c = 0x20 \<or> c = 0x2B then 1 else 0)"
    have "parseBody (index + 1) rest a1 b1 (body @ [line]) = Inr (index', ls', a', b', body')"
      using "2.prems" c f u by (auto simp: a1_def b1_def l)
    then obtain body'' where b: "body' = (body @ [line]) @ body''"
      "\<forall>l \<in> set body''. l \<noteq> [] \<and> hd l \<in> {0x20, 0x2D, 0x2B}" "set body'' \<subseteq> set rest" "set ls' \<subseteq> set rest"
      "a' = a1 + int (length (old_block body''))" "b' = b1 + int (length (new_block body''))"
      using "2.IH" c f u unfolding a1_def b1_def l by (elim insertE) auto
    then show ?thesis
      using c by (intro exI [of _ "line # body''"]) (auto simp: l a1_def b1_def)
  qed
qed auto

lemma parseHunks_ok:
  "parseHunks index ls hunks = Inr hs \<Longrightarrow> \<forall>h \<in> set hunks. hunk_ok h \<Longrightarrow> length hunks \<le> maxPatchHunks \<Longrightarrow>
   (\<forall>h \<in> set hs. hunk_ok h) \<and> length hs \<le> maxPatchHunks"
proof (induction index ls hunks arbitrary: hs rule: parseHunks.induct)
  case (2 index line rest hunks)
  show ?case
  proof (cases "line = []")
    case True
    then show ?thesis using 2 by simp
  next
    case False
    then obtain a b c d where u: "unifiedHunkHeader line = Some (a, b, c, d)" and f: "\<not> file_header line"
      using "2.prems"(1) by (auto split: option.splits if_splits)
    obtain i ls' o' n' body where p: "parseBody (index + 1) rest 0 0 [] = Inr (i, ls', o', n', body)"
      using "2.prems"(1) False f u by (cases "parseBody (index + 1) rest 0 0 []") auto
    define h where "h = \<lparr>oldStart = mustPatchInt a, oldCount = patchCount b,
      newStart = mustPatchInt c, newCount = patchCount d, hunkLines = body\<rparr>"
    have m: "\<not> (o' \<noteq> patchCount b \<or> n' \<noteq> patchCount d)" "\<not> maxPatchHunks < length (hunks @ [h])"
      "parseHunks i ls' (hunks @ [h]) = Inr hs"
      using "2.prems"(1) False f u p by (auto simp: h_def Let_def split: if_splits)
    have "hunk_ok h" using parseBody_counts [OF p] m(1) by (auto simp: hunk_ok_def h_def)
    then have "\<forall>h \<in> set (hunks @ [h]). hunk_ok h" "length (hunks @ [h]) \<le> maxPatchHunks"
      using "2.prems"(2) m(2) by auto
    then show ?thesis
      using "2.IH"(2) [OF False f u refl refl refl p refl refl refl refl m(1) refl m(2) [unfolded h_def]
        m(3) [unfolded h_def]] unfolding h_def by blast
  qed
qed simp

lemma parseUnifiedPatch_ok:
  assumes "parseUnifiedPatch p target n = Inr hs"
  shows "\<forall>h \<in> set hs. hunk_ok h" "hs \<noteq> []" "length hs \<le> maxPatchHunks" "int (length p) \<le> n"
proof -
  have "parseHunks 2 (drop 2 (lines_of (ConvertLineEndings p LineEndingLF))) [] = Inr hs \<and> hs \<noteq> []
    \<and> int (length p) \<le> n"
    using assms by (auto simp: parseUnifiedPatch_def Let_def split: if_splits sum.splits)
  then show "\<forall>h \<in> set hs. hunk_ok h" "hs \<noteq> []" "length hs \<le> maxPatchHunks" "int (length p) \<le> n"
    using parseHunks_ok by force+
qed

subsection \<open>A patch is applied exactly where it says\<close>

text \<open>C25: the text is patched exactly when its lines are gaps and old blocks in the places that the hunk
  headers give, and then the result is the same gaps with the new blocks. Hunks read from a patch
  always have the line counts that their headers declare.\<close>

theorem patch_replaces_blocks:
  assumes "parseUnifiedPatch patch target maxBytes = Inr hunks"
  shows "applyUnifiedPatch content patch target maxBytes = Inr r \<longleftrightarrow>
    (\<exists>gaps. lines_of content = weave old_block gaps hunks \<and> located 0 0 0 gaps hunks
      \<and> r = unlines (weave new_block gaps hunks))"
  using applyHunks_iff [OF parseUnifiedPatch_ok(1) [OF assms], of 0 "lines_of content" "[]" 0 r] assms
  by (simp add: applyUnifiedPatch_def applyPatchHunks_def)

definition sample_patch :: bytes where
  "sample_patch = str ''--- a/x.go'' @ [10] @ str ''+++ b/x.go'' @ [10] @ str ''@@ -1,2 +1,2 @@'' @ [10]
     @ str '' a'' @ [10] @ str ''-b'' @ [10] @ str ''+c'' @ [10]"

theorem patch_replaces_blocks_witness:
  "applyUnifiedPatch (str ''a'' @ [10] @ str ''b'' @ [10]) sample_patch (str ''d/x.go'') 1000
     = Inr (str ''a'' @ [10] @ str ''c'' @ [10])"
proof -
  define hs where "hs = [\<lparr>oldStart = 1, oldCount = 2, newStart = 1, newCount = 2,
    hunkLines = [str '' a'', str ''-b'', str ''+c'']\<rparr>]"
  have p: "parseUnifiedPatch sample_patch (str ''d/x.go'') 1000 = Inr hs"
    unfolding hs_def by code_simp
  have "lines_of (str ''a'' @ [10] @ str ''b'' @ [10]) = weave old_block [[], [[]]] hs
    \<and> located 0 0 0 [[], [[]]] hs
    \<and> str ''a'' @ [10] @ str ''c'' @ [10] = unlines (weave new_block [[], [[]]] hs)"
    unfolding hs_def by code_simp
  then show ?thesis using patch_replaces_blocks [OF p] by blast
qed

subsection \<open>Undoing a patch\<close>

definition flip_line :: "bytes \<Rightarrow> bytes" where
  "flip_line l = (if hd l = 0x2D then 0x2B # tl l else if hd l = 0x2B then 0x2D # tl l else l)"

definition flip_hunk :: "patch_hunk \<Rightarrow> patch_hunk" where
  "flip_hunk h = \<lparr>oldStart = newStart h, oldCount = newCount h, newStart = oldStart h,
     newCount = oldCount h, hunkLines = map flip_line (hunkLines h)\<rparr>"

text \<open>Two hunks in a row have a line between them, as a diff writes them.\<close>

fun separated :: "patch_hunk list \<Rightarrow> bool" where
  "separated (h # k # hs) \<longleftrightarrow>
     oldStart h - one_line (oldCount h) + oldCount h < oldStart k - one_line (oldCount k) \<and> separated (k # hs)"
| "separated hs \<longleftrightarrow> True"

lemma flip_hunk_simps [simp]:
  "oldStart (flip_hunk h) = newStart h" "oldCount (flip_hunk h) = newCount h"
  "newStart (flip_hunk h) = oldStart h" "newCount (flip_hunk h) = oldCount h"
  "hunkLines (flip_hunk h) = map flip_line (hunkLines h)"
  by (simp_all add: flip_hunk_def)

lemma flip_blocks:
  "\<forall>l \<in> set ls. l \<noteq> [] \<and> hd l \<in> {0x20, 0x2D, 0x2B} \<Longrightarrow>
   old_block (map flip_line ls) = new_block ls \<and> new_block (map flip_line ls) = old_block ls"
proof (induction ls)
  case (Cons l ls)
  then obtain c t where "l = c # t" by (cases l) auto
  then show ?case using Cons by (auto simp: flip_line_def)
qed simp

lemma flip_hunk_ok: "hunk_ok h \<Longrightarrow> hunk_ok (flip_hunk h)"
proof -
  assume h: "hunk_ok h"
  then have "\<forall>l \<in> set (hunkLines h). l \<noteq> [] \<and> hd l \<in> {0x20, 0x2D, 0x2B}" by (simp add: hunk_ok_def)
  moreover from this have "\<forall>l \<in> set (map flip_line (hunkLines h)). l \<noteq> [] \<and> hd l \<in> {0x20, 0x2D, 0x2B}"
    by (auto simp: flip_line_def)
  ultimately show ?thesis using h flip_blocks [of "hunkLines h"]
    by (simp add: hunk_ok_def flip_hunk_def)
qed

lemma weave_flip:
  "\<forall>h \<in> set hs. hunk_ok h \<Longrightarrow>
   weave old_block gs (map flip_hunk hs) = weave new_block gs hs
   \<and> weave new_block gs (map flip_hunk hs) = weave old_block gs hs"
proof (induction new_block gs hs rule: weave.induct)
  case (1 g gs h hs)
  then show ?case using flip_blocks [of "hunkLines h"] by (simp add: flip_hunk_def hunk_ok_def)
qed auto

text \<open>In a flipped patch the places are the same with the two texts exchanged; the order condition
  needs the line between two hunks.\<close>

lemma located_flip:
  assumes "\<forall>h \<in> set hs. hunk_ok h" "separated hs" "located op np e gs hs"
    "e' \<le> int np + 1" "e' \<le> int np \<or> hs = [] \<or> int op < oldStart (hd hs) - one_line (oldCount (hd hs))"
  shows "located np op e' gs (map flip_hunk hs)"
  using assms
proof (induction op np e gs hs arbitrary: e' rule: located.induct)
  case (2 op np e g gs h hs)
  have ok: "hunk_ok h" using 2 by simp
  have l: "oldStart h = int (op + length g) + one_line (oldCount h)"
    "newStart h = int (np + length g) + one_line (newCount h)" "e \<le> oldStart h"
    "located (op + length g + length (old_block (hunkLines h)))
      (np + length g + length (new_block (hunkLines h))) (oldStart h + oldCount h) gs hs"
    using "2.prems"(3) unfolding located.simps by blast+
  have n: "newCount h = int (length (new_block (hunkLines h)))"
    "oldCount h = int (length (old_block (hunkLines h)))" using ok by (simp_all add: hunk_ok_def)
  have o: "0 \<le> one_line m" "one_line m \<le> 1" for m by (simp_all add: one_line_def)
  have "length g = 0 \<or> 1 \<le> length g" by linarith
  then have "e' \<le> newStart h" using "2.prems"(4,5) l(1,2) o [of "newCount h"] by auto
  moreover have "located (np + length g + length (new_block (hunkLines h)))
      (op + length g + length (old_block (hunkLines h))) (newStart h + newCount h) gs (map flip_hunk hs)"
  proof (rule "2.IH")
    show "newStart h + newCount h \<le> int (np + length g + length (new_block (hunkLines h))) + 1"
      using l n o [of "newCount h"] by simp
    show "newStart h + newCount h \<le> int (np + length g + length (new_block (hunkLines h))) \<or> hs = []
      \<or> int (op + length g + length (old_block (hunkLines h))) < oldStart (hd hs) - one_line (oldCount (hd hs))"
      using "2.prems"(2) l n by (cases hs) auto
    show "separated hs" using "2.prems"(2) by (cases hs) auto
    show "\<forall>h \<in> set hs. hunk_ok h" using "2.prems"(1) by simp
  qed (rule l(4))
  ultimately show ?case
    using l n flip_blocks [of "hunkLines h"] ok by (simp add: hunk_ok_def)
qed auto

lemma new_block_clean: "\<forall>l \<in> set ls. c \<notin> set l \<Longrightarrow> \<forall>l \<in> set (new_block ls). c \<notin> set l"
  by (auto simp: new_block_def) (metis list.sel(2) list.set_sel(2))+

lemma weave_clean:
  "\<forall>l \<in> set (weave a gs hs). P l \<Longrightarrow> \<forall>h \<in> set hs. \<forall>l \<in> set (b (hunkLines h)). P l \<Longrightarrow>
   \<forall>l \<in> set (weave b gs hs). P l"
  by (induction a gs hs rule: weave.induct) auto

text \<open>
  Without a line between the hunks, or with an empty result, the inverse does not give back the text:
  an insertion behind a line and the deletion of the next one are applied, but the inverse is refused
  as out of order; and the deletion of the only line leaves the empty text, which has one empty line.
\<close>

definition adjacent_hunks :: "patch_hunk list" where
  "adjacent_hunks = [\<lparr>oldStart = 1, oldCount = 0, newStart = 2, newCount = 1, hunkLines = [str ''+x'']\<rparr>,
     \<lparr>oldStart = 2, oldCount = 1, newStart = 2, newCount = 0, hunkLines = [str ''-b'']\<rparr>]"

lemma adjacent_hunks_not_undone:
  "\<not> separated adjacent_hunks"
  "applyPatchHunks (unlines [str ''a'', str ''b'', str ''c'']) adjacent_hunks
     = Inr (unlines [str ''a'', str ''x'', str ''c''])"
  "isl (applyPatchHunks (unlines [str ''a'', str ''x'', str ''c'']) (map flip_hunk adjacent_hunks))"
  by code_simp+

lemma emptied_text_not_undone:
  defines "h \<equiv> \<lparr>oldStart = 1, oldCount = 1, newStart = 0, newCount = 0, hunkLines = [str ''-a'']\<rparr>"
  shows "applyPatchHunks (str ''a'') [h] = Inr []"
    "applyPatchHunks [] [flip_hunk h] \<noteq> Inr (str ''a'')"
  unfolding h_def by code_simp+

text \<open>C26: applying a patch and then its inverse, the additions and deletions of every hunk exchanged,
  gives back the text, for a patch with a line between any two of its hunks whose lines hold no line
  feed and whose result is not empty. Neither of the two conditions can be dropped.\<close>

theorem patch_undone:
  assumes "\<forall>h \<in> set hunks. hunk_ok h" "separated hunks"
    and "\<forall>h \<in> set hunks. \<forall>l \<in> set (hunkLines h). newline \<notin> set l"
    and "applyPatchHunks content hunks = Inr r" "r \<noteq> []"
  shows "applyPatchHunks r (map flip_hunk hunks) = Inr content"
proof -
  obtain gs where gs: "lines_of content = weave old_block gs hunks" "located 0 0 0 gs hunks"
    "r = unlines (weave new_block gs hunks)"
    using assms(4) applyHunks_iff [OF assms(1), of 0 "lines_of content" "[]" 0 r]
    by (auto simp: applyPatchHunks_def)
  have "\<forall>l \<in> set (weave new_block gs hunks). newline \<notin> set l"
  proof (rule weave_clean)
    show "\<forall>l \<in> set (weave old_block gs hunks). newline \<notin> set l"
      using gs(1) split_on_lines_clean [of _ newline content] by simp
    show "\<forall>h \<in> set hunks. \<forall>l \<in> set (new_block (hunkLines h)). newline \<notin> set l"
      using assms(3) new_block_clean by blast
  qed
  moreover have "weave new_block gs hunks \<noteq> []" using gs(3) assms(5) by auto
  ultimately have r: "lines_of r = weave new_block gs hunks" unfolding gs(3) by (intro split_join) auto
  have "located 0 0 0 gs (map flip_hunk hunks)"
    by (rule located_flip [OF assms(1,2) gs(2)]) simp_all
  moreover have "\<forall>h \<in> set (map flip_hunk hunks). hunk_ok h" using assms(1) by (auto intro: flip_hunk_ok)
  ultimately have "applyPatchHunks r (map flip_hunk hunks) = Inr (unlines (weave old_block gs hunks))"
    unfolding applyPatchHunks_def using weave_flip [OF assms(1), of gs] r
    by (subst applyHunks_iff) (auto intro!: exI [of _ gs])
  then show ?thesis using gs(1) join_split [of newline content] by simp
qed

definition sample_hunks :: "patch_hunk list" where
  "sample_hunks = [\<lparr>oldStart = 1, oldCount = 1, newStart = 1, newCount = 2,
      hunkLines = [str '' a'', str ''+b'']\<rparr>,
    \<lparr>oldStart = 3, oldCount = 1, newStart = 3, newCount = 0, hunkLines = [str ''-c'']\<rparr>]"

theorem patch_undone_witness:
  "applyPatchHunks (unlines [str ''a'', str ''d'', str ''c'', str ''e'']) sample_hunks
     = Inr (unlines [str ''a'', str ''b'', str ''d'', str ''e''])
   \<and> applyPatchHunks (unlines [str ''a'', str ''b'', str ''d'', str ''e'']) (map flip_hunk sample_hunks)
     = Inr (unlines [str ''a'', str ''d'', str ''c'', str ''e''])"
proof -
  have 1: "list_all hunk_ok sample_hunks" "separated sample_hunks"
    "list_all (\<lambda>h. list_all (\<lambda>l. newline \<notin> set l) (hunkLines h)) sample_hunks"
    unfolding hunk_ok_def by code_simp+
  have 2: "applyPatchHunks (unlines [str ''a'', str ''d'', str ''c'', str ''e'']) sample_hunks
     = Inr (unlines [str ''a'', str ''b'', str ''d'', str ''e''])" by code_simp
  have 3: "unlines [str ''a'', str ''b'', str ''d'', str ''e''] \<noteq> []" by code_simp
  from patch_undone [OF _ 1(2) _ 2 3] 1 2 show ?thesis by (simp add: list_all_iff)
qed

subsection \<open>Printing and reading a patch\<close>

text \<open>The standard text of a unified diff.\<close>

definition print_header :: "patch_hunk \<Rightarrow> bytes" where
  "print_header h = str ''@@ -'' @ itoa (nat (oldStart h)) @ [0x2C] @ itoa (nat (oldCount h)) @ str '' +''
     @ itoa (nat (newStart h)) @ [0x2C] @ itoa (nat (newCount h)) @ str '' @@''"

definition print_patch :: "bytes \<Rightarrow> bytes \<Rightarrow> patch_hunk list \<Rightarrow> bytes" where
  "print_patch old new hunks =
     unlines ((str ''--- '' @ old) # (str ''+++ '' @ new)
       # concat (map (\<lambda>h. print_header h # hunkLines h) hunks))"

definition printable :: "patch_hunk \<Rightarrow> bool" where
  "printable h \<longleftrightarrow> hunk_ok h \<and> 0 \<le> oldStart h \<and> oldStart h \<le> max_int \<and> 0 \<le> newStart h
     \<and> newStart h \<le> max_int \<and> oldCount h \<le> max_int \<and> newCount h \<le> max_int
     \<and> (\<forall>l \<in> set (hunkLines h). \<not> file_header l \<and> newline \<notin> set l \<and> 0x0D \<notin> set l)"

lemma take_number_itoa: "\<not> is_digit c \<Longrightarrow> take_number (itoa n @ c # s) = Some (itoa n, c # s)"
proof -
  assume c: "\<not> is_digit c"
  have d: "\<And>x. x \<in> set (itoa n) \<Longrightarrow> is_digit x" and ne: "itoa n \<noteq> []"
    using itoa_digits [of n] by (auto simp: list_all_iff)
  then show ?thesis using c by (simp add: take_number_def takeWhile_append2 dropWhile_append2)
qed

lemma unifiedHunkHeader_print:
  "unifiedHunkHeader (print_header h) =
     Some (itoa (nat (oldStart h)), itoa (nat (oldCount h)), itoa (nat (newStart h)), itoa (nat (newCount h)))"
proof -
  have nd: "\<not> is_digit 0x2C" "\<not> is_digit 0x20" by code_simp+
  have e: "expect p (p @ s) = Some s" for p s by (simp add: expect_def)
  have c: "take_count (0x2C # itoa n @ 0x20 # s) = (itoa n, 0x20 # s)" for n s
    using nd by (simp add: take_count_def take_number_itoa)
  have s: "str '' +'' = [0x20, 0x2B]" "str '' @@'' = [0x20, 0x40, 0x40]" by code_simp+
  show ?thesis
    using e [of "str '' +''"] e [of "str '' @@'' " "[]"] nd
    by (simp add: unifiedHunkHeader_def print_header_def e take_number_itoa c s)
qed

lemma body_line_no_header:
  "l \<noteq> [] \<Longrightarrow> hd l \<in> {0x20, 0x2D, 0x2B} \<Longrightarrow>
   unifiedHunkHeader l = None \<and> l \<noteq> 0x5C # str '' No newline at end of file''"
proof -
  have s: "str ''@@ -'' = [0x40, 0x40, 0x20, 0x2D]" by code_simp
  show "l \<noteq> [] \<Longrightarrow> hd l \<in> {0x20, 0x2D, 0x2B} \<Longrightarrow> ?thesis"
    by (cases l) (auto simp: unifiedHunkHeader_def expect_def has_prefix_def s)
qed

lemma parseBody_print:
  assumes "\<forall>l \<in> set ls. l \<noteq> [] \<and> hd l \<in> {0x20, 0x2D, 0x2B} \<and> \<not> file_header l"
    "rest = [] \<or> unifiedHunkHeader (hd rest) \<noteq> None"
  shows "parseBody i (ls @ rest) a b body = Inr (i + length ls, rest,
     a + int (length (old_block ls)), b + int (length (new_block ls)), body @ ls)"
  using assms(1)
proof (induction ls arbitrary: i a b body)
  case Nil
  then show ?case using assms(2) by (cases rest) auto
next
  case (Cons l ls)
  then have l: "unifiedHunkHeader l = None \<and> l \<noteq> 0x5C # str '' No newline at end of file''"
    by (intro body_line_no_header) auto
  obtain c t where "l = c # t" "c \<in> {0x20, 0x2D, 0x2B}" using Cons.prems by (cases l) auto
  then show ?case using l Cons by auto
qed

lemma patchCount_itoa: "0 \<le> n \<Longrightarrow> n \<le> max_int \<Longrightarrow> patchCount (itoa (nat n)) = n"
  using itoa_digits [of "nat n"] by (simp add: patchCount_def mustPatchInt_def atoi_itoa)

lemma printed_not_file_header: "\<not> file_header (print_header h)" "print_header h \<noteq> []"
proof -
  have s: "str ''@@ -'' = [0x40, 0x40, 0x20, 0x2D]" "str ''--- '' = [0x2D, 0x2D, 0x2D, 0x20]"
    "str ''+++ '' = [0x2B, 0x2B, 0x2B, 0x20]" by code_simp+
  show "\<not> file_header (print_header h)" "print_header h \<noteq> []"
    by (simp_all add: file_header_def has_prefix_def print_header_def s)
qed

lemma parseHunks_print:
  assumes "\<forall>h \<in> set hs. printable h" "length acc + length hs \<le> maxPatchHunks"
  shows "parseHunks i (concat (map (\<lambda>h. print_header h # hunkLines h) hs)) acc = Inr (acc @ hs)"
  using assms
proof (induction hs arbitrary: i acc)
  case (Cons h hs)
  define rest where "rest = concat (map (\<lambda>h. print_header h # hunkLines h) hs)"
  have h: "printable h" using Cons.prems by simp
  then have "0 \<le> oldStart h" "oldStart h \<le> max_int" "0 \<le> newStart h" "newStart h \<le> max_int"
    "0 \<le> oldCount h" "oldCount h \<le> max_int" "0 \<le> newCount h" "newCount h \<le> max_int"
    by (auto simp: printable_def hunk_ok_def)
  then have c: "patchCount (itoa (nat (oldCount h))) = oldCount h" "patchCount (itoa (nat (newCount h))) = newCount h"
    "mustPatchInt (itoa (nat (oldStart h))) = oldStart h" "mustPatchInt (itoa (nat (newStart h))) = newStart h"
    by (simp_all add: patchCount_itoa mustPatchInt_def atoi_itoa)
  have "rest = [] \<or> unifiedHunkHeader (hd rest) \<noteq> None"
    by (cases hs) (simp_all add: rest_def unifiedHunkHeader_print)
  then have b: "parseBody (i + 1) (hunkLines h @ rest) 0 0 [] =
    Inr (i + 1 + length (hunkLines h), rest, oldCount h, newCount h, hunkLines h)"
    using h by (subst parseBody_print) (auto simp: printable_def hunk_ok_def)
  have "parseHunks (i + 1 + length (hunkLines h)) rest (acc @ [h]) = Inr ((acc @ [h]) @ hs)"
    unfolding rest_def by (rule Cons.IH) (use Cons.prems in auto)
  moreover have rec: "\<lparr>oldStart = oldStart h, oldCount = oldCount h, newStart = newStart h,
      newCount = newCount h, hunkLines = hunkLines h\<rparr> = h" by (cases h) simp
  ultimately show ?case
    using Cons.prems(2) by (simp add: printed_not_file_header unifiedHunkHeader_print b [simplified] c rec rest_def [symmetric])
qed simp

lemma digits_clean: "is_digit b \<Longrightarrow> b \<noteq> 0x0A \<and> b \<noteq> 0x0D"
  by (auto simp: is_digit_def)

lemma print_header_clean: "0x0A \<notin> set (print_header h) \<and> 0x0D \<notin> set (print_header h)"
proof -
  have "0x0A \<notin> set (itoa n) \<and> 0x0D \<notin> set (itoa n)" for n
    using itoa_digits [of n] digits_clean by (auto simp: list_all_iff)
  moreover have "str ''@@ -'' = [0x40, 0x40, 0x20, 0x2D]" "str '' +'' = [0x20, 0x2B]"
    "str '' @@'' = [0x20, 0x40, 0x40]" by code_simp+
  ultimately show ?thesis by (simp add: print_header_def)
qed

lemma unlines_set: "set (unlines ls) \<subseteq> insert newline (\<Union> (set ` set ls))"
proof (induction ls)
  case (Cons l ls)
  then show ?case by (cases ls) auto
qed simp

lemma not_blank_dash: "\<not> blank (0x2D # s)"
proof -
  have "decode_rune (0x2D # s) = (45, 1)"
    by (simp add: decode_rune_def utf8_lead_def)
  then show ?thesis by (subst blank.simps) (simp add: is_space_def)
qed

text \<open>C27: the printed form of any list of at most a thousand hunks with consistent counts, under a file
  header that names the target, is read back as those hunks, if no body line begins like a file
  header.\<close>

theorem patch_read_back:
  assumes "\<forall>h \<in> set hunks. printable h" "hunks \<noteq> []" "length hunks \<le> maxPatchHunks"
    and "0x0A \<notin> set old" "0x0D \<notin> set old" "0x0A \<notin> set new" "0x0D \<notin> set new"
    and "validatePatchHeaderPath (trim_space old) target = Inr ()"
    and "validatePatchHeaderPath (trim_space new) target = Inr ()"
    and "int (length (print_patch old new hunks)) \<le> maxBytes"
  shows "parseUnifiedPatch (print_patch old new hunks) target maxBytes = Inr hunks"
proof -
  define ls where "ls = concat (map (\<lambda>h. print_header h # hunkLines h) hunks)"
  have s: "str ''--- '' = [0x2D, 0x2D, 0x2D, 0x20]" "str ''+++ '' = [0x2B, 0x2B, 0x2B, 0x20]" by code_simp+
  have p: "print_patch old new hunks = unlines ((str ''--- '' @ old) # (str ''+++ '' @ new) # ls)"
    by (simp add: print_patch_def ls_def)
  have c: "\<forall>l \<in> set ((str ''--- '' @ old) # (str ''+++ '' @ new) # ls). 0x0A \<notin> set l \<and> 0x0D \<notin> set l"
    using assms(1,4-7) print_header_clean by (auto simp: ls_def s printable_def)
  have lines: "lines_of (print_patch old new hunks) = (str ''--- '' @ old) # (str ''+++ '' @ new) # ls"
    unfolding p using c by (intro split_join) auto
  have "0x0D \<notin> set (print_patch old new hunks)"
    unfolding p using unlines_set c by fastforce
  then have "\<not> contains (print_patch old new hunks) [0x0D, 0x0A]" by (auto simp: contains_iff)
  then have conv: "ConvertLineEndings (print_patch old new hunks) LineEndingLF = print_patch old new hunks"
    by (simp add: ConvertLineEndings_def)
  have "\<not> blank (print_patch old new hunks)" using not_blank_dash by (simp add: p s)
  moreover have "ls \<noteq> []" using assms(2) by (cases hunks) (simp_all add: ls_def)
  moreover have "parseHunks 2 ls [] = Inr hunks"
    using parseHunks_print [of hunks "[]" 2] assms(1,3) by (simp add: ls_def)
  ultimately show ?thesis
    using assms(2,8-10) by (auto simp: parseUnifiedPatch_def conv lines trim_prefix_def Suc_le_eq)
qed

theorem patch_read_back_witness:
  "parseUnifiedPatch (print_patch (str ''a/x.go'') (str ''b/x.go'') sample_hunks) (str ''/src/x.go'') 1000
     = Inr sample_hunks"
proof (rule patch_read_back)
  have "list_all printable sample_hunks" unfolding printable_def hunk_ok_def by code_simp
  then show "\<forall>h \<in> set sample_hunks. printable h" by (simp add: list_all_iff)
  show "sample_hunks \<noteq> []" "length sample_hunks \<le> maxPatchHunks"
    by (simp_all add: sample_hunks_def maxPatchHunks_def)
  show "int (length (print_patch (str ''a/x.go'') (str ''b/x.go'') sample_hunks)) \<le> 1000" by code_simp
qed code_simp+

text \<open>A deleted line that begins with two dashes and a space, a comment in many languages, cannot be
  patched: its body line is taken for a file header.\<close>

lemma dashed_line_refused:
  "parseUnifiedPatch (print_patch (str ''a/x.sql'') (str ''b/x.sql'')
     [\<lparr>oldStart = 1, oldCount = 1, newStart = 0, newCount = 0, hunkLines = [str ''--- drop'']\<rparr>])
     (str ''x.sql'') 1000 = Inl PatchMultiFile"
  by code_simp

end
