(* ===== verification/Edit_Fuzzy.thy ===== *)
theory Edit_Fuzzy
  imports Go_Strings
begin

text \<open>
  Fuzzy line matching (\<^verbatim>\<open>handler/edit_fuzzy.go\<close>) with the two indentation helpers of
  \<^verbatim>\<open>handler/edit_file.go\<close> that it uses. The requested similarity is a floating-point number: the code
  uses it in the check that it is valid, an argument here, and in the largest distance it allows for
  a length, the argument \<^verbatim>\<open>maxDistance\<close>. Scores \<open>1 - d / n\<close> of lengths up to 4096 differ by more than
  \<open>1 / 4096\<^sup>2\<close> or not at all, far above the tolerance \<open>10\<^sup>-\<^sup>1\<^sup>2\<close> and the rounding of the code, so they
  are compared here as the fractions they are.
\<close>

subsection \<open>Bounded Levenshtein distance\<close>

definition absInt :: "int \<Rightarrow> int" where
  "absInt value' = (if value' < 0 then - value' else value')"

text \<open>The inner loop over the band \<^verbatim>\<open>j .. stop\<close> of one row.\<close>

definition cellValue :: "rune \<Rightarrow> rune list \<Rightarrow> int list \<Rightarrow> int list \<Rightarrow> nat \<Rightarrow> int" where
  "cellValue a second previous current j =
     (let cost = (if a \<noteq> second ! (j - 1) then 1 else 0) in
      min (previous ! j + 1) (min (current ! (j - 1) + 1) (previous ! (j - 1) + cost)))"

function fillRow :: "rune \<Rightarrow> rune list \<Rightarrow> int list \<Rightarrow> nat \<Rightarrow> nat \<Rightarrow> int list \<Rightarrow> int \<Rightarrow> int list \<times> int" where
  "fillRow a second previous j stop current rowMinimum =
     (if stop < j then (current, rowMinimum)
      else (let v = cellValue a second previous current j in
            fillRow a second previous (j + 1) stop (current[j := v]) (min rowMinimum v)))"
  by pat_completeness auto
termination by (relation "measure (\<lambda>(a, s, p, j, stop, c, r). stop + 1 - j)") auto

declare fillRow.simps [simp del]

definition nextRow :: "rune \<Rightarrow> rune list \<Rightarrow> int \<Rightarrow> nat \<Rightarrow> int list \<Rightarrow> int list \<times> int" where
  "nextRow a second maximum i previous =
     (let infinity = maximum + 1;
          current = replicate (length second + 1) infinity;
          current = (if int i \<le> maximum then current[0 := int i] else current);
          start = nat (max 1 (int i - maximum));
          stop = nat (min (int (length second)) (int i + maximum)) in
      fillRow a second previous start stop current infinity)"

fun levenshteinRows :: "rune list \<Rightarrow> rune list \<Rightarrow> int \<Rightarrow> nat \<Rightarrow> int list \<Rightarrow> int" where
  "levenshteinRows [] second maximum i previous = previous ! length second"
| "levenshteinRows (a # first) second maximum i previous =
     (let (current, rowMinimum) = nextRow a second maximum i previous in
      if rowMinimum > maximum then maximum + 1
      else levenshteinRows first second maximum (i + 1) current)"

definition firstRow :: "nat \<Rightarrow> int \<Rightarrow> int list" where
  "firstRow n maximum =
     map (\<lambda>index. if int index \<le> maximum then int index else maximum + 1) [0..<n + 1]"

definition boundedLevenshtein :: "rune list \<Rightarrow> rune list \<Rightarrow> int \<Rightarrow> int" where
  "boundedLevenshtein first second maximum =
     (if absInt (int (length first) - int (length second)) > maximum then maximum + 1
      else levenshteinRows first second maximum 1 (firstRow (length second) maximum))"

subsection \<open>Edit scripts\<close>

text \<open>At most \<^verbatim>\<open>n\<close> insertions, deletions and replacements turn the first list into the second.\<close>

inductive edits :: "'a list \<Rightarrow> 'a list \<Rightarrow> nat \<Rightarrow> bool" where
  edits_done: "edits [] [] n"
| edits_keep: "edits xs ys n \<Longrightarrow> edits (x # xs) (x # ys) n"
| edits_replace: "edits xs ys n \<Longrightarrow> edits (x # xs) (y # ys) (Suc n)"
| edits_delete: "edits xs ys n \<Longrightarrow> edits (x # xs) ys (Suc n)"
| edits_insert: "edits xs ys n \<Longrightarrow> edits xs (y # ys) (Suc n)"

fun lev :: "'a list \<Rightarrow> 'a list \<Rightarrow> nat" where
  "lev [] ys = length ys"
| "lev (x # xs) [] = Suc (length xs)"
| "lev (x # xs) (y # ys) =
     min (lev xs (y # ys) + 1) (min (lev (x # xs) ys + 1) (lev xs ys + (if x = y then 0 else 1)))"

lemma edits_mono: "edits xs ys n \<Longrightarrow> n \<le> m \<Longrightarrow> edits xs ys m"
proof (induction arbitrary: m rule: edits.induct)
  case (edits_replace xs ys n x y)
  then show ?case by (cases m) (auto intro: edits.intros)
next
  case (edits_delete xs ys n x)
  then show ?case by (cases m) (auto intro: edits.intros)
next
  case (edits_insert xs ys n y)
  then show ?case by (cases m) (auto intro: edits.intros)
qed (auto intro: edits.intros)

lemma edits_Nil_left: "edits [] ys n \<longleftrightarrow> length ys \<le> n"
proof
  show "edits [] ys n \<Longrightarrow> length ys \<le> n"
    by (induction "[] :: 'a list" ys n rule: edits.induct) auto
  show "length ys \<le> n \<Longrightarrow> edits [] ys n"
  proof (induction ys arbitrary: n)
    case (Cons y ys)
    then show ?case by (cases n) (auto intro: edits.intros)
  qed (rule edits_done)
qed

lemma edits_Nil_right: "edits xs [] n \<longleftrightarrow> length xs \<le> n"
proof
  show "edits xs [] n \<Longrightarrow> length xs \<le> n"
    by (induction xs "[] :: 'a list" n rule: edits.induct) auto
  show "length xs \<le> n \<Longrightarrow> edits xs [] n"
  proof (induction xs arbitrary: n)
    case (Cons x xs)
    then show ?case by (cases n) (auto intro: edits.intros)
  qed (rule edits_done)
qed

inductive_cases edits_ConsE: "edits (x # xs) (y # ys) n"

lemma edits_lev: "edits xs ys n \<longleftrightarrow> lev xs ys \<le> n"
proof
  show "edits xs ys n \<Longrightarrow> lev xs ys \<le> n"
  proof (induction xs ys arbitrary: n rule: lev.induct)
    case (3 x xs y ys)
    from 3(4) show ?case
      by (cases rule: edits_ConsE) (use 3(1-3) in \<open>force simp: min_le_iff_disj\<close>)+
  qed (simp_all add: edits_Nil_left edits_Nil_right Suc_le_eq)
  show "lev xs ys \<le> n \<Longrightarrow> edits xs ys n"
  proof (induction xs ys arbitrary: n rule: lev.induct)
    case (3 x xs y ys)
    consider "lev xs (y # ys) < n" | "lev (x # xs) ys < n"
      | "lev xs ys + (if x = y then 0 else 1) \<le> n"
      using "3.prems" by (auto simp: min_le_iff_disj)
    then show ?case
    proof cases
      case 1
      then show ?thesis using "3.IH"(1) [of "n - 1"] edits_delete [of xs "y # ys" "n - 1" x] by auto
    next
      case 2
      then show ?thesis using "3.IH"(2) [of "n - 1"] edits_insert [of "x # xs" ys "n - 1" y] by auto
    next
      case c: 3
      show ?thesis
      proof (cases "x = y")
        case True
        then show ?thesis using c "3.IH"(3) by (auto intro: edits_keep)
      next
        case False
        then show ?thesis using c "3.IH"(3) [of "n - 1"] edits_replace [of xs ys "n - 1" x y] by auto
      qed
    qed
  qed (simp_all add: edits_Nil_left edits_Nil_right Suc_le_eq)
qed

lemma edits_append: "edits xs ys m \<Longrightarrow> edits us vs n \<Longrightarrow> edits (xs @ us) (ys @ vs) (m + n)"
proof (induction rule: edits.induct)
  case (edits_done k)
  then show ?case by (auto intro: edits_mono)
qed (auto intro: edits.intros)

lemma edits_rev: "edits xs ys n \<Longrightarrow> edits (rev xs) (rev ys) n"
proof (induction rule: edits.induct)
  case (edits_keep xs ys n x)
  then show ?case using edits_append [of "rev xs" "rev ys" n "[x]" "[x]" 0] by (auto intro: edits.intros)
next
  case (edits_replace xs ys n x y)
  then show ?case using edits_append [of "rev xs" "rev ys" n "[x]" "[y]" 1]
    by (auto intro: edits.intros)
next
  case (edits_delete xs ys n x)
  then show ?case using edits_append [of "rev xs" "rev ys" n "[x]" "[]" 1]
    by (auto simp: edits_Nil_right)
next
  case (edits_insert xs ys n y)
  then show ?case using edits_append [of "rev xs" "rev ys" n "[]" "[y]" 1]
    by (auto simp: edits_Nil_left)
qed (simp add: edits.intros)

lemma lev_rev: "lev (rev xs) (rev ys) = lev xs ys"
  using edits_rev [of xs ys] edits_rev [of "rev xs" "rev ys"] unfolding edits_lev
  by (metis order_antisym order_refl rev_rev_ident)

lemma lev_length: "length xs \<le> lev xs ys + length ys \<and> length ys \<le> lev xs ys + length xs"
  by (induction xs ys rule: lev.induct) auto

lemma lev_single: "lev (x # xs) [y] \<le> length (x # xs)"
  by (induction xs arbitrary: x) (auto simp: min_le_iff_disj le_SucI)

subsection \<open>The rows of the distance table\<close>

text \<open>The distance of two prefixes; a number is right for a distance when it equals it up to the bound
  and exceeds the bound with it.\<close>

definition dist :: "'a list \<Rightarrow> 'a list \<Rightarrow> nat \<Rightarrow> nat \<Rightarrow> int" where
  "dist xs ys i j = int (lev (rev (take i xs)) (rev (take j ys)))"

definition capped :: "int \<Rightarrow> int \<Rightarrow> int \<Rightarrow> bool" where
  "capped m v d \<longleftrightarrow> (if d \<le> m then v = d else m < v)"

lemma lev_Nil [simp]: "lev xs [] = length xs"
  by (cases xs) auto

lemma dist_0: "i \<le> length xs \<Longrightarrow> dist xs ys i 0 = int i" "j \<le> length ys \<Longrightarrow> dist xs ys 0 j = int j"
  by (simp_all add: dist_def)

lemma dist_Suc:
  "i < length xs \<Longrightarrow> j < length ys \<Longrightarrow>
   dist xs ys (Suc i) (Suc j) =
     min (dist xs ys i (Suc j) + 1) (min (dist xs ys (Suc i) j + 1)
       (dist xs ys i j + (if xs ! i \<noteq> ys ! j then 1 else 0)))"
  by (auto simp: dist_def take_Suc_conv_app_nth)

lemma dist_band: "i \<le> length xs \<Longrightarrow> j \<le> length ys \<Longrightarrow> \<bar>int i - int j\<bar> \<le> dist xs ys i j"
  using lev_length [of "rev (take i xs)" "rev (take j ys)"] by (auto simp: dist_def)

lemma dist_full: "dist xs ys (length xs) (length ys) = int (lev xs ys)"
  by (simp add: dist_def lev_rev)

lemma capped_add: "capped m v d \<Longrightarrow> 0 \<le> c \<Longrightarrow> capped m (v + c) (d + c)"
  by (auto simp: capped_def split: if_splits)

lemma capped_min: "capped m v d \<Longrightarrow> capped m w e \<Longrightarrow> capped m (min v w) (min d e)"
  unfolding capped_def by (cases "d \<le> m"; cases "e \<le> m"; cases "d \<le> e") (simp_all add: min_def)

definition good_row :: "'a list \<Rightarrow> 'a list \<Rightarrow> int \<Rightarrow> nat \<Rightarrow> int list \<Rightarrow> bool" where
  "good_row xs ys m i r \<longleftrightarrow> length r = length ys + 1 \<and> (\<forall>j \<le> length ys. capped m (r ! j) (dist xs ys i j))"

text \<open>The inner loop keeps the entries before \<^verbatim>\<open>j\<close> right.\<close>

lemma fillRow_good:
  assumes "good_row xs ys m i previous" "i < length xs" "stop \<le> length ys" "1 \<le> j"
    "length current = length ys + 1" "\<forall>k < j. k \<le> length ys \<longrightarrow> capped m (current ! k) (dist xs ys (Suc i) k)"
    "\<forall>k \<le> length ys. max stop (j - 1) < k \<longrightarrow> capped m (current ! k) (dist xs ys (Suc i) k)"
    "fillRow (xs ! i) ys previous j stop current rm = (r, rm')"
  shows "good_row xs ys m (Suc i) r \<and> rm' \<le> rm \<and> (\<forall>k. j \<le> k \<and> k \<le> stop \<longrightarrow> rm' \<le> r ! k)
    \<and> (\<forall>k < j. r ! k = current ! k)"
  using assms(4-)
proof (induction "stop + 1 - j" arbitrary: j current rm)
  case 0
  then have "stop < j" by simp
  then have "r = current" "rm' = rm" using 0 by (simp_all add: fillRow.simps)
  moreover have "capped m (current ! k) (dist xs ys (Suc i) k)" if "k \<le> length ys" for k
  proof (cases "k < j")
    case False
    then have "max stop (j - 1) < k" using \<open>stop < j\<close> 0(2) by simp
    then show ?thesis using 0(5) that by blast
  qed (use 0(4) that in blast)
  ultimately show ?case using 0(3) \<open>stop < j\<close> by (simp add: good_row_def)
next
  case (Suc n)
  then have j: "j \<le> stop" "n = stop + 1 - (j + 1)" by simp_all
  define v where "v = cellValue (xs ! i) ys previous current j"
  have f: "fillRow (xs ! i) ys previous (j + 1) stop (current[j := v]) (min rm v) = (r, rm')"
    using Suc.prems(5) j(1) unfolding v_def by (subst (asm) fillRow.simps) (simp add: Let_def)
  obtain j' where j': "j = Suc j'" using Suc.prems(1) by (cases j) auto
  have "capped m v (dist xs ys (Suc i) j)"
  proof -
    have p: "capped m (previous ! k) (dist xs ys i k)" if "k \<le> length ys" for k
      using assms(1) that by (simp add: good_row_def)
    have l: "j' < length ys" using j j' assms(3) by simp
    have c: "capped m (current ! j') (dist xs ys (Suc i) j')" using Suc.prems(3) j' l by simp
    show ?thesis
      unfolding v_def cellValue_def Let_def j' dist_Suc [OF assms(2) l] diff_Suc_1
      by (intro capped_min capped_add p c) (use l in auto)
  qed
  moreover have jl: "j < length current" using Suc.prems(2) j(1) assms(3) by simp
  ultimately have "good_row xs ys m (Suc i) r \<and> rm' \<le> min rm v
    \<and> (\<forall>k. j + 1 \<le> k \<and> k \<le> stop \<longrightarrow> rm' \<le> r ! k) \<and> (\<forall>k < j + 1. r ! k = current[j := v] ! k)"
    using Suc.prems j assms(3) jl by (intro Suc.hyps(1) [OF j(2) _ _ _ _ f]) (auto simp: nth_list_update less_Suc_eq)
  then show ?case using Suc.prems(2) j assms(3) by (auto simp: nth_list_update le_Suc_eq dest: le_neq_implies_less)
qed

lemma firstRow_good: "good_row xs ys m 0 (firstRow (length ys) m)"
  by (auto simp: good_row_def firstRow_def capped_def dist_0 simp del: upt_Suc)

lemma nextRow_good:
  assumes "good_row xs ys m i previous" "i < length xs" "0 \<le> m"
    "nextRow (xs ! i) ys m (Suc i) previous = (r, rm)"
  shows "good_row xs ys m (Suc i) r"
    and "m < rm \<Longrightarrow> j \<le> length ys \<Longrightarrow> ys \<noteq> [] \<Longrightarrow> m < dist xs ys (Suc i) j"
proof -
  define current where "current = (if int (Suc i) \<le> m then (replicate (length ys + 1) (m + 1))[0 := int (Suc i)]
    else replicate (length ys + 1) (m + 1))"
  define start where "start = nat (max 1 (int (Suc i) - m))"
  define stop where "stop = nat (min (int (length ys)) (int (Suc i) + m))"
  have f: "fillRow (xs ! i) ys previous start stop current (m + 1) = (r, rm)"
    using assms(4) unfolding nextRow_def current_def start_def stop_def Let_def .
  have far: "m < dist xs ys (Suc i) k" if "k \<le> length ys" "k + nat m < Suc i \<or> Suc i + nat m < k" for k
    using dist_band [of "Suc i" xs k ys] assms(2,3) that by linarith
  have st: "stop \<le> length ys" "1 \<le> start" using assms(3) by (auto simp: stop_def start_def)
  have len: "length current = length ys + 1" by (simp add: current_def)
  have inf: "current ! k = m + 1" if "0 < k" "k \<le> length ys" for k
    using that by (simp add: current_def nth_append del: replicate_Suc)
  have zero: "capped m (current ! 0) (dist xs ys (Suc i) 0)"
    using assms(2) by (simp add: current_def capped_def dist_0)
  have out: "capped m (current ! k) (dist xs ys (Suc i) k)"
    if "0 < k" "k \<le> length ys" "k + nat m < Suc i \<or> Suc i + nat m < k" for k
    using far [OF that(2,3)] inf [OF that(1,2)] by (simp add: capped_def)
  have low: "k + nat m < Suc i" if "k < start" "0 < k" for k
    using that assms(3) unfolding start_def by linarith
  have high: "Suc i + nat m < k" if "stop < k" "k \<le> length ys" for k
    using that assms(3) unfolding stop_def by linarith
  have before: "\<forall>k < start. k \<le> length ys \<longrightarrow> capped m (current ! k) (dist xs ys (Suc i) k)"
    using zero out low by (metis gr0I)
  have after: "\<forall>k \<le> length ys. max stop (start - 1) < k \<longrightarrow> capped m (current ! k) (dist xs ys (Suc i) k)"
    using out high by simp
  note g = fillRow_good [OF assms(1,2) st len before after f]
  then show "good_row xs ys m (Suc i) r" by blast
  show "m < dist xs ys (Suc i) j" if j: "m < rm" "j \<le> length ys" "ys \<noteq> []"
  proof -
    have band: "m < dist xs ys (Suc i) k" if "start \<le> k" "k \<le> stop" for k
    proof -
      have "rm \<le> r ! k" using g that by blast
      moreover have "capped m (r ! k) (dist xs ys (Suc i) k)" using g that st(1) by (simp add: good_row_def)
      ultimately show ?thesis using j(1) by (auto simp: capped_def split: if_splits)
    qed
    have first: "m < dist xs ys (Suc i) 0"
    proof (cases "start = 1")
      case True
      obtain x zs where x: "rev (take (Suc i) xs) = x # zs"
        using assms(2) by (cases "rev (take (Suc i) xs)") auto
      obtain y ys' where y: "ys = y # ys'" using j(3) by (cases ys) auto
      have "1 \<le> stop" using assms(3) j(3) by (cases ys) (auto simp: stop_def)
      then have "m < dist xs ys (Suc i) 1" using band True by simp
      also have "\<dots> \<le> int (length (x # zs))" using lev_single [of x zs y] by (simp add: dist_def x y)
      finally show ?thesis using assms(2) arg_cong [OF x, of length] by (simp add: dist_0)
    next
      case False
      then show ?thesis using far [of 0] st(2) assms(3) unfolding start_def by linarith
    qed
    consider "j = 0" | "0 < j" "j < start" | "start \<le> j" "j \<le> stop" | "stop < j" by linarith
    then show ?thesis
      by cases (use first band far j(2) low high in auto)
  qed
qed

text \<open>When a whole row exceeds the bound, so does every later row.\<close>

lemma dist_row_step:
  assumes "\<forall>j \<le> length ys. m < dist xs ys i j" "i < length xs" "j \<le> length ys"
  shows "m < dist xs ys (Suc i) j"
  using assms(3)
proof (induction j)
  case 0
  then show ?case using assms(1,2) by (force simp: dist_0)
next
  case (Suc j)
  then have "m < dist xs ys i (Suc j) + 1" "m < dist xs ys (Suc i) j + 1" "m < dist xs ys i j"
    using assms(1) by (auto simp: less_imp_le add_strict_increasing2)
  then show ?case using Suc.prems assms(2) by (subst dist_Suc) auto
qed

lemma dist_rows:
  assumes "\<forall>j \<le> length ys. m < dist xs ys i j" "i \<le> k" "k \<le> length xs"
  shows "\<forall>j \<le> length ys. m < dist xs ys k j"
  using assms(2,3,1)
  by (induction rule: dec_induct) (auto intro: dist_row_step)

lemma levenshteinRows_capped:
  assumes "good_row xs ys m i previous" "i \<le> length xs" "0 \<le> m" "ys \<noteq> []"
  shows "capped m (levenshteinRows (drop i xs) ys m (Suc i) previous) (int (lev xs ys))"
  using assms(1,2)
proof (induction "length xs - i" arbitrary: i previous)
  case 0
  then show ?case by (simp add: good_row_def flip: dist_full)
next
  case (Suc n)
  then have i: "i < length xs" by simp
  obtain r rm where r: "nextRow (xs ! i) ys m (Suc i) previous = (r, rm)" by fastforce
  note g = nextRow_good [OF Suc.prems(1) i assms(3) r]
  have "capped m (levenshteinRows (drop (Suc i) xs) ys m (Suc (Suc i)) r) (int (lev xs ys))"
    using Suc g(1) i by (intro Suc.hyps(1)) auto
  moreover have "m < int (lev xs ys)" if "m < rm"
    using dist_rows [of ys m xs "Suc i" "length xs"] g(2) [OF that] assms(4) i
    by (auto simp flip: dist_full)
  ultimately show ?case using i r by (force simp: capped_def split: if_splits simp flip: Cons_nth_drop_Suc)
qed

lemma boundedLevenshtein_capped:
  assumes "second \<noteq> [] \<or> first = [] \<or> maximum < int (length first)"
  shows "capped maximum (boundedLevenshtein first second maximum) (int (lev first second))"
proof (cases "absInt (int (length first) - int (length second)) > maximum")
  case True
  then show ?thesis using lev_length [of first second]
    by (auto simp: boundedLevenshtein_def capped_def absInt_def split: if_splits)
next
  case False
  then have m: "0 \<le> maximum" by (auto simp: absInt_def split: if_splits)
  show ?thesis
  proof (cases "second = []")
    case True
    then show ?thesis using assms False m
      by (auto simp: boundedLevenshtein_def capped_def firstRow_def absInt_def)
  next
    case ne: False
    then show ?thesis
      using levenshteinRows_capped [OF firstRow_good [of first second maximum] _ m ne] False
      by (simp add: boundedLevenshtein_def)
  qed
qed

text \<open>C30: unless only the second text is empty, the banded computation with early exit decides whether the
  Levenshtein distance, the least number of insertions, deletions and replacements, is within the bound,
  and computes it then. The other case is a defect of the code, shown below.\<close>

theorem bounded_distance_exact:
  assumes "second \<noteq> [] \<or> first = []"
  shows "(boundedLevenshtein first second maximum \<le> maximum \<longleftrightarrow>
      (\<exists>n. int n \<le> maximum \<and> edits first second n))
    \<and> (boundedLevenshtein first second maximum \<le> maximum \<longrightarrow>
      boundedLevenshtein first second maximum = int (LEAST n. edits first second n))"
proof -
  have least: "(LEAST n. edits first second n) = lev first second"
    unfolding edits_lev by (rule Least_equality) auto
  have "capped maximum (boundedLevenshtein first second maximum) (int (lev first second))"
    using assms by (intro boundedLevenshtein_capped) auto
  then have "(boundedLevenshtein first second maximum \<le> maximum \<longleftrightarrow> int (lev first second) \<le> maximum)
    \<and> (boundedLevenshtein first second maximum \<le> maximum \<longrightarrow>
      boundedLevenshtein first second maximum = int (lev first second))"
    by (auto simp: capped_def split: if_splits)
  moreover have "(\<exists>n. int n \<le> maximum \<and> edits first second n) \<longleftrightarrow> int (lev first second) \<le> maximum"
    unfolding edits_lev
  proof
    assume "\<exists>n. int n \<le> maximum \<and> lev first second \<le> n"
    then obtain n where "int n \<le> maximum" "lev first second \<le> n" by blast
    then show "int (lev first second) \<le> maximum" by linarith
  next
    show "int (lev first second) \<le> maximum \<Longrightarrow> \<exists>n. int n \<le> maximum \<and> lev first second \<le> n"
      by (intro exI [of _ "lev first second"]) simp
  qed
  ultimately show ?thesis unfolding least by blast
qed

theorem bounded_distance_exact_witness:
  "boundedLevenshtein [107, 105, 116] [115, 105, 116, 115] 2 = 2
   \<and> (\<exists>n. int n \<le> 2 \<and> edits [107, 105, 116 :: rune] [115, 105, 116, 115] n)"
proof -
  have "boundedLevenshtein [107, 105, 116] [115, 105, 116, 115] 2 = 2" by code_simp
  then show ?thesis using bounded_distance_exact [of "[115, 105, 116, 115]" "[107, 105, 116]" 2] by simp
qed

text \<open>For an empty second text the row minimum leaves out the first column, and the distance is never
  found; the callers' bounds are smaller than the first text's length there.\<close>

lemma empty_second_missed:
  "boundedLevenshtein [97] [] 1 = 2 \<and> edits [97 :: rune] [] 1"
proof
  show "boundedLevenshtein [97] [] 1 = 2" by code_simp
qed (simp add: edits_Nil_right)

end
