(* ===== verification/Edit_File.thy ===== *)
theory Edit_File
  imports Complex_Main Edit_Fuzzy Text_Endings
begin

text \<open>
  The edits of a text by old and new passages (\<^verbatim>\<open>applyEdits\<close> of \<^verbatim>\<open>handler/edit_file.go\<close> and
  \<^verbatim>\<open>tryFuzzyMatch\<close> of \<^verbatim>\<open>handler/edit_fuzzy.go\<close>): the exact match, the match up to white space at the
  ends of lines, the opt-in fuzzy match, and the hint given when nothing matches. A requested
  similarity is a value of type \<^verbatim>\<open>'f\<close>; \<^verbatim>\<open>limit\<close> says which largest distance the code's floating-point
  expression gives for a length, and \<^verbatim>\<open>None\<close> for a similarity that is refused.
\<close>

subsection \<open>Lines and indentation\<close>

definition getLeadingWhitespace :: "bytes \<Rightarrow> bytes" where
  "getLeadingWhitespace s = takeWhile is_indent s"

definition adjustRelativeIndent :: "bytes list \<Rightarrow> bytes \<Rightarrow> nat \<Rightarrow> bytes \<Rightarrow> bytes" where
  "adjustRelativeIndent oldLines newLine lineIndex baseIndent =
     (if length oldLines \<le> lineIndex then newLine
      else (let oldIndent = getLeadingWhitespace (oldLines ! lineIndex);
                newIndent = getLeadingWhitespace newLine;
                relativeIndent = int (length newIndent) - int (length oldIndent);
                trimmedContent = trim_indent newLine in
        if relativeIndent > 0 then baseIndent @ replicate (nat relativeIndent) 0x20 @ trimmedContent
        else if relativeIndent < 0 then
          (let trim = nat (- relativeIndent) in
           if length baseIndent \<le> trim then trimmedContent
           else take (length baseIndent - trim) baseIndent @ trimmedContent)
        else baseIndent @ trimmedContent))"

text \<open>The new lines in the place of the old ones; the fuzzy match leaves an empty first line empty.\<close>

definition reindent :: "bool \<Rightarrow> bytes list \<Rightarrow> bytes \<Rightarrow> bytes \<Rightarrow> bytes list" where
  "reindent keepEmpty oldLines newText originalIndent =
     map (\<lambda>(j, l).
        if j = 0 then (if keepEmpty \<and> l = [] then l else originalIndent @ trim_indent l)
        else adjustRelativeIndent oldLines l j originalIndent)
       (enumerate 0 (lines_of newText))"

definition spliceLines :: "bytes list \<Rightarrow> nat \<Rightarrow> nat \<Rightarrow> bytes list \<Rightarrow> bytes" where
  "spliceLines contentLines start height newLines =
     unlines (take start contentLines @ newLines @ drop (start + height) contentLines)"

definition replaceLineWindow :: "bytes list \<Rightarrow> bytes list \<Rightarrow> bytes \<Rightarrow> nat \<Rightarrow> bytes" where
  "replaceLineWindow contentLines oldLines newText start =
     spliceLines contentLines start (length oldLines)
       (reindent True oldLines newText (getLeadingWhitespace (contentLines ! start)))"

definition windowMatches :: "bytes list \<Rightarrow> bytes list \<Rightarrow> nat \<Rightarrow> bool" where
  "windowMatches contentLines oldLines i \<longleftrightarrow>
     list_all2 (\<lambda>l m. trim_space l = trim_space m) oldLines
       (take (length oldLines) (drop i contentLines))"

definition tryFlexibleMatch :: "bytes \<Rightarrow> bytes \<Rightarrow> bytes \<Rightarrow> bytes option" where
  "tryFlexibleMatch content oldText newText =
     (let oldLines = lines_of oldText; contentLines = lines_of content in
      if length contentLines < length oldLines then None
      else (case find (windowMatches contentLines oldLines)
              [0..<length contentLines - length oldLines + 1] of
          None \<Rightarrow> None
        | Some i \<Rightarrow> Some (spliceLines contentLines i (length oldLines)
            (reindent False oldLines newText (getLeadingWhitespace (contentLines ! i))))))"

subsection \<open>The fuzzy match\<close>

definition maxFuzzyCandidateWindows :: nat where "maxFuzzyCandidateWindows = 10000"
definition maxFuzzyRunes :: nat where "maxFuzzyRunes = 4096"
definition maxFuzzyWorkCells :: int where "maxFuzzyWorkCells = 2000000"

datatype fuzzy_error = BadSimilarity | TooManyWindows nat | TooManyRunes nat | OverBudget | Ambiguous

function runes_of :: "bytes \<Rightarrow> rune list" where
  "runes_of s =
     (if s = [] then [] else fst (decode_rune s) # runes_of (drop (snd (decode_rune s)) s))"
  by pat_completeness auto
termination by (relation "measure length") (use decode_rune_step_measure in auto)

declare runes_of.simps [simp del]

definition normalizeFuzzyText :: "bytes list \<Rightarrow> bytes" where
  "normalizeFuzzyText ls = unlines (map (\<lambda>l. join_with [0x20] (string_fields l)) ls)"

text \<open>The best window so far with its distance and the length it is relative to, whether another one is
  as good, and the work seen.\<close>

record fuzzy_state =
  bestWindow :: "(nat \<times> int \<times> int) option"
  ambiguous :: bool
  workUsed :: int

definition better :: "int \<Rightarrow> int \<Rightarrow> (nat \<times> int \<times> int) option \<Rightarrow> bool" where
  "better d n b = (case b of None \<Rightarrow> True | Some (_, d', n') \<Rightarrow> d * n' < d' * n)"

definition as_good :: "int \<Rightarrow> int \<Rightarrow> (nat \<times> int \<times> int) option \<Rightarrow> bool" where
  "as_good d n b = (case b of None \<Rightarrow> False | Some (_, d', n') \<Rightarrow> d * n' = d' * n)"

definition candidateRunes :: "bytes list \<Rightarrow> nat \<Rightarrow> nat \<Rightarrow> rune list" where
  "candidateRunes contentLines height index =
     runes_of (normalizeFuzzyText (take height (drop index contentLines)))"

definition fuzzyStep :: "(nat \<Rightarrow> int) \<Rightarrow> rune list \<Rightarrow> rune list \<Rightarrow> nat \<Rightarrow> fuzzy_state \<Rightarrow> fuzzy_error + fuzzy_state" where
  "fuzzyStep limit oldRunes candidate index st =
     (let maximumLength = max (length oldRunes) (length candidate) in
      if length candidate > maxFuzzyRunes \<or> maximumLength = 0 then Inr st
      else (let maximumDistance = limit maximumLength;
                estimatedWork = max (int (length oldRunes) * (2 * maximumDistance + 1)) (int maximumLength);
                st1 = st\<lparr>workUsed := workUsed st + estimatedWork\<rparr>;
                distance = boundedLevenshtein oldRunes candidate maximumDistance in
        if workUsed st1 > maxFuzzyWorkCells then Inl OverBudget
        else if distance > maximumDistance then Inr st1
        else if better distance (int maximumLength) (bestWindow st)
        then Inr (st1\<lparr>bestWindow := Some (index, distance, int maximumLength), ambiguous := False\<rparr>)
        else if as_good distance (int maximumLength) (bestWindow st) then Inr (st1\<lparr>ambiguous := True\<rparr>)
        else Inr st1))"

fun fuzzyLoop :: "(nat \<Rightarrow> int) \<Rightarrow> rune list \<Rightarrow> bytes list \<Rightarrow> nat \<Rightarrow> nat list \<Rightarrow> fuzzy_state \<Rightarrow> fuzzy_error + fuzzy_state" where
  "fuzzyLoop limit oldRunes contentLines height [] st = Inr st"
| "fuzzyLoop limit oldRunes contentLines height (index # indices) st =
     (case fuzzyStep limit oldRunes (candidateRunes contentLines height index) index st of
        Inl e \<Rightarrow> Inl e
      | Inr st' \<Rightarrow> fuzzyLoop limit oldRunes contentLines height indices st')"

definition tryFuzzyMatch :: "(nat \<Rightarrow> int) option \<Rightarrow> bytes \<Rightarrow> bytes \<Rightarrow> bytes \<Rightarrow> fuzzy_error + bytes option" where
  "tryFuzzyMatch similarity content oldText newText =
     (case similarity of
        None \<Rightarrow> Inl BadSimilarity
      | Some limit \<Rightarrow>
          (let contentLines = lines_of content; oldLines = lines_of oldText in
           if oldLines = [] \<or> length contentLines < length oldLines then Inr None
           else (let windowCount = length contentLines - length oldLines + 1;
                     oldRunes = runes_of (normalizeFuzzyText oldLines) in
             if windowCount > maxFuzzyCandidateWindows then Inl (TooManyWindows windowCount)
             else if length oldRunes > maxFuzzyRunes then Inl (TooManyRunes (length oldRunes))
             else (case fuzzyLoop limit oldRunes contentLines (length oldLines) [0..<windowCount]
                 \<lparr>bestWindow = None, ambiguous = False, workUsed = 0\<rparr> of
               Inl e \<Rightarrow> Inl e
             | Inr st \<Rightarrow>
                 (case bestWindow st of
                    None \<Rightarrow> Inr None
                  | Some (index, _, _) \<Rightarrow>
                      if ambiguous st then Inl Ambiguous
                      else Inr (Some (replaceLineWindow contentLines oldLines newText index)))))))"

subsection \<open>All edits\<close>

record 'f edit_operation =
  OldText :: bytes
  NewText :: bytes
  Similarity :: "'f option"

datatype edit_error =
    OldTextEmpty
  | FuzzyFailed fuzzy_error
  | EditNoMatch bytes "(nat \<times> nat \<times> bytes) option"

text \<open>How many lines from \<^verbatim>\<open>i\<close> of the first and \<^verbatim>\<open>j\<close> of the second list agree up to white space, and the
  two loops that keep the first longest run.\<close>

fun commonRun :: "bytes list \<Rightarrow> bytes list \<Rightarrow> nat" where
  "commonRun (l # ls) (m # ms) = (if trim_space l = trim_space m then Suc (commonRun ls ms) else 0)"
| "commonRun ls ms = 0"

definition longestMatchingBlock :: "bytes \<Rightarrow> bytes \<Rightarrow> nat option \<times> nat" where
  "longestMatchingBlock content oldText =
     (let contentLines = lines_of content; oldLines = lines_of oldText in
      foldl (\<lambda>acc i. foldl (\<lambda>(startLine, len) j.
          (let n = commonRun (drop i contentLines) (drop j oldLines) in
           if n > len then (Some i, n) else (startLine, len))) acc [0..<length oldLines])
        (None, 0) [0..<length contentLines])"

definition noMatchError :: "bytes \<Rightarrow> bytes \<Rightarrow> bytes \<Rightarrow> edit_error" where
  "noMatchError content normalizedOld rawOld =
     (case longestMatchingBlock content normalizedOld of
        (None, height) \<Rightarrow> EditNoMatch rawOld None
      | (Some line, height) \<Rightarrow>
          if height = 0 then EditNoMatch rawOld None
          else (let ls = lines_of content; start = line - 1; stop = min (length ls) (line + height + 1) in
            EditNoMatch rawOld (Some (line + 1, height, unlines (take (stop - start) (drop start ls))))))"

definition applyEdit :: "('f \<Rightarrow> (nat \<Rightarrow> int) option) \<Rightarrow> bytes \<Rightarrow> 'f edit_operation \<Rightarrow> edit_error + bytes" where
  "applyEdit limit content edit =
     (if OldText edit = [] then Inl OldTextEmpty
      else (let normalizedOld = ConvertLineEndings (OldText edit) LineEndingLF;
                normalizedNew = ConvertLineEndings (NewText edit) LineEndingLF in
        if contains content normalizedOld then Inr (replace_first content normalizedOld normalizedNew)
        else (case tryFlexibleMatch content normalizedOld normalizedNew of
          Some r \<Rightarrow> Inr r
        | None \<Rightarrow>
            (case Similarity edit of
               None \<Rightarrow> Inl (noMatchError content normalizedOld (OldText edit))
             | Some s \<Rightarrow>
                 (case tryFuzzyMatch (limit s) content normalizedOld normalizedNew of
                    Inl e \<Rightarrow> Inl (FuzzyFailed e)
                  | Inr (Some r) \<Rightarrow> Inr r
                  | Inr None \<Rightarrow> Inl (noMatchError content normalizedOld (OldText edit)))))))"

fun applyEdits :: "('f \<Rightarrow> (nat \<Rightarrow> int) option) \<Rightarrow> bytes \<Rightarrow> 'f edit_operation list \<Rightarrow> edit_error + bytes" where
  "applyEdits limit content [] = Inr content"
| "applyEdits limit content (edit # edits') =
     (case applyEdit limit content edit of
        Inl e \<Rightarrow> Inl e
      | Inr content' \<Rightarrow> applyEdits limit content' edits')"

subsection \<open>The hint\<close>

definition run_at :: "bytes list \<Rightarrow> bytes list \<Rightarrow> nat \<times> nat \<Rightarrow> nat" where
  "run_at ls ms p = commonRun (drop (fst p) ls) (drop (snd p) ms)"

lemma foldl_nested:
  "foldl (\<lambda>acc i. foldl (\<lambda>acc j. f acc (i, j)) acc ys) a xs = foldl f a (List.product xs ys)"
proof (induction xs arbitrary: a)
  case (Cons x xs)
  have "foldl (\<lambda>acc j. f acc (x, j)) a ys = foldl f a (map (Pair x) ys)" for a
    by (simp add: foldl_map)
  then show ?case using Cons by simp
qed simp

lemma foldl_best:
  assumes "foldl (\<lambda>(s, n) p. if g p > n then (Some (fst p), g p) else (s, n)) (None, 0 :: nat) ps = (s, n)"
  shows "(\<forall>p \<in> set ps. g p \<le> n) \<and> (s = None \<longleftrightarrow> n = 0)
    \<and> (\<forall>i. s = Some i \<longrightarrow> (\<exists>k < length ps. fst (ps ! k) = i \<and> g (ps ! k) = n \<and> (\<forall>k' < k. g (ps ! k') < n)))"
  using assms
proof (induction ps arbitrary: s n rule: rev_induct)
  case (snoc p ps)
  obtain s' n' where f: "foldl (\<lambda>(s, n) p. if g p > n then (Some (fst p), g p) else (s, n)) (None, 0) ps = (s', n')"
    by fastforce
  note IH = snoc.IH [OF f]
  show ?case
  proof (cases "g p > n'")
    case True
    then have sn: "s = Some (fst p)" "n = g p" using snoc.prems f by auto
    have "\<forall>k' < length ps. g (ps ! k') < n" using IH True sn by (auto simp: all_set_conv_all_nth)
    then show ?thesis using IH True sn
      by (auto simp: nth_append intro!: exI [of _ "length ps"])
  next
    case False
    then have sn: "s = s'" "n = n'" using snoc.prems f by auto
    have "\<exists>k < length (ps @ [p]). fst ((ps @ [p]) ! k) = i \<and> g ((ps @ [p]) ! k) = n
        \<and> (\<forall>k' < k. g ((ps @ [p]) ! k') < n)" if i: "s = Some i" for i
    proof -
      obtain k where "k < length ps" "fst (ps ! k) = i" "g (ps ! k) = n" "\<forall>k' < k. g (ps ! k') < n"
        using IH i sn by auto
      then show ?thesis by (intro exI [of _ k]) (auto simp: nth_append)
    qed
    then show ?thesis using IH False sn by auto
  qed
qed simp

text \<open>The \<^verbatim>\<open>k\<close> lines from \<^verbatim>\<open>i\<close> and from \<^verbatim>\<open>j\<close> agree up to white space.\<close>

definition agree :: "bytes list \<Rightarrow> bytes list \<Rightarrow> nat \<Rightarrow> nat \<Rightarrow> nat \<Rightarrow> bool" where
  "agree ls ms i j k \<longleftrightarrow> i + k \<le> length ls \<and> j + k \<le> length ms
     \<and> (\<forall>t < k. trim_space (ls ! (i + t)) = trim_space (ms ! (j + t)))"

lemma commonRun_agree: "k \<le> commonRun ls ms \<longleftrightarrow> agree ls ms 0 0 k"
proof (induction ls ms arbitrary: k rule: commonRun.induct)
  case (1 l ls m ms)
  show ?case
  proof (cases k)
    case (Suc n)
    have "agree (l # ls) (m # ms) 0 0 (Suc n) \<longleftrightarrow> trim_space l = trim_space m \<and> agree ls ms 0 0 n"
      by (auto simp: agree_def All_less_Suc2)
    then show ?thesis using 1 Suc by auto
  qed (simp add: agree_def)
qed (auto simp: agree_def)

lemma run_at_agree: "i \<le> length ls \<Longrightarrow> j \<le> length ms \<Longrightarrow> k \<le> run_at ls ms (i, j) \<longleftrightarrow> agree ls ms i j k"
  by (auto simp: run_at_def commonRun_agree agree_def)

text \<open>The hint of a failed edit is the longest run of lines that the text and the passage share up to
  white space, and it starts at the first line of the text where a run of that length starts.\<close>

theorem hint_longest_block:
  fixes content oldText :: bytes
  defines "ls \<equiv> lines_of content" and "ms \<equiv> lines_of oldText"
  assumes "longestMatchingBlock content oldText = (startLine, len)"
  shows "(\<forall>i j k. agree ls ms i j k \<longrightarrow> k \<le> len)
    \<and> (startLine = None \<longrightarrow> len = 0)
    \<and> (\<forall>i. startLine = Some i \<longrightarrow> 0 < len \<and> (\<exists>j. agree ls ms i j len)
        \<and> (\<forall>i' < i. \<forall>j. \<not> agree ls ms i' j len))"
proof -
  define ps where "ps = List.product [0..<length ls] [0..<length ms]"
  have "foldl (\<lambda>(s, n) p. if run_at ls ms p > n then (Some (fst p), run_at ls ms p) else (s, n)) (None, 0) ps
    = (startLine, len)"
    using assms(3) unfolding longestMatchingBlock_def ps_def foldl_nested [symmetric] ls_def ms_def
    by (simp add: run_at_def Let_def case_prod_unfold cong: if_cong)
  note best = foldl_best [OF this]
  have le: "k \<le> len" if a: "agree ls ms i j k" for i j k
  proof (cases "k = 0")
    case False
    then have "(i, j) \<in> set ps" using a by (auto simp: agree_def ps_def)
    moreover have "k \<le> run_at ls ms (i, j)" using a run_at_agree [of i ls j ms] by (simp add: agree_def)
    ultimately show ?thesis using best by (meson le_trans)
  qed simp
  have at: "0 < len \<and> (\<exists>j. agree ls ms i j len) \<and> (\<forall>i' < i. \<forall>j. \<not> agree ls ms i' j len)"
    if s: "startLine = Some i" for i
  proof -
    obtain k where k: "k < length ps" "fst (ps ! k) = i" "run_at ls ms (ps ! k) = len"
      "\<forall>k' < k. run_at ls ms (ps ! k') < len" using best s by blast
    have pk: "ps ! n = (n div length ms, n mod length ms)" if "n < length ls * length ms" for n
    proof -
      have "0 < length ms" using that by (cases "length ms") auto
      then show ?thesis using that unfolding ps_def
        by (subst product_nth) (auto simp: less_mult_imp_div_less)
    qed
    have kl: "k < length ls * length ms" using k(1) by (simp add: ps_def)
    then have m0: "0 < length ms" by (cases "length ms") auto
    have pos: "0 < len" using best s by auto
    have ki: "k div length ms = i" using k(2) pk [OF kl] by simp
    have "agree ls ms i (k mod length ms) len"
      using run_at_agree [of i ls "k mod length ms" ms len] k(3) pk [OF kl] ki kl m0
      by (auto simp: less_mult_imp_div_less less_imp_le)
    moreover have "\<not> agree ls ms i' j len" if i': "i' < i" for i' j
    proof
      assume a: "agree ls ms i' j len"
      then have j: "j < length ms" "i' < length ls" using pos by (auto simp: agree_def)
      define k' where "k' = i' * length ms + j"
      have "(i' + 1) * length ms \<le> i * length ms" using i' by (intro mult_le_mono1) simp
      then have "k' < k" using j ki div_times_less_eq_dividend [of k "length ms"] by (simp add: k'_def)
      moreover have "k' div length ms = i'" "k' mod length ms = j" using j(1) m0 by (simp_all add: k'_def)
      ultimately have "ps ! k' = (i', j)" using pk [of k'] kl by simp
      then have "run_at ls ms (i', j) < len" using k(4) \<open>k' < k\<close> by metis
      then show False using a run_at_agree [of i' ls j ms len] j by simp
    qed
    ultimately show ?thesis using pos by blast
  qed
  then show ?thesis using le at best by blast
qed

theorem hint_longest_block_witness:
  "longestMatchingBlock (unlines [str ''a'', str '' b'', str ''c'', str ''b'', str ''d'']) (unlines [str ''x'', str ''b'', str ''c''])
     = (Some 1, 2)
   \<and> (\<exists>j. agree [str ''a'', str '' b'', str ''c'', str ''b'', str ''d''] [str ''x'', str ''b'', str ''c''] 1 j 2)"
proof -
  let ?c = "unlines [str ''a'', str '' b'', str ''c'', str ''b'', str ''d'']"
  let ?o = "unlines [str ''x'', str ''b'', str ''c'']"
  have 1: "longestMatchingBlock ?c ?o = (Some 1, 2)" by code_simp
  have 2: "lines_of ?c = [str ''a'', str '' b'', str ''c'', str ''b'', str ''d'']"
    "lines_of ?o = [str ''x'', str ''b'', str ''c'']" by code_simp+
  show ?thesis using hint_longest_block [OF 1, unfolded 2] 1 by blast
qed

subsection \<open>The best window\<close>

text \<open>What the code's threshold between one half and one gives: a distance of at most half the length.\<close>

definition fuzzy_limit :: "(nat \<Rightarrow> int) \<Rightarrow> bool" where
  "fuzzy_limit limit \<longleftrightarrow> (\<forall>n. 0 \<le> limit n \<and> 2 * limit n \<le> int n)"

definition pair_length :: "rune list \<Rightarrow> rune list \<Rightarrow> int" where
  "pair_length a b = int (max (length a) (length b))"

text \<open>A window that the loop takes into account and whose distance is within its limit.\<close>

definition eligible :: "(nat \<Rightarrow> int) \<Rightarrow> rune list \<Rightarrow> rune list \<Rightarrow> bool" where
  "eligible limit a b \<longleftrightarrow> length b \<le> maxFuzzyRunes \<and> 0 < pair_length a b
     \<and> int (lev a b) \<le> limit (nat (pair_length a b))"

definition ratio :: "rune list \<Rightarrow> rune list \<Rightarrow> rat" where
  "ratio a b = of_int (int (lev a b)) / of_int (pair_length a b)"

definition state_ratio :: "nat \<times> int \<times> int \<Rightarrow> rat" where
  "state_ratio t = of_int (fst (snd t)) / of_int (snd (snd t))"

definition fuzzy_inv :: "(nat \<Rightarrow> int) \<Rightarrow> rune list \<Rightarrow> (nat \<Rightarrow> rune list) \<Rightarrow> nat set \<Rightarrow> fuzzy_state \<Rightarrow> bool" where
  "fuzzy_inv limit a c seen st \<longleftrightarrow>
     (case bestWindow st of
        None \<Rightarrow> (\<forall>i \<in> seen. \<not> eligible limit a (c i))
      | Some (b, d, n) \<Rightarrow> b \<in> seen \<and> eligible limit a (c b) \<and> d = int (lev a (c b)) \<and> n = pair_length a (c b)
          \<and> (\<forall>i \<in> seen. eligible limit a (c i) \<longrightarrow> ratio a (c b) \<le> ratio a (c i))
          \<and> (ambiguous st \<longleftrightarrow> (\<exists>i \<in> seen - {b}. eligible limit a (c i) \<and> ratio a (c i) = ratio a (c b))))"

lemma better_ratio:
  assumes "0 < n" "0 < n'"
  shows "d * n' < d' * n \<longleftrightarrow> (of_int d / of_int n :: rat) < of_int d' / of_int n'"
    and "d * n' = d' * n \<longleftrightarrow> (of_int d / of_int n :: rat) = of_int d' / of_int n'"
proof -
  have "(of_int d / of_int n :: rat) < of_int d' / of_int n' \<longleftrightarrow> (of_int (d * n') :: rat) < of_int (d' * n)"
    using assms by (simp add: divide_simps mult.commute)
  then show "d * n' < d' * n \<longleftrightarrow> (of_int d / of_int n :: rat) < of_int d' / of_int n'"
    by (simp only: of_int_less_iff)
  have "(of_int d / of_int n :: rat) = of_int d' / of_int n' \<longleftrightarrow> (of_int (d * n') :: rat) = of_int (d' * n)"
    using assms by (simp add: frac_eq_eq)
  then show "d * n' = d' * n \<longleftrightarrow> (of_int d / of_int n :: rat) = of_int d' / of_int n'"
    by (simp only: of_int_eq_iff)
qed

lemma fuzzy_inv_insert_other:
  "fuzzy_inv limit a c seen st \<Longrightarrow> \<not> eligible limit a (c i) \<Longrightarrow>
   bestWindow st' = bestWindow st \<Longrightarrow> ambiguous st' = ambiguous st \<Longrightarrow> fuzzy_inv limit a c (insert i seen) st'"
  by (auto simp: fuzzy_inv_def split: option.splits)

lemma fuzzyStep_cases:
  assumes "fuzzy_limit limit" "fuzzyStep limit a b i st = Inr st'"
  obtains (ineligible) "\<not> eligible limit a b" "bestWindow st' = bestWindow st" "ambiguous st' = ambiguous st"
  | (best) "eligible limit a b" "better (int (lev a b)) (pair_length a b) (bestWindow st)"
      "bestWindow st' = Some (i, int (lev a b), pair_length a b)" "\<not> ambiguous st'"
  | (tie) "eligible limit a b" "\<not> better (int (lev a b)) (pair_length a b) (bestWindow st)"
      "as_good (int (lev a b)) (pair_length a b) (bestWindow st)"
      "bestWindow st' = bestWindow st" "ambiguous st'"
  | (worse) "eligible limit a b" "\<not> better (int (lev a b)) (pair_length a b) (bestWindow st)"
      "\<not> as_good (int (lev a b)) (pair_length a b) (bestWindow st)"
      "bestWindow st' = bestWindow st" "ambiguous st' = ambiguous st"
proof (cases "length b > maxFuzzyRunes \<or> max (length a) (length b) = 0")
  case True
  then have "st' = st" using assms(2) by (auto simp: fuzzyStep_def Let_def)
  moreover have "\<not> eligible limit a b" using True by (auto simp: eligible_def pair_length_def)
  ultimately show ?thesis using ineligible by simp
next
  case False
  define n where "n = max (length a) (length b)"
  have "n \<noteq> 0" using False unfolding n_def by blast
  then have "0 < n" by simp
  moreover have "2 * limit n \<le> int n" using assms(1) by (simp add: fuzzy_limit_def)
  ultimately have "b \<noteq> [] \<or> a = [] \<or> limit n < int (length a)" by (cases "b = []"; cases a) (auto simp: n_def)
  then have cap: "capped (limit n) (boundedLevenshtein a b (limit n)) (int (lev a b))"
    by (rule boundedLevenshtein_capped)
  have pl: "pair_length a b = int n" by (simp add: pair_length_def n_def)
  have el: "eligible limit a b \<longleftrightarrow> boundedLevenshtein a b (limit n) \<le> limit n"
    using cap False \<open>0 < n\<close> by (auto simp: eligible_def pl capped_def split: if_splits)
  note step = assms(2) [unfolded fuzzyStep_def Let_def if_not_P [OF False], folded n_def]
  show ?thesis
  proof (cases "eligible limit a b")
    case e: True
    then have d: "boundedLevenshtein a b (limit n) = int (lev a b)"
      using cap el by (auto simp: capped_def split: if_splits)
    show ?thesis using step e el d best tie worse
      by (auto simp: pl split: if_splits)
  next
    case False
    then show ?thesis using step el ineligible by (auto split: if_splits)
  qed
qed

lemma fuzzyStep_inv:
  assumes "fuzzy_limit limit" "fuzzy_inv limit a c seen st" "i \<notin> seen"
    "fuzzyStep limit a (c i) i st = Inr st'"
  shows "fuzzy_inv limit a c (insert i seen) st'"
  using assms(1,4)
proof (cases rule: fuzzyStep_cases)
  case ineligible
  then show ?thesis using fuzzy_inv_insert_other [OF assms(2)] by blast
next
  case best
  have p: "0 < pair_length a (c i)" using best(1) by (simp add: eligible_def)
  show ?thesis
  proof (cases "bestWindow st")
    case None
    then show ?thesis using best assms(2,3) by (auto simp: fuzzy_inv_def)
  next
    case (Some t)
    then obtain b where t: "t = (b, int (lev a (c b)), pair_length a (c b))" "eligible limit a (c b)"
      "\<forall>k \<in> seen. eligible limit a (c k) \<longrightarrow> ratio a (c b) \<le> ratio a (c k)"
      using assms(2) by (auto simp: fuzzy_inv_def)
    have "ratio a (c i) < ratio a (c b)"
      using best(2) Some t(1,2) p better_ratio(1) [of "pair_length a (c i)" "pair_length a (c b)"]
      by (simp add: better_def ratio_def eligible_def)
    then show ?thesis using best(1,3,4) t(3) assms(3) by (force simp: fuzzy_inv_def)
  qed
next
  case tie
  then obtain b where t: "bestWindow st = Some (b, int (lev a (c b)), pair_length a (c b))"
    "eligible limit a (c b)" using assms(2) by (auto simp: fuzzy_inv_def as_good_def split: option.splits)
  have "ratio a (c i) = ratio a (c b)"
    using tie(1,3) t better_ratio(2) [of "pair_length a (c i)" "pair_length a (c b)"]
    by (simp add: as_good_def ratio_def eligible_def)
  then show ?thesis using assms(2,3) tie t by (auto simp: fuzzy_inv_def)
next
  case worse
  then obtain b where t: "bestWindow st = Some (b, int (lev a (c b)), pair_length a (c b))"
    "eligible limit a (c b)" using assms(2) by (auto simp: fuzzy_inv_def better_def split: option.splits)
  have "\<not> ratio a (c i) < ratio a (c b)" "ratio a (c i) \<noteq> ratio a (c b)"
    using worse(1-3) t better_ratio [of "pair_length a (c i)" "pair_length a (c b)"]
    by (simp_all add: better_def as_good_def ratio_def eligible_def)
  then show ?thesis using assms(2,3) worse(4,5) t by (force simp: fuzzy_inv_def)
qed

lemma fuzzyLoop_inv:
  assumes "fuzzy_limit limit" "fuzzy_inv limit a (candidateRunes ls k) seen st" "distinct is'" "set is' \<inter> seen = {}"
    "fuzzyLoop limit a ls k is' st = Inr st'"
  shows "fuzzy_inv limit a (candidateRunes ls k) (set is' \<union> seen) st'"
  using assms(2-)
proof (induction is' arbitrary: st seen)
  case (Cons i is')
  then obtain st1 where s: "fuzzyStep limit a (candidateRunes ls k i) i st = Inr st1"
    "fuzzyLoop limit a ls k is' st1 = Inr st'" by (auto split: sum.splits)
  have "fuzzy_inv limit a (candidateRunes ls k) (insert i seen) st1"
    using fuzzyStep_inv [OF assms(1) Cons.prems(1) _ s(1)] Cons.prems(3) by simp
  from Cons.IH [OF this _ _ s(2)] Cons.prems show ?case by auto
qed simp

text \<open>C29: a fuzzy match replaces the one window of lines whose normalised text is closest to the passage,
  relative to the longer of the two and within the requested similarity; every other window that is
  within it is strictly less close. Without a match no window is within it.\<close>

theorem fuzzy_unique_best:
  fixes content oldText :: bytes and limit :: "nat \<Rightarrow> int"
  defines "ls \<equiv> lines_of content" and "old \<equiv> lines_of oldText"
  defines "cand \<equiv> candidateRunes ls (length old)" and "a \<equiv> runes_of (normalizeFuzzyText old)"
  assumes "fuzzy_limit limit" "length old \<le> length ls"
    and "tryFuzzyMatch (Some limit) content oldText newText = Inr res"
  shows "case res of
      None \<Rightarrow> \<forall>i < length ls - length old + 1. \<not> eligible limit a (cand i)
    | Some r \<Rightarrow> \<exists>i < length ls - length old + 1. r = replaceLineWindow ls old newText i
        \<and> eligible limit a (cand i)
        \<and> (\<forall>k < length ls - length old + 1. k \<noteq> i \<longrightarrow> eligible limit a (cand k) \<longrightarrow>
              ratio a (cand i) < ratio a (cand k))"
proof -
  define st0 where "st0 = \<lparr>bestWindow = None :: (nat \<times> int \<times> int) option, ambiguous = False, workUsed = 0\<rparr>"
  define w where "w = length ls - length old + 1"
  obtain st where st: "fuzzyLoop limit a ls (length old) [0..<w] st0 = Inr st"
    "res = (case bestWindow st of None \<Rightarrow> None | Some (i, _) \<Rightarrow> Some (replaceLineWindow ls old newText i))"
    "bestWindow st \<noteq> None \<longrightarrow> \<not> ambiguous st"
    using assms(6,7) unfolding tryFuzzyMatch_def
    by (auto simp: Let_def ls_def old_def a_def w_def st0_def split: if_splits sum.splits option.splits prod.splits)
  have "fuzzy_inv limit a cand {} st0" by (simp add: fuzzy_inv_def st0_def)
  from fuzzyLoop_inv [OF assms(5) this [unfolded cand_def] _ _ st(1)]
  have inv': "fuzzy_inv limit a cand {..<w} st" by (simp add: cand_def lessThan_atLeast0)
  show ?thesis
  proof (cases "bestWindow st")
    case None
    then show ?thesis using inv' st(2) by (simp add: fuzzy_inv_def w_def)
  next
    case (Some t)
    then obtain b where b: "t = (b, int (lev a (cand b)), pair_length a (cand b))" "b < w" "eligible limit a (cand b)"
      "\<forall>i < w. eligible limit a (cand i) \<longrightarrow> ratio a (cand b) \<le> ratio a (cand i)"
      "\<forall>i < w. i \<noteq> b \<longrightarrow> eligible limit a (cand i) \<longrightarrow> ratio a (cand i) \<noteq> ratio a (cand b)"
      using inv' st(3) by (auto simp: fuzzy_inv_def)
    have "ratio a (cand b) < ratio a (cand k)" if "k < w" "k \<noteq> b" "eligible limit a (cand k)" for k
      using b(4,5) that by (metis order_less_le)
    moreover have "res = Some (replaceLineWindow ls old newText b)" using st(2) Some b(1) by simp
    ultimately show ?thesis using b(2,3) unfolding w_def by (simp, blast)
  qed
qed

theorem fuzzy_unique_best_witness:
  "tryFuzzyMatch (Some (\<lambda>n. int n div 5)) (unlines [str ''foo(bar)'', str ''  return x1'']) (str ''return  x2'') (str ''return y'')
     = Inr (Some (unlines [str ''foo(bar)'', str ''  return y'']))
   \<and> (\<exists>i < 2. unlines [str ''foo(bar)'', str ''  return y'']
        = replaceLineWindow [str ''foo(bar)'', str ''  return x1''] [str ''return  x2''] (str ''return y'') i)"
proof -
  let ?c = "unlines [str ''foo(bar)'', str ''  return x1'']"
  have 1: "tryFuzzyMatch (Some (\<lambda>n. int n div 5)) ?c (str ''return  x2'') (str ''return y'')
     = Inr (Some (unlines [str ''foo(bar)'', str ''  return y'']))" by code_simp
  have 2: "lines_of ?c = [str ''foo(bar)'', str ''  return x1'']"
    "lines_of (str ''return  x2'') = [str ''return  x2'']" by code_simp+
  have 3: "fuzzy_limit (\<lambda>n. int n div 5)" by (simp add: fuzzy_limit_def) linarith
  show ?thesis using fuzzy_unique_best [OF 3 _ 1, unfolded 2] 1 by (simp add: eval_nat_numeral) blast
qed

subsection \<open>What an edit leaves alone\<close>

text \<open>One passage of the text is replaced: the first occurrence of the old text, or a block of whole
  lines with as many lines as the old text.\<close>

definition one_passage :: "bytes \<Rightarrow> 'f edit_operation \<Rightarrow> bytes \<Rightarrow> bool" where
  "one_passage content edit r \<longleftrightarrow> OldText edit \<noteq> [] \<and>
     (let old = ConvertLineEndings (OldText edit) LineEndingLF; new = ConvertLineEndings (NewText edit) LineEndingLF in
      if contains content old
      then \<exists>pre post. content = pre @ old @ post \<and> r = pre @ new @ post
        \<and> (\<forall>j < length pre. \<not> has_prefix old (drop j content))
      else \<exists>pre block post new'. lines_of content = pre @ block @ post \<and> r = unlines (pre @ new' @ post)
        \<and> length block = length (lines_of old)
        \<and> (Similarity edit = None \<longrightarrow> map trim_space block = map trim_space (lines_of old)))"

lemma splice_block:
  assumes "i + k \<le> length ls"
  shows "\<exists>pre block post. ls = pre @ block @ post \<and> spliceLines ls i k new = unlines (pre @ new @ post)
    \<and> length block = k \<and> block = take k (drop i ls)"
proof (intro exI conjI)
  show "ls = take i ls @ take k (drop i ls) @ drop (i + k) ls"
    by (metis add.commute append_take_drop_id drop_drop)
qed (use assms in \<open>simp_all add: spliceLines_def\<close>)

lemma windowMatches_trim:
  "i + length old \<le> length ls \<Longrightarrow> windowMatches ls old i \<longleftrightarrow>
   map trim_space (take (length old) (drop i ls)) = map trim_space old"
  unfolding windowMatches_def list_all2_conv_all_nth list_eq_iff_nth_eq by (auto simp del: take_map)

lemma find_upt: "find P [0..<n] = Some i \<longleftrightarrow> i < n \<and> P i \<and> (\<forall>j < i. \<not> P j)"
  by (auto simp: find_Some_iff simp del: upt_Suc)

lemma tryFlexibleMatch_block:
  assumes "tryFlexibleMatch content old new = Some r"
  shows "\<exists>pre block post new'. lines_of content = pre @ block @ post \<and> r = unlines (pre @ new' @ post)
    \<and> length block = length (lines_of old) \<and> map trim_space block = map trim_space (lines_of old)"
proof -
  obtain i new' where "\<not> length (lines_of content) < length (lines_of old)"
    "find (windowMatches (lines_of content) (lines_of old))
       [0..<length (lines_of content) - length (lines_of old) + 1] = Some i"
    "r = spliceLines (lines_of content) i (length (lines_of old)) new'"
    using assms unfolding tryFlexibleMatch_def Let_def by (simp split: if_splits option.splits del: upt_Suc) blast
  then have i: "i + length (lines_of old) \<le> length (lines_of content)"
    "windowMatches (lines_of content) (lines_of old) i"
    "r = spliceLines (lines_of content) i (length (lines_of old)) new'"
    unfolding find_upt by (linarith, simp_all)
  then show ?thesis
    using splice_block [OF i(1), of new'] windowMatches_trim [OF i(1)] by metis
qed

lemma fuzzyStep_window:
  "fuzzyStep limit a b i st = Inr st' \<Longrightarrow> bestWindow st' = bestWindow st \<or> (\<exists>d. bestWindow st' = Some (i, d))"
  by (auto simp: fuzzyStep_def Let_def split: if_splits)

lemma fuzzyLoop_window:
  "fuzzyLoop limit a ls k is' st = Inr st' \<Longrightarrow>
   bestWindow st' = bestWindow st \<or> (\<exists>i d. bestWindow st' = Some (i, d) \<and> i \<in> set is')"
proof (induction is' arbitrary: st)
  case (Cons i is')
  then obtain st1 where s: "fuzzyStep limit a (candidateRunes ls k i) i st = Inr st1"
    "fuzzyLoop limit a ls k is' st1 = Inr st'" by (auto split: sum.splits)
  show ?case using fuzzyStep_window [OF s(1)] Cons.IH [OF s(2)] by auto
qed simp

lemma tryFuzzyMatch_block:
  assumes "tryFuzzyMatch similarity content old new = Inr (Some r)"
  shows "\<exists>pre block post new'. lines_of content = pre @ block @ post \<and> r = unlines (pre @ new' @ post)
    \<and> length block = length (lines_of old)"
proof -
  let ?ls = "lines_of content" and ?old = "lines_of old"
  obtain limit st i d where s: "length ?old \<le> length ?ls" "bestWindow st = Some (i, d)"
    "fuzzyLoop limit (runes_of (normalizeFuzzyText ?old)) ?ls (length ?old) [0..<length ?ls - length ?old + 1]
       \<lparr>bestWindow = None, ambiguous = False, workUsed = 0\<rparr> = Inr st"
    "r = replaceLineWindow ?ls ?old new i"
    using assms by (auto simp: tryFuzzyMatch_def Let_def simp del: upt_Suc
      split: option.splits if_splits sum.splits prod.splits)
  have "i < length ?ls - length ?old + 1" using fuzzyLoop_window [OF s(3)] s(2) by auto
  then have "i + length ?old \<le> length ?ls" using s(1) by simp
  from splice_block [OF this] show ?thesis unfolding s(4) replaceLineWindow_def by metis
qed

lemma applyEdit_passage:
  assumes "applyEdit limit content edit = Inr r"
  shows "one_passage content edit r"
proof -
  let ?old = "ConvertLineEndings (OldText edit) LineEndingLF"
  let ?new = "ConvertLineEndings (NewText edit) LineEndingLF"
  have ne: "OldText edit \<noteq> []" using assms by (auto simp: applyEdit_def)
  show ?thesis
  proof (cases "contains content ?old")
    case True
    then obtain i where i: "index_of ?old content = Some i" by (auto simp: contains_def)
    have "r = take i content @ ?new @ drop (i + length ?old) content"
      using assms ne True i by (simp add: applyEdit_def Let_def replace_first_def)
    moreover have "content = take i content @ ?old @ drop (i + length ?old) content"
      "length (take i content) = i" using index_of_Some [OF i] by auto
    moreover from this have "\<forall>j < length (take i content). \<not> has_prefix ?old (drop j content)"
      using index_of_least [OF i] by metis
    ultimately show ?thesis using ne True unfolding one_passage_def Let_def if_P [OF True] by blast
  next
    case False
    then consider "tryFlexibleMatch content ?old ?new = Some r"
      | s where "Similarity edit = Some s" "tryFuzzyMatch (limit s) content ?old ?new = Inr (Some r)"
      using assms ne by (auto simp: applyEdit_def Let_def split: option.splits sum.splits)
    then show ?thesis
    proof cases
      case 1
      then show ?thesis using tryFlexibleMatch_block [OF 1] ne False unfolding one_passage_def Let_def by auto
    next
      case 2
      then show ?thesis using tryFuzzyMatch_block [OF 2(2)] ne False unfolding one_passage_def Let_def by auto
    qed
  qed
qed

text \<open>C28: edits that succeed replace one passage each, in their order: the first occurrence of the old text
  when it occurs, else one block of whole lines, which agree with the old lines up to white space when
  no similarity is requested. Everything around the passage stays as it is.\<close>

theorem edits_replace_passages:
  assumes "applyEdits limit content edits' = Inr r"
  shows "\<exists>texts. length texts = length edits' + 1 \<and> texts ! 0 = content \<and> last texts = r
    \<and> (\<forall>k < length edits'. one_passage (texts ! k) (edits' ! k) (texts ! Suc k))"
  using assms
proof (induction limit content edits' rule: applyEdits.induct)
  case (1 limit content)
  then show ?case by (intro exI [of _ "[content]"]) simp
next
  case (2 limit content edit edits')
  then obtain c where c: "applyEdit limit content edit = Inr c" "applyEdits limit c edits' = Inr r"
    by (auto split: sum.splits)
  then obtain texts where t: "length texts = length edits' + 1" "texts ! 0 = c" "last texts = r"
    "\<forall>k < length edits'. one_passage (texts ! k) (edits' ! k) (texts ! Suc k)" using "2.IH" by blast
  then show ?case using applyEdit_passage [OF c(1)]
    by (intro exI [of _ "content # texts"]) (auto simp: nth_Cons split: nat.split)
qed

theorem edits_replace_passages_witness:
  "applyEdits (\<lambda>_ :: unit. None) (unlines [str ''if x {'', str ''  a()'', str ''}''])
     [\<lparr>OldText = str ''x'', NewText = str ''y'', Similarity = None\<rparr>, \<lparr>OldText = str ''a() '', NewText = str ''b()'', Similarity = None\<rparr>]
     = Inr (unlines [str ''if y {'', str ''  b()'', str ''}''])
   \<and> (\<exists>texts. length texts = 3 \<and> texts ! 0 = unlines [str ''if x {'', str ''  a()'', str ''}''])"
proof -
  have 1: "applyEdits (\<lambda>_ :: unit. None) (unlines [str ''if x {'', str ''  a()'', str ''}''])
     [\<lparr>OldText = str ''x'', NewText = str ''y'', Similarity = None\<rparr>, \<lparr>OldText = str ''a() '', NewText = str ''b()'', Similarity = None\<rparr>]
     = Inr (unlines [str ''if y {'', str ''  b()'', str ''}''])" by code_simp
  show ?thesis using edits_replace_passages [OF 1] 1 by (simp add: eval_nat_numeral) blast
qed

end
