(* ===== verification/Diff_Window.thy ===== *)
theory Diff_Window
  imports Go_Strings
begin

text \<open>
  The diff shown for an edit (\<^verbatim>\<open>createUnifiedDiff\<close> of \<^verbatim>\<open>handler/edit_file.go\<close>): only a window of whole
  lines around the change is given to the third-party differ, the argument \<^verbatim>\<open>full\<close>, and the line
  numbers of its hunk headers are shifted to their place in the whole text. Line numbers are far
  below the bound of an \<^verbatim>\<open>int\<close>, so the decimal values are kept as naturals.
\<close>

subsection \<open>Definitions\<close>

definition unifiedDiffContextLines :: nat where "unifiedDiffContextLines = 3"
definition boundedUnifiedDiffMaxWindowByte :: nat where "boundedUnifiedDiffMaxWindowByte = 512 * 1024"

text \<open>\<^verbatim>\<open>strings.IndexByte\<close> and \<^verbatim>\<open>strings.LastIndexByte\<close>.\<close>

fun index_byte :: "byte \<Rightarrow> bytes \<Rightarrow> nat option" where
  "index_byte c [] = None"
| "index_byte c (x # xs) = (if x = c then Some 0 else map_option Suc (index_byte c xs))"

definition last_index_byte :: "byte \<Rightarrow> bytes \<Rightarrow> nat option" where
  "last_index_byte c s = map_option (\<lambda>i. length s - 1 - i) (index_byte c (rev s))"

text \<open>The two loops that count the common bytes from the front and from the back.\<close>

function commonPrefix :: "bytes \<Rightarrow> bytes \<Rightarrow> nat \<Rightarrow> nat \<Rightarrow> nat" where
  "commonPrefix original modified limit i =
     (if i < limit \<and> original ! i = modified ! i then commonPrefix original modified limit (i + 1) else i)"
  by pat_completeness auto
termination by (relation "measure (\<lambda>(a, b, n, i). n - i)") auto

function commonSuffix :: "bytes \<Rightarrow> bytes \<Rightarrow> nat \<Rightarrow> nat \<Rightarrow> nat" where
  "commonSuffix original modified limit i =
     (if i < limit \<and> original ! (length original - 1 - i) = modified ! (length modified - 1 - i)
      then commonSuffix original modified limit (i + 1) else i)"
  by pat_completeness auto
termination by (relation "measure (\<lambda>(a, b, n, i). n - i)") auto

declare commonPrefix.simps [simp del] commonSuffix.simps [simp del]

definition bothLineStarts :: "bytes \<Rightarrow> nat \<Rightarrow> bytes \<Rightarrow> nat \<Rightarrow> bool" where
  "bothLineStarts left leftOffset right rightOffset \<longleftrightarrow>
     (leftOffset = 0 \<or> 0 < leftOffset \<and> left ! (leftOffset - 1) = newline)
     \<and> (rightOffset = 0 \<or> 0 < rightOffset \<and> right ! (rightOffset - 1) = newline)"

fun contextStart :: "bytes \<Rightarrow> nat \<Rightarrow> nat \<Rightarrow> nat" where
  "contextStart text' position 0 = position"
| "contextStart text' position (Suc k) =
     (if position = 0 then position
      else (case last_index_byte newline (take (position - 1) text') of
          None \<Rightarrow> 0
        | Some n \<Rightarrow> contextStart text' (n + 1) k))"

definition unifiedDiffContextStart :: "bytes \<Rightarrow> nat \<Rightarrow> nat \<Rightarrow> nat" where
  "unifiedDiffContextStart text' lineStart contextLines =
     contextStart text' (min lineStart (length text')) contextLines"

fun contextEnd :: "bytes \<Rightarrow> nat \<Rightarrow> nat \<Rightarrow> nat" where
  "contextEnd text' position 0 = position"
| "contextEnd text' position (Suc k) =
     (if length text' \<le> position then position
      else (case index_byte newline (drop position text') of
          None \<Rightarrow> length text'
        | Some n \<Rightarrow> contextEnd text' (position + n + 1) k))"

definition unifiedDiffContextEnd :: "bytes \<Rightarrow> nat \<Rightarrow> nat \<Rightarrow> nat" where
  "unifiedDiffContextEnd text' lineStart contextLines =
     contextEnd text' (min lineStart (length text')) contextLines"

text \<open>The digits at an offset: their value and the offset after them.\<close>

fun digitsFrom :: "bytes \<Rightarrow> nat \<Rightarrow> nat \<Rightarrow> nat \<times> nat" where
  "digitsFrom [] value' stop = (value', stop)"
| "digitsFrom (c # s) value' stop =
     (if is_digit c then digitsFrom s (value' * 10 + (unat c - 48)) (stop + 1) else (value', stop))"

definition parseUnifiedDiffLineNumber :: "bytes \<Rightarrow> nat \<Rightarrow> (nat \<times> nat) option" where
  "parseUnifiedDiffLineNumber line start =
     (if length line \<le> start \<or> \<not> is_digit (line ! start) then None
      else Some (digitsFrom (drop start line) 0 start))"

definition adjustUnifiedDiffHunkHeader :: "bytes \<Rightarrow> nat \<Rightarrow> nat \<Rightarrow> bytes option" where
  "adjustUnifiedDiffHunkHeader line oldOffset newOffset =
     (if \<not> has_prefix (str ''@@ -'') line then None
      else (case parseUnifiedDiffLineNumber line 4 of
          None \<Rightarrow> None
        | Some (oldStart, oldEnd) \<Rightarrow>
            (case index_of (str '' +'') (drop oldEnd line) of
               None \<Rightarrow> None
             | Some plusRelative \<Rightarrow>
                 (let newNumberAt = oldEnd + plusRelative + 2 in
                  case parseUnifiedDiffLineNumber line newNumberAt of
                    None \<Rightarrow> None
                  | Some (newStart, newEnd) \<Rightarrow>
                      Some (take 4 line @ itoa (oldStart + oldOffset)
                        @ drop oldEnd (take newNumberAt line) @ itoa (newStart + newOffset)
                        @ drop newEnd line)))))"

function adjustLines :: "bytes \<Rightarrow> nat \<Rightarrow> nat \<Rightarrow> bytes \<Rightarrow> bytes option" where
  "adjustLines rest oldOffset newOffset output =
     (if rest = [] then Some output
      else (let line = takeWhile (\<lambda>b. b \<noteq> newline) rest; hasNewline = length line < length rest in
        case (if has_prefix (str ''@@ -'') line then adjustUnifiedDiffHunkHeader line oldOffset newOffset
              else Some line) of
          None \<Rightarrow> None
        | Some adjusted \<Rightarrow>
            adjustLines (drop (length line + 1) rest) oldOffset newOffset
              (output @ adjusted @ (if hasNewline then [newline] else []))))"
  by pat_completeness auto
termination by (relation "measure (\<lambda>(r, a, b, c). length r)") auto

definition adjustUnifiedDiffHunkOffsets :: "bytes \<Rightarrow> nat \<Rightarrow> nat \<Rightarrow> bytes option" where
  "adjustUnifiedDiffHunkOffsets diff oldOffset newOffset =
     (if diff = [] \<or> oldOffset = 0 \<and> newOffset = 0 then Some diff
      else adjustLines diff oldOffset newOffset [])"

text \<open>The window: its start in both texts, and its end in each.\<close>

definition changeLineStartOf :: "bytes \<Rightarrow> nat \<Rightarrow> nat" where
  "changeLineStartOf original prefixLength =
     (if 0 < prefixLength then
        (case last_index_byte newline (take prefixLength original) of Some n \<Rightarrow> n + 1 | None \<Rightarrow> 0)
      else 0)"

definition suffixStarts :: "bytes \<Rightarrow> bytes \<Rightarrow> nat \<Rightarrow> nat \<times> nat" where
  "suffixStarts original modified suffixLength =
     (let oldSuffixStart = length original - suffixLength; newSuffixStart = length modified - suffixLength in
      if 0 < suffixLength \<and> \<not> bothLineStarts original oldSuffixStart modified newSuffixStart then
        (case index_byte newline (drop oldSuffixStart original) of
           None \<Rightarrow> (length original, length modified)
         | Some n \<Rightarrow> (oldSuffixStart + n + 1, newSuffixStart + n + 1))
      else (oldSuffixStart, newSuffixStart))"

definition diffWindow :: "bytes \<Rightarrow> bytes \<Rightarrow> nat \<times> nat \<times> nat" where
  "diffWindow original modified =
     (let prefixLength = commonPrefix original modified (min (length original) (length modified)) 0;
          maxSuffix = min (length original - prefixLength) (length modified - prefixLength);
          suffixLength = commonSuffix original modified maxSuffix 0;
          (oldSuffixStart, newSuffixStart) = suffixStarts original modified suffixLength in
      (unifiedDiffContextStart original (changeLineStartOf original prefixLength) unifiedDiffContextLines,
       unifiedDiffContextEnd original oldSuffixStart unifiedDiffContextLines,
       unifiedDiffContextEnd modified newSuffixStart unifiedDiffContextLines))"

definition line_count :: "bytes \<Rightarrow> nat" where
  "line_count s = length (filter (\<lambda>b. b = newline) s)"

definition createBoundedUnifiedDiff :: "(bytes \<Rightarrow> bytes \<Rightarrow> bytes \<Rightarrow> bytes) \<Rightarrow> bytes \<Rightarrow> bytes \<Rightarrow> bytes \<Rightarrow> bytes option" where
  "createBoundedUnifiedDiff full original modified path =
     (if original = modified then Some []
      else (let (windowStart, oldWindowEnd, newWindowEnd) = diffWindow original modified in
        if oldWindowEnd - windowStart + (newWindowEnd - windowStart) > boundedUnifiedDiffMaxWindowByte then None
        else adjustUnifiedDiffHunkOffsets
          (full (drop windowStart (take oldWindowEnd original)) (drop windowStart (take newWindowEnd modified)) path)
          (line_count (take windowStart original)) (line_count (take windowStart modified))))"

definition createUnifiedDiff :: "(bytes \<Rightarrow> bytes \<Rightarrow> bytes \<Rightarrow> bytes) \<Rightarrow> bytes \<Rightarrow> bytes \<Rightarrow> bytes \<Rightarrow> bytes" where
  "createUnifiedDiff full original modified path =
     (case createBoundedUnifiedDiff full original modified path of
        Some diff \<Rightarrow> diff
      | None \<Rightarrow> full original modified path)"

subsection \<open>The window holds the whole change\<close>

lemma index_byte_Some: "index_byte c s = Some i \<Longrightarrow> i < length s \<and> s ! i = c"
  by (induction s arbitrary: i) (auto split: if_splits)

lemma last_index_byte_Some: "last_index_byte c s = Some i \<Longrightarrow> i < length s \<and> s ! i = c"
  by (auto simp: last_index_byte_def rev_nth dest!: index_byte_Some)

lemma commonPrefix_take:
  "take i a = take i b \<Longrightarrow> i \<le> n \<Longrightarrow> n \<le> length a \<Longrightarrow> n \<le> length b \<Longrightarrow>
   take (commonPrefix a b n i) a = take (commonPrefix a b n i) b \<and> commonPrefix a b n i \<le> n"
proof (induction a b n i rule: commonPrefix.induct)
  case (1 a b n i)
  show ?case
  proof (cases "i < n \<and> a ! i = b ! i")
    case True
    then have "take (i + 1) a = take (i + 1) b" using 1 by (simp add: take_Suc_conv_app_nth)
    then show ?thesis using 1 True by (subst (1 2 3) commonPrefix.simps) simp
  qed (use 1 in \<open>subst (1 2 3) commonPrefix.simps, auto\<close>)
qed

lemma commonSuffix_drop:
  "drop (length a - i) a = drop (length b - i) b \<Longrightarrow> i \<le> n \<Longrightarrow> n \<le> length a \<Longrightarrow> n \<le> length b \<Longrightarrow>
   drop (length a - commonSuffix a b n i) a = drop (length b - commonSuffix a b n i) b
   \<and> commonSuffix a b n i \<le> n"
proof (induction a b n i rule: commonSuffix.induct)
  case (1 a b n i)
  show ?case
  proof (cases "i < n \<and> a ! (length a - 1 - i) = b ! (length b - 1 - i)")
    case True
    have s: "drop (length s - (i + 1)) s = s ! (length s - 1 - i) # drop (length s - i) s" if "i < length s" for s
    proof -
      have "Suc (length s - (i + 1)) = length s - i" using that by simp
      then show ?thesis using Cons_nth_drop_Suc [of "length s - (i + 1)" s] that by simp
    qed
    have "drop (length a - (i + 1)) a = drop (length b - (i + 1)) b"
      using 1 True s [of a] s [of b] by simp
    then show ?thesis using 1 True by (subst (1 2 3) commonSuffix.simps) simp
  qed (use 1 in \<open>subst (1 2 3) commonSuffix.simps, auto\<close>)
qed

definition line_start :: "bytes \<Rightarrow> nat \<Rightarrow> bool" where
  "line_start s p \<longleftrightarrow> p = 0 \<or> 0 < p \<and> p \<le> length s \<and> s ! (p - 1) = newline"

lemma contextStart_start:
  "line_start s p \<Longrightarrow> contextStart s p k \<le> p \<and> line_start s (contextStart s p k)"
proof (induction s p k rule: contextStart.induct)
  case (2 s p k)
  show ?case
  proof (cases "p = 0 \<or> last_index_byte newline (take (p - 1) s) = None")
    case True
    then show ?thesis using "2.prems" by (auto simp: line_start_def)
  next
    case False
    then obtain n where n: "last_index_byte newline (take (p - 1) s) = Some n" by auto
    from last_index_byte_Some [OF n] have "n + 1 \<le> p" "line_start s (n + 1)"
      by (auto simp: line_start_def)
    then show ?thesis using "2.IH" [OF _ n] False n by auto
  qed
qed simp

lemma contextEnd_end:
  "line_start s p \<or> p = length s \<Longrightarrow> p \<le> length s \<Longrightarrow>
   p \<le> contextEnd s p k \<and> contextEnd s p k \<le> length s
   \<and> (line_start s (contextEnd s p k) \<or> contextEnd s p k = length s)"
proof (induction s p k rule: contextEnd.induct)
  case (2 s p k)
  show ?case
  proof (cases "length s \<le> p \<or> index_byte newline (drop p s) = None")
    case True
    then show ?thesis using "2.prems" by auto
  next
    case False
    then obtain n where n: "index_byte newline (drop p s) = Some n" by auto
    from index_byte_Some [OF n] have "p + n + 1 \<le> length s" "line_start s (p + n + 1)"
      by (auto simp: line_start_def)
    then show ?thesis using "2.IH" [OF _ n] False n by auto
  qed
qed simp

lemma contextEnd_same:
  "drop p a = drop q b \<Longrightarrow> p \<le> length a \<Longrightarrow> q \<le> length b \<Longrightarrow>
   drop (contextEnd a p k) a = drop (contextEnd b q k) b"
proof (induction k arbitrary: p q)
  case (Suc k)
  have l: "length a - p = length b - q" using arg_cong [OF Suc.prems(1), of length] by simp
  show ?case
  proof (cases "length a \<le> p \<or> index_byte newline (drop p a) = None")
    case True
    then show ?thesis using Suc.prems l by (auto split: option.splits)
  next
    case False
    then obtain n where n: "index_byte newline (drop p a) = Some n" by auto
    have "n < length a - p" using index_byte_Some [OF n] by simp
    moreover have "drop (p + n + 1) a = drop (q + n + 1) b"
      using arg_cong [OF Suc.prems(1), of "drop (n + 1)"] by (simp add: ac_simps)
    ultimately show ?thesis using Suc.IH [of "p + n + 1" "q + n + 1"] False n Suc.prems l by simp
  qed
qed simp

lemma suffixStarts_same:
  assumes "drop (length a - n) a = drop (length b - n) b" "n \<le> length a" "n \<le> length b"
    "suffixStarts a b n = (p, q)"
  shows "drop p a = drop q b" "length a - n \<le> p" "length b - n \<le> q" "p \<le> length a" "q \<le> length b"
    "(line_start a p \<and> line_start b q) \<or> (p = length a \<and> q = length b)"
proof -
  let ?p = "length a - n" and ?q = "length b - n"
  have "drop p a = drop q b \<and> ?p \<le> p \<and> ?q \<le> q \<and> p \<le> length a \<and> q \<le> length b
    \<and> ((line_start a p \<and> line_start b q) \<or> (p = length a \<and> q = length b))"
  proof (cases "0 < n \<and> \<not> bothLineStarts a ?p b ?q")
    case False
    then have "p = ?p" "q = ?q" using assms(4) by (auto simp: suffixStarts_def)
    then show ?thesis using assms False by (cases n) (auto simp: bothLineStarts_def line_start_def)
  next
    case True
    show ?thesis
    proof (cases "index_byte newline (drop ?p a)")
      case None
      then show ?thesis using True assms by (simp add: suffixStarts_def)
    next
      case (Some i)
      then have pq: "p = ?p + i + 1" "q = ?q + i + 1" using True assms(4) by (auto simp: suffixStarts_def)
      have i: "i < n" "drop ?p a ! i = newline" using index_byte_Some [OF Some] assms(2) by auto
      moreover have "drop ?q b ! i = newline" using i assms(1) by simp
      moreover have "drop p a = drop q b"
        using arg_cong [OF assms(1), of "drop (i + 1)"] unfolding pq by (simp add: ac_simps)
      ultimately show ?thesis using assms(2,3) by (auto simp: pq line_start_def)
    qed
  qed
  then show "drop p a = drop q b" "?p \<le> p" "?q \<le> q" "p \<le> length a" "q \<le> length b"
    "(line_start a p \<and> line_start b q) \<or> (p = length a \<and> q = length b)" by blast+
qed

lemma changeLineStart_start:
  "n \<le> length a \<Longrightarrow> changeLineStartOf a n \<le> n \<and> line_start a (changeLineStartOf a n)"
  by (auto simp: changeLineStartOf_def line_start_def split: option.splits dest!: last_index_byte_Some)

lemma window_start:
  assumes "take n original = take n modified" "n \<le> length original" "n \<le> length modified"
    "start = unifiedDiffContextStart original (changeLineStartOf original n) k"
  shows "start \<le> n" "take start original = take start modified" "line_start original start"
    "line_start modified start"
proof -
  note cl = changeLineStart_start [OF assms(2)]
  have e: "start = contextStart original (changeLineStartOf original n) k"
    using cl assms(2,4) by (simp add: unifiedDiffContextStart_def min_absorb1)
  show c: "start \<le> n" "line_start original start"
    using cl contextStart_start [of original "changeLineStartOf original n" k] unfolding e by auto
  show t: "take start original = take start modified"
    using arg_cong [OF assms(1), of "take start"] c(1) by (simp add: min_absorb1)
  have "original ! (start - 1) = modified ! (start - 1)" if "0 < start"
    using arg_cong [OF t, of "\<lambda>l. l ! (start - 1)"] that by simp
  then show "line_start modified start" using c assms(3) by (auto simp: line_start_def)
qed

lemma window_end:
  assumes "line_start text' p \<or> p = length text'" "p \<le> length text'"
  shows "p \<le> unifiedDiffContextEnd text' p k" "unifiedDiffContextEnd text' p k \<le> length text'"
    "line_start text' (unifiedDiffContextEnd text' p k) \<or> unifiedDiffContextEnd text' p k = length text'"
  using contextEnd_end [OF assms, of k] assms(2) by (simp_all add: unifiedDiffContextEnd_def min_absorb1)

text \<open>C31: outside the window the two texts agree, before it byte for byte at the same place and after it
  up to the end, and the window starts and ends at line boundaries of both; so the diff of the windows
  is a diff of the texts.\<close>

theorem diff_window_complete:
  assumes "diffWindow original modified = (start, oldEnd, newEnd)"
  shows "start \<le> oldEnd \<and> oldEnd \<le> length original \<and> start \<le> newEnd \<and> newEnd \<le> length modified
    \<and> take start original = take start modified \<and> drop oldEnd original = drop newEnd modified
    \<and> line_start original start \<and> line_start modified start
    \<and> (line_start original oldEnd \<or> oldEnd = length original)
    \<and> (line_start modified newEnd \<or> newEnd = length modified)"
proof -
  define n where "n = commonPrefix original modified (min (length original) (length modified)) 0"
  define k where "k = commonSuffix original modified (min (length original - n) (length modified - n)) 0"
  obtain p q where pq: "suffixStarts original modified k = (p, q)" by fastforce
  have e: "start = unifiedDiffContextStart original (changeLineStartOf original n) unifiedDiffContextLines"
    "oldEnd = unifiedDiffContextEnd original p unifiedDiffContextLines"
    "newEnd = unifiedDiffContextEnd modified q unifiedDiffContextLines"
    using assms pq by (simp_all add: diffWindow_def Let_def flip: n_def k_def)
  have n: "take n original = take n modified" "n \<le> length original" "n \<le> length modified"
    using commonPrefix_take [of 0 original modified "min (length original) (length modified)"]
    by (simp_all add: n_def)
  have k: "drop (length original - k) original = drop (length modified - k) modified"
    "k \<le> length original - n" "k \<le> length modified - n"
    using commonSuffix_drop [of original 0 modified "min (length original - n) (length modified - n)"]
    by (simp_all add: k_def)
  then have kl: "k \<le> length original" "k \<le> length modified" by simp_all
  note st = window_start [OF n e(1)]
  note s = suffixStarts_same [OF k(1) kl pq]
  have "line_start original p \<or> p = length original" "line_start modified q \<or> q = length modified"
    using s(6) by blast+
  note o = window_end [OF this(1) s(4), of unifiedDiffContextLines, folded e(2)]
    and m = window_end [OF this(2) s(5), of unifiedDiffContextLines, folded e(3)]
  have "drop oldEnd original = drop newEnd modified"
    using contextEnd_same [OF s(1,4,5)] s(4,5) by (simp add: e unifiedDiffContextEnd_def min_absorb1)
  moreover have "start \<le> oldEnd" "start \<le> newEnd" using st(1) s(2,3) k kl n o(1) m(1) by linarith+
  ultimately show ?thesis using st o m by blast
qed

theorem diff_window_complete_witness:
  "diffWindow (str ''a'' @ [10] @ str ''b'' @ [10]) (str ''a'' @ [10] @ str ''c'' @ [10]) = (0, 4, 4)
   \<and> take 0 (str ''a'' @ [10] @ str ''b'' @ [10]) = take 0 (str ''a'' @ [10] @ str ''c'' @ [10])"
proof -
  have 1: "diffWindow (str ''a'' @ [10] @ str ''b'' @ [10]) (str ''a'' @ [10] @ str ''c'' @ [10]) = (0, 4, 4)"
    by code_simp
  show ?thesis using diff_window_complete [OF 1] 1 by blast
qed

subsection \<open>Shifted hunk headers\<close>

lemma digitsFrom_append:
  "list_all is_digit ds \<Longrightarrow> s = [] \<or> \<not> is_digit (hd s) \<Longrightarrow>
   int (fst (digitsFrom (ds @ s) v i)) = foldl (\<lambda>v d. v * 10 + (uint d - 48)) (int v) ds
   \<and> snd (digitsFrom (ds @ s) v i) = i + length ds"
proof (induction ds arbitrary: v i)
  case Nil
  then show ?case by (cases s) auto
next
  case (Cons d ds)
  have "48 \<le> unat d" using Cons.prems(1) by (simp add: is_digit_def word_le_nat_alt)
  then show ?case using Cons by (simp add: of_nat_diff add_diff_eq)
qed

lemma parse_number_at:
  assumes "s = [] \<or> \<not> is_digit (hd s)" "length p = k"
  shows "parseUnifiedDiffLineNumber (p @ itoa n @ s) k = Some (n, k + length (itoa n))"
proof -
  note d = itoa_digits [of n]
  have "parseUnifiedDiffLineNumber (p @ itoa n @ s) (length p) = Some (digitsFrom (itoa n @ s) 0 (length p))"
    using d by (cases "itoa n") (auto simp: parseUnifiedDiffLineNumber_def nth_append)
  moreover have "digitsFrom (itoa n @ s) 0 (length p) = (n, length p + length (itoa n))"
    using digitsFrom_append [of "itoa n" s 0 "length p"] d assms digits_value_itoa [of n]
    by (simp add: digits_value_def prod_eq_iff)
  ultimately show ?thesis using assms(2) by simp
qed

lemma index_of_skip:
  "\<forall>b \<in> set m. b \<noteq> c \<Longrightarrow> index_of (c # w) (m @ c # w @ s) = Some (length m)"
  by (induction m) (simp_all add: has_prefix_def)

text \<open>Adjusting a hunk header adds the two offsets to its two start numbers and leaves everything else
  as it is.\<close>

theorem hunk_header_shifted:
  assumes "0x20 \<notin> set mid" "mid = [] \<or> \<not> is_digit (hd mid)" "tail = [] \<or> \<not> is_digit (hd tail)"
  shows "adjustUnifiedDiffHunkHeader (str ''@@ -'' @ itoa a @ mid @ str '' +'' @ itoa c @ tail) i j
    = Some (str ''@@ -'' @ itoa (a + i) @ mid @ str '' +'' @ itoa (c + j) @ tail)"
proof -
  have w: "str ''@@ -'' = [0x40, 0x40, 0x20, 0x2D]" "str '' +'' = [0x20, 0x2B]" by code_simp+
  let ?pre = "str ''@@ -'' @ itoa a @ mid @ str '' +''"
  let ?line = "str ''@@ -'' @ itoa a @ mid @ str '' +'' @ itoa c @ tail"
  let ?k = "4 + length (itoa a) + length mid + 2"
  have 1: "parseUnifiedDiffLineNumber ?line 4 = Some (a, 4 + length (itoa a))"
    by (rule parse_number_at) (use assms(2) in \<open>cases mid; simp add: w is_digit_def\<close>)+
  have part: "drop i (take k (p @ q @ r)) = q" if "length p = i" "i + length q = k" for p q r :: bytes and i k
    using that by (simp flip: that)
  have end': "drop i (p @ r) = r" if "length p = i" for p r :: bytes and i using that by simp
  have l: "length (str ''@@ -'') = 4" "length (str ''@@ -'' @ itoa a) = 4 + length (itoa a)" by (simp_all add: w)
  have d: "drop (4 + length (itoa a)) ?line = mid @ str '' +'' @ itoa c @ tail"
    using end' [OF l(2), of "mid @ str '' +'' @ itoa c @ tail"] by simp
  have 2: "index_of (str '' +'') (drop (4 + length (itoa a)) ?line) = Some (length mid)"
    unfolding d using index_of_skip [of mid "0x20" "[0x2B]" "itoa c @ tail"] assms(1) by (auto simp: w)
  have "length ?pre = ?k" by (simp add: w)
  from parse_number_at [OF assms(3) this]
  have 3: "parseUnifiedDiffLineNumber ?line ?k = Some (c, ?k + length (itoa c))" by simp
  have 4: "take 4 ?line = str ''@@ -''" using part [of "[]" 0 "str ''@@ -''" 4] l by simp
  have 5: "drop (4 + length (itoa a)) (take ?k ?line) = mid @ str '' +''"
    using part [OF l(2), of "mid @ str '' +''" ?k "itoa c @ tail"] by (simp add: w)
  have 6: "drop (?k + length (itoa c)) ?line = tail"
    using end' [of "?pre @ itoa c" "?k + length (itoa c)" tail] by (simp add: w)
  show ?thesis
    unfolding adjustUnifiedDiffHunkHeader_def Let_def 1 2 3 4 5 6 option.case prod.case by simp
qed

theorem hunk_header_shifted_witness:
  "adjustUnifiedDiffHunkHeader (str ''@@ -9,6 +9,7 @@'') 120 121 = Some (str ''@@ -129,6 +130,7 @@'')"
proof -
  have n: "itoa 9 = str ''9''" "itoa 129 = str ''129''" "itoa 130 = str ''130''" by code_simp+
  have s: "str ''@@ -9,6 +9,7 @@'' = str ''@@ -'' @ itoa 9 @ str '',6'' @ str '' +'' @ itoa 9 @ str '',7 @@''"
    "str ''@@ -129,6 +130,7 @@'' = str ''@@ -'' @ itoa 129 @ str '',6'' @ str '' +'' @ itoa 130 @ str '',7 @@''"
    unfolding n by code_simp+
  have h: "0x20 \<notin> set (str '',6'')" "\<not> is_digit (hd (str '',6''))" "\<not> is_digit (hd (str '',7 @@''))"
    by code_simp+
  show ?thesis unfolding s using hunk_header_shifted [of "str '',6''" "str '',7 @@''" 9 9 120 121] h by simp
qed

text \<open>A window that ends inside the text ends with a newline: split into lines it has an empty line at its
  end where the text goes on with another line.\<close>

lemma window_phantom_line:
  "let original = unlines (map str [''r'', ''e'', ''f'', ''g'', ''h'', ''i'']);
       modified = unlines (map str [''z'', ''r'', ''e'', ''f'', ''g'', ''t'', ''e'', ''f'', ''g'', ''h'', ''i'']) in
   diffWindow original modified = (0, 8, 18)
   \<and> lines_of (take 8 original) = map str [''r'', ''e'', ''f'', ''g''] @ [[]]
   \<and> lines_of original ! 4 = str ''h''"
  by code_simp

end
