(* ===== verification/Deferred_Store.thy ===== *)
theory Deferred_Store
  imports Go_Strings Go_Json "HOL-Library.List_Lexorder" "HOL-Library.Product_Lexorder"
begin

text \<open>
  The durable store of deferred operations (\<^verbatim>\<open>internal/deferredoperation/store.go\<close>, \<^verbatim>\<open>types.go\<close> and
  \<^verbatim>\<open>recovery.go\<close>). Every operation holds the control lock from its first read to its last write, so
  each is one step on the store; a directory is its request, its state files, its markers, the time
  of its heartbeat file and its result. Times are nanoseconds. The checks of the security package on
  paths, the JSON text of a request record, the validity of JSON and the number of bytes a directory
  takes are a record of arguments. A request is read back from its file as the code does, with the bound
  on the file; a claim and a cancellation are given as the directories after each of their writes, so that
  a process may die between them. Deaths inside an admission, between a result and the completed state and
  inside a recovery pass, and errors of the operating system, are not modelled.
\<close>

subsection \<open>Data\<close>

datatype deferred_error =
    ErrDisabled | ErrInvalidInput | ErrNotFound | ErrAccessDenied | ErrCapacity | ErrAlreadyStarted
  | ErrTerminal | ErrResultMissing | ErrHistoryInvalid | ErrRevisionInvalid | ErrFileExists
  | ErrHistoryExhausted | ErrRandom | ErrReadFailed

datatype operation_status =
    StatusQueued | StatusStarting | StatusRunning | StatusCompleted | StatusFailed | StatusTimedOut
  | StatusCancelled | StatusInterrupted

fun terminalStatus :: "operation_status \<Rightarrow> bool" where
  "terminalStatus StatusCompleted = True"
| "terminalStatus StatusFailed = True"
| "terminalStatus StatusTimedOut = True"
| "terminalStatus StatusCancelled = True"
| "terminalStatus StatusInterrupted = True"
| "terminalStatus _ = False"

record deferred_limits =
  MaxConcurrency :: int
  MaxQueued :: int
  MaxRuntimeSeconds :: int
  RetentionSeconds :: int
  MaxTerminal :: int
  MaxTotalBytes :: int
  MaxResultBytes :: int
  MaxChunkBytes :: int

record deferred_request =
  Tool :: bytes
  Arguments :: bytes
  AllowedDirectories :: "bytes list"
  OriginPaths :: "bytes list"
  RequestConfig :: bytes
  RequestRuntime :: int

record result_metadata =
  OriginalIsError :: bool
  ErrorCode :: bytes

record operation_state =
  Status :: operation_status
  Revision :: nat
  UpdatedAt :: int
  StartedAt :: "int option"
  FinishedAt :: "int option"
  Result :: "result_metadata option"
  TotalBytes :: nat
  Message :: bytes

record operation_dir =
  requestCreatedAt :: int
  requestOf :: deferred_request
  stateFiles :: "operation_state list"
  startedMarker :: bool
  exposedMarker :: bool
  cancelMarker :: bool
  heartbeatAt :: "int option"
  resultFile :: "bytes option"

record deferred_store =
  storeLimits :: deferred_limits
  operationDirs :: "(bytes \<times> operation_dir) list"

record deferred_env =
  jsonValid :: "bytes \<Rightarrow> bool"
  recordJSON :: "bytes \<Rightarrow> int \<Rightarrow> deferred_request \<Rightarrow> bytes"
  storedArguments :: "bytes \<Rightarrow> bytes option"
  normalizeDirs :: "bytes list \<Rightarrow> bytes list option"
  validatePath :: "bytes list \<Rightarrow> bytes \<Rightarrow> bytes option"
  directoryBytes :: "operation_dir \<Rightarrow> int"

record operation_view =
  viewID :: bytes
  viewTool :: bytes
  viewStatus :: operation_status
  viewCreatedAt :: int
  viewState :: operation_state
  viewStarted :: bool
  viewExposed :: bool
  viewCancelRequested :: bool
  viewResultAvailable :: bool

record deferred_chunk =
  chunkOffset :: int
  chunkNext :: int
  chunkData :: bytes
  chunkComplete :: bool

definition maxOperationRecords :: nat where "maxOperationRecords = 32"
definition maxRequestBytes :: int where "maxRequestBytes = 2 * 1024 * 1024"
definition nanos :: int where "nanos = 1000000000"
definition operationStaleAfter :: int where "operationStaleAfter = 15 * nanos"

definition ValidOperationID :: "bytes \<Rightarrow> bool" where
  "ValidOperationID v \<longleftrightarrow> length v = 67 \<and> take 3 v = str ''op_'' \<and> list_all is_hex (drop 3 v)"

definition operationID :: "bytes option \<Rightarrow> deferred_error + bytes" where
  "operationID payload =
     (case payload of None \<Rightarrow> Inl ErrRandom | Some p \<Rightarrow> Inr (str ''op_'' @ hex_encode p))"

definition orDefault :: "int \<Rightarrow> int \<Rightarrow> int" where
  "orDefault v d = (if v \<le> 0 then d else v)"

definition normalizeLimits :: "deferred_limits \<Rightarrow> deferred_error + deferred_limits" where
  "normalizeLimits l =
     (let l' = \<lparr>MaxConcurrency = orDefault (MaxConcurrency l) 4, MaxQueued = orDefault (MaxQueued l) 64,
          MaxRuntimeSeconds = orDefault (MaxRuntimeSeconds l) 300,
          RetentionSeconds = orDefault (RetentionSeconds l) 3600, MaxTerminal = orDefault (MaxTerminal l) 64,
          MaxTotalBytes = orDefault (MaxTotalBytes l) (256 * 1024 * 1024),
          MaxResultBytes = orDefault (MaxResultBytes l) (64 * 1024 * 1024),
          MaxChunkBytes = orDefault (MaxChunkBytes l) (1024 * 1024)\<rparr> in
      if MaxConcurrency l' > 64 \<or> MaxQueued l' > 1024 \<or> MaxRuntimeSeconds l' > 24 * 60 * 60
         \<or> RetentionSeconds l' > 7 * 24 * 60 * 60 \<or> MaxTerminal l' > 4096 \<or> MaxTotalBytes l' > 2 ^ 40
         \<or> MaxResultBytes l' > MaxTotalBytes l' \<or> MaxChunkBytes l' > 8 * 1024 * 1024
      then Inl ErrInvalidInput else Inr l')"

text \<open>\<^verbatim>\<open>boundedMessage\<close>: trimmed, made valid, and cut to 1024 bytes at a character boundary.\<close>

definition boundedMessage :: "bytes \<Rightarrow> bytes" where
  "boundedMessage v =
     (let v' = ToValidUTF8 (encode_rune rune_error) False (trim_space v) in
      if length v' \<le> 1024 then v' else shorten_valid (take 1024 v'))"

subsection \<open>One directory\<close>

text \<open>The latest state is that of the file whose name, the revision in six digits, is the last.\<close>

definition latestOperationState :: "operation_dir \<Rightarrow> deferred_error + operation_state" where
  "latestOperationState d =
     (if stateFiles d = [] \<or> maxOperationRecords < length (stateFiles d) then Inl ErrHistoryInvalid
      else (let s = last (sort_key Revision (stateFiles d)) in
        if Revision s = 0 \<or> maxOperationRecords < Revision s then Inl ErrRevisionInvalid else Inr s))"

definition writeStateExclusive :: "operation_state \<Rightarrow> operation_dir \<Rightarrow> deferred_error + operation_dir" where
  "writeStateExclusive s d =
     (if Revision s = 0 \<or> maxOperationRecords < Revision s then Inl ErrInvalidInput
      else if \<exists>f \<in> set (stateFiles d). Revision f = Revision s then Inl ErrFileExists
      else Inr (d\<lparr>stateFiles := stateFiles d @ [s]\<rparr>))"

text \<open>
  The request file holds JSON text. What is read from it is the request with every byte of its strings
  that is no character replaced, and with the arguments in the compact form in which they are written;
  \<^verbatim>\<open>storedArguments\<close> gives these, and nothing when the record cannot be decoded (the decoder bounds the
  nesting of the whole record). A file of more than 2 MiB is not read.
\<close>

definition read_request_back :: "deferred_request \<Rightarrow> bytes \<Rightarrow> deferred_request" where
  "read_request_back r arguments =
     r\<lparr>Tool := json_string (Tool r), Arguments := arguments,
       AllowedDirectories := map json_string (AllowedDirectories r), OriginPaths := map json_string (OriginPaths r)\<rparr>"

definition readRequest :: "deferred_env \<Rightarrow> bytes \<Rightarrow> operation_dir \<Rightarrow> deferred_error + deferred_request" where
  "readRequest env i d =
     (if int (length (recordJSON env i (requestCreatedAt d) (requestOf d))) > maxRequestBytes then Inl ErrReadFailed
      else (case storedArguments env (Arguments (requestOf d)) of
          None \<Rightarrow> Inl ErrReadFailed
        | Some arguments \<Rightarrow>
            (let r = read_request_back (requestOf d) arguments in
             if Tool r = [] \<or> \<not> jsonValid env (Arguments r) then Inl ErrReadFailed else Inr r)))"

definition readOperationLocked ::
  "deferred_env \<Rightarrow> bytes \<Rightarrow> operation_dir \<Rightarrow> deferred_error + deferred_request \<times> operation_state" where
  "readOperationLocked env i d =
     (case readRequest env i d of
        Inl e \<Rightarrow> Inl e
      | Inr r \<Rightarrow> (case latestOperationState d of Inl e \<Rightarrow> Inl e | Inr s \<Rightarrow> Inr (r, s)))"

definition operationFrom :: "bytes \<Rightarrow> deferred_request \<Rightarrow> operation_dir \<Rightarrow> operation_state \<Rightarrow> operation_view" where
  "operationFrom i r d s =
     \<lparr>viewID = i, viewTool = Tool r, viewStatus = Status s, viewCreatedAt = requestCreatedAt d,
      viewState = s, viewStarted = (StartedAt s \<noteq> None \<and> startedMarker d), viewExposed = exposedMarker d,
      viewCancelRequested = cancelMarker d,
      viewResultAvailable = (Status s = StatusCompleted \<and> resultFile d \<noteq> None)\<rparr>"

definition plain_state :: "operation_status \<Rightarrow> nat \<Rightarrow> int \<Rightarrow> operation_state" where
  "plain_state status rev' now =
     \<lparr>Status = status, Revision = rev', UpdatedAt = now, StartedAt = None, FinishedAt = None, Result = None,
      TotalBytes = 0, Message = []\<rparr>"

definition cancelled_state :: "operation_state \<Rightarrow> int \<Rightarrow> operation_state" where
  "cancelled_state current now =
     (plain_state StatusCancelled (Revision current + 1) now)
       \<lparr>FinishedAt := Some now, Message := str ''operation cancelled before execution''\<rparr>"

definition failed_state :: "operation_status \<Rightarrow> bytes \<Rightarrow> bytes \<Rightarrow> operation_state \<Rightarrow> int \<Rightarrow> operation_state" where
  "failed_state status code message current now =
     \<lparr>Status = status, Revision = Revision current + 1, UpdatedAt = now, StartedAt = StartedAt current,
      FinishedAt = Some now, Result = Some \<lparr>OriginalIsError = False, ErrorCode = code\<rparr>, TotalBytes = 0,
      Message = boundedMessage message\<rparr>"

text \<open>Freshness of the heartbeat; the clock is read again when the file is newer than the observation.\<close>

definition timestampFreshAt :: "int \<Rightarrow> int \<Rightarrow> bool" where
  "timestampFreshAt timestamp observation \<longleftrightarrow>
     0 \<le> observation - timestamp \<and> observation - timestamp \<le> operationStaleAfter"

definition stateStaleAt :: "operation_state \<Rightarrow> int \<Rightarrow> bool" where
  "stateStaleAt s now \<longleftrightarrow> now - UpdatedAt s > operationStaleAfter"

definition executorHeartbeatFresh :: "operation_dir \<Rightarrow> operation_state \<Rightarrow> int \<Rightarrow> int \<Rightarrow> bool" where
  "executorHeartbeatFresh d s observation later =
     (case heartbeatAt d of
        Some modifiedAt \<Rightarrow> timestampFreshAt modifiedAt (if modifiedAt > observation then later else observation)
      | None \<Rightarrow> timestampFreshAt (UpdatedAt s) observation)"

definition writeRecoveryTerminal ::
  "operation_status \<Rightarrow> bytes \<Rightarrow> bytes \<Rightarrow> operation_state \<Rightarrow> int \<Rightarrow> operation_dir \<Rightarrow> deferred_error + operation_dir" where
  "writeRecoveryTerminal status code message current now d =
     (if maxOperationRecords \<le> Revision current then Inl ErrHistoryExhausted
      else writeStateExclusive (failed_state status code message current now) d)"

text \<open>
  The operations on one directory, under the control lock: their answer and the directory after. For a
  claim and a cancellation, the directories after each write are listed; the operation leaves the last of
  them, a process that dies inside it one of those before.
\<close>

definition last_write :: "operation_dir \<Rightarrow> 'a \<times> operation_dir list \<Rightarrow> 'a \<times> operation_dir" where
  "last_write d w = (fst w, last (d # snd w))"

definition dies_after :: "nat \<Rightarrow> operation_dir \<Rightarrow> 'a \<times> operation_dir list \<Rightarrow> (deferred_error + unit) \<times> operation_dir" where
  "dies_after n d w = (Inr (), last (d # take n (snd w)))"

definition claimWrites ::
  "deferred_env \<Rightarrow> bytes \<Rightarrow> int \<Rightarrow> operation_dir \<Rightarrow> (deferred_error + operation_view) \<times> operation_dir list" where
  "claimWrites env i now d =
     (case readOperationLocked env i d of
        Inl e \<Rightarrow> (Inl e, [])
      | Inr (r, current) \<Rightarrow>
          if terminalStatus (Status current) then (Inl ErrTerminal, [])
          else if startedMarker d then (Inl ErrAlreadyStarted, [])
          else if cancelMarker d then
            (case writeStateExclusive (cancelled_state current now) d of
               Inl e \<Rightarrow> (Inl e, [])
             | Inr d' \<Rightarrow> (Inl ErrTerminal, [d']))
          else (let d1 = d\<lparr>startedMarker := True\<rparr>;
                    state = (plain_state StatusRunning (Revision current + 1) now)\<lparr>StartedAt := Some now\<rparr> in
            case writeStateExclusive state d1 of
              Inl e \<Rightarrow> (Inl e, [d1])
            | Inr d2 \<Rightarrow>
                (let d3 = d2\<lparr>heartbeatAt := Some now\<rparr> in (Inr (operationFrom i r d3 state), [d1, d2, d3]))))"

definition claimDir ::
  "deferred_env \<Rightarrow> bytes \<Rightarrow> int \<Rightarrow> operation_dir \<Rightarrow> (deferred_error + operation_view) \<times> operation_dir" where
  "claimDir env i now d = last_write d (claimWrites env i now d)"

definition markStartingDir ::
  "deferred_env \<Rightarrow> bytes \<Rightarrow> int \<Rightarrow> operation_dir \<Rightarrow> (deferred_error + operation_view) \<times> operation_dir" where
  "markStartingDir env i now d =
     (case readOperationLocked env i d of
        Inl e \<Rightarrow> (Inl e, d)
      | Inr (r, current) \<Rightarrow>
          if terminalStatus (Status current) then (Inl ErrTerminal, d)
          else if Status current \<noteq> StatusQueued then (Inl ErrAlreadyStarted, d)
          else (let next' = plain_state StatusStarting (Revision current + 1) now in
            case writeStateExclusive next' d of
              Inl e \<Rightarrow> (Inl e, d)
            | Inr d' \<Rightarrow> (Inr (operationFrom i r d' next'), d')))"

definition completeDir ::
  "deferred_env \<Rightarrow> bytes \<Rightarrow> bytes \<Rightarrow> result_metadata \<Rightarrow> int \<Rightarrow> operation_dir \<Rightarrow> (deferred_error + operation_view) \<times> operation_dir" where
  "completeDir env i payload meta now d =
     (case readOperationLocked env i d of
        Inl e \<Rightarrow> (Inl e, d)
      | Inr (r, current) \<Rightarrow>
          if terminalStatus (Status current) then (Inl ErrTerminal, d)
          else if Status current \<noteq> StatusRunning \<or> \<not> startedMarker d then (Inl ErrAlreadyStarted, d)
          else if resultFile d \<noteq> None then (Inl ErrFileExists, d)
          else (let d1 = d\<lparr>resultFile := Some payload\<rparr>;
                    state = \<lparr>Status = StatusCompleted, Revision = Revision current + 1, UpdatedAt = now,
                      StartedAt = StartedAt current, FinishedAt = Some now, Result = Some meta,
                      TotalBytes = length payload, Message = []\<rparr> in
            case writeStateExclusive state d1 of
              Inl e \<Rightarrow> (Inl e, d1)
            | Inr d2 \<Rightarrow> (Inr (operationFrom i r d2 state), d2)))"

definition failDir ::
  "deferred_env \<Rightarrow> bytes \<Rightarrow> operation_status \<Rightarrow> bytes \<Rightarrow> bytes \<Rightarrow> int \<Rightarrow> operation_dir \<Rightarrow> (deferred_error + operation_view) \<times> operation_dir" where
  "failDir env i status code message now d =
     (case readOperationLocked env i d of
        Inl e \<Rightarrow> (Inl e, d)
      | Inr (r, current) \<Rightarrow>
          if terminalStatus (Status current) then (Inr (operationFrom i r d current), d)
          else (let state = failed_state status code message current now in
            case writeStateExclusive state d of
              Inl e \<Rightarrow> (Inl e, d)
            | Inr d' \<Rightarrow> (Inr (operationFrom i r d' state), d')))"

definition cancelWrites ::
  "deferred_env \<Rightarrow> bytes \<Rightarrow> int \<Rightarrow> operation_dir \<Rightarrow> (deferred_error + operation_view) \<times> operation_dir list" where
  "cancelWrites env i now d =
     (case readOperationLocked env i d of
        Inl e \<Rightarrow> (Inl e, [])
      | Inr (r, current) \<Rightarrow>
          if terminalStatus (Status current) then (Inr (operationFrom i r d current), [])
          else (let d1 = d\<lparr>cancelMarker := True\<rparr> in
            if \<not> startedMarker d then
              (let state = cancelled_state current now in
               case writeStateExclusive state d1 of
                 Inl e \<Rightarrow> (Inl e, [d1])
               | Inr d2 \<Rightarrow> (Inr (operationFrom i r d2 state), [d1, d2]))
            else (Inr ((operationFrom i r d1 current)\<lparr>viewCancelRequested := True\<rparr>), [d1])))"

definition cancelDir ::
  "deferred_env \<Rightarrow> bytes \<Rightarrow> int \<Rightarrow> operation_dir \<Rightarrow> (deferred_error + operation_view) \<times> operation_dir" where
  "cancelDir env i now d = last_write d (cancelWrites env i now d)"

definition lost_code :: bytes where "lost_code = str ''EXECUTOR_LOST''"
definition lost_message :: bytes where
  "lost_message = str ''deferred executor heartbeat was lost; operation was not rerun''"

definition reconcileLostExecutor :: "int \<Rightarrow> int \<Rightarrow> operation_dir \<Rightarrow> deferred_error + operation_dir" where
  "reconcileLostExecutor now later d =
     (case latestOperationState d of
        Inl e \<Rightarrow> Inl e
      | Inr s \<Rightarrow>
          if terminalStatus (Status s) \<or> (Status s \<noteq> StatusRunning \<and> Status s \<noteq> StatusStarting) \<or> \<not> startedMarker d
          then Inr d
          else if executorHeartbeatFresh d s now later then Inr d
          else writeRecoveryTerminal StatusInterrupted lost_code lost_message s now d)"

definition getDir ::
  "deferred_env \<Rightarrow> bytes \<Rightarrow> int \<Rightarrow> int \<Rightarrow> operation_dir \<Rightarrow> (deferred_error + operation_view) \<times> operation_dir" where
  "getDir env i now later d =
     (case reconcileLostExecutor now later d of
        Inl e \<Rightarrow> (Inl e, d)
      | Inr d' \<Rightarrow>
          (case readOperationLocked env i d' of
             Inl e \<Rightarrow> (Inl e, d')
           | Inr (r, s) \<Rightarrow> (Inr (operationFrom i r d' s), d')))"

subsection \<open>The store\<close>

definition set_dir :: "bytes \<Rightarrow> operation_dir \<Rightarrow> deferred_store \<Rightarrow> deferred_store" where
  "set_dir i d st =
     st\<lparr>operationDirs := map (\<lambda>(j, e). if j = i then (j, d) else (j, e)) (operationDirs st)\<rparr>"

definition on_dir :: "bytes \<Rightarrow> (operation_dir \<Rightarrow> (deferred_error + 'a) \<times> operation_dir) \<Rightarrow> deferred_store
    \<Rightarrow> (deferred_error + 'a) \<times> deferred_store" where
  "on_dir i f st =
     (if \<not> ValidOperationID i then (Inl ErrInvalidInput, st)
      else (case map_of (operationDirs st) i of
          None \<Rightarrow> (Inl ErrNotFound, st)
        | Some d \<Rightarrow> (case f d of (r, d') \<Rightarrow> (r, set_dir i d' st))))"

definition validateVisibility :: "deferred_env \<Rightarrow> bytes \<Rightarrow> bytes list \<Rightarrow> operation_dir \<Rightarrow> deferred_error option" where
  "validateVisibility env i allowed d =
     (case readRequest env i d of
        Inl e \<Rightarrow> Some e
      | Inr r \<Rightarrow>
          if OriginPaths r = [] then None
          else (case normalizeDirs env allowed of
              None \<Rightarrow> Some ErrAccessDenied
            | Some resolved \<Rightarrow>
                if resolved = [] then Some ErrAccessDenied
                else if \<exists>origin \<in> set (OriginPaths r). validatePath env resolved origin = None
                then Some ErrAccessDenied
                else None))"

definition visible :: "deferred_env \<Rightarrow> bytes \<Rightarrow> bytes list \<Rightarrow>
    (operation_dir \<Rightarrow> (deferred_error + 'a) \<times> operation_dir) \<Rightarrow> operation_dir \<Rightarrow> (deferred_error + 'a) \<times> operation_dir" where
  "visible env i allowed f d =
     (case validateVisibility env i allowed d of Some e \<Rightarrow> (Inl e, d) | None \<Rightarrow> f d)"

definition MarkStarting ::
  "deferred_env \<Rightarrow> bytes \<Rightarrow> int \<Rightarrow> deferred_store \<Rightarrow> (deferred_error + operation_view) \<times> deferred_store" where
  "MarkStarting env i now = on_dir i (markStartingDir env i now)"

definition Claim :: "deferred_env \<Rightarrow> bytes \<Rightarrow> int \<Rightarrow> deferred_store \<Rightarrow> (deferred_error + operation_view) \<times> deferred_store" where
  "Claim env i now = on_dir i (claimDir env i now)"

text \<open>The store after a claim, or a cancellation, of a process that died after \<^verbatim>\<open>n\<close> of its writes.\<close>

definition ClaimCut :: "deferred_env \<Rightarrow> bytes \<Rightarrow> nat \<Rightarrow> int \<Rightarrow> deferred_store \<Rightarrow> deferred_store" where
  "ClaimCut env i n now st = snd (on_dir i (\<lambda>d. dies_after n d (claimWrites env i now d)) st)"

definition CancelCut :: "deferred_env \<Rightarrow> bytes \<Rightarrow> bytes list \<Rightarrow> nat \<Rightarrow> int \<Rightarrow> deferred_store \<Rightarrow> deferred_store" where
  "CancelCut env i allowed n now st =
     snd (on_dir i (visible env i allowed (\<lambda>d. dies_after n d (cancelWrites env i now d))) st)"

definition CompleteOperation ::
  "deferred_env \<Rightarrow> bytes \<Rightarrow> bytes \<Rightarrow> result_metadata \<Rightarrow> int \<Rightarrow> deferred_store
    \<Rightarrow> (deferred_error + operation_view) \<times> deferred_store" where
  "CompleteOperation env i payload meta now st =
     (if \<not> ValidOperationID i \<or> payload = [] \<or> \<not> utf8_valid payload
         \<or> int (length payload) > MaxResultBytes (storeLimits st)
      then (Inl ErrCapacity, st)
      else on_dir i (completeDir env i payload meta now) st)"

definition Fail ::
  "deferred_env \<Rightarrow> bytes \<Rightarrow> operation_status \<Rightarrow> bytes \<Rightarrow> bytes \<Rightarrow> int \<Rightarrow> deferred_store
    \<Rightarrow> (deferred_error + operation_view) \<times> deferred_store" where
  "Fail env i status code message now st =
     (if status \<notin> {StatusFailed, StatusTimedOut, StatusCancelled, StatusInterrupted}
      then (Inl ErrInvalidInput, st)
      else on_dir i (failDir env i status code message now) st)"

definition CancelOperation ::
  "deferred_env \<Rightarrow> bytes \<Rightarrow> bytes list \<Rightarrow> int \<Rightarrow> deferred_store \<Rightarrow> (deferred_error + operation_view) \<times> deferred_store" where
  "CancelOperation env i allowed now = on_dir i (visible env i allowed (cancelDir env i now))"

definition GetContext ::
  "deferred_env \<Rightarrow> bytes \<Rightarrow> bytes list \<Rightarrow> int \<Rightarrow> int \<Rightarrow> deferred_store \<Rightarrow> (deferred_error + operation_view) \<times> deferred_store" where
  "GetContext env i allowed now later = on_dir i (visible env i allowed (getDir env i now later))"

text \<open>The marker of \<^verbatim>\<open>MarkExposed\<close> is written between two readings of the operation, without the lock.\<close>

definition exposeDir :: "operation_dir \<Rightarrow> operation_dir" where
  "exposeDir d = d\<lparr>exposedMarker := True\<rparr>"

definition MarkExposed ::
  "deferred_env \<Rightarrow> bytes \<Rightarrow> bytes list \<Rightarrow> int \<Rightarrow> int \<Rightarrow> deferred_store \<Rightarrow> (deferred_error + operation_view) \<times> deferred_store" where
  "MarkExposed env i allowed now later st =
     (case GetContext env i allowed now later st of
        (Inl e, st1) \<Rightarrow> (Inl e, st1)
      | (Inr v, st1) \<Rightarrow>
          (case map_of (operationDirs st1) i of
             None \<Rightarrow> (Inl ErrNotFound, st1)
           | Some d \<Rightarrow> GetContext env i allowed now later (set_dir i (exposeDir d) st1)))"

text \<open>Reading the result: as a whole, and in chunks that end at character boundaries.\<close>

definition ReadResult ::
  "deferred_env \<Rightarrow> bytes \<Rightarrow> bytes list \<Rightarrow> int \<Rightarrow> int \<Rightarrow> deferred_store \<Rightarrow> (deferred_error + bytes) \<times> deferred_store" where
  "ReadResult env i allowed now later st =
     (case GetContext env i allowed now later st of
        (Inl e, st1) \<Rightarrow> (Inl e, st1)
      | (Inr v, st1) \<Rightarrow>
          (let total' = TotalBytes (viewState v) in
           if viewStatus v \<noteq> StatusCompleted \<or> \<not> viewResultAvailable v \<or> total' = 0
              \<or> int total' > MaxResultBytes (storeLimits st1)
           then (Inl ErrResultMissing, st1)
           else (case map_of (operationDirs st1) i of
               None \<Rightarrow> (Inl ErrReadFailed, st1)
             | Some d \<Rightarrow>
                 (case resultFile d of
                    None \<Rightarrow> (Inl ErrReadFailed, st1)
                  | Some payload \<Rightarrow>
                      if length payload \<noteq> total' \<or> int (length payload) > MaxResultBytes (storeLimits st1)
                         \<or> \<not> utf8_valid payload
                      then (Inl ErrResultMissing, st1) else (Inr payload, st1)))))"

fun shrinkChunk :: "bytes \<Rightarrow> nat \<Rightarrow> nat \<Rightarrow> nat \<Rightarrow> nat" where
  "shrinkChunk buffer offset total' 0 = 0"
| "shrinkChunk buffer offset total' (Suc n) =
     (if offset + Suc n < total' \<and> \<not> utf8_valid (take (Suc n) buffer) then shrinkChunk buffer offset total' n
      else Suc n)"

definition chunkAt :: "int \<Rightarrow> bytes \<Rightarrow> nat \<Rightarrow> nat \<Rightarrow> nat \<Rightarrow> deferred_error + bytes" where
  "chunkAt maxChunk file total' offset limit =
     (if offset < total' \<and> 0 < offset \<and> length file \<le> offset then Inl ErrReadFailed
      else if offset < total' \<and> 0 < offset \<and> file ! offset AND 0xC0 = 0x80 then Inl ErrInvalidInput
      else (let buffer = take (min limit (total' - offset)) (drop offset file);
                stop = shrinkChunk buffer offset total' (length buffer) in
        if stop = 0 \<and> offset < total' then
          (let probe = take 4 (drop offset file); size' = snd (decode_rune probe) in
           if size' = 0 \<or> int size' > maxChunk then Inl ErrInvalidInput else Inr (take size' probe))
        else Inr (take stop buffer)))"

definition resultChunk :: "int \<Rightarrow> bytes \<Rightarrow> nat \<Rightarrow> int \<Rightarrow> int \<Rightarrow> deferred_error + deferred_chunk" where
  "resultChunk maxChunk file total' offset limitBytes =
     (if offset < 0 \<or> offset > int total' \<or> limitBytes < 0 then Inl ErrInvalidInput
      else (let limit = (if limitBytes = 0 \<or> limitBytes > maxChunk then maxChunk else limitBytes) in
        case chunkAt maxChunk file total' (nat offset) (nat limit) of
          Inl e \<Rightarrow> Inl e
        | Inr data \<Rightarrow> Inr \<lparr>chunkOffset = offset, chunkNext = offset + int (length data), chunkData = data,
            chunkComplete = (offset + int (length data) = int total')\<rparr>))"

definition ResultChunk ::
  "deferred_env \<Rightarrow> bytes \<Rightarrow> bytes list \<Rightarrow> int \<Rightarrow> int \<Rightarrow> int \<Rightarrow> int \<Rightarrow> deferred_store
    \<Rightarrow> (deferred_error + deferred_chunk) \<times> deferred_store" where
  "ResultChunk env i allowed offset limitBytes now later st =
     (case GetContext env i allowed now later st of
        (Inl e, st1) \<Rightarrow> (Inl e, st1)
      | (Inr v, st1) \<Rightarrow>
          if viewStatus v \<noteq> StatusCompleted \<or> \<not> viewResultAvailable v then (Inl ErrResultMissing, st1)
          else (case map_of (operationDirs st1) i of
              None \<Rightarrow> (Inl ErrReadFailed, st1)
            | Some d \<Rightarrow>
                (case resultFile d of
                   None \<Rightarrow> (Inl ErrReadFailed, st1)
                 | Some file \<Rightarrow>
                     (resultChunk (MaxChunkBytes (storeLimits st1)) file (TotalBytes (viewState v)) offset limitBytes,
                      st1))))"

subsection \<open>Admission and retention\<close>

definition validateDeferredRequest :: "deferred_env \<Rightarrow> deferred_request \<Rightarrow> deferred_limits \<Rightarrow> bool" where
  "validateDeferredRequest env r l \<longleftrightarrow>
     \<not> (blank (Tool r) \<or> 128 < length (Tool r) \<or> Arguments r = [] \<or> maxRequestBytes < int (length (Arguments r))
        \<or> \<not> jsonValid env (Arguments r) \<or> AllowedDirectories r = [] \<or> 64 < length (AllowedDirectories r)
        \<or> 256 < length (OriginPaths r))
     \<and> \<not> (\<exists>v \<in> set (AllowedDirectories r @ OriginPaths r). blank v \<or> 32 * 1024 < length v)
     \<and> \<not> (RequestRuntime r < 0 \<or> RequestRuntime r > MaxRuntimeSeconds l)"

definition terminal_at :: "operation_dir \<Rightarrow> int option" where
  "terminal_at d =
     (case latestOperationState d of
        Inl e \<Rightarrow> None
      | Inr s \<Rightarrow> if terminalStatus (Status s) then FinishedAt s else None)"

text \<open>The directories that can be measured, with their sizes; the terminal ones oldest first.\<close>

definition measuredDirs :: "deferred_env \<Rightarrow> deferred_store \<Rightarrow> (bytes \<times> operation_dir \<times> int) list" where
  "measuredDirs env st =
     map (\<lambda>(i, d). (i, d, directoryBytes env d))
       (filter (\<lambda>(i, d). directoryBytes env d \<le> MaxTotalBytes (storeLimits st) + 1) (operationDirs st))"

definition terminalDirs :: "deferred_env \<Rightarrow> deferred_store \<Rightarrow> (int \<times> bytes \<times> int) list" where
  "terminalDirs env st =
     sort_key (\<lambda>(t, i, n). (t, map unat i))
       (List.map_filter (\<lambda>(i, d, n). map_option (\<lambda>t. (t, i, n)) (terminal_at d)) (measuredDirs env st))"

fun purgeDirs :: "deferred_limits \<Rightarrow> int \<Rightarrow> (int \<times> bytes \<times> int) list \<Rightarrow> int \<Rightarrow> int
    \<Rightarrow> (bytes \<times> operation_dir) list \<Rightarrow> (bytes \<times> operation_dir) list \<times> int" where
  "purgeDirs l cutoff [] remaining total' dirs = (dirs, total')"
| "purgeDirs l cutoff ((t, i, n) # ts) remaining total' dirs =
     (if remaining \<le> MaxTerminal l \<and> total' \<le> MaxTotalBytes l \<and> \<not> t < cutoff
      then purgeDirs l cutoff ts remaining total' dirs
      else purgeDirs l cutoff ts (remaining - 1) (total' - n) (filter (\<lambda>(j, d). j \<noteq> i) dirs))"

definition purgeLocked :: "deferred_env \<Rightarrow> int \<Rightarrow> deferred_store \<Rightarrow> (deferred_error + unit) \<times> deferred_store" where
  "purgeLocked env now st =
     (let l = storeLimits st; ts = terminalDirs env st;
          (dirs, total') = purgeDirs l (now - RetentionSeconds l * nanos) ts (int (length ts))
            (sum_list (map (\<lambda>(i, d, n). n) (measuredDirs env st))) (operationDirs st) in
      (if total' > MaxTotalBytes l then Inl ErrCapacity else Inr (), st\<lparr>operationDirs := dirs\<rparr>))"

definition activeOperation :: "operation_dir \<Rightarrow> bool" where
  "activeOperation d = (case latestOperationState d of Inl e \<Rightarrow> False | Inr s \<Rightarrow> \<not> terminalStatus (Status s))"

definition maximumDirs :: "deferred_limits \<Rightarrow> int" where
  "maximumDirs l = MaxConcurrency l + MaxQueued l + MaxTerminal l + 1024"

definition activeCountLocked :: "deferred_store \<Rightarrow> deferred_error + nat" where
  "activeCountLocked st =
     (if int (length (operationDirs st)) > maximumDirs (storeLimits st) then Inl ErrCapacity
      else Inr (length (filter (\<lambda>(i, d). activeOperation d) (operationDirs st))))"

definition new_dir :: "int \<Rightarrow> deferred_request \<Rightarrow> operation_dir" where
  "new_dir now r =
     \<lparr>requestCreatedAt = now, requestOf = r, stateFiles = [plain_state StatusQueued 1 now], startedMarker = False,
      exposedMarker = False, cancelMarker = False, heartbeatAt = None, resultFile = None\<rparr>"

text \<open>The request as it is stored, its paths resolved.\<close>

definition resolveRequest :: "deferred_env \<Rightarrow> deferred_request \<Rightarrow> deferred_request option" where
  "resolveRequest env r =
     (case normalizeDirs env (AllowedDirectories r) of
        None \<Rightarrow> None
      | Some resolved \<Rightarrow>
          if resolved = [] \<or> (\<exists>origin \<in> set (OriginPaths r). validatePath env resolved origin = None) then None
          else Some (r\<lparr>AllowedDirectories := resolved,
                       OriginPaths := map (\<lambda>origin. the (validatePath env resolved origin)) (OriginPaths r)\<rparr>))"

definition Admit ::
  "deferred_env \<Rightarrow> deferred_request \<Rightarrow> bytes option \<Rightarrow> int \<Rightarrow> deferred_store \<Rightarrow> (deferred_error + operation_view) \<times> deferred_store" where
  "Admit env r random now st =
     (if \<not> validateDeferredRequest env r (storeLimits st) then (Inl ErrInvalidInput, st)
      else (case resolveRequest env r of
          None \<Rightarrow> (Inl ErrAccessDenied, st)
        | Some r' \<Rightarrow>
            (case purgeLocked env now st of
               (Inl e, st1) \<Rightarrow> (Inl e, st1)
             | (Inr _, st1) \<Rightarrow>
                 (case activeCountLocked st1 of
                    Inl e \<Rightarrow> (Inl e, st1)
                  | Inr active \<Rightarrow>
                      if int active \<ge> MaxConcurrency (storeLimits st) + MaxQueued (storeLimits st)
                      then (Inl ErrCapacity, st1)
                      else (case operationID random of
                          Inl e \<Rightarrow> (Inl e, st1)
                        | Inr i \<Rightarrow>
                            if i \<in> fst ` set (operationDirs st1) then (Inl ErrFileExists, st1)
                            else (Inr (operationFrom i r' (new_dir now r') (plain_state StatusQueued 1 now)),
                                  st1\<lparr>operationDirs := operationDirs st1 @ [(i, new_dir now r')]\<rparr>))))))"

subsection \<open>Recovery\<close>

definition recoveryRequestAuthorized :: "deferred_env \<Rightarrow> deferred_request \<Rightarrow> bytes list \<Rightarrow> bool" where
  "recoveryRequestAuthorized env r allowed \<longleftrightarrow>
     (\<forall>p \<in> set (AllowedDirectories r @ OriginPaths r). validatePath env allowed p \<noteq> None)"

text \<open>What one pass does with one directory: nothing, the record is unreadable, an error that ends the
  pass, or a lease under which the operation is launched again. That a record was unreadable is only
  reported at the end of the pass; the report is left out.\<close>

datatype recovery_outcome = RecoverNothing | RecoverUnreadable | RecoverError deferred_error | RecoverLease

definition terminal_outcome :: "deferred_error + operation_dir \<Rightarrow> operation_dir \<Rightarrow> recovery_outcome \<times> operation_dir" where
  "terminal_outcome r d = (case r of Inl e \<Rightarrow> (RecoverError e, d) | Inr d' \<Rightarrow> (RecoverNothing, d'))"

definition recoverDir ::
  "deferred_env \<Rightarrow> bytes \<Rightarrow> bytes list \<Rightarrow> int \<Rightarrow> int \<Rightarrow> operation_dir \<Rightarrow> recovery_outcome \<times> operation_dir" where
  "recoverDir env i allowed now later d =
     (case readOperationLocked env i d of
        Inl e \<Rightarrow> (RecoverUnreadable, d)
      | Inr (r, s) \<Rightarrow>
          if terminalStatus (Status s) then (RecoverNothing, d)
          else if \<not> recoveryRequestAuthorized env r allowed then
            terminal_outcome (writeRecoveryTerminal StatusFailed (str ''ACCESS_DENIED'')
              (str ''deferred operation is no longer authorized by current roots'') s now d) d
          else if startedMarker d then
            (if executorHeartbeatFresh d s now later then (RecoverNothing, d)
             else terminal_outcome (writeRecoveryTerminal StatusInterrupted lost_code lost_message s now d) d)
          else if cancelMarker d then
            terminal_outcome (writeRecoveryTerminal StatusCancelled (str ''CANCELLED'')
              (str ''deferred operation was cancelled before execution'') s now d) d
          else if Status s = StatusStarting \<and> (executorHeartbeatFresh d s now later \<or> \<not> stateStaleAt s now)
          then (RecoverNothing, d)
          else if Status s \<noteq> StatusQueued \<and> Status s \<noteq> StatusStarting then
            terminal_outcome (writeRecoveryTerminal StatusFailed (str ''STATE_INVALID'')
              (str ''deferred operation had an invalid pre-start state'') s now d) d
          else if maxOperationRecords - 1 \<le> Revision s then
            terminal_outcome (writeRecoveryTerminal StatusFailed (str ''DISPATCH_RETRIES_EXHAUSTED'')
              (str ''deferred operation exhausted bounded pre-start recovery attempts'') s now d) d
          else (case writeStateExclusive (plain_state StatusStarting (Revision s + 1) now) d of
              Inl e \<Rightarrow> (RecoverError e, d)
            | Inr d' \<Rightarrow> (RecoverLease, d'\<lparr>heartbeatAt := Some now\<rparr>)))"

fun recoverDirs :: "deferred_env \<Rightarrow> bytes list \<Rightarrow> int \<Rightarrow> int \<Rightarrow> (bytes \<times> operation_dir) list
    \<Rightarrow> deferred_error option \<times> (int \<times> bytes) list \<times> (bytes \<times> operation_dir) list" where
  "recoverDirs env allowed now later [] = (None, [], [])"
| "recoverDirs env allowed now later ((i, d) # ds) =
     (case recoverDir env i allowed now later d of
        (RecoverError e, d') \<Rightarrow> (Some e, [], (i, d') # ds)
      | (outcome, d') \<Rightarrow>
          (case recoverDirs env allowed now later ds of
             (e, leases, ds') \<Rightarrow>
               (e, (if outcome = RecoverLease then (requestCreatedAt d, i) # leases else leases), (i, d') # ds')))"

definition prepareRecovery :: "deferred_env \<Rightarrow> bytes list \<Rightarrow> int \<Rightarrow> int \<Rightarrow> deferred_store
    \<Rightarrow> (deferred_error + bytes list) \<times> deferred_store" where
  "prepareRecovery env dirs now later st =
     (case normalizeDirs env dirs of
        None \<Rightarrow> (Inl ErrAccessDenied, st)
      | Some allowed \<Rightarrow>
          if allowed = [] then (Inl ErrAccessDenied, st)
          else if int (length (operationDirs st)) > maximumDirs (storeLimits st) then (Inl ErrCapacity, st)
          else (case recoverDirs env allowed now later (operationDirs st) of
              (Some e, leases, ds) \<Rightarrow> (Inl e, st\<lparr>operationDirs := ds\<rparr>)
            | (None, leases, ds) \<Rightarrow>
                (Inr (map snd (sort_key (\<lambda>(t, i). (t, map unat i)) leases)), st\<lparr>operationDirs := ds\<rparr>)))"

subsection \<open>Dispatch and execution\<close>

definition dispatch_code :: bytes where "dispatch_code = str ''DISPATCH_FAILED''"

text \<open>\<^verbatim>\<open>Engine.Submit\<close>: admission, the starting state, then the launch of the executor process, whose
  success is an argument. The answer is the operation, if there is one, and whether the launch failed.
  When the starting state cannot be written, the code has overwritten the identifier of the operation
  with an empty one and fails that.\<close>

definition Engine_Submit ::
  "deferred_env \<Rightarrow> deferred_request \<Rightarrow> bytes option \<Rightarrow> bool \<Rightarrow> int \<Rightarrow> int \<Rightarrow> int \<Rightarrow> deferred_store
    \<Rightarrow> (deferred_error + operation_view \<times> bool) \<times> deferred_store" where
  "Engine_Submit env r random launched t1 t2 t3 st =
     (case Admit env r random t1 st of
        (Inl e, st1) \<Rightarrow> (Inl e, st1)
      | (Inr v, st1) \<Rightarrow>
          (case MarkStarting env (viewID v) t2 st1 of
             (Inl e, st2) \<Rightarrow>
               (Inl e, snd (Fail env [] StatusFailed dispatch_code (str ''deferred operation could not enter dispatch'') t3 st2))
           | (Inr v', st2) \<Rightarrow>
               if launched then (Inr (v', False), st2)
               else (case Fail env (viewID v') StatusFailed dispatch_code
                       (str ''deferred executor process could not be started'') t3 st2 of
                   (Inr failed, st3) \<Rightarrow> (Inr (failed, True), st3)
                 | (Inl e, st3) \<Rightarrow> (Inr (v', True), st3))))"

text \<open>\<^verbatim>\<open>Engine.Recover\<close>: the launches of the leased operations, whose success \<^verbatim>\<open>launch\<close> says.\<close>

definition Engine_Recover ::
  "deferred_env \<Rightarrow> bytes list \<Rightarrow> (bytes \<Rightarrow> bool) \<Rightarrow> int \<Rightarrow> int \<Rightarrow> deferred_store \<Rightarrow> (deferred_error + bytes list) \<times> deferred_store" where
  "Engine_Recover env dirs launch now later st =
     (case prepareRecovery env dirs now later st of
        (Inl e, st1) \<Rightarrow> (Inl e, st1)
      | (Inr ids, st1) \<Rightarrow>
          (Inr (filter launch ids),
           foldl (\<lambda>st i. if launch i then st
              else snd (Fail env i StatusFailed dispatch_code
                (str ''deferred executor process could not be restarted'') later st)) st1 ids))"

text \<open>One turn of \<^verbatim>\<open>acquireExecutionSlot\<close>, which refreshes the heartbeat while it waits; whether one of the
  slot files could be locked is an argument.\<close>

datatype slot_outcome = SlotError deferred_error | SlotHeld | SlotWait

definition touchHeartbeat :: "bytes \<Rightarrow> int \<Rightarrow> deferred_store \<Rightarrow> deferred_store" where
  "touchHeartbeat i now st =
     (case map_of (operationDirs st) i of
        None \<Rightarrow> st
      | Some d \<Rightarrow> set_dir i (d\<lparr>heartbeatAt := Some now\<rparr>) st)"

definition requestAllowedDirectories :: "deferred_env \<Rightarrow> bytes \<Rightarrow> operation_dir \<Rightarrow> bytes list" where
  "requestAllowedDirectories env i d =
     (case readRequest env i d of Inl e \<Rightarrow> [] | Inr r \<Rightarrow> AllowedDirectories r)"

definition acquirePoll :: "deferred_env \<Rightarrow> bytes \<Rightarrow> bool \<Rightarrow> int \<Rightarrow> deferred_store \<Rightarrow> slot_outcome \<times> deferred_store" where
  "acquirePoll env i free now st =
     (case map_of (operationDirs st) i of
        None \<Rightarrow> (SlotError ErrNotFound, st)
      | Some d \<Rightarrow>
          (case latestOperationState d of
             Inl e \<Rightarrow> (SlotError e, st)
           | Inr s \<Rightarrow>
               if terminalStatus (Status s) then (SlotError ErrTerminal, st)
               else if cancelMarker d \<and> \<not> startedMarker d then
                 (SlotError ErrTerminal, snd (CancelOperation env i (requestAllowedDirectories env i d) now st))
               else if free then (SlotHeld, st)
               else (SlotWait, touchHeartbeat i now st)))"

text \<open>How the context of the execution ended, and the end of \<^verbatim>\<open>Store.Execute\<close> after the work returned.\<close>

datatype execution_context = ContextLive | ContextDeadline | ContextCanceled

definition cancelRequested :: "bytes \<Rightarrow> deferred_store \<Rightarrow> bool" where
  "cancelRequested i st = (case map_of (operationDirs st) i of None \<Rightarrow> False | Some d \<Rightarrow> cancelMarker d)"

definition finishExecution ::
  "deferred_env \<Rightarrow> bytes \<Rightarrow> bool \<Rightarrow> execution_context \<Rightarrow> bool \<Rightarrow> bytes \<Rightarrow> result_metadata \<Rightarrow> int \<Rightarrow> int \<Rightarrow> deferred_store
    \<Rightarrow> (deferred_error + operation_view) \<times> deferred_store" where
  "finishExecution env i heartbeatFailed context' failed payload meta now now' st =
     (if heartbeatFailed then
        Fail env i StatusFailed (str ''EXECUTOR_HEARTBEAT_FAILED'') (str ''deferred executor heartbeat failed'') now st
      else if cancelRequested i st then
        Fail env i StatusCancelled (str ''CANCELLED'') (str ''deferred operation was cancelled'') now st
      else if context' = ContextDeadline then
        Fail env i StatusTimedOut (str ''TIMEOUT'') (str ''deferred operation exceeded its runtime limit'') now st
      else if context' = ContextCanceled then
        Fail env i StatusCancelled (str ''CANCELLED'') (str ''deferred operation was cancelled'') now st
      else if failed then
        Fail env i StatusFailed (str ''EXECUTION_FAILED'') (str ''deferred operation execution failed'') now st
      else if payload = [] then
        Fail env i StatusFailed (str ''RESULT_INVALID'') (str ''deferred operation produced no result'') now st
      else (case CompleteOperation env i payload meta now st of
          (Inl ErrCapacity, st1) \<Rightarrow>
            Fail env i StatusFailed (str ''RESULT_LIMIT'') (str ''deferred operation result exceeded its retention limit'')
              now' st1
        | r \<Rightarrow> r))"

end
