(* ===== verification/Deferred_Lifecycle.thy ===== *)
theory Deferred_Lifecycle
  imports Deferred_Store
begin

text \<open>
  What holds of the deferred operations whatever frontends, executors and recovery passes do, in any
  order, and where processes die inside a claim or a cancellation: every operation of theory \<^verbatim>\<open>Deferred_Store\<close> is one action on the store, and the properties are
  invariants of all sequences of actions from the empty store.
\<close>

subsection \<open>Histories\<close>

definition allowed_step :: "operation_status \<Rightarrow> operation_status \<Rightarrow> bool" where
  "allowed_step a b \<longleftrightarrow> \<not> terminalStatus a \<and>
     (case b of
        StatusQueued \<Rightarrow> False
      | StatusStarting \<Rightarrow> a \<noteq> StatusRunning
      | StatusRunning \<Rightarrow> a \<noteq> StatusRunning
      | StatusCompleted \<Rightarrow> a = StatusRunning
      | _ \<Rightarrow> True)"

text \<open>A directory as the code leaves it: revisions from one on, allowed transitions from the queued state,
  a running state only under the started marker (a claim that dies leaves the marker alone), the time of
  the start recorded exactly when there is a running state, a result exactly as the completed state
  describes it, and room for the running state before the work starts.\<close>

definition dir_inv :: "operation_dir \<Rightarrow> bool" where
  "dir_inv d \<longleftrightarrow>
     stateFiles d \<noteq> [] \<and> length (stateFiles d) \<le> maxOperationRecords
     \<and> map Revision (stateFiles d) = [1..<length (stateFiles d) + 1]
     \<and> Status (hd (stateFiles d)) = StatusQueued
     \<and> successively allowed_step (map Status (stateFiles d))
     \<and> (StatusRunning \<in> Status ` set (stateFiles d) \<longrightarrow> startedMarker d)
     \<and> (StartedAt (last (stateFiles d)) \<noteq> None \<longleftrightarrow> StatusRunning \<in> Status ` set (stateFiles d))
     \<and> (Status (last (stateFiles d)) \<in> {StatusQueued, StatusStarting} \<longrightarrow> StartedAt (last (stateFiles d)) = None)
     \<and> (\<forall>p. resultFile d = Some p \<longrightarrow> startedMarker d \<and> p \<noteq> [] \<and> utf8_valid p)
     \<and> (resultFile d \<noteq> None \<longrightarrow>
          Status (last (stateFiles d)) = StatusCompleted \<or> length (stateFiles d) = maxOperationRecords)
     \<and> (Status (last (stateFiles d)) = StatusCompleted \<longrightarrow>
          (\<exists>p. resultFile d = Some p \<and> TotalBytes (last (stateFiles d)) = length p))
     \<and> (Status (last (stateFiles d)) \<in> {StatusQueued, StatusStarting} \<longrightarrow> length (stateFiles d) < maxOperationRecords)
     \<and> (terminalStatus (Status (last (stateFiles d))) \<longrightarrow> FinishedAt (last (stateFiles d)) \<noteq> None)"

definition latest :: "operation_dir \<Rightarrow> operation_state" where
  "latest d = last (stateFiles d)"

lemma dir_inv_latest:
  assumes "dir_inv d"
  shows "latestOperationState d = Inr (latest d)" "Revision (latest d) = length (stateFiles d)"
    "stateFiles d \<noteq> []"
proof -
  let ?f = "stateFiles d"
  have f: "?f \<noteq> []" "length ?f \<le> maxOperationRecords" "map Revision ?f = [1..<length ?f + 1]"
    using assms by (simp_all add: dir_inv_def)
  have "sorted (map Revision ?f)" unfolding f(3) by (rule sorted_upt)
  then have s: "sort_key Revision ?f = ?f" by (rule sort_key_id_if_sorted)
  have "Revision (latest d) = last (map Revision ?f)" using f(1) by (simp add: latest_def last_map)
  then show r: "Revision (latest d) = length ?f" using f(1) unfolding f(3) by (cases ?f) (simp_all del: upt_Suc)
  show "latestOperationState d = Inr (latest d)"
    using f r by (simp add: latestOperationState_def s latest_def Let_def)
  show "?f \<noteq> []" by (rule f(1))
qed

text \<open>Writing the next revision succeeds exactly while there is room.\<close>

lemma dir_inv_write:
  assumes "dir_inv d" "stateFiles d' = stateFiles d" "Revision s = Revision (latest d) + 1"
  shows "writeStateExclusive s d' =
    (if length (stateFiles d) < maxOperationRecords then Inr (d'\<lparr>stateFiles := stateFiles d @ [s]\<rparr>) else Inl ErrInvalidInput)"
proof -
  have "Revision f \<le> length (stateFiles d)" if "f \<in> set (stateFiles d)" for f
  proof -
    have m: "map Revision (stateFiles d) = [1..<length (stateFiles d) + 1]"
      using assms(1) by (simp add: dir_inv_def)
    have "Revision f \<in> set (map Revision (stateFiles d))" using that by simp
    then show ?thesis unfolding m by auto
  qed
  then show ?thesis
    using assms dir_inv_latest(2) [OF assms(1)] by (fastforce simp: writeStateExclusive_def not_le)
qed

lemma dir_inv_written:
  assumes "dir_inv d" "stateFiles d' = stateFiles d" "Revision s = Revision (latest d) + 1"
    "writeStateExclusive s d' = Inr d''"
  shows "length (stateFiles d) < maxOperationRecords" "d'' = d'\<lparr>stateFiles := stateFiles d @ [s]\<rparr>"
  using assms(4) unfolding dir_inv_write [OF assms(1-3)] by (simp_all split: if_splits)

text \<open>How a directory may develop: states are appended while the operation is not over, markers stay,
  and so does a result.\<close>

definition develops :: "operation_dir \<Rightarrow> operation_dir \<Rightarrow> bool" where
  "develops d d' \<longleftrightarrow>
     (\<exists>ss. stateFiles d' = stateFiles d @ ss \<and> (terminalStatus (Status (latest d)) \<longrightarrow> ss = []))
     \<and> (startedMarker d \<longrightarrow> startedMarker d') \<and> (cancelMarker d \<longrightarrow> cancelMarker d')
     \<and> (\<forall>p. resultFile d = Some p \<longrightarrow> resultFile d' = Some p)
     \<and> (terminalStatus (Status (latest d)) \<longrightarrow> resultFile d' = resultFile d)
     \<and> requestOf d' = requestOf d \<and> requestCreatedAt d' = requestCreatedAt d"

lemma develops_refl [simp]: "develops d d"
  by (simp add: develops_def)

lemma develops_trans: "develops d d' \<Longrightarrow> develops d' d'' \<Longrightarrow> develops d d''"
  unfolding develops_def latest_def by (elim conjE exE) (auto simp: append_assoc)

text \<open>One more state keeps the invariant.\<close>

lemma append_state_inv:
  assumes "dir_inv d" "length (stateFiles d) < maxOperationRecords" "allowed_step (Status (latest d)) (Status s)"
    "Revision s = Revision (latest d) + 1" "stateFiles d' = stateFiles d @ [s]"
    "startedMarker d' \<longleftrightarrow> startedMarker d \<or> Status s = StatusRunning"
    "\<forall>p. resultFile d' = Some p \<longrightarrow> startedMarker d' \<and> p \<noteq> [] \<and> utf8_valid p"
    "Status s = StatusCompleted \<longrightarrow> (\<exists>p. resultFile d' = Some p \<and> TotalBytes s = length p)"
    "Status s \<in> {StatusQueued, StatusStarting} \<longrightarrow> length (stateFiles d) + 1 < maxOperationRecords"
    "terminalStatus (Status s) \<longrightarrow> FinishedAt s \<noteq> None"
    "resultFile d' \<noteq> None \<longrightarrow> Status s = StatusCompleted"
    "StartedAt s \<noteq> None \<longleftrightarrow> Status s = StatusRunning \<or> StartedAt (latest d) \<noteq> None"
    "Status s \<in> {StatusQueued, StatusStarting} \<longrightarrow> StartedAt s = None"
  shows "dir_inv d'"
proof -
  note l = dir_inv_latest [OF assms(1)]
  have d: "length (stateFiles d) + 1 \<le> maxOperationRecords" "Status (hd (stateFiles d)) = StatusQueued"
    "StatusRunning \<in> Status ` set (stateFiles d) \<longrightarrow> startedMarker d"
    "StartedAt (latest d) \<noteq> None \<longleftrightarrow> StatusRunning \<in> Status ` set (stateFiles d)"
    using assms(1,2) by (simp_all add: dir_inv_def latest_def)
  have steps: "successively allowed_step (map Status (stateFiles d @ [s]))"
    using assms(1,3) l(3) by (simp add: dir_inv_def successively_append_iff latest_def last_map)
  have revisions: "map Revision (stateFiles d @ [s]) = [1..<length (stateFiles d @ [s]) + 1]"
    using assms(1,4) l(2) by (simp add: dir_inv_def)
  have started: "StatusRunning \<in> Status ` set (stateFiles d @ [s]) \<longrightarrow> startedMarker d'"
    "StartedAt s \<noteq> None \<longleftrightarrow> StatusRunning \<in> Status ` set (stateFiles d @ [s])"
    using d(3,4) assms(6,12) by auto
  show ?thesis unfolding dir_inv_def assms(5)
    using d(1,2) steps revisions started assms(7-11,13) l(3) by (simp del: upt_Suc map_append)
qed

subsection \<open>Every operation keeps a directory in order\<close>

definition good :: "operation_dir \<Rightarrow> operation_dir \<Rightarrow> bool" where
  "good d d' \<longleftrightarrow> dir_inv d' \<and> develops d d'"

lemma good_refl: "dir_inv d \<Longrightarrow> good d d"
  by (simp add: good_def)

lemma good_trans: "good d d' \<Longrightarrow> good d' d'' \<Longrightarrow> good d d''"
  by (auto simp: good_def intro: develops_trans)

lemma no_result:
  assumes "dir_inv d" "\<not> terminalStatus (Status (latest d))" "length (stateFiles d) < maxOperationRecords"
  shows "resultFile d = None"
proof (rule ccontr)
  assume "resultFile d \<noteq> None"
  then have "Status (latest d) = StatusCompleted \<or> length (stateFiles d) = maxOperationRecords"
    using assms(1) unfolding dir_inv_def latest_def by blast
  then show False using assms(2,3) by auto
qed

lemma good_append:
  assumes "dir_inv d" "length (stateFiles d) < maxOperationRecords" "allowed_step (Status (latest d)) (Status s)"
    "Revision s = Revision (latest d) + 1" "stateFiles d' = stateFiles d @ [s]"
    "startedMarker d' \<longleftrightarrow> startedMarker d \<or> Status s = StatusRunning" "cancelMarker d \<longrightarrow> cancelMarker d'"
    "requestOf d' = requestOf d" "requestCreatedAt d' = requestCreatedAt d"
    "resultFile d' = resultFile d" "Status s \<noteq> StatusCompleted"
    "Status s \<in> {StatusQueued, StatusStarting} \<longrightarrow> length (stateFiles d) + 1 < maxOperationRecords"
    "terminalStatus (Status s) \<longrightarrow> FinishedAt s \<noteq> None"
    "StartedAt s \<noteq> None \<longleftrightarrow> Status s = StatusRunning \<or> StartedAt (latest d) \<noteq> None"
    "Status s \<in> {StatusQueued, StatusStarting} \<longrightarrow> StartedAt s = None"
  shows "good d d'"
proof -
  have unfinished: "\<not> terminalStatus (Status (latest d))" using assms(3) by (simp add: allowed_step_def)
  have "resultFile d = None" by (rule no_result [OF assms(1) unfinished assms(2)])
  then have "dir_inv d'" using assms by (intro append_state_inv [of d s d']) auto
  moreover note unfinished
  ultimately show ?thesis using assms by (auto simp: good_def develops_def)
qed

lemma failed_simps [simp]:
  "Status (failed_state st c m s now) = st" "Revision (failed_state st c m s now) = Revision s + 1"
  "FinishedAt (failed_state st c m s now) = Some now" "StartedAt (failed_state st c m s now) = StartedAt s"
  "Status (cancelled_state s now) = StatusCancelled" "Revision (cancelled_state s now) = Revision s + 1"
  "FinishedAt (cancelled_state s now) = Some now" "StartedAt (cancelled_state s now) = None"
  "Status (plain_state st r now) = st" "Revision (plain_state st r now) = r" "StartedAt (plain_state st r now) = None"
  by (simp_all add: failed_state_def cancelled_state_def plain_state_def)

lemma failed_allowed:
  "\<not> terminalStatus a \<Longrightarrow> b \<in> {StatusFailed, StatusTimedOut, StatusCancelled, StatusInterrupted} \<Longrightarrow>
   allowed_step a b \<and> terminalStatus b \<and> b \<noteq> StatusRunning \<and> b \<noteq> StatusCompleted \<and> b \<notin> {StatusQueued, StatusStarting}"
  by (auto simp: allowed_step_def)

text \<open>Writing a failed, cancelled or interrupted state.\<close>

lemma write_failed_good:
  assumes "dir_inv d" "\<not> terminalStatus (Status (latest d))"
    "Status s \<in> {StatusFailed, StatusTimedOut, StatusCancelled, StatusInterrupted}"
    "Revision s = Revision (latest d) + 1" "FinishedAt s \<noteq> None"
    "StartedAt s \<noteq> None \<longleftrightarrow> StartedAt (latest d) \<noteq> None"
    "stateFiles d1 = stateFiles d" "startedMarker d1 = startedMarker d" "cancelMarker d \<longrightarrow> cancelMarker d1"
    "resultFile d1 = resultFile d" "requestOf d1 = requestOf d" "requestCreatedAt d1 = requestCreatedAt d"
    "writeStateExclusive s d1 = Inr d'"
  shows "good d d'"
proof -
  have w: "length (stateFiles d) < maxOperationRecords" "d' = d1\<lparr>stateFiles := stateFiles d @ [s]\<rparr>"
    using assms(13) unfolding dir_inv_write [OF assms(1,7,4)] by (auto split: if_splits)
  show ?thesis using assms failed_allowed [OF assms(2,3)] w
    by (intro good_append [of d s]) auto
qed

lemma cancel_marker_good: "dir_inv d \<Longrightarrow> good d (d\<lparr>cancelMarker := True\<rparr>)"
  unfolding good_def dir_inv_def develops_def by (simp del: upt_Suc, blast?)

lemma heartbeat_good: "dir_inv d \<Longrightarrow> good d (d\<lparr>heartbeatAt := h\<rparr>)"
  unfolding good_def dir_inv_def develops_def by (simp del: upt_Suc, blast?)

lemma expose_good: "dir_inv d \<Longrightarrow> good d (exposeDir d)"
  unfolding good_def dir_inv_def develops_def exposeDir_def by (simp del: upt_Suc, blast?)

lemma dir_inv_room:
  "dir_inv d \<Longrightarrow> Status (latest d) \<in> {StatusQueued, StatusStarting} \<Longrightarrow> length (stateFiles d) < maxOperationRecords"
  unfolding dir_inv_def latest_def by blast

lemma queued_first:
  assumes "dir_inv d" "Status (latest d) = StatusQueued"
  shows "length (stateFiles d) = 1"
proof -
  have s: "successively allowed_step (map Status (stateFiles d))" using assms(1) by (simp add: dir_inv_def)
  obtain xs x where x: "stateFiles d = xs @ [x]"
    using dir_inv_latest(3) [OF assms(1)] by (cases "stateFiles d" rule: rev_cases) auto
  have "xs = []" using s assms(2)
    by (cases xs rule: rev_cases) (auto simp: x latest_def successively_append_iff allowed_step_def)
  then show ?thesis by (simp add: x)
qed

text \<open>A running operation is marked as started, and one that is not has recorded no start.\<close>

lemma running_started:
  assumes "dir_inv d" "Status (latest d) = StatusRunning"
  shows "startedMarker d"
proof -
  have "latest d \<in> set (stateFiles d)" using dir_inv_latest(3) [OF assms(1)] by (simp add: latest_def)
  then have "StatusRunning \<in> Status ` set (stateFiles d)" using assms(2) by (metis image_eqI)
  then show ?thesis using assms(1) unfolding dir_inv_def by blast
qed

lemma unstarted_status:
  assumes "dir_inv d" "\<not> startedMarker d" "\<not> terminalStatus (Status (latest d))"
  shows "Status (latest d) \<in> {StatusQueued, StatusStarting}"
  using assms running_started [OF assms(1)] by (cases "Status (latest d)") auto

lemma unstarted_time: "dir_inv d \<Longrightarrow> \<not> startedMarker d \<Longrightarrow> StartedAt (latest d) = None"
  unfolding dir_inv_def latest_def by blast

lemma waiting_time: "dir_inv d \<Longrightarrow> Status (latest d) \<in> {StatusQueued, StatusStarting} \<Longrightarrow> StartedAt (latest d) = None"
  unfolding dir_inv_def latest_def by blast

text \<open>Under the invariant an operation reads exactly when its request does.\<close>

lemma read_operation:
  "dir_inv d \<Longrightarrow> readOperationLocked env i d =
     (case readRequest env i d of Inl e \<Rightarrow> Inl e | Inr r \<Rightarrow> Inr (r, latest d))"
  by (simp add: readOperationLocked_def dir_inv_latest(1) split: sum.split)

lemma read_cases:
  assumes "dir_inv d"
  obtains e where "readOperationLocked env i d = Inl e" | r where "readOperationLocked env i d = Inr (r, latest d)"
  using that read_operation [OF assms] by (cases "readRequest env i d") simp_all

lemma failDir_good:
  assumes "dir_inv d" "status \<in> {StatusFailed, StatusTimedOut, StatusCancelled, StatusInterrupted}"
  shows "good d (snd (failDir env i status c m now d))"
proof (rule read_cases [OF assms(1), of env i])
  fix r assume r: "readOperationLocked env i d = Inr (r, latest d)"
  show ?thesis
  proof (cases "terminalStatus (Status (latest d))")
    case True
    then show ?thesis using assms good_refl by (simp add: failDir_def r)
  next
    case False
    have "good d d'" if "writeStateExclusive (failed_state status c m (latest d) now) d = Inr d'" for d'
      using assms False that by (intro write_failed_good [of d "failed_state status c m (latest d) now" d]) auto
    then show ?thesis using False assms by (auto simp: failDir_def r good_refl Let_def split: sum.splits)
  qed
qed (simp add: failDir_def good_refl [OF assms(1)])

text \<open>Every write of a claim or a cancellation leaves a directory in order, and so does a death after any of
  them.\<close>

lemma writes_good:
  assumes "dir_inv d" "\<And>w. w \<in> set (snd ws) \<Longrightarrow> good d w"
  shows "good d (snd (last_write d ws))" "good d (snd (dies_after n d ws))"
proof -
  have l: "good d (last (d # xs))" if "set xs \<subseteq> set (snd ws)" for xs
    using that assms good_refl [OF assms(1)] by (cases "xs = []") (auto dest: last_in_set)
  show "good d (snd (last_write d ws))" using l [of "snd ws"] by (simp add: last_write_def)
  show "good d (snd (dies_after n d ws))" using l [OF set_take_subset] by (simp add: dies_after_def)
qed

lemma cancelWrites_good:
  assumes "dir_inv d" "w \<in> set (snd (cancelWrites env i now d))"
  shows "good d w"
proof -
  let ?d1 = "d\<lparr>cancelMarker := True\<rparr>"
  obtain r where r: "readOperationLocked env i d = Inr (r, latest d)"
    using assms(2) read_operation [OF assms(1), of env i]
    by (cases "readRequest env i d") (simp_all add: cancelWrites_def)
  show ?thesis
  proof (cases "terminalStatus (Status (latest d)) \<or> startedMarker d")
    case True
    then show ?thesis using assms cancel_marker_good
      by (auto simp: cancelWrites_def r Let_def split: if_splits)
  next
    case False
    have "good d d'" if "writeStateExclusive (cancelled_state (latest d) now) ?d1 = Inr d'" for d'
      using assms(1) False that unstarted_time [OF assms(1)]
      by (intro write_failed_good [of d "cancelled_state (latest d) now" ?d1]) auto
    then show ?thesis using False assms cancel_marker_good
      by (auto simp: cancelWrites_def r Let_def split: sum.splits)
  qed
qed

lemma cancelDir_good: "dir_inv d \<Longrightarrow> good d (snd (cancelDir env i now d))"
  unfolding cancelDir_def by (rule writes_good) (auto intro: cancelWrites_good)

lemma writeRecoveryTerminal_good:
  assumes "dir_inv d" "\<not> terminalStatus (Status (latest d))"
    "status \<in> {StatusFailed, StatusTimedOut, StatusCancelled, StatusInterrupted}"
    "writeRecoveryTerminal status c m (latest d) now d = Inr d'"
  shows "good d d'"
  using assms by (intro write_failed_good [of d "failed_state status c m (latest d) now" d])
    (auto simp: writeRecoveryTerminal_def split: if_splits)

lemma getDir_good:
  assumes "dir_inv d"
  shows "good d (snd (getDir env i now later d))"
proof -
  have r: "good d d'" if "reconcileLostExecutor now later d = Inr d'" for d'
    using that assms good_refl writeRecoveryTerminal_good [OF assms, of StatusInterrupted]
    by (auto simp: reconcileLostExecutor_def dir_inv_latest(1) [OF assms] split: if_splits)
  show ?thesis
  proof (cases "reconcileLostExecutor now later d")
    case (Inl e)
    then show ?thesis using assms good_refl by (simp add: getDir_def)
  next
    case (Inr d')
    then show ?thesis using r [OF Inr] by (simp add: getDir_def case_prod_beta split: sum.splits)
  qed
qed

text \<open>The marker may stand alone, when the process that wrote it died.\<close>

lemma marker_good: "dir_inv d \<Longrightarrow> good d (d\<lparr>startedMarker := True\<rparr>)"
  unfolding good_def dir_inv_def develops_def by (simp del: upt_Suc, blast?)

lemma claimWrites_good:
  assumes "dir_inv d" "x \<in> set (snd (claimWrites env i now d))"
  shows "good d x"
proof -
  let ?d1 = "d\<lparr>startedMarker := True\<rparr>"
  let ?s = "(plain_state StatusRunning (Revision (latest d) + 1) now)\<lparr>StartedAt := Some now\<rparr>"
  let ?d2 = "?d1\<lparr>stateFiles := stateFiles d @ [?s]\<rparr>"
  obtain r where r: "readOperationLocked env i d = Inr (r, latest d)"
    using assms(2) read_operation [OF assms(1), of env i]
    by (cases "readRequest env i d") (simp_all add: claimWrites_def)
  have f: "\<not> terminalStatus (Status (latest d))" "\<not> startedMarker d"
    using assms(2) by (auto simp: claimWrites_def r split: if_splits)
  note st = unstarted_status [OF assms(1) f(2,1)]
  note room = dir_inv_room [OF assms(1) st]
  have c: "good d d'" if "writeStateExclusive (cancelled_state (latest d) now) d = Inr d'" for d'
    using assms(1) f that unstarted_time [OF assms(1)]
    by (intro write_failed_good [of d "cancelled_state (latest d) now" d]) auto
  have w: "writeStateExclusive ?s ?d1 = Inr ?d2"
    using room by (subst dir_inv_write [OF assms(1)]) auto
  have "allowed_step (Status (latest d)) StatusRunning" using st by (auto simp: allowed_step_def)
  then have "good d ?d2" "good d (?d2\<lparr>heartbeatAt := Some now\<rparr>)"
    using assms(1) room f by (intro good_append [of d ?s]; auto)+
  then show ?thesis using f assms c marker_good w
    by (auto simp: claimWrites_def r Let_def split: sum.splits if_splits)
qed

lemma claimDir_good: "dir_inv d \<Longrightarrow> good d (snd (claimDir env i now d))"
  unfolding claimDir_def by (rule writes_good) (auto intro: claimWrites_good)

lemma markStartingDir_good:
  assumes "dir_inv d"
  shows "good d (snd (markStartingDir env i now d))"
proof (rule read_cases [OF assms, of env i])
  fix r assume r: "readOperationLocked env i d = Inr (r, latest d)"
  show ?thesis
  proof (cases "Status (latest d) = StatusQueued")
    case False
    then show ?thesis using good_refl [OF assms] by (simp add: markStartingDir_def r)
  next
    case True
    let ?s = "plain_state StatusStarting (Revision (latest d) + 1) now"
    have one: "length (stateFiles d) = 1" by (rule queued_first [OF assms True])
    have w: "writeStateExclusive ?s d = Inr (d\<lparr>stateFiles := stateFiles d @ [?s]\<rparr>)"
      using one by (subst dir_inv_write [OF assms]) (simp_all add: maxOperationRecords_def)
    have "good d (d\<lparr>stateFiles := stateFiles d @ [?s]\<rparr>)"
      using assms one True waiting_time [OF assms]
      by (intro good_append [of d ?s]) (auto simp: allowed_step_def maxOperationRecords_def)
    then show ?thesis using w by (simp add: markStartingDir_def r True Let_def)
  qed
qed (simp add: markStartingDir_def good_refl [OF assms])

lemma completeDir_good:
  assumes "dir_inv d" "payload \<noteq> []" "utf8_valid payload"
  shows "good d (snd (completeDir env i payload meta now d))"
proof (cases "Status (latest d) = StatusRunning \<and> resultFile d = None")
  case False
  then show ?thesis using assms good_refl read_operation [OF assms(1), of env i]
    by (auto simp: completeDir_def split: sum.splits)
next
  case True
  let ?d1 = "d\<lparr>resultFile := Some payload\<rparr>"
  define s where "s = \<lparr>Status = StatusCompleted, Revision = Revision (latest d) + 1, UpdatedAt = now,
    StartedAt = StartedAt (latest d), FinishedAt = Some now, Result = Some meta, TotalBytes = length payload, Message = []\<rparr>"
  note st = running_started [OF assms(1)]
  have d1: "good d ?d1"
    if "\<not> length (stateFiles d) < maxOperationRecords"
    using assms True st that unfolding good_def dir_inv_def develops_def latest_def by (simp del: upt_Suc)
  have "good d d'" if "writeStateExclusive s ?d1 = Inr d'" for d'
  proof -
    have w: "length (stateFiles d) < maxOperationRecords" "d' = ?d1\<lparr>stateFiles := stateFiles d @ [s]\<rparr>"
      using dir_inv_written [OF assms(1) _ _ that] by (simp_all add: s_def)
    have "allowed_step (Status (latest d)) (Status s)" using True by (simp add: allowed_step_def s_def)
    then have "dir_inv d'"
      using assms w st True by (intro append_state_inv [of d s d']) (auto simp: s_def)
    then show ?thesis using w True by (simp add: good_def develops_def)
  qed
  moreover have "\<not> length (stateFiles d) < maxOperationRecords" if "writeStateExclusive s ?d1 = Inl e" for e
    using that dir_inv_write [OF assms(1), of ?d1 s] by (auto simp: s_def split: if_splits)
  moreover have "snd (completeDir env i payload meta now d) =
      (case writeStateExclusive s ?d1 of Inl e \<Rightarrow> ?d1 | Inr d2 \<Rightarrow> d2)"
    if "readOperationLocked env i d = Inr (r, latest d)" for r
    using True st by (simp add: completeDir_def that Let_def s_def split: sum.split)
  ultimately have r: "good d (snd (completeDir env i payload meta now d))"
    if "readOperationLocked env i d = Inr (r, latest d)" for r
    using d1 that by (cases "writeStateExclusive s ?d1") fastforce+
  show ?thesis by (rule read_cases [OF assms(1), of env i], simp add: completeDir_def good_refl [OF assms(1)], erule r)
qed

lemma recoverDir_good:
  assumes "dir_inv d"
  shows "good d (snd (recoverDir env i allowed now later d))"
proof -
  have t: "good d (snd (terminal_outcome (writeRecoveryTerminal status c m (latest d) now d) d))"
    if "\<not> terminalStatus (Status (latest d))" "status \<in> {StatusFailed, StatusCancelled, StatusInterrupted}" for status c m
    using writeRecoveryTerminal_good [OF assms that(1), of status c m now] that(2) good_refl [OF assms]
    by (auto simp: terminal_outcome_def split: sum.splits)
  have lease: "good d (d'\<lparr>heartbeatAt := Some now\<rparr>)"
    if "writeStateExclusive (plain_state StatusStarting (Revision (latest d) + 1) now) d = Inr d'"
      "\<not> startedMarker d" "\<not> terminalStatus (Status (latest d))" "\<not> maxOperationRecords - 1 \<le> Revision (latest d)" for d'
  proof -
    let ?s = "plain_state StatusStarting (Revision (latest d) + 1) now"
    have "d' = d\<lparr>stateFiles := stateFiles d @ [?s]\<rparr>" "length (stateFiles d) < maxOperationRecords"
      using dir_inv_written [OF assms _ _ that(1)] by simp_all
    moreover have "allowed_step (Status (latest d)) StatusStarting"
      using unstarted_status [OF assms that(2,3)] by (auto simp: allowed_step_def)
    moreover have "length (stateFiles d) + 1 < maxOperationRecords"
      using that(4) dir_inv_latest(2) [OF assms] by simp
    moreover note unstarted_time [OF assms that(2)]
    ultimately show ?thesis using assms by (intro good_append [of d ?s]) simp_all
  qed
  have r: "good d (snd (recoverDir env i allowed now later d))" if "readOperationLocked env i d = Inr (r, latest d)" for r
    by (simp add: recoverDir_def that t lease good_refl [OF assms] split: sum.split)
  show ?thesis by (rule read_cases [OF assms, of env i], simp add: recoverDir_def good_refl [OF assms], erule r)
qed

subsection \<open>A request that cannot be read back\<close>

text \<open>Nothing happens to an operation whose request cannot be read back: it stays as it was admitted.\<close>

definition untouched :: "operation_dir \<Rightarrow> bool" where
  "untouched d \<longleftrightarrow>
     length (stateFiles d) = 1 \<and> \<not> startedMarker d \<and> \<not> cancelMarker d \<and> resultFile d = None"

definition legible :: "deferred_env \<Rightarrow> bytes \<Rightarrow> operation_dir \<Rightarrow> bool" where
  "legible env i d \<longleftrightarrow> Tool (requestOf d) \<noteq> [] \<and> ((\<exists>e. readRequest env i d = Inl e) \<longrightarrow> untouched d)"

definition good_at :: "deferred_env \<Rightarrow> bytes \<Rightarrow> operation_dir \<Rightarrow> operation_dir \<Rightarrow> bool" where
  "good_at env i d d' \<longleftrightarrow> good d d' \<and> (legible env i d \<longrightarrow> legible env i d')"

lemma good_at_refl: "dir_inv d \<Longrightarrow> good_at env i d d"
  by (simp add: good_at_def good_refl)

lemma develops_request: "develops d d' \<Longrightarrow> readRequest env i d' = readRequest env i d"
  unfolding develops_def readRequest_def by (elim conjE) (simp only:)

lemma good_at_step:
  assumes "good d d'" "\<And>e. readRequest env i d = Inl e \<Longrightarrow> untouched d \<Longrightarrow> untouched d'"
  shows "good_at env i d d'"
proof -
  have "develops d d'" using assms(1) by (simp add: good_def)
  then show ?thesis using assms develops_request [of d d' env i]
    by (auto simp: good_at_def legible_def develops_def)
qed

lemma claim_dies_good: "dir_inv d \<Longrightarrow> good d (snd (dies_after n d (claimWrites env i now d)))"
  by (rule writes_good(2)) (auto intro: claimWrites_good)

lemma cancel_dies_good: "dir_inv d \<Longrightarrow> good d (snd (dies_after n d (cancelWrites env i now d)))"
  by (rule writes_good(2)) (auto intro: cancelWrites_good)

text \<open>So every operation keeps this, too.\<close>

lemma unread_operation: "readRequest env i d = Inl e \<Longrightarrow> readOperationLocked env i d = Inl e"
  by (simp add: readOperationLocked_def)

lemma unread_unchanged:
  assumes "readRequest env i d = Inl e"
  shows "snd (claimDir env i now d) = d" "snd (dies_after n d (claimWrites env i now d)) = d"
    "snd (markStartingDir env i now d) = d" "snd (completeDir env i payload meta now d) = d"
    "snd (failDir env i status code message now d) = d" "snd (visible env i allowed f d) = d"
    "snd (recoverDir env i allowed now later d) = d"
  using unread_operation [OF assms] assms
  by (simp_all add: claimDir_def last_write_def dies_after_def claimWrites_def markStartingDir_def completeDir_def
      failDir_def visible_def validateVisibility_def recoverDir_def)

lemma marks_untouched: "untouched d \<Longrightarrow> untouched (exposeDir d)" "untouched d \<Longrightarrow> untouched (d\<lparr>heartbeatAt := h\<rparr>)"
  by (simp_all add: untouched_def exposeDir_def)

end
