(* ===== verification/Deferred_Runs.thy ===== *)
theory Deferred_Runs
  imports Deferred_Lifecycle
begin

text \<open>
  Runs of the deferred operation store: frontends, executor processes and recovery passes perform
  the operations of theory \<^verbatim>\<open>Deferred_Store\<close> in any order, each under the control lock and so as one
  action; operations composed of several (\<^verbatim>\<open>Engine.Submit\<close>, \<^verbatim>\<open>Engine.Recover\<close>, \<^verbatim>\<open>MarkExposed\<close>, the end
  of \<^verbatim>\<open>Store.Execute\<close>) are their parts, with those of other processes possibly in between.
\<close>

subsection \<open>The store keeps its invariant\<close>

definition active_count :: "(bytes \<times> operation_dir) list \<Rightarrow> nat" where
  "active_count dirs = length (filter (\<lambda>(i, d). activeOperation d) dirs)"

definition active_bound :: "deferred_limits \<Rightarrow> int" where
  "active_bound l = max 0 (MaxConcurrency l + MaxQueued l)"

definition store_inv :: "deferred_env \<Rightarrow> deferred_store \<Rightarrow> bool" where
  "store_inv env st \<longleftrightarrow>
     distinct (map fst (operationDirs st)) \<and> list_all (\<lambda>(i, d). dir_inv d \<and> legible env i d) (operationDirs st)
     \<and> int (active_count (operationDirs st)) \<le> active_bound (storeLimits st)"

abbreviation dir_at :: "deferred_store \<Rightarrow> bytes \<Rightarrow> operation_dir option" where
  "dir_at st \<equiv> map_of (operationDirs st)"

lemma store_inv_dir: "store_inv env st \<Longrightarrow> dir_at st i = Some d \<Longrightarrow> dir_inv d"
  unfolding store_inv_def by (auto simp: list_all_iff dest: map_of_SomeD)

text \<open>An action moves the store when it keeps the invariant and every directory there afterwards, but those
  of the operations it admits, has developed from the one before.\<close>

definition moves :: "deferred_env \<Rightarrow> bytes set \<Rightarrow> deferred_store \<Rightarrow> deferred_store \<Rightarrow> bool" where
  "moves env new st st' \<longleftrightarrow>
     store_inv env st' \<and> storeLimits st' = storeLimits st
     \<and> (\<forall>i d'. dir_at st' i = Some d' \<and> i \<notin> new \<longrightarrow> (\<exists>d. dir_at st i = Some d \<and> develops d d'))"

lemma moves_refl: "store_inv env st \<Longrightarrow> moves env {} st st"
  by (auto simp: moves_def)

lemma moves_back:
  "moves env N st st' \<Longrightarrow> dir_at st' i = Some d' \<Longrightarrow> i \<notin> N \<Longrightarrow> \<exists>d. dir_at st i = Some d \<and> develops d d'"
  by (simp add: moves_def)

lemma moves_trans:
  assumes "moves env N st st'" "moves env M st' st''"
  shows "moves env (N \<union> M) st st''"
proof -
  have "\<exists>d. dir_at st i = Some d \<and> develops d d''" if a: "dir_at st'' i = Some d''" "i \<notin> N" "i \<notin> M" for i d''
  proof -
    obtain d' where d': "dir_at st' i = Some d'" "develops d' d''" using moves_back [OF assms(2) a(1,3)] by blast
    then show ?thesis using moves_back [OF assms(1) d'(1) a(2)] by (blast intro: develops_trans)
  qed
  then show ?thesis using assms by (simp add: moves_def)
qed

text \<open>Directories that develop one by one.\<close>

abbreviation dirs_good :: "deferred_env \<Rightarrow> (bytes \<times> operation_dir) list \<Rightarrow> (bytes \<times> operation_dir) list \<Rightarrow> bool" where
  "dirs_good env \<equiv> list_all2 (\<lambda>p q. fst p = fst q \<and> good_at env (fst p) (snd p) (snd q))"

lemma good_active: "dir_inv d \<Longrightarrow> good d d' \<Longrightarrow> activeOperation d' \<Longrightarrow> activeOperation d"
  using dir_inv_latest(1)
  by (auto simp: good_def develops_def activeOperation_def latest_def split: sum.splits)

lemma dirs_good_facts:
  assumes "dirs_good env xs ys" "list_all (\<lambda>(i, d). dir_inv d \<and> legible env i d) xs"
  shows "map fst ys = map fst xs" "list_all (\<lambda>(i, d). dir_inv d \<and> legible env i d) ys" "active_count ys \<le> active_count xs"
    "map_of ys i = Some d' \<Longrightarrow> \<exists>d. map_of xs i = Some d \<and> develops d d'"
  using assms
proof (induction xs ys rule: list_all2_induct)
  case Nil
  { case 1 show ?case by simp
  next case 2 show ?case by simp
  next case 3 show ?case by simp
  next case 4 then show ?case by simp }
next
  case (Cons x xs y ys)
  { case 1 then show ?case using Cons by auto
  next case 2 then show ?case using Cons by (auto simp: good_at_def good_def)
  next case 3
    then show ?case using Cons good_active [of "snd x" "snd y"] by (auto simp: active_count_def good_at_def split: if_splits)
  next case 4
    then show ?case using Cons by (cases x, cases y) (auto simp: good_at_def good_def split: if_splits) }
qed

lemma dirs_good_moves:
  assumes "store_inv env st" "dirs_good env (operationDirs st) (operationDirs st')" "storeLimits st' = storeLimits st"
  shows "moves env {} st st'"
proof -
  have l: "list_all (\<lambda>(i, d). dir_inv d \<and> legible env i d) (operationDirs st)" using assms(1) by (simp add: store_inv_def)
  note f = dirs_good_facts [OF assms(2) l]
  have "int (active_count (operationDirs st')) \<le> active_bound (storeLimits st)"
    using f(3) assms(1) unfolding store_inv_def by linarith
  then show ?thesis using assms f by (simp add: moves_def store_inv_def)
qed

lemma set_dir_moves:
  assumes "store_inv env st" "dir_at st i = Some d" "good_at env i d d'"
  shows "moves env {} st (set_dir i d' st)"
proof (rule dirs_good_moves [OF assms(1)])
  have "dir_inv e" if "(j, e) \<in> set (operationDirs st)" for j e
    using assms(1) that by (auto simp: store_inv_def list_all_iff)
  moreover have "e = d" if "(i, e) \<in> set (operationDirs st)" for e
    using assms(1,2) that by (simp add: store_inv_def)
  ultimately show "dirs_good env (operationDirs st) (operationDirs (set_dir i d' st))"
    using assms(3) by (auto simp: set_dir_def list_all2_conv_all_nth good_at_refl split: prod.split dest!: nth_mem)
qed (simp add: set_dir_def)

lemma on_dir_moves:
  assumes "store_inv env st" "\<And>d. dir_inv d \<Longrightarrow> good d (snd (f d))"
    "\<And>d e. readRequest env i d = Inl e \<Longrightarrow> snd (f d) = d"
  shows "moves env {} st (snd (on_dir i f st))"
proof (cases "ValidOperationID i \<and> dir_at st i \<noteq> None")
  case True
  then obtain d where d: "ValidOperationID i" "dir_at st i = Some d" by auto
  have "good_at env i d (snd (f d))"
    using assms(2) [OF store_inv_dir [OF assms(1) d(2)]] assms(3) by (intro good_at_step) simp_all
  then show ?thesis using set_dir_moves [OF assms(1) d(2)] d by (simp add: on_dir_def case_prod_beta)
next
  case False
  then show ?thesis using moves_refl [OF assms(1)] by (auto simp: on_dir_def)
qed

lemma visible_good: "dir_inv d \<Longrightarrow> good d (snd (f d)) \<Longrightarrow> good d (snd (visible env i allowed f d))"
  by (auto simp: visible_def good_refl split: option.split)

lemma recoverDirs_good:
  "list_all (\<lambda>(i, d). dir_inv d) ds \<Longrightarrow> dirs_good env ds (snd (snd (recoverDirs env allowed now later ds)))"
proof (induction ds)
  case (Cons p ds)
  obtain i d where p: "p = (i, d)" by force
  have "good_at env i d (snd (recoverDir env i allowed now later d))"
    using Cons.prems recoverDir_good [of d] unread_unchanged(7) by (intro good_at_step) (simp_all add: p)
  moreover have "dirs_good env ds ds"
    using Cons.prems by (fastforce simp: list_all2_same list_all_iff intro: good_at_refl)
  ultimately show ?case using Cons
    by (auto simp: p split: prod.split recovery_outcome.split)
qed simp

lemma prepareRecovery_moves:
  assumes "store_inv env st"
  shows "moves env {} st (snd (prepareRecovery env dirs now later st))"
proof -
  have "moves env {} st (st\<lparr>operationDirs := snd (snd (recoverDirs env allowed now later (operationDirs st)))\<rparr>)" for allowed
    using assms recoverDirs_good [of "operationDirs st"]
    by (intro dirs_good_moves) (fastforce simp: store_inv_def list_all_iff)+
  then have "moves env {} st (st\<lparr>operationDirs := ds\<rparr>)"
    if "recoverDirs env allowed now later (operationDirs st) = (e, ls, ds)" for allowed e ls ds
    using that by (metis snd_conv)
  then show ?thesis using moves_refl [OF assms]
    by (auto simp: prepareRecovery_def split: option.split prod.split)
qed

text \<open>Retention removes directories, admission appends one.\<close>

lemma purgeDirs_filter: "\<exists>P. fst (purgeDirs l cutoff ts r t dirs) = filter (\<lambda>p. P (fst p)) dirs"
proof (induction ts arbitrary: r t dirs)
  case Nil
  show ?case by (intro exI [of _ "\<lambda>_. True"]) simp
next
  case (Cons p ts)
  obtain u i n where p: "p = (u, i, n)" by (cases p) force
  have "\<exists>P. fst (purgeDirs l cutoff ts r' t' (filter (\<lambda>(j, d). j \<noteq> i) dirs)) = filter (\<lambda>p. P (fst p)) dirs" for r' t'
  proof -
    obtain P where "fst (purgeDirs l cutoff ts r' t' (filter (\<lambda>(j, d). j \<noteq> i) dirs))
        = filter (\<lambda>p. P (fst p)) (filter (\<lambda>(j, d). j \<noteq> i) dirs)" using Cons.IH by blast
    then show ?thesis by (intro exI [of _ "\<lambda>j. j \<noteq> i \<and> P j"]) (simp add: case_prod_beta conj_commute)
  qed
  then show ?case using Cons.IH by (simp add: p)
qed

lemma filter_dirs_moves:
  assumes "store_inv env st" "operationDirs st' = filter (\<lambda>p. P (fst p)) (operationDirs st)" "storeLimits st' = storeLimits st"
  shows "moves env {} st st'"
proof -
  have d: "distinct (map fst (operationDirs st))" using assms(1) by (simp add: store_inv_def)
  have d': "distinct (map fst (operationDirs st'))"
    unfolding assms(2) using d by (rule distinct_map_filter)
  have "dir_at st i = Some e" if "dir_at st' i = Some e" for i e
    using map_of_SomeD [OF that] d by (simp add: assms(2))
  moreover have "active_count (operationDirs st') \<le> active_count (operationDirs st)"
    unfolding active_count_def assms(2) filter_filter
    by (rule le_trans [OF _ length_filter_le [of "\<lambda>p. P (fst p)"]]) (simp add: conj_commute case_prod_beta)
  ultimately show ?thesis using assms d' unfolding moves_def store_inv_def
    by (auto simp: list_all_iff)
qed

lemma purgeLocked_moves:
  assumes "store_inv env st"
  shows "moves env {} st (snd (purgeLocked env now st))"
proof -
  obtain dirs t where p: "purgeDirs (storeLimits st) (now - RetentionSeconds (storeLimits st) * nanos) (terminalDirs env st)
      (int (length (terminalDirs env st))) (sum_list (map (\<lambda>(i, d, n). n) (measuredDirs env st))) (operationDirs st) = (dirs, t)"
    by fastforce
  moreover obtain P where "dirs = filter (\<lambda>p. P (fst p)) (operationDirs st)"
    using purgeDirs_filter [of "storeLimits st" _ "terminalDirs env st" _ _ "operationDirs st"] p by (metis fst_conv)
  ultimately show ?thesis using assms by (auto simp: purgeLocked_def Let_def intro!: filter_dirs_moves)
qed

lemma activeCount_exact: "activeCountLocked st = Inr n \<Longrightarrow> n = active_count (operationDirs st)"
  by (simp add: activeCountLocked_def active_count_def split: if_splits)

lemma new_dir_inv: "dir_inv (new_dir now r)"
  by (simp add: dir_inv_def new_dir_def plain_state_def maxOperationRecords_def)

lemma new_dir_legible: "Tool r \<noteq> [] \<Longrightarrow> legible env i (new_dir now r)"
  by (simp add: legible_def untouched_def new_dir_def)

lemma stored_tool:
  assumes "validateDeferredRequest env r l" "resolveRequest env r = Some r'"
  shows "Tool r' \<noteq> []"
proof -
  have "Tool r \<noteq> []" using assms(1) by (auto simp: validateDeferredRequest_def blank.simps [of "[]"])
  then show ?thesis using assms(2) by (auto simp: resolveRequest_def split: option.splits if_splits)
qed

lemma append_dir_moves:
  assumes "store_inv env st" "i \<notin> fst ` set (operationDirs st)" "Tool r \<noteq> []"
    "int (active_count (operationDirs st)) < MaxConcurrency (storeLimits st) + MaxQueued (storeLimits st)"
  shows "moves env {i} st (st\<lparr>operationDirs := operationDirs st @ [(i, new_dir now r)]\<rparr>)"
proof -
  have "active_count (operationDirs st @ [(i, new_dir now r)]) \<le> Suc (active_count (operationDirs st))"
    by (simp add: active_count_def)
  then have "int (active_count (operationDirs st @ [(i, new_dir now r)])) \<le> active_bound (storeLimits st)"
    using assms(4) unfolding active_bound_def by linarith
  then show ?thesis using assms(1,2) new_dir_inv new_dir_legible [OF assms(3)]
    by (auto simp: moves_def store_inv_def map_add_def split: if_splits option.splits)
qed

lemma Admit_moves:
  assumes "store_inv env st"
  shows "(\<exists>e. fst (Admit env r random now st) = Inl e \<and> moves env {} st (snd (Admit env r random now st)))
    \<or> (\<exists>v. fst (Admit env r random now st) = Inr v \<and> moves env {viewID v} st (snd (Admit env r random now st)))"
proof -
  note p = purgeLocked_moves [OF assms, of now]
  have a: "moves env {i} st (st1\<lparr>operationDirs := operationDirs st1 @ [(i, new_dir now r')]\<rparr>)"
    if "purgeLocked env now st = (x, st1)" "activeCountLocked st1 = Inr n"
      "\<not> int n \<ge> MaxConcurrency (storeLimits st) + MaxQueued (storeLimits st)"
      "i \<notin> fst ` set (operationDirs st1)" "Tool r' \<noteq> []" for x st1 n i r'
  proof -
    have m: "moves env {} st st1" using p that(1) by simp
    then have "store_inv env st1" "storeLimits st1 = storeLimits st" by (simp_all add: moves_def)
    then have "moves env {i} st1 (st1\<lparr>operationDirs := operationDirs st1 @ [(i, new_dir now r')]\<rparr>)"
      using that(3-5) activeCount_exact [OF that(2)] by (intro append_dir_moves) auto
    from moves_trans [OF m this] show ?thesis by simp
  qed
  show ?thesis
    using p a moves_refl [OF assms] stored_tool
    by (auto simp: Admit_def operationFrom_def split: option.splits prod.splits sum.splits)
qed

subsection \<open>Actions and runs\<close>

datatype deferred_action =
    Admits deferred_request "bytes option" int
  | Starts bytes int
  | Claims bytes int
  | ClaimDies bytes nat int
  | Completes bytes bytes result_metadata int
  | Fails bytes operation_status bytes bytes int
  | Cancels bytes "bytes list" int
  | CancelDies bytes "bytes list" nat int
  | Gets bytes "bytes list" int int
  | Exposes bytes
  | Beats bytes int
  | Recovers "bytes list" int int

datatype deferred_event = Admitted bytes | Claimed bytes

text \<open>An action leaves an event when an operation is admitted, and when an executor is told to run one. A claim
  or a cancellation may end with the death of its process, after any number of its writes.\<close>

fun performs :: "deferred_env \<Rightarrow> deferred_action \<Rightarrow> deferred_store \<Rightarrow> deferred_event list \<times> deferred_store" where
  "performs env (Admits r random now) st =
     (case Admit env r random now st of
        (Inl e, st') \<Rightarrow> ([], st')
      | (Inr v, st') \<Rightarrow> ([Admitted (viewID v)], st'))"
| "performs env (Starts i now) st = ([], snd (MarkStarting env i now st))"
| "performs env (Claims i now) st =
     (case Claim env i now st of
        (Inl e, st') \<Rightarrow> ([], st')
      | (Inr v, st') \<Rightarrow> ([Claimed i], st'))"
| "performs env (ClaimDies i n now) st = ([], ClaimCut env i n now st)"
| "performs env (Completes i payload meta now) st = ([], snd (CompleteOperation env i payload meta now st))"
| "performs env (Fails i status code message now) st = ([], snd (Fail env i status code message now st))"
| "performs env (Cancels i allowed now) st = ([], snd (CancelOperation env i allowed now st))"
| "performs env (CancelDies i allowed n now) st = ([], CancelCut env i allowed n now st)"
| "performs env (Gets i allowed now later) st = ([], snd (GetContext env i allowed now later st))"
| "performs env (Exposes i) st =
     ([], case dir_at st i of None \<Rightarrow> st | Some d \<Rightarrow> set_dir i (exposeDir d) st)"
| "performs env (Beats i now) st = ([], touchHeartbeat i now st)"
| "performs env (Recovers dirs now later) st = ([], snd (prepareRecovery env dirs now later st))"

fun deferred_run :: "deferred_env \<Rightarrow> deferred_action list \<Rightarrow> deferred_store \<Rightarrow> deferred_event list \<times> deferred_store" where
  "deferred_run env [] st = ([], st)"
| "deferred_run env (a # as) st =
     (case performs env a st of (es, st1) \<Rightarrow>
        (case deferred_run env as st1 of (es', st2) \<Rightarrow> (es @ es', st2)))"

lemma deferred_run_append:
  "deferred_run env (as @ bs) st =
     (case deferred_run env as st of (es, st1) \<Rightarrow> (case deferred_run env bs st1 of (es', st2) \<Rightarrow> (es @ es', st2)))"
  by (induction as arbitrary: st) (auto split: prod.split)

definition empty_store :: "deferred_limits \<Rightarrow> deferred_store" where
  "empty_store l = \<lparr>storeLimits = l, operationDirs = []\<rparr>"

definition admitted_in :: "deferred_event list \<Rightarrow> bytes set" where
  "admitted_in es = {i. Admitted i \<in> set es}"

lemma performs_moves:
  assumes "store_inv env st"
  shows "moves env (admitted_in (fst (performs env a st))) st (snd (performs env a st))"
proof (cases a)
  case (Admits r random now)
  then show ?thesis using Admit_moves [OF assms, of r random now]
    by (auto simp: admitted_in_def split: prod.split sum.split)
next
  case (Completes i payload meta now)
  then show ?thesis using moves_refl [OF assms] on_dir_moves [OF assms completeDir_good unread_unchanged(4)]
    by (auto simp: admitted_in_def CompleteOperation_def)
next
  case (Fails i status code message now)
  then show ?thesis using moves_refl [OF assms] on_dir_moves [OF assms failDir_good unread_unchanged(5)]
    by (auto simp: admitted_in_def Fail_def)
next
  case (Exposes i)
  then show ?thesis
    using moves_refl [OF assms] set_dir_moves [OF assms _ good_at_step [OF expose_good]] marks_untouched store_inv_dir [OF assms]
    by (auto simp: admitted_in_def split: option.split)
next
  case (Beats i now)
  then show ?thesis
    using moves_refl [OF assms] set_dir_moves [OF assms _ good_at_step [OF heartbeat_good]] marks_untouched store_inv_dir [OF assms]
    by (auto simp: admitted_in_def touchHeartbeat_def split: option.split)
next
  case (Claims i now)
  then show ?thesis using on_dir_moves [OF assms, of "claimDir env i now" i] claimDir_good unread_unchanged(1)
    by (auto simp: admitted_in_def Claim_def split: prod.split sum.split)
next
  case (ClaimDies i n now)
  then show ?thesis using on_dir_moves [OF assms, of "\<lambda>d. dies_after n d (claimWrites env i now d)" i] claim_dies_good unread_unchanged(2)
    by (simp add: admitted_in_def ClaimCut_def)
next
  case (CancelDies i allowed n now)
  let ?f = "visible env i allowed (\<lambda>d. dies_after n d (cancelWrites env i now d))"
  have "good d (snd (?f d))" if "dir_inv d" for d by (rule visible_good [OF that], rule cancel_dies_good [OF that])
  then have "moves env {} st (snd (on_dir i ?f st))" using unread_unchanged(6) by (intro on_dir_moves [OF assms]) simp_all
  then show ?thesis by (simp add: CancelDies admitted_in_def CancelCut_def)
qed (simp_all add: admitted_in_def MarkStarting_def CancelOperation_def GetContext_def on_dir_moves [OF assms]
  markStartingDir_good visible_good cancelDir_good getDir_good prepareRecovery_moves [OF assms] unread_unchanged)

lemma run_moves:
  assumes "store_inv env st"
  shows "moves env (admitted_in (fst (deferred_run env as st))) st (snd (deferred_run env as st))"
  using assms
proof (induction as arbitrary: st)
  case Nil
  then show ?case by (simp add: moves_refl admitted_in_def)
next
  case (Cons a as)
  obtain es st1 where p: "performs env a st = (es, st1)" by force
  obtain es' st2 where r: "deferred_run env as st1 = (es', st2)" by force
  have m: "moves env (admitted_in es) st st1" using performs_moves [OF Cons.prems, of a] by (simp add: p)
  then have "moves env (admitted_in es') st1 st2" using Cons.IH [of st1] by (simp add: r moves_def)
  from moves_trans [OF m this] show ?case by (simp add: p r admitted_in_def Collect_disj_eq)
qed

lemma empty_store_inv: "store_inv env (empty_store l)"
  by (simp add: store_inv_def empty_store_def active_count_def active_bound_def)

subsection \<open>An operation is claimed at most once\<close>

text \<open>An operation that is gone or was started cannot be claimed.\<close>

definition spentOperation :: "bytes \<Rightarrow> deferred_store \<Rightarrow> bool" where
  "spentOperation i st \<longleftrightarrow> (\<forall>d. dir_at st i = Some d \<longrightarrow> startedMarker d)"

lemma spent_moves: "moves env N st st' \<Longrightarrow> i \<notin> N \<Longrightarrow> spentOperation i st \<Longrightarrow> spentOperation i st'"
  unfolding spentOperation_def using moves_back [of env N st st' i] by (auto simp: develops_def)

lemma dir_at_set_dir: "dir_at (set_dir i d st) j = (if j = i \<and> dir_at st i \<noteq> None then Some d else dir_at st j)"
proof -
  have "map_of (map (\<lambda>(j, e). if j = i then (j, d) else (j, e)) xs) j
      = (if j = i \<and> map_of xs i \<noteq> None then Some d else map_of xs j)" for xs :: "(bytes \<times> operation_dir) list"
    by (induction xs) auto
  then show ?thesis by (simp add: set_dir_def)
qed

lemma claimDir_started: "claimDir env i now d = (Inr v, d') \<Longrightarrow> \<not> startedMarker d \<and> startedMarker d'"
  by (auto simp: claimDir_def last_write_def claimWrites_def writeStateExclusive_def Let_def split: sum.splits if_splits)

lemma Claim_spent:
  assumes "Claim env i now st = (Inr v, st')"
  shows "\<not> spentOperation i st" "spentOperation i st'"
proof -
  obtain d d' where d: "dir_at st i = Some d" "claimDir env i now d = (Inr v, d')" "st' = set_dir i d' st"
    using assms by (auto simp: Claim_def on_dir_def split: if_splits option.splits prod.splits)
  show "\<not> spentOperation i st" "spentOperation i st'" using d claimDir_started [OF d(2)] by (simp_all add: spentOperation_def dir_at_set_dir)
qed

lemma event_of_action:
  assumes "performs env a st = (es, st1)" "x \<in> set es"
  shows "es = [x]" "x = Claimed i \<Longrightarrow> \<not> spentOperation i st \<and> spentOperation i st1"
  using assms Claim_spent
  by (cases a; auto split: prod.splits sum.splits)+

lemma one_event: "performs env a st = (es, st1) \<Longrightarrow> length es \<le> 1"
  by (cases a) (auto split: prod.splits sum.splits)

lemma claim_needs_admission:
  assumes "store_inv env st" "spentOperation i st" "fst (deferred_run env as st) = es @ Claimed i # es'"
  shows "Admitted i \<in> set es"
  using assms
proof (induction as arbitrary: st es)
  case (Cons a as)
  obtain fs st1 where p: "performs env a st = (fs, st1)" by force
  have m: "moves env (admitted_in fs) st st1" using performs_moves [OF Cons.prems(1), of a] by (simp add: p)
  have run: "fs @ fst (deferred_run env as st1) = es @ Claimed i # es'"
    using Cons.prems(3) by (simp add: p split: prod.splits)
  show ?case
  proof (cases "Admitted i \<in> set fs")
    case True
    then have "fs = [Admitted i]" using event_of_action(1) [OF p] by blast
    then show ?thesis using run by (cases es) auto
  next
    case False
    then have s: "spentOperation i st1" using spent_moves [OF m] Cons.prems(2) by (simp add: admitted_in_def)
    have no: "Claimed i \<notin> set fs" using event_of_action(2) [OF p] Cons.prems(2) by blast
    have "length fs \<le> 1" by (rule one_event [OF p])
    then obtain gs where g: "es = fs @ gs" "fst (deferred_run env as st1) = gs @ Claimed i # es'"
      using run no by (cases fs; cases es) auto
    show ?thesis using Cons.IH [OF _ s g(2)] m by (simp add: g(1) moves_def)
  qed
qed simp

lemma second_claim:
  assumes "store_inv env st" "fst (deferred_run env as st) = es @ Claimed i # es' @ Claimed i # es''"
  shows "Admitted i \<in> set es'"
  using assms
proof (induction as arbitrary: st es)
  case (Cons a as)
  obtain fs st1 where p: "performs env a st = (fs, st1)" by force
  have s1: "store_inv env st1" using performs_moves [OF Cons.prems(1), of a] by (simp add: p moves_def)
  have run: "fs @ fst (deferred_run env as st1) = es @ Claimed i # es' @ Claimed i # es''"
    using Cons.prems(2) by (simp add: p split: prod.splits)
  have "length fs \<le> 1" by (rule one_event [OF p])
  then consider "fs = []" | x where "fs = [x]" by (cases fs) auto
  then show ?case
  proof cases
    case 1
    then show ?thesis using Cons.IH [OF s1] run by simp
  next
    case 2
    show ?thesis
    proof (cases es)
      case Nil
      then have "x = Claimed i" "fst (deferred_run env as st1) = es' @ Claimed i # es''" using run 2 by simp_all
      then show ?thesis using claim_needs_admission [OF s1] event_of_action(2) [OF p, of x i] 2 by simp
    next
      case (Cons y gs)
      then show ?thesis using Cons.IH [OF s1, of gs] run 2 by simp
    qed
  qed
qed simp

text \<open>C19: whatever frontends, executors and recovery passes do, and in whatever order, an operation is
  handed to an executor at most once for each admission: between two successful claims of one identifier
  the identifier was admitted anew.\<close>

theorem deferred_claimed_once:
  assumes "fst (deferred_run env as (empty_store l)) = es @ Claimed i # es' @ Claimed i # es''"
  shows "Admitted i \<in> set es'"
  using second_claim [OF empty_store_inv assms] .

subsection \<open>What has ended stays as it ended\<close>

text \<open>C20: once an operation is in a terminal state, its state, request and result no longer change (the
  mark that it was shown to the client still may): after any further actions of any processes that do not
  admit the same identifier again, its directory is either removed by the retention or has the same
  request, the same latest state and the same result.\<close>

theorem deferred_outcome_final:
  assumes "deferred_run env as (empty_store l) = (es, st)" "dir_at st i = Some d"
    "latestOperationState d = Inr s" "terminalStatus (Status s)"
    "deferred_run env as' st = (es', st')" "Admitted i \<notin> set es'"
  shows "case dir_at st' i of None \<Rightarrow> True
    | Some d' \<Rightarrow> latestOperationState d' = Inr s \<and> resultFile d' = resultFile d \<and> requestOf d' = requestOf d"
proof (cases "dir_at st' i")
  case (Some d')
  have i: "store_inv env st" using run_moves [OF empty_store_inv, of env as l] assms(1) by (simp add: moves_def)
  have "moves env (admitted_in es') st st'" using run_moves [OF i, of as'] assms(5) by simp
  moreover have "i \<notin> admitted_in es'" using assms(6) by (simp add: admitted_in_def)
  ultimately have "develops d d'" "store_inv env st'" using moves_back Some assms(2) by (fastforce simp: moves_def)+
  moreover have "latest d = s" using dir_inv_latest(1) [OF store_inv_dir [OF i assms(2)]] assms(3) by simp
  ultimately show ?thesis
    using dir_inv_latest(1) [OF store_inv_dir [OF _ Some]] Some assms(4)
    by (auto simp: develops_def latest_def)
qed simp

subsection \<open>Histories and capacity\<close>




text \<open>C23: after any actions no more operations are waiting or running than the configured concurrency and
  queue together, however many were submitted.\<close>

theorem deferred_capacity:
  assumes "0 \<le> MaxConcurrency l + MaxQueued l"
  shows "int (length (filter (\<lambda>(i, d). activeOperation d) (operationDirs (snd (deferred_run env as (empty_store l))))))
    \<le> MaxConcurrency l + MaxQueued l"
proof -
  let ?st = "snd (deferred_run env as (empty_store l))"
  have m: "store_inv env ?st" "storeLimits ?st = storeLimits (empty_store l)"
    using run_moves [OF empty_store_inv, of env as l] by (simp_all add: moves_def)
  then have "int (active_count (operationDirs ?st)) \<le> active_bound l"
    unfolding store_inv_def by (simp add: empty_store_def)
  then show ?thesis using assms by (simp add: active_count_def active_bound_def)
qed

end
