(* ===== verification/Deferred_Results.thy ===== *)
theory Deferred_Results
  imports Deferred_Runs Go_Chunks
begin

text \<open>
  Results of deferred operations: reading a completed result in chunks, and the end of an execution.
\<close>

subsection \<open>Chunks\<close>

lemma rune_start_bits: "(b AND 0xC0 = 0x80) \<longleftrightarrow> \<not> rune_start (b :: byte)"
  by (simp add: rune_start_def)

lemma shrinkChunk_range:
  "shrinkChunk buffer offset total' n \<le> n \<and>
   (shrinkChunk buffer offset total' n = 0 \<or> total' \<le> offset + shrinkChunk buffer offset total' n
    \<or> utf8_valid (take (shrinkChunk buffer offset total' n) buffer))"
  by (induction buffer offset total' n rule: shrinkChunk.induct) (auto simp: le_Suc_eq)

lemma boundary_end: "boundary p i \<Longrightarrow> boundary p (length p)"
  unfolding boundary_def by (metis append_take_drop_id drop_all le_refl take_all utf8_valid_Nil valid_append)

lemma probe_rune:
  assumes "boundary p i" "i < length p"
  shows "decode_rune (take 4 (drop i p)) = decode_rune (drop i p)"
proof -
  let ?q = "drop i p"
  have q: "?q \<noteq> []" "utf8_valid ?q" using assms by (auto simp: boundary_def)
  obtain r n where D: "decode_rune ?q = (r, n)" by fastforce
  have ok: "decode_rune ?q \<noteq> (rune_error, 1)" using utf8_valid_step [OF q(1)] q(2) by simp
  have e: "valid_rune r" "encode_rune r = take n ?q" using encode_decode_rune [OF q(1) D] ok D by simp_all
  have n: "n \<le> length ?q" "n \<le> 4" using decode_rune_size [OF q(1)] rune_boundary(3) [OF assms] D by simp_all
  have "take 4 ?q = encode_rune r @ drop n (take 4 ?q)"
    using e(2) n(2) by (metis append_take_drop_id min.absorb1 take_take)
  moreover have "length (encode_rune r) = n" using e(2) n(1) by simp
  ultimately show ?thesis using decode_encode_rune [OF e(1)] D by metis
qed

text \<open>A chunk asked for at a boundary ends at a later boundary.\<close>

lemma chunkAt_boundary:
  assumes "boundary p i" "i < length p" "4 \<le> maxChunk" "0 < limit"
  shows "\<exists>j. chunkAt maxChunk p (length p) i limit = Inr (take (j - i) (drop i p)) \<and> i < j \<and> boundary p j
    \<and> j - i \<le> max limit 4"
proof -
  define e where "e = min limit (length p - i)"
  define n where "n = shrinkChunk (take e (drop i p)) i (length p) e"
  have e: "e \<le> length p - i" "e \<le> limit" "length (take e (drop i p)) = e" by (auto simp: e_def)
  have n: "n \<le> e" "n = 0 \<or> length p \<le> i + n \<or> utf8_valid (take n (take e (drop i p)))"
    using shrinkChunk_range [of "take e (drop i p)" i "length p" e] by (auto simp: n_def)
  note r = rune_boundary [OF assms(1,2)] and start = boundary_start [OF assms(1,2)]
  have c: "chunkAt maxChunk p (length p) i limit = Inr (if n = 0 then take (snd (decode_rune (drop i p))) (drop i p)
      else take n (drop i p))"
    using assms(2,3) r start n(1) probe_rune [OF assms(1,2)]
    by (simp add: chunkAt_def rune_start_bits Let_def e_def [symmetric] e(3) n_def [symmetric] min.absorb1 min.absorb2 e(1))
  show ?thesis
  proof (cases "n = 0")
    case True
    then show ?thesis using c r by (intro exI [of _ "i + snd (decode_rune (drop i p))"]) auto
  next
    case False
    have "boundary p (i + n)"
    proof (cases "length p \<le> i + n")
      case True
      then have "i + n = length p" using n(1) e(1) assms(2) by simp
      then show ?thesis using boundary_end [OF assms(1)] by simp
    next
      case inside: False
      then have "utf8_valid (take n (drop i p))" using n False by (simp add: min.absorb1)
      then show ?thesis using inside by (intro slice_boundary [OF assms(1), of "i + n"]) simp_all
    qed
    then show ?thesis using c False n e by (intro exI [of _ "i + n"]) auto
  qed
qed

text \<open>A client that follows \<^verbatim>\<open>NextOffset\<close> from chunk to chunk, with at most \<^verbatim>\<open>fuel\<close> requests at the given
  times; other processes may act between its requests.\<close>

fun read_result :: "nat \<Rightarrow> deferred_env \<Rightarrow> bytes \<Rightarrow> bytes list \<Rightarrow> (nat \<Rightarrow> deferred_action list) \<Rightarrow> (nat \<Rightarrow> int) \<Rightarrow> int \<Rightarrow> int
    \<Rightarrow> deferred_store \<Rightarrow> bytes option" where
  "read_result 0 env i allowed others clock offset lim st = None"
| "read_result (Suc fuel) env i allowed others clock offset lim st =
     (case ResultChunk env i allowed offset lim (clock fuel) (clock fuel) (snd (deferred_run env (others fuel) st)) of
        (Inl e, st') \<Rightarrow> None
      | (Inr c, st') \<Rightarrow>
          if chunkComplete c then Some (chunkData c)
          else map_option (\<lambda>rest. chunkData c @ rest)
            (read_result fuel env i allowed others clock (chunkNext c) lim st'))"

lemma resultChunk_boundary:
  assumes "boundary p n" "4 \<le> maxChunk" "0 \<le> lim"
  shows "\<exists>m. resultChunk maxChunk p (length p) (int n) lim = Inr \<lparr>chunkOffset = int n, chunkNext = int m,
      chunkData = take (m - n) (drop n p), chunkComplete = (m = length p)\<rparr>
    \<and> n \<le> m \<and> (n < length p \<longrightarrow> n < m) \<and> boundary p m"
proof -
  define limit where "limit = nat (if lim = 0 \<or> lim > maxChunk then maxChunk else lim)"
  have l: "0 < limit" using assms(2,3) by (auto simp: limit_def)
  have len: "n \<le> length p" using assms(1) by (simp add: boundary_def)
  obtain m where m: "chunkAt maxChunk p (length p) n limit = Inr (take (m - n) (drop n p))" "n \<le> m"
    "n < length p \<longrightarrow> n < m" "boundary p m"
  proof (cases "n < length p")
    case True
    then show ?thesis using chunkAt_boundary [OF assms(1) True assms(2) l] that by (auto intro: less_imp_le)
  next
    case False
    then have "chunkAt maxChunk p (length p) n limit = Inr []" by (simp add: chunkAt_def)
    then show ?thesis using that [of n] assms(1) False by simp
  qed
  have "m \<le> length p" using m(4) by (simp add: boundary_def)
  then have "n + length (take (m - n) (drop n p)) = m" using m(2) by simp
  then have "int n + int (length (take (m - n) (drop n p))) = int m" by linarith
  then show ?thesis using m assms(3) len
    by (intro exI [of _ m]) (simp add: resultChunk_def limit_def [symmetric] Let_def)
qed

lemma storeLimits_set_dir: "storeLimits (set_dir i d st) = storeLimits st"
  by (simp add: set_dir_def)

text \<open>A completed operation that the client may see.\<close>

definition readable :: "deferred_env \<Rightarrow> bytes \<Rightarrow> bytes list \<Rightarrow> bytes \<Rightarrow> deferred_store \<Rightarrow> bool" where
  "readable env i allowed p st \<longleftrightarrow>
     store_inv env st \<and> ValidOperationID i
     \<and> (\<exists>d. dir_at st i = Some d \<and> validateVisibility env i allowed d = None \<and> Status (latest d) = StatusCompleted
          \<and> resultFile d = Some p)"

lemma readable_dir:
  assumes "readable env i allowed p st"
  obtains d where "dir_at st i = Some d" "validateVisibility env i allowed d = None"
    "latestOperationState d = Inr (latest d)" "Status (latest d) = StatusCompleted"
    "resultFile d = Some p" "TotalBytes (latest d) = length p" "p \<noteq> []" "utf8_valid p"
proof -
  obtain d where d: "dir_at st i = Some d" "validateVisibility env i allowed d = None"
    "Status (latest d) = StatusCompleted" "resultFile d = Some p" using assms by (auto simp: readable_def)
  have i: "dir_inv d" using assms store_inv_dir [OF _ d(1)] by (auto simp: readable_def)
  show ?thesis using that [OF d(1,2) dir_inv_latest(1) [OF i] d(3,4)] i d(3,4) by (simp add: dir_inv_def latest_def)
qed

lemma readable_get:
  assumes "readable env i allowed p st"
  obtains v st' where "GetContext env i allowed now later st = (Inr v, st')" "readable env i allowed p st'"
    "storeLimits st' = storeLimits st" "viewStatus v = StatusCompleted" "viewResultAvailable v"
    "TotalBytes (viewState v) = length p" "\<exists>d. dir_at st' i = Some d \<and> resultFile d = Some p"
proof -
  from assms obtain d where d: "dir_at st i = Some d" "validateVisibility env i allowed d = None"
    "latestOperationState d = Inr (latest d)" "Status (latest d) = StatusCompleted"
    "resultFile d = Some p" "TotalBytes (latest d) = length p" by (rule readable_dir)
  have v: "store_inv env st" "ValidOperationID i" using assms by (simp_all add: readable_def)
  obtain r where r: "readRequest env i d = Inr r"
    using d(2) by (cases "readRequest env i d") (simp_all add: validateVisibility_def)
  have g: "GetContext env i allowed now later st = (Inr (operationFrom i r d (latest d)), set_dir i d st)"
    using d r v by (simp add: GetContext_def on_dir_def visible_def getDir_def reconcileLostExecutor_def readOperationLocked_def)
  have "dir_inv d" by (rule store_inv_dir [OF v(1) d(1)])
  then have "store_inv env (set_dir i d st)"
    using set_dir_moves [OF v(1) d(1) good_at_refl] by (simp add: moves_def)
  then have "readable env i allowed p (set_dir i d st)" using assms d by (simp add: readable_def dir_at_set_dir)
  then show ?thesis
    using d by (intro that [OF g]) (auto simp: operationFrom_def dir_at_set_dir storeLimits_set_dir)
qed

text \<open>Only an admission, with its retention, removes operations.\<close>

lemma set_dir_ids: "map fst (operationDirs (set_dir i d st)) = map fst (operationDirs st)"
  by (simp add: set_dir_def case_prod_beta comp_def)

lemma on_dir_ids: "map fst (operationDirs (snd (on_dir i f st))) = map fst (operationDirs st)"
  by (simp add: on_dir_def set_dir_ids split: option.split prod.split)

lemma recoverDirs_ids: "map fst (snd (snd (recoverDirs env allowed now later ds))) = map fst ds"
  by (induction ds) (auto split: prod.split recovery_outcome.split)

lemma prepareRecovery_ids: "map fst (operationDirs (snd (prepareRecovery env dirs now later st))) = map fst (operationDirs st)"
  using recoverDirs_ids by (auto simp: prepareRecovery_def split: option.split prod.split) (metis snd_conv)+

lemma performs_ids:
  assumes "\<forall>r c t. a \<noteq> Admits r c t"
  shows "map fst (operationDirs (snd (performs env a st))) = map fst (operationDirs st)"
  using assms
  by (cases a) (auto simp: MarkStarting_def ClaimCut_def CancelCut_def CompleteOperation_def Fail_def CancelOperation_def GetContext_def Claim_def
      touchHeartbeat_def on_dir_ids set_dir_ids prepareRecovery_ids
      split: option.split prod.split sum.split dest: arg_cong [of _ _ snd] intro!: on_dir_ids)

lemma performs_admits: "\<forall>r c t. a \<noteq> Admits r c t \<Longrightarrow> admitted_in (fst (performs env a st)) = {}"
  by (cases a) (auto simp: admitted_in_def split: prod.split sum.split)

lemma run_ids:
  assumes "list_all (\<lambda>a. \<forall>r c t. a \<noteq> Admits r c t) as"
  shows "map fst (operationDirs (snd (deferred_run env as st))) = map fst (operationDirs st)"
    "admitted_in (fst (deferred_run env as st)) = {}"
proof -
  have "map fst (operationDirs (snd (deferred_run env as st))) = map fst (operationDirs st)
      \<and> admitted_in (fst (deferred_run env as st)) = {}"
    using assms
  proof (induction as arbitrary: st)
    case (Cons a as)
    obtain es st1 where p: "performs env a st = (es, st1)" by force
    obtain es' st2 where r: "deferred_run env as st1 = (es', st2)" by force
    have a: "\<forall>r c t. a \<noteq> Admits r c t" using Cons.prems by simp
    show ?case using Cons.IH [of st1] Cons.prems performs_ids [OF a, of env st] performs_admits [OF a, of env st]
      by (simp add: p r admitted_in_def)
  qed (simp add: admitted_in_def)
  then show "map fst (operationDirs (snd (deferred_run env as st))) = map fst (operationDirs st)"
    "admitted_in (fst (deferred_run env as st)) = {}" by simp_all
qed

lemma readable_run:
  assumes "readable env i allowed p st" "list_all (\<lambda>a. \<forall>r c t. a \<noteq> Admits r c t) as"
  shows "readable env i allowed p (snd (deferred_run env as st))"
    "storeLimits (snd (deferred_run env as st)) = storeLimits st"
proof -
  let ?st' = "snd (deferred_run env as st)"
  obtain d where d: "dir_at st i = Some d" "validateVisibility env i allowed d = None"
    "Status (latest d) = StatusCompleted" "resultFile d = Some p" and v: "store_inv env st" "ValidOperationID i"
    using assms(1) by (auto simp: readable_def)
  have m: "moves env {} st ?st'" using run_moves [OF v(1), of as] run_ids(2) [OF assms(2)] by simp
  have "i \<in> fst ` set (operationDirs ?st')"
    using run_ids(1) [OF assms(2), of env st] map_of_SomeD [OF d(1)] by (metis fst_conv image_eqI list.set_map)
  then obtain d' where d': "dir_at ?st' i = Some d'" by (metis map_of_eq_None_iff not_Some_eq)
  then have "develops d d'" using moves_back [OF m d'] d(1) by auto
  then have "stateFiles d' = stateFiles d" "resultFile d' = Some p" "requestOf d' = requestOf d"
    using d(3,4) by (auto simp: develops_def)
  moreover have "validateVisibility env i allowed d' = validateVisibility env i allowed d"
    using develops_request [OF \<open>develops d d'\<close>] by (simp add: validateVisibility_def)
  ultimately show "readable env i allowed p ?st'" "storeLimits ?st' = storeLimits st"
    using m d d' v by (auto simp: readable_def moves_def latest_def)
qed

lemma read_result_all:
  assumes "0 \<le> lim" "\<And>k. list_all (\<lambda>a. \<forall>r c t. a \<noteq> Admits r c t) (others k)"
  shows "readable env i allowed p st \<Longrightarrow> 4 \<le> MaxChunkBytes (storeLimits st) \<Longrightarrow> boundary p n \<Longrightarrow>
    length p - n < fuel \<Longrightarrow> read_result fuel env i allowed others clock (int n) lim st = Some (drop n p)"
proof (induction fuel arbitrary: n st)
  case (Suc fuel)
  let ?st1 = "snd (deferred_run env (others fuel) st)"
  note r1 = readable_run [OF Suc.prems(1) assms(2) [of fuel]]
  obtain v st2 where v: "GetContext env i allowed (clock fuel) (clock fuel) ?st1 = (Inr v, st2)"
    "readable env i allowed p st2" "storeLimits st2 = storeLimits ?st1" "viewStatus v = StatusCompleted"
    "viewResultAvailable v" "TotalBytes (viewState v) = length p" "\<exists>d. dir_at st2 i = Some d \<and> resultFile d = Some p"
    by (rule readable_get [OF r1(1)])
  have big: "4 \<le> MaxChunkBytes (storeLimits st2)" using v(3) r1(2) Suc.prems(2) by simp
  obtain m where m: "resultChunk (MaxChunkBytes (storeLimits st2)) p (length p) (int n) lim =
      Inr \<lparr>chunkOffset = int n, chunkNext = int m, chunkData = take (m - n) (drop n p), chunkComplete = (m = length p)\<rparr>"
    "n \<le> m" "n < length p \<longrightarrow> n < m" "boundary p m"
    using resultChunk_boundary [OF Suc.prems(3) big assms(1)] by blast
  have c: "ResultChunk env i allowed (int n) lim (clock fuel) (clock fuel) ?st1 =
      (Inr \<lparr>chunkOffset = int n, chunkNext = int m, chunkData = take (m - n) (drop n p), chunkComplete = (m = length p)\<rparr>, st2)"
    using v m(1) by (auto simp: ResultChunk_def)
  show ?case
  proof (cases "m = length p")
    case True
    then show ?thesis using c by simp
  next
    case False
    then have "m < length p" "n < m" using m by (auto simp: boundary_def)
    then have "read_result fuel env i allowed others clock (int m) lim st2 = Some (drop m p)"
      using Suc.IH [OF v(2) big m(4)] Suc.prems(4) by simp
    moreover have "take (m - n) (drop n p) @ drop m p = drop n p"
      using m(2) by (metis append_take_drop_id drop_drop le_add_diff_inverse2)
    ultimately show ?thesis using c False by simp
  qed
qed simp

text \<open>C24: following \<^verbatim>\<open>NextOffset\<close> from chunk to chunk returns exactly the stored result of a completed
  operation, with any limit of the client and whatever other processes do between the requests, unless
  they admit operations, whose retention may remove this one. The chunks end at character boundaries; a
  store whose chunks hold four bytes answers within one request more than the result has bytes.\<close>

theorem deferred_chunks_reassemble:
  assumes "snd (deferred_run env as (empty_store l)) = st" "4 \<le> MaxChunkBytes l" "ValidOperationID i" "0 \<le> lim"
    "dir_at st i = Some d" "latestOperationState d = Inr s" "Status s = StatusCompleted"
    "validateVisibility env i allowed d = None" "\<And>k. list_all (\<lambda>a. \<forall>r c t. a \<noteq> Admits r c t) (others k)"
  shows "\<exists>p. resultFile d = Some p \<and> read_result (Suc (length p)) env i allowed others clock 0 lim st = Some p"
proof -
  have m: "store_inv env st" "storeLimits st = l"
    using run_moves [OF empty_store_inv, of env as l] assms(1) by (auto simp: moves_def empty_store_def)
  have d: "dir_inv d" by (rule store_inv_dir [OF m(1) assms(5)])
  then have "latest d = s" using dir_inv_latest(1) [OF d] assms(6) by simp
  then obtain p where p: "resultFile d = Some p" "utf8_valid p"
    using d assms(7) unfolding dir_inv_def latest_def by blast
  have "readable env i allowed p st" using m assms(3,5,7,8) p \<open>latest d = s\<close> by (auto simp: readable_def)
  moreover have "boundary p 0" using p(2) by (simp add: boundary_def)
  ultimately show ?thesis
    using read_result_all [OF assms(4,9), of env i allowed p st 0 "Suc (length p)"] m(2) assms(2) p(1) by simp
qed

subsection \<open>The end of an execution\<close>

text \<open>How an execution should be recorded, in the order in which the code asks.\<close>

definition execution_outcome :: "bool \<Rightarrow> bool \<Rightarrow> execution_context \<Rightarrow> bool \<Rightarrow> bytes \<Rightarrow> int \<Rightarrow> operation_status" where
  "execution_outcome heartbeatFailed cancelled context' failed payload limit =
     (if heartbeatFailed then StatusFailed
      else if cancelled then StatusCancelled
      else if context' = ContextDeadline then StatusTimedOut
      else if context' = ContextCanceled then StatusCancelled
      else if failed \<or> payload = [] \<or> \<not> utf8_valid payload \<or> int (length payload) > limit then StatusFailed
      else StatusCompleted)"

definition settled :: "bytes \<Rightarrow> bytes \<Rightarrow> deferred_store \<Rightarrow> operation_status \<Rightarrow> bool" where
  "settled i payload st status \<longleftrightarrow>
     (\<exists>d s. dir_at st i = Some d \<and> latestOperationState d = Inr s \<and> Status s = status
        \<and> resultFile d = (if Status s = StatusCompleted then Some payload else None))"

lemma settledI:
  "store_inv env st \<Longrightarrow> dir_at st i = Some d \<Longrightarrow> Status (latest d) = status \<Longrightarrow>
   resultFile d = (if status = StatusCompleted then Some payload else None) \<Longrightarrow> settled i payload st status"
  using dir_inv_latest(1) [OF store_inv_dir] by (fastforce simp: settled_def)

text \<open>An operation that has been dealt with has a request that can be read back.\<close>

lemma touched_reads:
  assumes "store_inv env st" "dir_at st i = Some d" "startedMarker d"
  obtains r where "readOperationLocked env i d = Inr (r, latest d)"
proof -
  have "legible env i d" using assms(1) map_of_SomeD [OF assms(2)] by (auto simp: store_inv_def list_all_iff)
  then have "readRequest env i d \<noteq> Inl e" for e using assms(3) by (auto simp: legible_def untouched_def)
  then show ?thesis using that read_operation [OF store_inv_dir [OF assms(1,2)], of env i]
    by (cases "readRequest env i d") auto
qed

lemma Fail_settles:
  assumes "store_inv env st" "ValidOperationID i" "dir_at st i = Some d" "\<not> terminalStatus (Status (latest d))"
    "length (stateFiles d) < maxOperationRecords"
    "status \<in> {StatusFailed, StatusTimedOut, StatusCancelled, StatusInterrupted}" "startedMarker d"
  shows "settled i payload (snd (Fail env i status c m now st)) status"
proof -
  note d = store_inv_dir [OF assms(1,3)]
  obtain r where r: "readOperationLocked env i d = Inr (r, latest d)" by (rule touched_reads [OF assms(1,3,7)])
  let ?s = "failed_state status c m (latest d) now"
  have w: "writeStateExclusive ?s d = Inr (d\<lparr>stateFiles := stateFiles d @ [?s]\<rparr>)"
    using assms(5) by (subst dir_inv_write [OF d]) simp_all
  have "snd (Fail env i status c m now st) = set_dir i (d\<lparr>stateFiles := stateFiles d @ [?s]\<rparr>) st"
    using assms(2-4,6) w by (auto simp: Fail_def on_dir_def failDir_def r Let_def)
  moreover have "store_inv env (snd (Fail env i status c m now st))"
    using performs_moves [OF assms(1), of "Fails i status c m now"] by (simp add: moves_def)
  ultimately show ?thesis using assms(3,6) no_result [OF d assms(4,5)]
    by (intro settledI [where d = "d\<lparr>stateFiles := stateFiles d @ [?s]\<rparr>"]) (auto simp: dir_at_set_dir latest_def)
qed

lemma CompleteOperation_settles:
  assumes "store_inv env st" "ValidOperationID i" "dir_at st i = Some d" "Status (latest d) = StatusRunning"
    "length (stateFiles d) < maxOperationRecords" "payload \<noteq> []" "utf8_valid payload"
    "int (length payload) \<le> MaxResultBytes (storeLimits st)"
  shows "\<exists>v st'. CompleteOperation env i payload meta now st = (Inr v, st') \<and> settled i payload st' StatusCompleted"
proof -
  note d = store_inv_dir [OF assms(1,3)]
  have n: "resultFile d = None" "startedMarker d"
    using no_result [OF d] running_started [OF d assms(4)] assms(4,5) by simp_all
  obtain r where r: "readOperationLocked env i d = Inr (r, latest d)" by (rule touched_reads [OF assms(1,3) n(2)])
  define s where "s = \<lparr>Status = StatusCompleted, Revision = Revision (latest d) + 1, UpdatedAt = now,
    StartedAt = StartedAt (latest d), FinishedAt = Some now, Result = Some meta, TotalBytes = length payload, Message = []\<rparr>"
  let ?d1 = "d\<lparr>resultFile := Some payload\<rparr>"
  let ?d2 = "?d1\<lparr>stateFiles := stateFiles d @ [s]\<rparr>"
  have "writeStateExclusive s ?d1 = Inr ?d2"
    using assms(5) by (subst dir_inv_write [OF d]) (simp_all add: s_def)
  then have "completeDir env i payload meta now d = (Inr (operationFrom i r ?d2 s), ?d2)"
    using n assms(4) by (simp add: completeDir_def r Let_def s_def)
  then have "CompleteOperation env i payload meta now st = (Inr (operationFrom i r ?d2 s), set_dir i ?d2 st)"
    using assms(2,3,6-8) by (simp add: CompleteOperation_def on_dir_def)
  moreover have "store_inv env (set_dir i ?d2 st)"
    using performs_moves [OF assms(1), of "Completes i payload meta now"] calculation by (simp add: moves_def)
  then have "settled i payload (set_dir i ?d2 st) StatusCompleted"
    using assms(3) by (intro settledI [where d = ?d2]) (simp_all add: dir_at_set_dir latest_def s_def)
  ultimately show ?thesis by blast
qed

text \<open>C21: when the work of a running operation returns and one revision is still free, the end of
  \<^verbatim>\<open>Store.Execute\<close> records a terminal state, the one that the heartbeat, the cancellation, the context, the
  error and the result ask for in this order, and keeps the result exactly when it completed.\<close>

theorem execution_settles:
  assumes "snd (deferred_run env as (empty_store l)) = st" "ValidOperationID i" "dir_at st i = Some d"
    "latestOperationState d = Inr s" "Status s = StatusRunning" "Revision s < maxOperationRecords"
  shows "\<exists>d' s'. dir_at (snd (finishExecution env i heartbeatFailed context' failed payload meta now now' st)) i = Some d'
    \<and> latestOperationState d' = Inr s'
    \<and> Status s' = execution_outcome heartbeatFailed (cancelMarker d) context' failed payload (MaxResultBytes l)
    \<and> resultFile d' = (if Status s' = StatusCompleted then Some payload else None)"
proof -
  let ?st' = "snd (finishExecution env i heartbeatFailed context' failed payload meta now now' st)"
  have m: "store_inv env st" "storeLimits st = l"
    using run_moves [OF empty_store_inv, of env as l] assms(1) by (auto simp: moves_def empty_store_def)
  note d = store_inv_dir [OF m(1) assms(3)]
  have s: "latest d = s" "length (stateFiles d) < maxOperationRecords"
    using dir_inv_latest [OF d] assms(4,6) by simp_all
  note run = s(1) assms(5)
  have fail: "settled i payload (snd (Fail env i status c message t st)) status"
    if "status \<in> {StatusFailed, StatusTimedOut, StatusCancelled}" for status c message t
    using that run by (intro Fail_settles [OF m(1) assms(2,3) _ s(2)]) (use running_started [OF d] in auto)
  have complete: "\<exists>v st'. CompleteOperation env i payload meta now st = (Inr v, st') \<and> settled i payload st' StatusCompleted"
    if "payload \<noteq> []" "utf8_valid payload" "int (length payload) \<le> MaxResultBytes l"
    using that run m(2) by (intro CompleteOperation_settles [OF m(1) assms(2,3) _ s(2)]) auto
  have c: "cancelRequested i st = cancelMarker d" using assms(3) by (simp add: cancelRequested_def)
  have "settled i payload ?st' (execution_outcome heartbeatFailed (cancelMarker d) context' failed payload (MaxResultBytes l))"
  proof (cases "payload \<noteq> [] \<and> utf8_valid payload \<and> int (length payload) \<le> MaxResultBytes l")
    case True
    then show ?thesis using complete fail by (auto simp: finishExecution_def execution_outcome_def c)
  next
    case False
    then show ?thesis using fail m(2)
      by (auto simp: finishExecution_def execution_outcome_def c CompleteOperation_def)
  qed
  then show ?thesis unfolding settled_def by auto
qed

end
