(* ===== verification/Deferred_Samples.thy ===== *)
theory Deferred_Samples
  imports Deferred_Results
begin

text \<open>
  Concrete runs of the deferred operation store: the properties of the other theories at concrete
  inputs, and the run after which an operation can no longer end.
\<close>

subsection \<open>Sample data\<close>

definition sampleEnv :: deferred_env where
  "sampleEnv = \<lparr>jsonValid = (\<lambda>p. p \<noteq> []),
     recordJSON = (\<lambda>i t r. i @ Tool r @ Arguments r @ concat (AllowedDirectories r @ OriginPaths r)),
     storedArguments = Some, normalizeDirs = Some, validatePath = (\<lambda>dirs p. if p \<in> set dirs then Some p else None),
     directoryBytes = (\<lambda>d. 100)\<rparr>"

definition sampleRequest :: deferred_request where
  "sampleRequest = \<lparr>Tool = str ''grep'', Arguments = str ''{}'', AllowedDirectories = [str ''/w''], OriginPaths = [str ''/w''],
     RequestConfig = [], RequestRuntime = 0\<rparr>"

definition sampleLimits :: deferred_limits where
  "sampleLimits = \<lparr>MaxConcurrency = 1, MaxQueued = 1, MaxRuntimeSeconds = 10, RetentionSeconds = 1, MaxTerminal = 4,
     MaxTotalBytes = 1000, MaxResultBytes = 8, MaxChunkBytes = 4\<rparr>"

definition sampleID :: bytes where "sampleID = str ''op_'' @ hex_encode (replicate 32 1)"
definition sampleMeta :: result_metadata where "sampleMeta = \<lparr>OriginalIsError = False, ErrorCode = []\<rparr>"


lemma sampleID_valid: "ValidOperationID sampleID" by code_simp

lemma sampleRequest_valid: "validateDeferredRequest sampleEnv sampleRequest sampleLimits"
proof -
  have b: "\<not> blank (str ''grep'')" "\<not> blank (str ''/w'')" by code_simp+
  have l: "length (str ''grep'') = 4" "length (str ''{}'') = 2" "length (str ''/w'') = 2" "str ''{}'' \<noteq> []" by code_simp+
  show ?thesis using b by (simp add: l validateDeferredRequest_def sampleEnv_def sampleRequest_def sampleLimits_def maxRequestBytes_def)
qed

lemma sample_read:
  assumes "requestOf d = sampleRequest"
  shows "readRequest sampleEnv sampleID d = Inr sampleRequest"
proof -
  have "\<not> int (length (recordJSON sampleEnv sampleID (requestCreatedAt d) sampleRequest)) > maxRequestBytes" by code_simp
  moreover have "storedArguments sampleEnv (Arguments sampleRequest) = Some (Arguments sampleRequest)"
    "read_request_back sampleRequest (Arguments sampleRequest) = sampleRequest"
    "\<not> (Tool sampleRequest = [] \<or> \<not> jsonValid sampleEnv (Arguments sampleRequest))" by code_simp+
  ultimately show ?thesis by (simp add: readRequest_def assms)
qed

lemma sample_operation:
  "dir_inv d \<Longrightarrow> requestOf d = sampleRequest \<Longrightarrow> readOperationLocked sampleEnv sampleID d = Inr (sampleRequest, latest d)"
  by (simp add: read_operation sample_read)

definition sampleAdmits :: "int \<Rightarrow> deferred_action" where
  "sampleAdmits t = Admits sampleRequest (Some (replicate 32 1)) t"

text \<open>Admission once the request is found valid, in the form in which it is evaluated.\<close>

definition sampleAdmission :: "int \<Rightarrow> deferred_store \<Rightarrow> deferred_event list \<times> deferred_store" where
  "sampleAdmission t st =
     (case purgeLocked sampleEnv t st of
        (Inl e, st1) \<Rightarrow> ([], st1)
      | (Inr _, st1) \<Rightarrow>
          (case activeCountLocked st1 of
             Inl e \<Rightarrow> ([], st1)
           | Inr active \<Rightarrow>
               if int active \<ge> 2 \<or> sampleID \<in> fst ` set (operationDirs st1) then ([], st1)
               else ([Admitted sampleID], st1\<lparr>operationDirs := operationDirs st1 @ [(sampleID, new_dir t sampleRequest)]\<rparr>)))"

lemma sampleAdmits_eval:
  assumes "storeLimits st = sampleLimits"
  shows "performs sampleEnv (sampleAdmits t) st = sampleAdmission t st"
proof -
  have r: "resolveRequest sampleEnv sampleRequest = Some sampleRequest" by code_simp
  have o: "operationID (Some (replicate 32 1)) = Inr sampleID" by (simp add: operationID_def sampleID_def)
  have l: "MaxConcurrency sampleLimits + MaxQueued sampleLimits = 2" by (simp add: sampleLimits_def)
  show ?thesis unfolding sampleAdmits_def performs.simps Admit_def assms r o l sampleAdmission_def
    using sampleRequest_valid by (simp add: operationFrom_def split: prod.split sum.split)
qed

definition sampleQueued :: "int \<Rightarrow> deferred_store" where
  "sampleQueued t = \<lparr>storeLimits = sampleLimits, operationDirs = [(sampleID, new_dir t sampleRequest)]\<rparr>"

lemma sampleAdmits_empty:
  "performs sampleEnv (sampleAdmits 0) (empty_store sampleLimits) = ([Admitted sampleID], sampleQueued 0)"
  by (subst sampleAdmits_eval) (simp add: empty_store_def, code_simp)

definition sampleWork :: "deferred_action \<Rightarrow> deferred_action list" where
  "sampleWork a = [Starts sampleID 0, Claims sampleID 0, a]"

definition sampleEnds :: "deferred_action" where
  "sampleEnds = Completes sampleID [0x61, 0xC3, 0xA9, 0x62, 0x63] sampleMeta 1"

definition sampleDir :: operation_dir where
  "sampleDir = \<lparr>requestCreatedAt = 0, requestOf = sampleRequest,
     stateFiles = [plain_state StatusQueued 1 0, plain_state StatusStarting 2 0,
       (plain_state StatusRunning 3 0)\<lparr>StartedAt := Some 0\<rparr>,
       \<lparr>Status = StatusCompleted, Revision = 4, UpdatedAt = 1, StartedAt = Some 0, FinishedAt = Some 1,
        Result = Some sampleMeta, TotalBytes = 5, Message = []\<rparr>],
     startedMarker = True, exposedMarker = False, cancelMarker = False, heartbeatAt = Some 0,
     resultFile = Some [0x61, 0xC3, 0xA9, 0x62, 0x63]\<rparr>"

lemma sampleWork_eval: "deferred_run sampleEnv (sampleWork sampleEnds) (sampleQueued 0) = ([Claimed sampleID],
    \<lparr>storeLimits = sampleLimits, operationDirs = [(sampleID, sampleDir)]\<rparr>)"
  by code_simp

lemma sampleRun: "deferred_run sampleEnv (sampleAdmits 0 # sampleWork sampleEnds) (empty_store sampleLimits) =
    ([Admitted sampleID, Claimed sampleID], \<lparr>storeLimits = sampleLimits, operationDirs = [(sampleID, sampleDir)]\<rparr>)"
  by (simp add: sampleAdmits_empty sampleWork_eval)

abbreviation sampleDone :: deferred_store where
  "sampleDone \<equiv> \<lparr>storeLimits = sampleLimits, operationDirs = [(sampleID, sampleDir)]\<rparr>"

subsection \<open>The properties at the samples\<close>

lemma sampleAgain: "fst (deferred_run sampleEnv
    (sampleAdmits 0 # sampleWork sampleEnds @ sampleAdmits 10000000000 # [Claims sampleID 10000000000]) (empty_store sampleLimits)) =
    [Admitted sampleID] @ Claimed sampleID # [Admitted sampleID] @ Claimed sampleID # []"
proof -
  have a: "performs sampleEnv (sampleAdmits 10000000000) sampleDone = ([Admitted sampleID], sampleQueued 10000000000)"
    by (subst sampleAdmits_eval) (simp, code_simp)
  have "fst (performs sampleEnv (Claims sampleID 10000000000) (sampleQueued 10000000000)) = [Claimed sampleID]"
    by code_simp
  then obtain st where c: "performs sampleEnv (Claims sampleID 10000000000) (sampleQueued 10000000000) = ([Claimed sampleID], st)"
    by (metis prod.collapse)
  show ?thesis
    by (simp add: deferred_run_append sampleAdmits_empty sampleWork_eval a c del: performs.simps)
qed

lemma deferred_claimed_once_witness: "Admitted sampleID \<in> set [Admitted sampleID]"
proof -
  show ?thesis by (rule deferred_claimed_once [OF sampleAgain])
qed

lemma sampleDir_latest: "latestOperationState sampleDir = Inr (last (stateFiles sampleDir))" by code_simp

lemma deferred_outcome_final_witness:
  "case dir_at (snd (deferred_run sampleEnv [Cancels sampleID [str ''/w''] 2, Gets sampleID [str ''/w''] 3 3] sampleDone)) sampleID of
     None \<Rightarrow> True
   | Some d \<Rightarrow> latestOperationState d = Inr (last (stateFiles sampleDir)) \<and> resultFile d = resultFile sampleDir
       \<and> requestOf d = requestOf sampleDir"
proof -
  let ?as = "[Cancels sampleID [str ''/w''] 2, Gets sampleID [str ''/w''] 3 3]"
  obtain es st where r: "deferred_run sampleEnv ?as sampleDone = (es, st)" by fastforce
  have e: "es = []" using arg_cong [OF r, of fst] by simp
  have t: "terminalStatus (Status (last (stateFiles sampleDir)))" by code_simp
  have d: "dir_at sampleDone sampleID = Some sampleDir" by simp
  have n: "Admitted sampleID \<notin> set es" by (simp add: e)
  show ?thesis using deferred_outcome_final [OF sampleRun d sampleDir_latest t r n] unfolding r snd_conv .
qed


lemma deferred_capacity_witness:
  "int (length (filter (\<lambda>(i, d). activeOperation d) (operationDirs (snd (deferred_run sampleEnv [sampleAdmits 0, sampleAdmits 0]
     (empty_store sampleLimits)))))) \<le> 2"
proof -
  have "MaxConcurrency sampleLimits + MaxQueued sampleLimits = 2" by (simp add: sampleLimits_def)
  then show ?thesis using deferred_capacity [of sampleLimits sampleEnv "[sampleAdmits 0, sampleAdmits 0]"] by simp
qed

lemma deferred_chunks_reassemble_witness:
  "read_result 6 sampleEnv sampleID [str ''/w''] (\<lambda>k. [Cancels sampleID [str ''/w''] 2]) (\<lambda>k. 3) 0 1 sampleDone
    = Some [0x61, 0xC3, 0xA9, 0x62, 0x63]"
proof -
  have 1: "snd (deferred_run sampleEnv (sampleAdmits 0 # sampleWork sampleEnds) (empty_store sampleLimits)) = sampleDone"
    by (simp only: sampleRun snd_conv)
  have 2: "4 \<le> MaxChunkBytes sampleLimits" by (simp add: sampleLimits_def)
  have 3: "Status (last (stateFiles sampleDir)) = StatusCompleted" by code_simp
  have 4: "validateVisibility sampleEnv sampleID [str ''/w''] sampleDir = None" by code_simp
  have 5: "dir_at sampleDone sampleID = Some sampleDir" by simp
  have 6: "resultFile sampleDir = Some [0x61, 0xC3, 0xA9, 0x62, 0x63]" by (simp add: sampleDir_def)
  show ?thesis
    using deferred_chunks_reassemble [OF 1 2 sampleID_valid _ 5 sampleDir_latest 3 4, of 1 "\<lambda>k. [Cancels sampleID [str ''/w''] 2]" "\<lambda>k. 3"] 6
    by (simp add: eval_nat_numeral del: read_result.simps)
qed

lemma execution_settles_witness:
  "execution_outcome False False ContextLive False [0x61] 8 = StatusCompleted \<and>
   (\<exists>d s. dir_at (snd (finishExecution sampleEnv sampleID False ContextLive False [0x61] sampleMeta 1 2
        (snd (deferred_run sampleEnv [Claims sampleID 0] (sampleQueued 0))))) sampleID = Some d
      \<and> latestOperationState d = Inr s \<and> Status s = StatusCompleted \<and> resultFile d = Some [0x61])"
proof -
  let ?st = "snd (deferred_run sampleEnv [Claims sampleID 0] (sampleQueued 0))"
  let ?s = "(plain_state StatusRunning 2 0)\<lparr>StartedAt := Some 0\<rparr>"
  let ?d = "(new_dir 0 sampleRequest)\<lparr>stateFiles := [plain_state StatusQueued 1 0, ?s], startedMarker := True, heartbeatAt := Some 0\<rparr>"
  have 1: "snd (deferred_run sampleEnv [sampleAdmits 0, Claims sampleID 0] (empty_store sampleLimits)) = ?st"
    by (simp add: sampleAdmits_empty del: performs.simps split: prod.split)
  have 2: "dir_at ?st sampleID = Some ?d" by code_simp
  have 3: "latestOperationState ?d = Inr ?s" "Status ?s = StatusRunning" "Revision ?s < maxOperationRecords" by code_simp+
  have 4: "execution_outcome False (cancelMarker ?d) ContextLive False [0x61] (MaxResultBytes sampleLimits) = StatusCompleted"
    by code_simp
  have 5: "execution_outcome False False ContextLive False [0x61] 8 = StatusCompleted" by code_simp
  show ?thesis
    using execution_settles [OF 1 sampleID_valid 2 3, of False ContextLive False "[0x61]" sampleMeta 1 2] 5 unfolding 4
    by auto
qed

subsection \<open>An operation whose revisions are used up\<close>

text \<open>Recovery hands a lease out as long as one revision is free after it. The claim takes that revision, and
  then none is left for a terminal state: the operation stays running, counts as active, cannot be read
  once its heartbeat is old, and makes every later recovery pass fail.\<close>

definition leased :: "operation_dir \<Rightarrow> int \<Rightarrow> nat \<Rightarrow> bool" where
  "leased d t n \<longleftrightarrow>
     Revision (latest d) = n \<and> Status (latest d) = StatusStarting \<and> UpdatedAt (latest d) \<le> t
     \<and> (\<forall>h. heartbeatAt d = Some h \<longrightarrow> h \<le> t) \<and> \<not> startedMarker d \<and> \<not> cancelMarker d \<and> requestOf d = sampleRequest"

lemma run_dir_inv:
  "deferred_run env as (empty_store l) = (es, st) \<Longrightarrow> dir_at st i = Some d \<Longrightarrow> dir_inv d"
  using run_moves [OF empty_store_inv, of env as l] store_inv_dir [of env st i d] by (simp add: moves_def)

lemma lease_again:
  assumes "dir_inv d" "leased d t n" "n \<le> 30"
  shows "\<exists>d'. snd (performs sampleEnv (Recovers [str ''/w''] (t + 16000000000) (t + 16000000000))
      \<lparr>storeLimits = sampleLimits, operationDirs = [(sampleID, d)]\<rparr>) = \<lparr>storeLimits = sampleLimits, operationDirs = [(sampleID, d')]\<rparr>
    \<and> leased d' (t + 16000000000) (Suc n)"
proof -
  let ?s = "plain_state StatusStarting (Revision (latest d) + 1) (t + 16000000000)"
  let ?d' = "d\<lparr>stateFiles := stateFiles d @ [?s], heartbeatAt := Some (t + 16000000000)\<rparr>"
  have "length (stateFiles d) < maxOperationRecords"
    using assms(2,3) dir_inv_latest(2) [OF assms(1)] by (simp add: leased_def maxOperationRecords_def)
  then have w: "writeStateExclusive ?s d = Inr (d\<lparr>stateFiles := stateFiles d @ [?s]\<rparr>)"
    by (subst dir_inv_write [OF assms(1)]) simp_all
  have auth: "recoveryRequestAuthorized sampleEnv sampleRequest [str ''/w'']" by code_simp
  have stale: "\<not> executorHeartbeatFresh d (latest d) (t + 16000000000) (t + 16000000000)"
    "stateStaleAt (latest d) (t + 16000000000)"
    using assms(2) by (auto simp: leased_def executorHeartbeatFresh_def timestampFreshAt_def stateStaleAt_def
        operationStaleAfter_def nanos_def split: option.split)
  have "recoverDir sampleEnv sampleID [str ''/w''] (t + 16000000000) (t + 16000000000) d = (RecoverLease, ?d')"
    using assms(2,3) auth stale w
    by (simp add: recoverDir_def sample_operation [OF assms(1)] leased_def maxOperationRecords_def)
  moreover have "leased ?d' (t + 16000000000) (Suc n)" using assms(2) by (simp add: leased_def latest_def plain_state_def)
  ultimately show ?thesis
    by (simp add: prepareRecovery_def sampleEnv_def [THEN arg_cong, of normalizeDirs] maximumDirs_def sampleLimits_def)
qed

lemma many_leases:
  "n \<le> 29 \<Longrightarrow> \<exists>as es d t. deferred_run sampleEnv as (empty_store sampleLimits) =
      (es, \<lparr>storeLimits = sampleLimits, operationDirs = [(sampleID, d)]\<rparr>) \<and> leased d t (n + 2)"
proof (induction n)
  case 0
  have "snd (performs sampleEnv (Starts sampleID 0) (sampleQueued 0)) = \<lparr>storeLimits = sampleLimits, operationDirs =
      [(sampleID, (new_dir 0 sampleRequest)\<lparr>stateFiles := [plain_state StatusQueued 1 0, plain_state StatusStarting 2 0]\<rparr>)]\<rparr>"
    by code_simp
  moreover have "leased ((new_dir 0 sampleRequest)\<lparr>stateFiles := [plain_state StatusQueued 1 0, plain_state StatusStarting 2 0]\<rparr>) 0 2"
    by (simp add: leased_def latest_def plain_state_def new_dir_def)
  ultimately show ?case
    by (intro exI [of _ "[sampleAdmits 0, Starts sampleID 0]"] exI conjI [rotated]) (auto simp: sampleAdmits_empty numeral_2_eq_2)
next
  case (Suc n)
  obtain as es d t where r: "deferred_run sampleEnv as (empty_store sampleLimits) =
      (es, \<lparr>storeLimits = sampleLimits, operationDirs = [(sampleID, d)]\<rparr>)" "leased d t (n + 2)" using Suc by auto
  have d: "dir_inv d" using run_dir_inv [OF r(1), of sampleID d] by simp
  obtain d' where d': "snd (performs sampleEnv (Recovers [str ''/w''] (t + 16000000000) (t + 16000000000))
      \<lparr>storeLimits = sampleLimits, operationDirs = [(sampleID, d)]\<rparr>) = \<lparr>storeLimits = sampleLimits, operationDirs = [(sampleID, d')]\<rparr>"
    "leased d' (t + 16000000000) (Suc (n + 2))" using lease_again [OF d r(2)] Suc.prems by auto
  have "snd (deferred_run sampleEnv (as @ [Recovers [str ''/w''] (t + 16000000000) (t + 16000000000)]) (empty_store sampleLimits)) =
      \<lparr>storeLimits = sampleLimits, operationDirs = [(sampleID, d')]\<rparr>"
    using d'(1) by (simp add: deferred_run_append r(1))
  then show ?case using d'(2) by (metis add_Suc prod.collapse)
qed

text \<open>Such a run, and what the store answers from then on, whatever the arguments.\<close>

lemma revisions_exhausted:
  "\<exists>as es d. deferred_run sampleEnv as (empty_store sampleLimits) =
      (es, \<lparr>storeLimits = sampleLimits, operationDirs = [(sampleID, d)]\<rparr>)
    \<and> Status (latest d) = StatusRunning \<and> Revision (latest d) = maxOperationRecords
    \<and> (\<forall>payload meta now. \<exists>e. fst (completeDir sampleEnv sampleID payload meta now d) = Inl e)
    \<and> (\<forall>status code message now. fst (failDir sampleEnv sampleID status code message now d) = Inl ErrInvalidInput)
    \<and> (\<forall>allowed now. \<not> executorHeartbeatFresh d (latest d) now now \<longrightarrow>
         fst (getDir sampleEnv sampleID now now d) = Inl ErrHistoryExhausted
         \<and> fst (recoverDir sampleEnv sampleID allowed now now d) = RecoverError ErrHistoryExhausted)"
proof -
  obtain as es d t where r: "deferred_run sampleEnv as (empty_store sampleLimits) =
      (es, \<lparr>storeLimits = sampleLimits, operationDirs = [(sampleID, d)]\<rparr>)" "leased d t 31"
    using many_leases [of 29] by auto
  have d: "dir_inv d" using run_dir_inv [OF r(1), of sampleID d] by simp
  have len: "length (stateFiles d) = 31" using r(2) dir_inv_latest(2) [OF d] by (simp add: leased_def)
  let ?s = "(plain_state StatusRunning 32 t)\<lparr>StartedAt := Some t\<rparr>"
  let ?d1 = "d\<lparr>startedMarker := True\<rparr>"
  let ?d' = "?d1\<lparr>stateFiles := stateFiles d @ [?s], heartbeatAt := Some t\<rparr>"
  have "writeStateExclusive ?s ?d1 = Inr (?d1\<lparr>stateFiles := stateFiles d @ [?s]\<rparr>)"
    using len r(2) by (subst dir_inv_write [OF d]) (simp_all add: leased_def maxOperationRecords_def)
  then have "claimDir sampleEnv sampleID t d = (Inr (operationFrom sampleID sampleRequest ?d' ?s), ?d')"
    using r(2) by (simp add: claimDir_def last_write_def claimWrites_def sample_operation [OF d] leased_def Let_def)
  then have run: "deferred_run sampleEnv (as @ [Claims sampleID t]) (empty_store sampleLimits) =
      (es @ [Claimed sampleID], \<lparr>storeLimits = sampleLimits, operationDirs = [(sampleID, ?d')]\<rparr>)"
    by (simp add: deferred_run_append r(1) Claim_def on_dir_def sampleID_valid set_dir_def)
  have d': "dir_inv ?d'" using run_dir_inv [OF run, of sampleID ?d'] by simp
  have read: "readOperationLocked sampleEnv sampleID ?d' = Inr (sampleRequest, latest ?d')"
    using r(2) by (intro sample_operation [OF d']) (simp add: leased_def)
  have l: "Status (latest ?d') = StatusRunning" "Revision (latest ?d') = maxOperationRecords"
    by (simp_all add: latest_def maxOperationRecords_def)
  have full: "length (stateFiles ?d') = maxOperationRecords" using len by (simp add: maxOperationRecords_def)
  have no: "writeStateExclusive s e = Inl ErrInvalidInput"
    if "Revision s = Revision (latest ?d') + 1" "stateFiles e = stateFiles ?d'" for s e
    using full that by (subst dir_inv_write [OF d', of e s]) simp_all
  have complete: "\<exists>e. fst (completeDir sampleEnv sampleID payload meta now ?d') = Inl e" for payload meta now
    using l no [of _ "?d'\<lparr>resultFile := Some payload\<rparr>"]
    by (auto simp: completeDir_def read Let_def split: sum.split)
  have fail: "fst (failDir sampleEnv sampleID status code message now ?d') = Inl ErrInvalidInput" for status code message now
    using l by (simp add: failDir_def read Let_def no)
  have recover: "fst (getDir sampleEnv sampleID now now ?d') = Inl ErrHistoryExhausted
      \<and> fst (recoverDir sampleEnv sampleID allowed now now ?d') = RecoverError ErrHistoryExhausted"
    if "\<not> executorHeartbeatFresh ?d' (latest ?d') now now" for allowed now
    using l that
    by (simp add: getDir_def reconcileLostExecutor_def recoverDir_def terminal_outcome_def writeRecoveryTerminal_def
        dir_inv_latest(1) [OF d'] read)
  show ?thesis using run l complete fail recover by blast
qed

subsection \<open>A claim that dies\<close>

text \<open>A claimer that dies after the marker leaves an operation that is marked and has no running state. It
  does not show as started, and no other executor is handed it.\<close>

lemma marker_alone:
  "case dir_at (snd (deferred_run sampleEnv [Starts sampleID 0, ClaimDies sampleID 1 0] (sampleQueued 0))) sampleID of
     None \<Rightarrow> False
   | Some d \<Rightarrow> startedMarker d \<and> Status (last (stateFiles d)) = StatusStarting
       \<and> \<not> viewStarted (operationFrom sampleID sampleRequest d (last (stateFiles d)))
       \<and> fst (claimDir sampleEnv sampleID 1 d) = Inl ErrAlreadyStarted"
  by code_simp

subsection \<open>A request that is admitted and cannot be read\<close>

text \<open>Submission admits a request whose record is longer than what is read back. It cannot enter dispatch,
  and \<^verbatim>\<open>Submit\<close> fails the empty identifier instead of the operation: the caller gets an error, and the
  operation stays queued, counts as active and cannot be read.\<close>

lemma oversized_admitted_stuck:
  assumes "Admit env r random t1 st = (Inr v, st1)" "resolveRequest env r = Some r'" "ValidOperationID (viewID v)"
    "int (length (recordJSON env (viewID v) t1 r')) > maxRequestBytes"
  shows "Engine_Submit env r random launched t1 t2 t3 st = (Inl ErrReadFailed, st1)"
    "\<exists>d. dir_at st1 (viewID v) = Some d \<and> activeOperation d \<and> readOperationLocked env (viewID v) d = Inl ErrReadFailed"
proof -
  let ?d = "new_dir t1 r'"
  obtain st0 where st0: "st1 = st0\<lparr>operationDirs := operationDirs st0 @ [(viewID v, ?d)]\<rparr>"
    "viewID v \<notin> fst ` set (operationDirs st0)"
    using assms(1,2) by (auto simp: Admit_def operationFrom_def
        split: if_splits option.splits prod.splits sum.splits)
  then have "dir_at st0 (viewID v) = None" by (simp add: map_of_eq_None_iff)
  then have d: "dir_at st1 (viewID v) = Some ?d" by (simp add: st0(1) map_add_def)
  have u: "readOperationLocked env (viewID v) ?d = Inl ErrReadFailed"
    using assms(4) by (simp add: readOperationLocked_def readRequest_def new_dir_def)
  have "map (\<lambda>(j, e). if j = viewID v then (j, ?d) else (j, e)) (operationDirs st0) = operationDirs st0"
    using st0(2) by (intro map_idI) force
  then have "set_dir (viewID v) ?d st1 = st1" by (simp add: set_dir_def st0(1))
  then have m: "MarkStarting env (viewID v) t2 st1 = (Inl ErrReadFailed, st1)"
    using d u assms(3) by (simp add: MarkStarting_def on_dir_def markStartingDir_def)
  have "\<not> ValidOperationID []" by (simp add: ValidOperationID_def)
  then show "Engine_Submit env r random launched t1 t2 t3 st = (Inl ErrReadFailed, st1)"
    using assms(1) m by (simp add: Engine_Submit_def Fail_def on_dir_def)
  have "activeOperation ?d" by code_simp
  then show "\<exists>d. dir_at st1 (viewID v) = Some d \<and> activeOperation d \<and> readOperationLocked env (viewID v) d = Inl ErrReadFailed"
    using d u by blast
qed

end
