(* ===== verification/Go_Path.thy ===== *)
theory Go_Path
  imports Go_Strings "HOL-Library.Sublist"
begin

text \<open>
  Go's \<^verbatim>\<open>path/filepath\<close> as built for Unix: \<^verbatim>\<open>IsAbs\<close>, \<^verbatim>\<open>Clean\<close>, \<^verbatim>\<open>Dir\<close>, \<^verbatim>\<open>Base\<close>, \<^verbatim>\<open>Join\<close> and \<^verbatim>\<open>Abs\<close>. A path
  is the list of its bytes; a cleaned path is the rendering of its components.
\<close>

abbreviation (input) slash :: byte where "slash \<equiv> 0x2F"
abbreviation (input) dot :: bytes where "dot \<equiv> [0x2E]"
abbreviation (input) dotdot :: bytes where "dotdot \<equiv> [0x2E, 0x2E]"

definition is_abs :: "bytes \<Rightarrow> bool" where
  "is_abs p \<longleftrightarrow> has_prefix [slash] p"

text \<open>\<^verbatim>\<open>Clean\<close> reads the elements one after the other; \<^verbatim>\<open>..\<close> removes the element before it.\<close>

definition clean_push :: "bool \<Rightarrow> bytes list \<Rightarrow> bytes \<Rightarrow> bytes list" where
  "clean_push rooted out' e =
     (if e = [] \<or> e = dot then out'
      else if e = dotdot then
        (if out' \<noteq> [] \<and> last out' \<noteq> dotdot then butlast out' else if rooted then out' else out' @ [dotdot])
      else out' @ [e])"

definition components :: "bytes \<Rightarrow> bytes list" where
  "components p = foldl (clean_push (is_abs p)) [] (split_on slash p)"

definition render :: "bool \<Rightarrow> bytes list \<Rightarrow> bytes" where
  "render rooted cs =
     (if rooted then slash # join_with [slash] cs else if cs = [] then dot else join_with [slash] cs)"

definition path_clean :: "bytes \<Rightarrow> bytes" where
  "path_clean p = render (is_abs p) (components p)"

definition up_to_slash :: "bytes \<Rightarrow> bytes" where
  "up_to_slash p = rev (dropWhile (\<lambda>b. b \<noteq> slash) (rev p))"

definition path_dir :: "bytes \<Rightarrow> bytes" where
  "path_dir p = path_clean (up_to_slash p)"

definition path_join :: "bytes \<Rightarrow> bytes \<Rightarrow> bytes" where
  "path_join a b = (if a \<noteq> [] then path_clean (a @ slash # b) else if b \<noteq> [] then path_clean b else [])"

definition path_abs :: "bytes option \<Rightarrow> bytes \<Rightarrow> bytes option" where
  "path_abs workDir p = (if is_abs p then Some (path_clean p) else map_option (\<lambda>wd. path_join wd p) workDir)"

subsection \<open>Cleaned paths\<close>

text \<open>Elements that survive: no empty ones, no \<^verbatim>\<open>.\<close>, and \<^verbatim>\<open>..\<close> only in front of a relative path.\<close>

definition plain :: "bytes \<Rightarrow> bool" where
  "plain e \<longleftrightarrow> e \<noteq> [] \<and> e \<noteq> dot \<and> e \<noteq> dotdot \<and> slash \<notin> set e"

definition canonical :: "bool \<Rightarrow> bytes list \<Rightarrow> bool" where
  "canonical rooted cs \<longleftrightarrow> (\<exists>n ps. cs = replicate n dotdot @ ps \<and> list_all plain ps \<and> (rooted \<longrightarrow> n = 0))"

lemma canonical_Nil [simp]: "canonical rooted []"
  unfolding canonical_def by (intro exI [of _ 0] exI [of _ "[]"]) simp

lemma canonical_plain: "list_all plain ps \<Longrightarrow> canonical rooted ps"
  unfolding canonical_def by (intro exI [of _ 0] exI [of _ ps]) simp

lemma canonical_rooted: "canonical True cs \<longleftrightarrow> list_all plain cs"
  by (auto simp: canonical_def)

lemma canonical_push:
  assumes "canonical rooted out'" "slash \<notin> set e"
  shows "canonical rooted (clean_push rooted out' e)"
proof -
  obtain n ps where o: "out' = replicate n dotdot @ ps" "list_all plain ps" "rooted \<longrightarrow> n = 0"
    using assms(1) by (auto simp: canonical_def)
  have plain_last: "ps = [] \<longleftrightarrow> out' = [] \<or> last out' = dotdot"
  proof (cases ps rule: rev_cases)
    case Nil
    then show ?thesis by (cases "n = 0") (simp_all add: o(1) last_replicate)
  qed (use o(1,2) in \<open>simp_all add: plain_def\<close>)
  consider "e = [] \<or> e = dot" | "e = dotdot" | "plain e" using assms(2) by (auto simp: plain_def)
  then show ?thesis
  proof cases
    case 1
    then show ?thesis using assms(1) by (auto simp: clean_push_def)
  next
    case 2
    show ?thesis
    proof (cases "ps = []")
      case True
      have "out' @ [dotdot] = replicate (Suc n) dotdot" by (simp add: o True replicate_append_same)
      then have "\<not> rooted \<Longrightarrow> canonical rooted (out' @ [dotdot])"
        unfolding canonical_def by (intro exI [of _ "Suc n"] exI [of _ "[]"]) simp
      then show ?thesis using 2 True plain_last assms(1) by (auto simp: clean_push_def)
    next
      case False
      then have "butlast out' = replicate n dotdot @ butlast ps" by (simp add: o(1) butlast_append)
      moreover have "list_all plain (butlast ps)" using o(2) by (auto simp: list_all_iff dest: in_set_butlastD)
      ultimately have "canonical rooted (butlast out')" using o(3) by (auto simp: canonical_def)
      then show ?thesis using 2 False plain_last by (auto simp: clean_push_def)
    qed
  next
    case 3
    then have "canonical rooted (out' @ [e])" using o unfolding canonical_def
      by (intro exI [of _ n] exI [of _ "ps @ [e]"]) auto
    then show ?thesis using 3 by (auto simp: clean_push_def plain_def)
  qed
qed

lemma canonical_foldl:
  "canonical rooted out' \<Longrightarrow> (\<And>e. e \<in> set es \<Longrightarrow> slash \<notin> set e) \<Longrightarrow>
   canonical rooted (foldl (clean_push rooted) out' es)"
  by (induction es arbitrary: out') (auto intro: canonical_push)

lemma canonical_components: "canonical (is_abs p) (components p)"
  unfolding components_def by (intro canonical_foldl split_on_lines_clean) simp_all

text \<open>Reading a canonical list of elements gives it back.\<close>

lemma push_dotdots: "foldl (clean_push False) (replicate m dotdot) (replicate n dotdot) = replicate (m + n) dotdot"
proof (induction n arbitrary: m)
  case (Suc n)
  have "clean_push False (replicate m dotdot) dotdot = replicate (Suc m) dotdot"
    by (auto simp: clean_push_def replicate_append_same)
  then show ?case using Suc [of "Suc m"] by simp
qed simp

lemma push_plain: "list_all plain es \<Longrightarrow> foldl (clean_push rooted) out' es = out' @ es"
  by (induction es arbitrary: out') (auto simp: clean_push_def plain_def)

lemma push_canonical: "canonical rooted cs \<Longrightarrow> foldl (clean_push rooted) [] cs = cs"
  using push_dotdots [of 0] by (cases rooted) (auto simp: canonical_def push_plain)

lemma canonical_mem:
  assumes "canonical rooted cs" "c \<in> set cs"
  shows "c = dotdot \<or> plain c"
proof -
  obtain n ps where o: "cs = replicate n dotdot @ ps" "list_all plain ps" using assms(1) by (auto simp: canonical_def)
  then have "c \<in> set (replicate n dotdot) \<or> c \<in> set ps" using assms(2) by simp
  then show ?thesis using o(2) by (auto simp: list_all_iff)
qed

lemma no_slash_canonical: "canonical rooted cs \<Longrightarrow> c \<in> set cs \<Longrightarrow> slash \<notin> set c"
  using canonical_mem [of rooted cs c] unfolding plain_def by auto

lemma canonical_nonempty: "canonical rooted cs \<Longrightarrow> c \<in> set cs \<Longrightarrow> c \<noteq> []"
  using canonical_mem [of rooted cs c] unfolding plain_def by auto

lemma is_abs_render [simp]: "canonical rooted cs \<Longrightarrow> is_abs (render rooted cs) = rooted"
proof -
  assume c: "canonical rooted cs"
  have "\<not> is_abs (join_with [slash] cs)" if "cs \<noteq> []"
  proof -
    obtain x xs where cs: "cs = x # xs" using \<open>cs \<noteq> []\<close> by (meson list.exhaust)
    have "x \<noteq> []" using canonical_nonempty [OF c, of x] cs by simp
    then obtain b bs where x: "x = b # bs" by (cases x) auto
    have "b \<noteq> slash" using no_slash_canonical [OF c, of x] cs x by auto
    then show ?thesis by (cases xs) (simp_all add: cs x is_abs_def has_prefix_def)
  qed
  then show "is_abs (render rooted cs) = rooted" by (auto simp: render_def is_abs_def has_prefix_def)
qed

lemma components_render [simp]:
  assumes "canonical rooted cs"
  shows "components (render rooted cs) = cs"
proof -
  have s: "cs \<noteq> [] \<Longrightarrow> split_on slash (join_with [slash] cs) = cs"
    using no_slash_canonical [OF assms] by (intro split_join) auto
  have e: "foldl (clean_push rooted) [] ([] # es) = foldl (clean_push rooted) [] es" for es
    by (simp add: clean_push_def)
  show ?thesis
  proof (cases "cs = []")
    case True
    then show ?thesis
      by (cases rooted) (simp_all add: components_def is_abs_def has_prefix_def render_def clean_push_def)
  next
    case False
    then have "split_on slash (render rooted cs) = (if rooted then [] # cs else cs)" using s by (simp add: render_def)
    then show ?thesis
      unfolding components_def is_abs_render [OF assms] by (cases rooted) (use e [of cs] push_canonical [OF assms] in \<open>simp_all del: foldl_Cons append_Cons\<close>)
  qed
qed

lemma clean_render [simp]: "canonical rooted cs \<Longrightarrow> path_clean (render rooted cs) = render rooted cs"
  by (simp add: path_clean_def)

lemma clean_clean [simp]: "path_clean (path_clean p) = path_clean p"
  using canonical_components by (simp add: path_clean_def)

lemma is_abs_clean [simp]: "is_abs (path_clean p) = is_abs p"
  using canonical_components by (simp add: path_clean_def)

lemma components_clean [simp]: "components (path_clean p) = components p"
  using canonical_components by (simp add: path_clean_def)

lemma clean_eq_iff: "path_clean p = path_clean q \<longleftrightarrow> is_abs p = is_abs q \<and> components p = components q"
proof
  assume e: "path_clean p = path_clean q"
  show "is_abs p = is_abs q \<and> components p = components q"
    using arg_cong [OF e, of is_abs] arg_cong [OF e, of components] by simp
qed (simp add: path_clean_def)

subsection \<open>Parents, last elements and joining\<close>

lemma split_on_middle: "split_on c (a @ c # b) = split_on c a @ split_on c b"
proof (induction a)
  case (Cons x a)
  then show ?case by (cases "split_on c a") (auto split: list.splits)
qed simp

lemma is_abs_append: "q \<noteq> [] \<Longrightarrow> is_abs (q @ e) = is_abs q"
  by (cases q) (simp_all add: is_abs_def has_prefix_def)

lemma components_append: "q \<noteq> [] \<Longrightarrow> components (q @ slash # e) = foldl (clean_push (is_abs q)) (components q) (split_on slash e)"
  by (simp add: components_def is_abs_append split_on_middle)

lemma render_nonempty [simp]: "canonical rooted cs \<Longrightarrow> render rooted cs \<noteq> []"
proof -
  assume c: "canonical rooted cs"
  have "join_with [slash] cs \<noteq> []" if "cs \<noteq> []"
    using that canonical_nonempty [OF c, of "hd cs"] by (cases cs; cases "tl cs") auto
  then show ?thesis by (auto simp: render_def)
qed

lemma up_to_slash_last:
  assumes "slash \<notin> set e"
  shows "up_to_slash (q @ slash # e) = q @ [slash]"
proof -
  have "dropWhile (\<lambda>b. b \<noteq> slash) (rev e @ slash # rev q) = slash # rev q"
    using assms by (induction e rule: rev_induct) auto
  then show ?thesis by (simp add: up_to_slash_def)
qed

lemma up_to_slash_none:
  assumes "slash \<notin> set e"
  shows "up_to_slash e = []"
proof -
  have "dropWhile (\<lambda>b. b \<noteq> slash) (rev e) = []"
    unfolding dropWhile_eq_Nil_conv using assms by (intro ballI notI) simp
  then show ?thesis by (simp add: up_to_slash_def)
qed

lemma canonical_append: "canonical rooted (cs @ [c]) \<Longrightarrow> canonical rooted cs"
proof -
  assume "canonical rooted (cs @ [c])"
  then obtain n ps where o: "cs @ [c] = replicate n dotdot @ ps" "list_all plain ps" "rooted \<longrightarrow> n = 0"
    by (auto simp: canonical_def)
  show ?thesis
  proof (cases ps rule: rev_cases)
    case Nil
    then have "cs @ [c] = replicate n dotdot" using o(1) by simp
    then have "cs = butlast (replicate n dotdot)" by (metis butlast_snoc)
    then have "cs = replicate (n - 1) dotdot" by (simp add: butlast_conv_take)
    then show ?thesis using o(3) unfolding canonical_def by (intro exI [of _ "n - 1"] exI [of _ "[]"]) simp
  next
    case (snoc ps' q)
    then show ?thesis using o unfolding canonical_def by (intro exI [of _ n] exI [of _ ps']) simp
  qed
qed

lemma dir_render:
  assumes "canonical rooted cs"
  shows "path_dir (render rooted cs) = render rooted (butlast cs)"
proof (cases cs rule: rev_cases)
  case Nil
  then show ?thesis
    by (cases rooted) (simp_all add: path_dir_def up_to_slash_def render_def path_clean_def components_def is_abs_def
        has_prefix_def clean_push_def)
next
  case (snoc xs x)
  have x: "slash \<notin> set x" using no_slash_canonical [OF assms, of x] by (simp add: snoc)
  have xs: "canonical rooted xs" using canonical_append assms by (simp add: snoc)
  have c: "path_clean (render rooted xs @ [slash]) = render rooted xs"
    using components_append [of "render rooted xs" "[]"] xs
    by (simp add: path_clean_def is_abs_append clean_push_def)
  show ?thesis
  proof (cases "xs = []")
    case True
    show ?thesis
    proof (cases rooted)
      case True
      have "up_to_slash (render True [x]) = [slash]" using up_to_slash_last [OF x, of "[]"] by (simp add: render_def)
      then show ?thesis using c \<open>xs = []\<close> True
        by (simp add: snoc path_dir_def render_def path_clean_def components_def is_abs_def has_prefix_def clean_push_def)
    next
      case False
      then show ?thesis using up_to_slash_none [OF x] \<open>xs = []\<close>
        by (simp add: snoc path_dir_def render_def path_clean_def components_def is_abs_def has_prefix_def clean_push_def)
    qed
  next
    case False
    then have "render rooted cs = render rooted xs @ slash # x" by (simp add: snoc render_def join_append)
    then show ?thesis using up_to_slash_last [OF x] c by (simp add: path_dir_def snoc)
  qed
qed

lemma base_render:
  assumes "canonical True cs" "cs \<noteq> []"
  shows "path_base (render True cs) = last cs"
proof -
  obtain xs x where cs: "cs = xs @ [x]" using assms(2) by (meson rev_exhaust)
  have x: "slash \<notin> set x" "x \<noteq> []"
    using no_slash_canonical [OF assms(1), of x] canonical_nonempty [OF assms(1), of x] by (simp_all add: cs)
  have "render True cs = (if xs = [] then [] else slash # join_with [slash] xs) @ slash # x"
    by (simp add: cs render_def join_append)
  then obtain q where q: "render True cs = q @ slash # x" by blast
  have "strip_slashes (render True cs) = render True cs"
    using x by (cases x rule: rev_cases) (auto simp: strip_slashes_def q)
  moreover have "last (split_on slash (q @ slash # x)) = x" using x(1) by (simp add: split_on_middle split_on_clean)
  moreover have "last cs = x" by (simp add: cs)
  ultimately show ?thesis using x(2) unfolding path_base_def q by (simp add: Let_def)
qed

lemma join_render:
  "canonical True cs \<Longrightarrow> plain e \<Longrightarrow> path_join (render True cs) e = render True (cs @ [e])"
  using components_append [of "render True cs" e]
  by (simp add: path_join_def path_clean_def is_abs_append plain_def split_on_clean clean_push_def)

lemma abs_render: "is_abs p \<Longrightarrow> path_clean p = render True (components p)"
  by (simp add: path_clean_def)

lemma abs_components: "is_abs p \<Longrightarrow> list_all plain (components p)"
  using canonical_components [of p] by (simp add: canonical_rooted)

end
