(* ===== verification/Path_Validation.thy ===== *)
theory Path_Validation
  imports Go_Path
begin

text \<open>
  The confinement of paths to the allowed directories, \<^verbatim>\<open>internal/security/pathvalidation.go\<close>, as built for
  Unix, where \<^verbatim>\<open>normalizePlatformPath\<close> is the identity and comparison is by bytes. What the file system,
  the home and the working directory answer is a record of arguments; the second answers are those to the
  second question about the same path. The wrapping of errors with the operation's name is left out.
\<close>

subsection \<open>Normalized paths\<close>

definition in_cutset :: "byte \<Rightarrow> bool" where
  "in_cutset b \<longleftrightarrow> b \<in> {0x22, 0x27, 0x20, 0x09, 0x0A}"

definition trim_end :: "bytes \<Rightarrow> bytes" where
  "trim_end p = rev (dropWhile in_cutset (rev p))"

definition trim_cutset :: "bytes \<Rightarrow> bytes" where
  "trim_cutset p = trim_end (dropWhile in_cutset p)"

definition normalizePath :: "bytes \<Rightarrow> bytes" where
  "normalizePath p = path_clean (path_clean (trim_cutset p))"

definition has_nul :: "bytes \<Rightarrow> bool" where
  "has_nul p \<longleftrightarrow> 0 \<in> set p"

definition directory_prefix :: "bytes \<Rightarrow> bytes" where
  "directory_prefix p = (if p \<noteq> [] \<and> last p = 0x2F then p else p @ [0x2F])"

definition pathContains :: "bytes \<Rightarrow> bytes \<Rightarrow> bool" where
  "pathContains parent child = has_prefix (directory_prefix parent) child"

definition PathsEqual :: "bytes \<Rightarrow> bytes \<Rightarrow> bool" where
  "PathsEqual first second \<longleftrightarrow>
     \<not> (first = [] \<or> second = [] \<or> has_nul first \<or> has_nul second)
     \<and> is_abs (path_clean first) \<and> is_abs (path_clean second)
     \<and> normalizePath (path_clean first) = normalizePath (path_clean second)"

definition PathsOverlap :: "bytes \<Rightarrow> bytes \<Rightarrow> bool" where
  "PathsOverlap first second \<longleftrightarrow>
     \<not> (first = [] \<or> second = [] \<or> has_nul first \<or> has_nul second
        \<or> \<not> is_abs (path_clean first) \<or> \<not> is_abs (path_clean second))
     \<and> (let a = normalizePath first; b = normalizePath second in
         a = b \<or> pathContains a b \<or> pathContains b a)"

definition IsPathWithinAllowedDirectories :: "bytes \<Rightarrow> bytes list \<Rightarrow> bool" where
  "IsPathWithinAllowedDirectories absolutePath allowedDirs \<longleftrightarrow>
     absolutePath \<noteq> [] \<and> allowedDirs \<noteq> [] \<and> \<not> has_nul absolutePath \<and> is_abs (path_clean absolutePath)
     \<and> list_ex (\<lambda>d. let n = normalizePath (path_clean absolutePath); a = normalizePath (path_clean d) in
         n = a \<or> has_prefix (directory_prefix a) n) allowedDirs"

subsection \<open>Resolving with missing ends\<close>

datatype fs_error = NotExist | OtherFault | Unresolvable

record path_fs =
  evalPath :: "bytes \<Rightarrow> fs_error + bytes"
  evalAgain :: "bytes \<Rightarrow> fs_error + bytes"
  lstatOf :: "bytes \<Rightarrow> fs_error option"
  lstatAgain :: "bytes \<Rightarrow> fs_error option"
  statDir :: "bytes \<Rightarrow> fs_error + bool"
  homeDir :: "bytes option"
  workDir :: "bytes option"

definition projectResolved :: "bytes \<Rightarrow> bytes list \<Rightarrow> bytes \<times> bool" where
  "projectResolved resolved missing =
     (path_clean (foldl path_join (path_clean resolved) (rev missing)), missing = [])"

text \<open>What is found out about a path that does not resolve: an answer, or that nothing is there.\<close>

definition missingEntry :: "path_fs \<Rightarrow> bytes \<Rightarrow> bytes list \<Rightarrow> (fs_error + bytes \<times> bool) option" where
  "missingEntry fs current missing =
     (case lstatOf fs current of
        Some e \<Rightarrow> if e = NotExist then None else Some (Inl e)
      | None \<Rightarrow>
          (case evalAgain fs current of
             Inr r \<Rightarrow> Some (Inr (projectResolved r missing))
           | Inl e \<Rightarrow>
               if e \<noteq> NotExist then Some (Inl e)
               else (case lstatAgain fs current of
                   None \<Rightarrow> Some (Inl Unresolvable)
                 | Some e' \<Rightarrow> if e' = NotExist then None else Some (Inl e'))))"

text \<open>The walk to the parents ends: a cleaned path has one element less each time.\<close>

definition path_height :: "bytes \<Rightarrow> nat" where
  "path_height p = (if path_clean p = p then length (components p) else Suc (length (split_on 0x2F p)))"

lemma length_push: "length (foldl (clean_push r) out' es) \<le> length out' + length es"
proof (induction es arbitrary: out')
  case (Cons e es)
  have "length (clean_push r out' e) \<le> Suc (length out')" by (auto simp: clean_push_def)
  then show ?case using Cons [of "clean_push r out' e"] by simp
qed simp

lemma path_dir_height:
  assumes "path_dir p \<noteq> p"
  shows "path_height (path_dir p) < path_height p"
proof (cases "path_clean p = p")
  case True
  have c: "canonical (is_abs p) (components p)" by (rule canonical_components)
  have p: "p = render (is_abs p) (components p)" using True by (simp add: path_clean_def)
  have d: "path_dir p = render (is_abs p) (butlast (components p))" using dir_render [OF c] p by simp
  have "canonical (is_abs p) (butlast (components p))"
    using canonical_append c by (cases "components p" rule: rev_cases) auto
  moreover have "components p \<noteq> []" using assms d p by (metis butlast.simps(1))
  ultimately show ?thesis using True d by (simp add: path_height_def)
next
  case False
  have "length (components (up_to_slash p)) \<le> length (split_on 0x2F (up_to_slash p))"
    using length_push [of "is_abs (up_to_slash p)" "[]" "split_on 0x2F (up_to_slash p)"] by (simp add: components_def)
  also have "\<dots> \<le> length (split_on 0x2F p)"
  proof -
    have "\<exists>t. up_to_slash p @ t = p"
      unfolding up_to_slash_def by (metis rev_append rev_rev_ident takeWhile_dropWhile_id)
    then show ?thesis by (metis length_split_on add_le_mono1 filter_append length_append le_add1)
  qed
  finally show ?thesis using False by (simp add: path_height_def path_dir_def)
qed

function resolveLoop :: "path_fs \<Rightarrow> bytes \<Rightarrow> bytes list \<Rightarrow> fs_error + bytes \<times> bool" where
  "resolveLoop fs current missing =
     (case evalPath fs current of
        Inr r \<Rightarrow> Inr (projectResolved r missing)
      | Inl e \<Rightarrow>
          if e \<noteq> NotExist then Inl e
          else (case missingEntry fs current missing of
              Some answer \<Rightarrow> answer
            | None \<Rightarrow>
                if path_dir current = current then Inl e
                else resolveLoop fs (path_dir current) (missing @ [path_base current])))"
  by pat_completeness auto
termination
  by (relation "measure (\<lambda>(fs, current, missing). path_height current)") (auto intro: path_dir_height)

declare resolveLoop.simps [simp del]

definition resolvePathAllowMissing :: "path_fs \<Rightarrow> bytes \<Rightarrow> fs_error + bytes \<times> bool" where
  "resolvePathAllowMissing fs p = resolveLoop fs (path_clean p) []"

function ancestorLoop :: "path_fs \<Rightarrow> bytes \<Rightarrow> fs_error + bytes" where
  "ancestorLoop fs current =
     (case evalPath fs current of
        Inr r \<Rightarrow> Inr (normalizePath r)
      | Inl e \<Rightarrow>
          if e \<noteq> NotExist then Inl e
          else if path_dir current = current then Inl e
          else ancestorLoop fs (path_dir current))"
  by pat_completeness auto
termination
  by (relation "measure (\<lambda>(fs, current). path_height current)") (auto intro: path_dir_height)

declare ancestorLoop.simps [simp del]

definition nearestExistingResolvedAncestor :: "path_fs \<Rightarrow> bytes \<Rightarrow> fs_error + bytes" where
  "nearestExistingResolvedAncestor fs p = ancestorLoop fs (path_dir (path_clean p))"

subsection \<open>Validation\<close>

datatype path_error =
    ErrNoAllowedDirs | ErrPathDenied bytes | ErrSymlinkDenied bytes | ErrParentDirDenied bytes
  | ErrParentNotExists bytes | ErrNotDirectory bytes | ErrWorkDir | ErrFilesystem fs_error

definition ExpandHome :: "path_fs \<Rightarrow> bytes \<Rightarrow> bytes" where
  "ExpandHome fs p =
     (if has_prefix (str ''~/'') p \<or> p = str ''~'' then
        (case homeDir fs of
           None \<Rightarrow> p
         | Some home \<Rightarrow> if p = str ''~'' then home else path_join home (drop 2 p))
      else p)"

definition absolutePathOf :: "path_fs \<Rightarrow> bytes \<Rightarrow> bytes option" where
  "absolutePathOf fs p =
     (if is_abs p then Some (path_clean p) else map_option (\<lambda>wd. path_clean (path_join wd p)) (workDir fs))"

definition ValidatePathWithAllowedDirectories :: "path_fs \<Rightarrow> bytes \<Rightarrow> bytes list \<Rightarrow> bytes list \<Rightarrow> path_error + bytes" where
  "ValidatePathWithAllowedDirectories fs requestedPath requestedDirs resolvedDirs =
     (if requestedDirs = [] then Inl ErrNoAllowedDirs
      else (case absolutePathOf fs (ExpandHome fs requestedPath) of
          None \<Rightarrow> Inl ErrWorkDir
        | Some absolute \<Rightarrow>
            if \<not> IsPathWithinAllowedDirectories (normalizePath absolute) requestedDirs then Inl (ErrPathDenied absolute)
            else (case resolvePathAllowMissing fs absolute of
                Inl e \<Rightarrow> if e = NotExist then Inl (ErrParentNotExists (path_dir absolute)) else Inl (ErrFilesystem e)
              | Inr (resolved, existing) \<Rightarrow>
                  if \<not> IsPathWithinAllowedDirectories (normalizePath resolved) resolvedDirs then
                    (if existing then Inl (ErrSymlinkDenied resolved) else Inl (ErrParentDirDenied (path_dir resolved)))
                  else if \<not> existing then Inr absolute
                  else Inr resolved)))"

record path_evidence =
  RequestedPath :: bytes
  ResolvedPath :: bytes
  Exists :: bool
  NearestExistingPath :: bytes

definition nearestEvidence :: "path_fs \<Rightarrow> bytes \<Rightarrow> bytes list \<Rightarrow> path_error + bytes" where
  "nearestEvidence fs absolute resolvedDirs =
     (case nearestExistingResolvedAncestor fs absolute of
        Inl e \<Rightarrow> Inl (ErrFilesystem e)
      | Inr nearest \<Rightarrow>
          if \<not> IsPathWithinAllowedDirectories nearest resolvedDirs then Inl (ErrParentDirDenied nearest)
          else (case statDir fs nearest of
              Inl e \<Rightarrow> Inl (ErrFilesystem e)
            | Inr isDir \<Rightarrow> if \<not> isDir then Inl (ErrNotDirectory nearest) else Inr nearest))"

definition ValidatePathEvidenceWithAllowedDirectories ::
  "path_fs \<Rightarrow> bytes \<Rightarrow> bytes list \<Rightarrow> bytes list \<Rightarrow> path_error + path_evidence" where
  "ValidatePathEvidenceWithAllowedDirectories fs requestedPath requestedDirs resolvedDirs =
     (if requestedDirs = [] then Inl ErrNoAllowedDirs
      else if requestedPath = [] \<or> has_nul requestedPath then Inl (ErrPathDenied [])
      else (case path_abs (workDir fs) (ExpandHome fs requestedPath) of
          None \<Rightarrow> Inl ErrWorkDir
        | Some abs' \<Rightarrow>
            (let absolute = normalizePath abs' in
             if \<not> IsPathWithinAllowedDirectories absolute requestedDirs then Inl (ErrPathDenied absolute)
             else (case resolvePathAllowMissing fs absolute of
                 Inl e \<Rightarrow> Inl (ErrFilesystem e)
               | Inr (resolved', existing) \<Rightarrow>
                   (let resolved = normalizePath resolved' in
                    if \<not> IsPathWithinAllowedDirectories resolved resolvedDirs then
                      (if existing then Inl (ErrSymlinkDenied resolved) else Inl (ErrParentDirDenied (path_dir resolved)))
                    else (case (if existing then Inr resolved else nearestEvidence fs absolute resolvedDirs) of
                        Inl e \<Rightarrow> Inl e
                      | Inr nearest \<Rightarrow>
                          Inr \<lparr>RequestedPath = absolute, ResolvedPath = resolved, Exists = existing,
                            NearestExistingPath = normalizePath nearest\<rparr>))))))"

definition ResolveAllowedDirs :: "path_fs \<Rightarrow> bytes list \<Rightarrow> bytes list" where
  "ResolveAllowedDirs fs dirs =
     List.map_filter (\<lambda>d. case resolvePathAllowMissing fs d of Inl e \<Rightarrow> None | Inr (r, _) \<Rightarrow> Some (normalizePath r)) dirs"

definition ValidatePath :: "path_fs \<Rightarrow> bytes \<Rightarrow> bytes list \<Rightarrow> path_error + bytes" where
  "ValidatePath fs requestedPath dirs =
     ValidatePathWithAllowedDirectories fs requestedPath dirs (ResolveAllowedDirs fs dirs)"

definition ResolvePathSafe :: "path_fs \<Rightarrow> bytes \<Rightarrow> bytes list \<Rightarrow> bytes option" where
  "ResolvePathSafe fs p resolvedDirs =
     (if p = [] \<or> resolvedDirs = [] then None
      else (case evalPath fs p of
          Inl e \<Rightarrow> None
        | Inr r \<Rightarrow> if IsPathWithinAllowedDirectories (path_clean r) resolvedDirs then Some (path_clean r) else None))"

definition IsPathSafeResolved :: "path_fs \<Rightarrow> bytes \<Rightarrow> bytes list \<Rightarrow> bool" where
  "IsPathSafeResolved fs p resolvedDirs = (ResolvePathSafe fs p resolvedDirs \<noteq> None)"

fun NormalizeAllowedDirectorySet :: "path_fs \<Rightarrow> bytes list \<Rightarrow> path_error + bytes list \<times> bytes list" where
  "NormalizeAllowedDirectorySet fs [] = Inr ([], [])"
| "NormalizeAllowedDirectorySet fs (d # ds) =
     (case path_abs (workDir fs) (ExpandHome fs d) of
        None \<Rightarrow> Inl ErrWorkDir
      | Some absolute \<Rightarrow>
          (case resolvePathAllowMissing fs absolute of
             Inl e \<Rightarrow> Inl (ErrFilesystem e)
           | Inr (resolved, existing) \<Rightarrow>
               (case (if existing then statDir fs resolved else Inr True) of
                  Inl e \<Rightarrow> Inl (ErrFilesystem e)
                | Inr isDir \<Rightarrow>
                    if \<not> isDir then Inl (ErrNotDirectory resolved)
                    else (case NormalizeAllowedDirectorySet fs ds of
                        Inl e \<Rightarrow> Inl e
                      | Inr (requested, resolvedDirs) \<Rightarrow>
                          Inr (normalizePath absolute # requested, normalizePath resolved # resolvedDirs)))))"

definition NormalizeAllowedDirs :: "path_fs \<Rightarrow> bytes list \<Rightarrow> path_error + bytes list" where
  "NormalizeAllowedDirs fs dirs = map_sum (\<lambda>e. e) snd (NormalizeAllowedDirectorySet fs dirs)"

end
