(* ===== verification/Path_Confined.thy ===== *)
theory Path_Confined
  imports Path_Validation
begin

text \<open>
  What the validation of theory \<^verbatim>\<open>Path_Validation\<close> guarantees, stated on the elements of paths.
\<close>

subsection \<open>Normalizing on elements\<close>

lemma slash_not_cut [simp]: "\<not> in_cutset 0x2F"
  by (simp add: in_cutset_def)

lemma trim_end_Nil [simp]: "trim_end [] = []"
  by (simp add: trim_end_def)

lemma trim_end_snoc: "trim_end (p @ [b]) = (if in_cutset b then trim_end p else p @ [b])"
  by (simp add: trim_end_def)

lemma trim_end_slash: "trim_end (q @ 0x2F # x) = q @ 0x2F # trim_end x"
proof (induction x rule: rev_induct)
  case Nil
  show ?case by (simp add: trim_end_snoc)
next
  case (snoc b x)
  then show ?case using trim_end_snoc [of "q @ 0x2F # x" b] by (simp add: trim_end_snoc)
qed

lemma trim_end_prefix: "\<exists>t. x = trim_end x @ t"
proof (induction x rule: rev_induct)
  case (snoc b x)
  then show ?case by (auto simp: trim_end_snoc) (metis append_assoc)
qed simp

lemma trim_end_idem [simp]: "trim_end (trim_end x) = trim_end x"
  by (induction x rule: rev_induct) (simp_all add: trim_end_snoc)

lemma trim_no_slash: "slash \<notin> set x \<Longrightarrow> slash \<notin> set (trim_end x)"
  using trim_end_prefix [of x] by (metis Un_iff set_append)

definition trimmed :: "bytes list \<Rightarrow> bytes list" where
  "trimmed cs = (if cs = [] then [] else clean_push True (butlast cs) (trim_end (last cs)))"

lemma trimmed_canonical:
  assumes "canonical True cs"
  shows "canonical True (trimmed cs)"
proof (cases cs rule: rev_cases)
  case (snoc xs x)
  have "slash \<notin> set (trim_end x)" using no_slash_canonical [OF assms, of x] trim_no_slash by (simp add: snoc)
  then show ?thesis using canonical_append assms canonical_push by (simp add: trimmed_def snoc)
qed (simp add: trimmed_def)

lemma normalize_render:
  assumes "canonical True cs"
  shows "normalizePath (render True cs) = render True (trimmed cs)"
proof -
  have lead: "dropWhile in_cutset (render True cs) = render True cs" by (simp add: render_def)
  show ?thesis
  proof (cases cs rule: rev_cases)
    case Nil
    moreover have "render True [] = [slash]" by (simp add: render_def)
    moreover from this have "path_clean [slash] = [slash]" using clean_render [of True "[]"] by simp
    ultimately show ?thesis
      using lead trim_end_snoc [of "[]" slash] by (simp add: normalizePath_def trim_cutset_def trimmed_def)
  next
    case (snoc xs x)
    have x: "slash \<notin> set (trim_end x)" using no_slash_canonical [OF assms, of x] trim_no_slash by (simp add: snoc)
    have xs: "canonical True xs" using canonical_append assms by (simp add: snoc)
    let ?q = "if xs = [] then [] else render True xs"
    have r: "render True cs = ?q @ slash # x" by (simp add: snoc render_def join_append)
    have t: "trim_cutset (render True cs) = ?q @ slash # trim_end x"
      unfolding trim_cutset_def lead using trim_end_slash [of ?q x] unfolding r .
    have a: "is_abs (?q @ slash # trim_end x)"
      using xs by (auto simp: is_abs_append) (simp add: is_abs_def has_prefix_def)
    have "components (?q @ slash # trim_end x) = clean_push True xs (trim_end x)"
    proof (cases "xs = []")
      case True
      then show ?thesis using x a by (simp add: components_def split_on_clean) (simp add: clean_push_def)
    next
      case False
      then show ?thesis using components_append [of "render True xs" "trim_end x"] xs x by (simp add: split_on_clean)
    qed
    then have "path_clean (trim_cutset (render True cs)) = render True (clean_push True xs (trim_end x))"
      unfolding t path_clean_def using a by simp
    then show ?thesis unfolding normalizePath_def by (metis clean_clean snoc snoc_eq_iff_butlast trimmed_def last_snoc)
  qed
qed

text \<open>The test with strings is containment of elements.\<close>

lemma split_render: "canonical True cs \<Longrightarrow> cs \<noteq> [] \<Longrightarrow> split_on slash (render True cs) = [] # cs"
  using no_slash_canonical [of True cs] split_join [of cs slash] by (simp add: render_def)

lemma render_last:
  assumes "canonical True cs" "cs \<noteq> []"
  shows "last (render True cs) \<noteq> slash"
proof -
  obtain xs x where cs: "cs = xs @ [x]" using assms(2) by (meson rev_exhaust)
  have x: "x \<noteq> []" "slash \<notin> set x"
    using canonical_nonempty [OF assms(1), of x] no_slash_canonical [OF assms(1), of x] by (simp_all add: cs)
  have "last (render True cs) = last x"
    using x(1) by (cases "xs = []") (simp_all add: cs render_def join_append)
  then show ?thesis using x last_in_set [of x] by metis
qed

lemma within_one:
  assumes "canonical True cs" "path_clean a = a"
  shows "(render True cs = a \<or> has_prefix (directory_prefix a) (render True cs)) \<longleftrightarrow> is_abs a \<and> prefix (components a) cs"
proof (cases "is_abs a")
  case False
  have "a \<noteq> []" using assms(2) canonical_components [of a] by (metis path_clean_def render_nonempty)
  then have "\<not> is_abs (directory_prefix a @ t)" for t
    using False by (simp add: directory_prefix_def is_abs_append)
  moreover have "is_abs (render True cs)" using assms(1) by simp
  ultimately show ?thesis using False by (metis has_prefix_iff)
next
  case True
  define rs where "rs = components a"
  have rs: "canonical True rs" using canonical_components [of a] True by (simp add: rs_def)
  have a: "a = render True rs" using assms(2) True by (simp add: path_clean_def rs_def)
  show ?thesis
  proof (cases "rs = []")
    case root: True
    then have "directory_prefix a = [slash]" by (simp add: a directory_prefix_def render_def)
    moreover have "has_prefix [slash] (render True cs)" using assms(1) by (simp add: is_abs_def [symmetric])
    ultimately show ?thesis using True root by (simp add: rs_def)
  next
    case nonroot: False
    have d: "directory_prefix a = render True rs @ [slash]"
      using render_last [OF rs nonroot] by (simp add: a directory_prefix_def)
    have "has_prefix (directory_prefix a) (render True cs) \<longleftrightarrow> strict_prefix rs cs"
    proof
      assume "has_prefix (directory_prefix a) (render True cs)"
      then obtain t where t: "render True cs = render True rs @ slash # t" by (auto simp: d has_prefix_iff)
      have "cs \<noteq> []"
      proof
        assume "cs = []"
        then have "length (render True cs) = 1" by (simp add: render_def)
        then show False using rs by (simp add: t)
      qed
      then have "[] # cs = ([] # rs) @ split_on slash t"
        using split_render [OF assms(1)] split_render [OF rs nonroot] by (simp add: t split_on_middle)
      then show "strict_prefix rs cs" by (auto simp: strict_prefix_def)
    next
      assume "strict_prefix rs cs"
      then obtain e es where "cs = rs @ e # es" by (auto elim: strict_prefixE')
      then have "render True cs = (render True rs @ [slash]) @ join_with [slash] (e # es)"
        using nonroot by (simp add: render_def join_append)
      then show "has_prefix (directory_prefix a) (render True cs)" unfolding d has_prefix_iff by blast
    qed
    moreover have "render True cs = a \<longleftrightarrow> cs = rs" using components_render [OF rs] components_render [OF assms(1)] a by metis
    ultimately show ?thesis using True by (auto simp: rs_def [symmetric] prefix_order.le_less)
  qed
qed

definition root_of :: "bytes \<Rightarrow> bytes list" where
  "root_of d = components (normalizePath (path_clean d))"

lemma normalize_clean: "path_clean (normalizePath p) = normalizePath p"
  by (simp add: normalizePath_def)

lemma normalize_abs: "is_abs p \<Longrightarrow> normalizePath (path_clean p) = render True (trimmed (components p))"
  using normalize_render [of "components p"] canonical_components [of p] by (simp add: path_clean_def)

lemma within_elements:
  assumes "is_abs p"
  shows "IsPathWithinAllowedDirectories p dirs \<longleftrightarrow> \<not> has_nul p
    \<and> (\<exists>d \<in> set dirs. is_abs (normalizePath (path_clean d)) \<and> prefix (root_of d) (trimmed (components p)))"
proof -
  have t: "canonical True (trimmed (components p))"
    using trimmed_canonical canonical_components [of p] assms by simp
  have "p \<noteq> []" using assms by (auto simp: is_abs_def has_prefix_def)
  moreover have "(let n = normalizePath (path_clean p); a = normalizePath (path_clean d) in
      n = a \<or> has_prefix (directory_prefix a) n) \<longleftrightarrow>
      is_abs (normalizePath (path_clean d)) \<and> prefix (root_of d) (trimmed (components p))" for d
    unfolding Let_def normalize_abs [OF assms] root_of_def
    by (rule within_one [OF t normalize_clean])
  ultimately show ?thesis using assms
    by (auto simp: IsPathWithinAllowedDirectories_def list_ex_iff)
qed

subsection \<open>Confinement\<close>

text \<open>Below a root: its elements come first, or the last of them is what trimming an element leaves.\<close>

definition below_root :: "bytes list \<Rightarrow> bytes list \<Rightarrow> bool" where
  "below_root root cs \<longleftrightarrow> prefix root cs
     \<or> (\<exists>ys y zs. cs = ys @ y # zs \<and> trim_end y \<noteq> y \<and> root = ys @ [trim_end y])"

lemma below_root_prefix: "prefix us cs \<Longrightarrow> below_root root us \<Longrightarrow> below_root root cs"
  unfolding below_root_def by (auto elim!: prefixE)

lemma trimmed_cases:
  assumes "list_all plain cs"
  shows "prefix (trimmed cs) cs \<or> (\<exists>xs x. cs = xs @ [x] \<and> trim_end x \<noteq> x \<and> trimmed cs = xs @ [trim_end x])"
proof (cases cs rule: rev_cases)
  case (snoc xs x)
  have "trimmed cs = xs \<or> trimmed cs = butlast xs \<or> trimmed cs = xs @ [trim_end x]"
    unfolding snoc trimmed_def clean_push_def by simp
  then consider "trimmed cs = xs" | "trimmed cs = butlast xs" | "trimmed cs = xs @ [trim_end x]" by blast
  then show ?thesis
  proof cases
    case 2
    have "prefix (butlast xs) xs" by (rule prefixeq_butlast)
    then show ?thesis using 2 by (simp add: snoc prefix_prefix)
  qed (auto simp: snoc)
qed (simp add: trimmed_def)

lemma below_trimmed:
  assumes "list_all plain cs" "below_root root (trimmed cs)"
  shows "below_root root cs"
  using trimmed_cases [OF assms(1)]
proof
  assume "prefix (trimmed cs) cs"
  then show ?thesis using below_root_prefix assms(2) by blast
next
  assume "\<exists>xs x. cs = xs @ [x] \<and> trim_end x \<noteq> x \<and> trimmed cs = xs @ [trim_end x]"
  then obtain xs x where x: "cs = xs @ [x]" "trim_end x \<noteq> x" "trimmed cs = xs @ [trim_end x]" by blast
  from assms(2) consider "prefix root (xs @ [trim_end x])"
    | ys y zs where "xs @ [trim_end x] = ys @ y # zs" "trim_end y \<noteq> y" "root = ys @ [trim_end y]"
    unfolding below_root_def x(3) by blast
  then show ?thesis
  proof cases
    case 1
    then consider "prefix root xs" | "root = xs @ [trim_end x]" by auto
    then show ?thesis
    proof cases
      case 1
      then show ?thesis by (simp add: below_root_def x(1) prefix_prefix)
    next
      case 2
      then show ?thesis using x by (auto simp: below_root_def)
    qed
  next
    case 2
    have "zs \<noteq> []" using 2(1,2) by auto
    then obtain zs' where "xs = ys @ y # zs'" using 2(1)
      by (metis append_butlast_last_id append_eq_append_conv2 butlast.simps(2) butlast_append butlast_snoc list.distinct(1))
    then show ?thesis using 2 x by (auto simp: below_root_def)
  qed
qed

lemma within_below:
  assumes "is_abs p" "IsPathWithinAllowedDirectories (normalizePath p) dirs" "path_clean p = p"
  shows "\<exists>d \<in> set dirs. below_root (root_of d) (components p)"
proof -
  have c: "canonical True (components p)" "list_all plain (components p)"
    using canonical_components [of p] assms(1) by (simp_all add: canonical_rooted)
  have n: "normalizePath p = render True (trimmed (components p))" using normalize_abs [OF assms(1)] assms(3) by simp
  have t: "canonical True (trimmed (components p))" using trimmed_canonical [OF c(1)] .
  then have tp: "list_all plain (trimmed (components p))" by (simp add: canonical_rooted)
  obtain d where d: "d \<in> set dirs" "prefix (root_of d) (trimmed (trimmed (components p)))"
    using assms(2) within_elements [of "normalizePath p" dirs] t unfolding n by auto
  then have "below_root (root_of d) (trimmed (trimmed (components p)))" by (simp add: below_root_def)
  then show ?thesis using below_trimmed [OF c(2) below_trimmed [OF tp]] d(1) by blast
qed

subsection \<open>Resolving\<close>

text \<open>Links are resolved to absolute paths, as \<^verbatim>\<open>filepath.EvalSymlinks\<close> does for an absolute path.\<close>

definition resolves_absolute :: "path_fs \<Rightarrow> bool" where
  "resolves_absolute fs \<longleftrightarrow> (\<forall>q r. is_abs q \<and> (evalPath fs q = Inr r \<or> evalAgain fs q = Inr r) \<longrightarrow> is_abs r)"

lemma resolves_absoluteD:
  "resolves_absolute fs \<Longrightarrow> is_abs q \<Longrightarrow> evalPath fs q = Inr r \<or> evalAgain fs q = Inr r \<Longrightarrow> is_abs r"
  by (auto simp: resolves_absolute_def)

text \<open>Joining plain elements to an absolute path appends them.\<close>

lemma project_elements:
  assumes "is_abs r" "list_all plain es"
  shows "projectResolved r (rev es) = (render True (components r @ es), es = [])"
proof -
  have "foldl path_join (render True cs) es = render True (cs @ es)" if "canonical True cs" for cs
    using that assms(2)
  proof (induction es arbitrary: cs)
    case (Cons e es)
    then have "canonical True (cs @ [e])" by (simp add: canonical_rooted)
    then show ?case using Cons by (simp add: join_render)
  qed simp
  from this [of "components r"] show ?thesis
    using canonical_components [of r] assms
    by (simp add: projectResolved_def abs_render) (simp add: canonical_rooted)
qed

text \<open>Nothing is there: the directory entry is absent, or it was there, could not be resolved for a second time,
  and is absent now. An entry that is there to the end, a link that leads nowhere, is not absent.\<close>

definition entry_absent :: "path_fs \<Rightarrow> bytes \<Rightarrow> bool" where
  "entry_absent fs p \<longleftrightarrow> lstatOf fs p = Some NotExist
     \<or> lstatOf fs p = None \<and> evalAgain fs p = Inl NotExist \<and> lstatAgain fs p = Some NotExist"

lemma missingEntry_Inr:
  "missingEntry fs p missing = Some (Inr a) \<Longrightarrow> \<exists>r. lstatOf fs p = None \<and> evalAgain fs p = Inr r \<and> a = projectResolved r missing"
  by (auto simp: missingEntry_def split: option.splits sum.splits if_splits)

lemma missingEntry_None: "missingEntry fs p missing = None \<longleftrightarrow> entry_absent fs p"
  by (auto simp: missingEntry_def entry_absent_def split: option.splits sum.splits)

text \<open>The path with the first \<open>j\<close> elements is the nearest one that resolves, and every longer one is absent.\<close>

definition resolves_at :: "path_fs \<Rightarrow> bytes list \<Rightarrow> nat \<Rightarrow> nat \<Rightarrow> bytes \<Rightarrow> bool" where
  "resolves_at fs cs k j r \<longleftrightarrow> j \<le> k
     \<and> (evalPath fs (render True (take j cs)) = Inr r
        \<or> evalPath fs (render True (take j cs)) = Inl NotExist \<and> lstatOf fs (render True (take j cs)) = None
           \<and> evalAgain fs (render True (take j cs)) = Inr r)
     \<and> (\<forall>i. j < i \<and> i \<le> k \<longrightarrow>
          evalPath fs (render True (take i cs)) = Inl NotExist \<and> entry_absent fs (render True (take i cs)))"

lemma resolveLoop_nearest:
  assumes "canonical True cs" "k \<le> length cs"
    "resolveLoop fs (render True (take k cs)) (rev (drop k cs)) = Inr a"
  shows "\<exists>j r. resolves_at fs cs k j r \<and> a = projectResolved r (rev (drop j cs))"
  using assms(2,3)
proof (induction k)
  case 0
  have "path_dir (render True []) = render True []" using dir_render [of True "[]"] by simp
  then have "\<exists>r. (evalPath fs (render True []) = Inr r \<or> evalPath fs (render True []) = Inl NotExist
        \<and> lstatOf fs (render True []) = None \<and> evalAgain fs (render True []) = Inr r)
      \<and> a = projectResolved r (rev cs)"
    using 0 missingEntry_Inr [of fs "render True []" "rev cs" a]
    by (subst (asm) resolveLoop.simps) (auto split: sum.splits if_splits option.splits)
  then show ?case by (auto simp: resolves_at_def)
next
  case (Suc k)
  let ?p = "render True (take (Suc k) cs)"
  have t: "take (Suc k) cs = take k cs @ [cs ! k]" "drop k cs = cs ! k # drop (Suc k) cs"
    using Suc.prems(1) by (simp_all add: take_Suc_conv_app_nth Cons_nth_drop_Suc)
  have c: "canonical True (take (Suc k) cs)"
    using assms(1) by (auto simp: canonical_rooted list_all_iff dest: in_set_takeD)
  have d: "path_dir ?p = render True (take k cs)" using dir_render [OF c] by (simp add: t(1))
  have b: "path_base ?p = cs ! k" using base_render [OF c] by (simp add: t(1))
  have ne: "path_dir ?p \<noteq> ?p" unfolding d using c canonical_append [of True "take k cs" "cs ! k"]
    by (metis components_render t(1) append_self_conv list.distinct(1))
  consider (here) r where "evalPath fs ?p = Inr r" "a = projectResolved r (rev (drop (Suc k) cs))"
    | (again) r where "evalPath fs ?p = Inl NotExist" "lstatOf fs ?p = None" "evalAgain fs ?p = Inr r" "a = projectResolved r (rev (drop (Suc k) cs))"
    | (up) "evalPath fs ?p = Inl NotExist" "entry_absent fs ?p" "resolveLoop fs (render True (take k cs)) (rev (drop k cs)) = Inr a"
    using Suc.prems(2) missingEntry_Inr [of fs ?p "rev (drop (Suc k) cs)" a] missingEntry_None [of fs ?p "rev (drop (Suc k) cs)"] ne
    by (subst (asm) resolveLoop.simps) (auto simp: d b t(2) split: sum.splits if_splits option.splits)
  then show ?case
  proof cases
    case here
    then show ?thesis by (intro exI [of _ "Suc k"] exI [of _ r]) (auto simp: resolves_at_def)
  next
    case again
    then show ?thesis by (intro exI [of _ "Suc k"] exI [of _ r]) (auto simp: resolves_at_def)
  next
    case up
    then obtain j r where j: "resolves_at fs cs k j r" "a = projectResolved r (rev (drop j cs))"
      using Suc.IH Suc.prems(1) by auto
    have "resolves_at fs cs (Suc k) j r" using j(1) up(1,2) by (auto simp: resolves_at_def le_Suc_eq)
    then show ?thesis using j(2) by blast
  qed
qed

lemma resolve_nearest_abs:
  assumes "is_abs p" "resolvePathAllowMissing fs p = Inr (resolved, existing)"
    "resolves_absolute fs"
  shows "\<exists>j r. resolves_at fs (components p) (length (components p)) j r
    \<and> resolved = render True (components r @ drop j (components p)) \<and> existing = (j = length (components p))"
proof -
  let ?cs = "components p"
  have c: "canonical True ?cs" using canonical_components [of p] assms(1) by simp
  have "resolveLoop fs (render True (take (length ?cs) ?cs)) (rev (drop (length ?cs) ?cs)) = Inr (resolved, existing)"
    using assms(1,2) by (simp add: resolvePathAllowMissing_def abs_render)
  then obtain j r where j: "resolves_at fs ?cs (length ?cs) j r"
    "(resolved, existing) = projectResolved r (rev (drop j ?cs))"
    using resolveLoop_nearest [OF c le_refl] by blast
  have "canonical True (take j ?cs)" using c by (auto simp: canonical_rooted list_all_iff dest: in_set_takeD)
  then have "is_abs r" using resolves_absoluteD [OF assms(3), of "render True (take j ?cs)" r] j(1) by (auto simp: resolves_at_def)
  moreover have "list_all plain (drop j ?cs)" using c by (auto simp: canonical_rooted list_all_iff dest: in_set_dropD)
  ultimately have "(resolved, existing) = (render True (components r @ drop j ?cs), drop j ?cs = [])"
    using j(2) project_elements by simp
  then show ?thesis using j(1) by (intro exI [of _ j] exI [of _ r]) (auto simp: resolves_at_def)
qed

subsection \<open>Properties\<close>

text \<open>C2: an absolute path is accepted as being within the allowed directories exactly when the elements of
  one of them, normalized, begin the elements of the normalized path: the test with string prefixes never
  takes a sibling whose name merely continues that of a directory.\<close>

theorem path_containment:
  "IsPathWithinAllowedDirectories p dirs \<longleftrightarrow>
     is_abs p \<and> \<not> has_nul p
     \<and> (\<exists>d \<in> set dirs. is_abs (normalizePath (path_clean d))
          \<and> prefix (components (normalizePath (path_clean d))) (components (normalizePath (path_clean p))))"
proof (cases "is_abs p")
  case True
  have "canonical True (trimmed (components p))" using trimmed_canonical canonical_components [of p] True by simp
  then have "components (normalizePath (path_clean p)) = trimmed (components p)"
    unfolding normalize_abs [OF True] by simp
  then show ?thesis using within_elements [OF True] True by (simp add: root_of_def)
qed (simp add: IsPathWithinAllowedDirectories_def)

text \<open>C3: a path whose nearest resolving ancestor is found is projected onto it: the result is the resolved
  ancestor with the missing elements behind it, nothing longer resolves, every longer path has no directory
  entry, and the path is reported as existing exactly when no element is missing. So a link that is there
  but does not resolve is never taken for a missing one. The walk to the parents always ends.\<close>

theorem resolve_projects_missing:
  assumes "is_abs p" "resolvePathAllowMissing fs p = Inr (resolved, existing)"
    "resolves_absolute fs"
  shows "\<exists>j r. resolves_at fs (components p) (length (components p)) j r
    \<and> resolved = render True (components r @ drop j (components p)) \<and> existing = (j = length (components p))"
  by (rule resolve_nearest_abs [OF assms])

lemma resolved_form:
  assumes "is_abs p" "resolvePathAllowMissing fs p = Inr (resolved, existing)"
    "resolves_absolute fs"
  shows "\<exists>r es. is_abs r \<and> list_all plain es \<and> resolved = render True (components r @ es)"
proof -
  obtain j r where j: "resolves_at fs (components p) (length (components p)) j r"
    "resolved = render True (components r @ drop j (components p))"
    using resolve_nearest_abs [OF assms] by blast
  have c: "list_all plain (components p)" by (rule abs_components [OF assms(1)])
  then have "canonical True (take j (components p))" by (auto simp: canonical_rooted list_all_iff dest: in_set_takeD)
  then have "is_abs r" using resolves_absoluteD [OF assms(3), of "render True (take j (components p))" r] j(1) by (auto simp: resolves_at_def)
  moreover have "list_all plain (drop j (components p))" using c by (auto simp: list_all_iff dest: in_set_dropD)
  ultimately show ?thesis using j(2) by blast
qed

lemma validated_parts:
  assumes "ValidatePathWithAllowedDirectories fs requested dirs resolvedDirs = Inr v"
  obtains absolute resolved existing where "absolutePathOf fs (ExpandHome fs requested) = Some absolute"
    "resolvePathAllowMissing fs absolute = Inr (resolved, existing)" "v = (if existing then resolved else absolute)"
    "IsPathWithinAllowedDirectories (normalizePath absolute) dirs"
    "IsPathWithinAllowedDirectories (normalizePath resolved) resolvedDirs"
proof -
  note d = assms [unfolded ValidatePathWithAllowedDirectories_def]
  obtain absolute where a: "absolutePathOf fs (ExpandHome fs requested) = Some absolute"
    using d by (cases "absolutePathOf fs (ExpandHome fs requested)") (simp_all split: if_splits)
  have w: "IsPathWithinAllowedDirectories (normalizePath absolute) dirs" using d a by (simp split: if_splits)
  obtain resolved existing where r: "resolvePathAllowMissing fs absolute = Inr (resolved, existing)"
    using d a w by (cases "resolvePathAllowMissing fs absolute") (auto split: if_splits)
  have "IsPathWithinAllowedDirectories (normalizePath resolved) resolvedDirs \<and> v = (if existing then resolved else absolute)"
    using d a w r by (simp split: if_splits)
  then show ?thesis using that [OF a r _ w] by blast
qed

lemma components_absolute: "is_abs r \<Longrightarrow> list_all plain es \<Longrightarrow>
    is_abs (render True (components r @ es)) \<and> path_clean (render True (components r @ es)) = render True (components r @ es)"
  using abs_components [of r] by (simp add: canonical_rooted)

text \<open>C1: what validation answers is confined: the requested path, made absolute, lies below one of the
  requested roots and what it resolves to below one of the resolved roots, element by element, except that
  one element on the way may differ from the last one of the root by quotes and white space at its end.
  The answer is the resolved path when it exists and the absolute path otherwise.\<close>

theorem validated_path_confined:
  assumes "ValidatePathWithAllowedDirectories fs requested dirs resolvedDirs = Inr v"
    "resolves_absolute fs"
    "\<And>wd. workDir fs = Some wd \<Longrightarrow> is_abs wd"
  shows "\<exists>absolute resolved existing. absolutePathOf fs (ExpandHome fs requested) = Some absolute
    \<and> resolvePathAllowMissing fs absolute = Inr (resolved, existing) \<and> v = (if existing then resolved else absolute)
    \<and> (\<exists>d \<in> set dirs. below_root (root_of d) (components absolute))
    \<and> (\<exists>d \<in> set resolvedDirs. below_root (root_of d) (components resolved))"
proof -
  obtain absolute resolved existing where v: "absolutePathOf fs (ExpandHome fs requested) = Some absolute"
    "resolvePathAllowMissing fs absolute = Inr (resolved, existing)" "v = (if existing then resolved else absolute)"
    "IsPathWithinAllowedDirectories (normalizePath absolute) dirs"
    "IsPathWithinAllowedDirectories (normalizePath resolved) resolvedDirs"
    by (rule validated_parts [OF assms(1)])
  have a: "is_abs absolute \<and> path_clean absolute = absolute"
  proof (cases "is_abs (ExpandHome fs requested)")
    case True
    then show ?thesis using v(1) by (auto simp: absolutePathOf_def)
  next
    case False
    then obtain wd where wd: "workDir fs = Some wd" "absolute = path_clean (path_join wd (ExpandHome fs requested))"
      using v(1) by (auto simp: absolutePathOf_def)
    have "is_abs wd" by (rule assms(3) [OF wd(1)])
    then have "is_abs (path_join wd (ExpandHome fs requested))"
      by (auto simp: path_join_def is_abs_append) (simp add: is_abs_def has_prefix_def)
    then show ?thesis by (simp add: wd(2))
  qed
  obtain r es where r: "is_abs r" "list_all plain es" "resolved = render True (components r @ es)"
    using resolved_form [OF _ v(2) assms(2)] a by blast
  have "is_abs resolved \<and> path_clean resolved = resolved" unfolding r(3) by (rule components_absolute [OF r(1,2)])
  then show ?thesis using v a within_below by blast
qed

lemma below_root_exact:
  "below_root root cs \<Longrightarrow> list_all (\<lambda>c. trim_end c = c) cs \<Longrightarrow> prefix root cs"
  by (auto simp: below_root_def)

text \<open>The exception is real: with \<^verbatim>\<open>/w\<close> as the only root the sibling directory \<^verbatim>\<open>/w'\<close> is answered as valid, and so is an
  entry inside it whose name is a space, because normalizing, which is done twice, removes quotes and white
  space at the end before the elements are compared, and the answer is the path that was not normalized.\<close>

definition linkFree :: path_fs where
  "linkFree = \<lparr>evalPath = Inr, evalAgain = Inr, lstatOf = (\<lambda>p. None), lstatAgain = (\<lambda>p. None), statDir = (\<lambda>p. Inr True),
     homeDir = None, workDir = None\<rparr>"

lemma sibling_accepted:
  "ValidatePathWithAllowedDirectories linkFree (str ''/w'' @ [0x27]) [str ''/w''] [str ''/w''] = Inr (str ''/w'' @ [0x27])
   \<and> ValidatePathWithAllowedDirectories linkFree (str ''/w'' @ [0x27] @ str ''/ '') [str ''/w''] [str ''/w'']
     = Inr (str ''/w'' @ [0x27] @ str ''/ '')"
  by code_simp

definition onlyRoot :: path_fs where
  "onlyRoot = linkFree\<lparr>evalPath := (\<lambda>p. if p = str ''/w'' then Inr (str ''/d/w'') else Inl NotExist),
     lstatOf := (\<lambda>p. Some NotExist)\<rparr>"

lemma onlyRoot_absolute: "resolves_absolute onlyRoot"
proof -
  have "is_abs (str ''/d/w'')" by code_simp
  then show ?thesis by (auto simp: resolves_absolute_def onlyRoot_def linkFree_def split: if_splits)
qed

lemma resolve_projects_missing_witness:
  "\<exists>j r. resolves_at onlyRoot [str ''w'', str ''a'', str ''b''] 3 j r \<and> str ''/d/w/a/b'' = render True (components r @ drop j [str ''w'', str ''a'', str ''b''])"
proof -
  have 1: "is_abs (str ''/w/a/b'')" by code_simp
  have 2: "resolvePathAllowMissing onlyRoot (str ''/w/a/b'') = Inr (str ''/d/w/a/b'', False)" by code_simp
  have 3: "components (str ''/w/a/b'') = [str ''w'', str ''a'', str ''b'']" by code_simp
  show ?thesis using resolve_projects_missing [OF 1 2 onlyRoot_absolute] unfolding 3
    by (simp add: eval_nat_numeral) blast
qed

lemma validated_path_confined_witness:
  "below_root (root_of (str ''/d/w'')) (components (str ''/d/w/a''))"
proof -
  have 1: "ValidatePathWithAllowedDirectories onlyRoot (str ''/w/a'') [str ''/w''] [str ''/d/w''] = Inr (str ''/w/a'')" by code_simp
  have 2: "absolutePathOf onlyRoot (ExpandHome onlyRoot (str ''/w/a'')) = Some (str ''/w/a'')" by code_simp
  have 3: "resolvePathAllowMissing onlyRoot (str ''/w/a'') = Inr (str ''/d/w/a'', False)" by code_simp
  have 4: "workDir onlyRoot = None" by (simp add: onlyRoot_def linkFree_def)
  show ?thesis using validated_path_confined [OF 1 onlyRoot_absolute] by (auto simp: 2 3 4 split: if_splits)
qed

end
