(* ===== verification/Text_Lines.thy ===== *)
theory Text_Lines
  imports Go_Strings
begin

text \<open>
  \<^verbatim>\<open>ScanLines\<close> of \<^verbatim>\<open>internal/textstream/lines.go\<close>: decoded text is cut into lines with a bound on each of
  them. The reader delivers the text and then ends, or fails with an error of its own; the context is not
  cancelled. The visitor is a function of the lines it has accepted and the next one, and may refuse it.
\<close>

record text_line =
  lineNumber :: nat
  lineData :: bytes
  lineEnding :: bytes

datatype 'e scan_error = LineTooLong nat | VisitError 'e | ReadError 'e

definition DefaultMaxLineBytes :: int where "DefaultMaxLineBytes = 16 * 1024 * 1024"

text \<open>\<^verbatim>\<open>ReadSlice('\n')\<close> of a buffered reader with \<open>size\<close> bytes: through the next newline if the buffer holds it,
  else the full buffer, else what is left.\<close>

datatype slice_status = SliceLine | SliceFull | SliceEOF

definition read_slice :: "nat \<Rightarrow> bytes \<Rightarrow> bytes \<times> slice_status \<times> bytes" where
  "read_slice size' s =
     (let head = takeWhile (\<lambda>b. b \<noteq> newline) (take size' s) in
      if length head < length (take size' s) then (head @ [newline], SliceLine, drop (length head + 1) s)
      else if size' \<le> length s then (take size' s, SliceFull, drop size' s)
      else (s, SliceEOF, []))"

definition split_ending :: "bytes \<Rightarrow> bytes \<times> bytes" where
  "split_ending raw =
     (if raw \<noteq> [] \<and> last raw = newline then
        (let d = butlast raw in
         if d \<noteq> [] \<and> last d = 0x0D then (butlast d, [0x0D, newline]) else (d, [newline]))
      else (raw, []))"

definition emit_line ::
  "nat \<Rightarrow> (text_line list \<Rightarrow> text_line \<Rightarrow> 'e option) \<Rightarrow> text_line list \<Rightarrow> bytes \<Rightarrow> 'e scan_error + text_line list" where
  "emit_line limit visit emitted raw =
     (let (data, ending) = split_ending raw;
          line = \<lparr>lineNumber = length emitted + 1, lineData = data, lineEnding = ending\<rparr> in
      if length data > limit then Inl (LineTooLong (length emitted + 1))
      else (case visit emitted line of
          Some e \<Rightarrow> Inl (VisitError e)
        | None \<Rightarrow> Inr (emitted @ [line])))"

definition endedWithNewline :: "text_line list \<Rightarrow> bool" where
  "endedWithNewline emitted \<longleftrightarrow> emitted \<noteq> [] \<and> lineEnding (last emitted) \<noteq> []"

lemma read_slice_shorter:
  "read_slice size' s = (fragment, status, rest) \<Longrightarrow> status \<noteq> SliceEOF \<Longrightarrow> 0 < size' \<Longrightarrow> length rest < length s"
  by (auto simp: read_slice_def Let_def split: if_splits)

text \<open>The loop; \<open>lineBuffer\<close> is the part of the line read so far, \<open>readErr\<close> what the reader says after the text,
  \<open>None\<close> at its end. The size of the buffer is one more than the argument.\<close>

function scanLoop ::
  "nat \<Rightarrow> nat \<Rightarrow> (text_line list \<Rightarrow> text_line \<Rightarrow> 'e option) \<Rightarrow> 'e option \<Rightarrow> text_line list \<Rightarrow> bytes \<Rightarrow> bytes
    \<Rightarrow> text_line list \<times> 'e scan_error option"
where
  "scanLoop size' limit visit readErr emitted lineBuffer s =
     (case read_slice (Suc size') s of (fragment, status, rest) \<Rightarrow>
       (let buffer = lineBuffer @ fragment in
        if fragment \<noteq> [] \<and> length buffer > limit + 2 then (emitted, Some (LineTooLong (length emitted + 1)))
        else if status = SliceLine then
          (case emit_line limit visit emitted buffer of
             Inl e \<Rightarrow> (emitted, Some e)
           | Inr emitted' \<Rightarrow> scanLoop size' limit visit readErr emitted' [] rest)
        else if status = SliceFull then scanLoop size' limit visit readErr emitted buffer rest
        else if readErr \<noteq> None then (emitted, Some (ReadError (the readErr)))
        else if buffer \<noteq> [] \<or> emitted = [] \<or> endedWithNewline emitted then
          (case emit_line limit visit emitted buffer of
             Inl e \<Rightarrow> (emitted, Some e)
           | Inr emitted' \<Rightarrow> (emitted', None))
        else (emitted, None)))"
  by pat_completeness auto
termination
  by (relation "measure (\<lambda>(size', limit, visit, readErr, emitted, buffer, s). length s)")
    (auto dest!: read_slice_shorter [OF sym] simp del: length_greater_0_conv)

declare scanLoop.simps [simp del]

definition lineReadBufferSize :: nat where "lineReadBufferSize = 65536"

definition ScanLines ::
  "(text_line list \<Rightarrow> text_line \<Rightarrow> 'e option) \<Rightarrow> int \<Rightarrow> bytes \<Rightarrow> 'e option \<Rightarrow> text_line list \<times> 'e scan_error option"
where
  "ScanLines visit maxLineBytes s readErr =
     (let limit = (if maxLineBytes \<le> 0 then DefaultMaxLineBytes else maxLineBytes) in
      scanLoop (lineReadBufferSize - 1) (nat limit) visit readErr [] [] s)"

subsection \<open>The lines of a text\<close>

fun raw_lines :: "bytes list \<Rightarrow> bytes list" where
  "raw_lines [] = []"
| "raw_lines [l] = [l]"
| "raw_lines (l # m # ls) = (l @ [newline]) # raw_lines (m # ls)"

fun visit_lines ::
  "nat \<Rightarrow> (text_line list \<Rightarrow> text_line \<Rightarrow> 'e option) \<Rightarrow> 'e option \<Rightarrow> text_line list \<Rightarrow> bytes list
    \<Rightarrow> text_line list \<times> 'e scan_error option"
where
  "visit_lines limit visit readErr emitted [] = (emitted, None)"
| "visit_lines limit visit readErr emitted (raw # raws) =
     (if raws = [] \<and> readErr \<noteq> None
      then (emitted, Some (if limit + 2 < length raw then LineTooLong (length emitted + 1) else ReadError (the readErr)))
      else (case emit_line limit visit emitted raw of
          Inl e \<Rightarrow> (emitted, Some e)
        | Inr emitted' \<Rightarrow> visit_lines limit visit readErr emitted' raws))"

lemma read_slice_cases:
  assumes "read_slice (Suc n) s = (fragment, status, rest)"
  obtains (line) l where "status = SliceLine" "newline \<notin> set l" "fragment = l @ [newline]" "s = l @ newline # rest"
    | (full) "status = SliceFull" "newline \<notin> set fragment" "fragment \<noteq> []" "s = fragment @ rest"
    | (eof) "status = SliceEOF" "newline \<notin> set s" "fragment = s" "rest = []"
proof -
  let ?t = "take (Suc n) s"
  let ?h = "takeWhile (\<lambda>b. b \<noteq> newline) ?t"
  have h: "newline \<notin> set ?h" by (auto dest: set_takeWhileD)
  show ?thesis
  proof (cases "length ?h < length ?t")
    case True
    have x: "?t ! length ?h = newline" using nth_length_takeWhile [OF True] by simp
    have "?t = take (length ?h) ?t @ ?t ! length ?h # drop (Suc (length ?h)) ?t" using id_take_nth_drop [OF True] .
    then have t: "?t = ?h @ newline # drop (Suc (length ?h)) ?t"
      unfolding x takeWhile_eq_take [of "\<lambda>b. b \<noteq> newline" ?t, symmetric] .
    obtain r where r: "?t = ?h @ newline # r" using t by blast
    have "s = ?t @ drop (Suc n) s" by simp
    then have s: "s = ?h @ newline # r @ drop (Suc n) s" by (subst (asm) r) simp
    have "drop (length ?h + 1) (?h @ newline # r @ drop (Suc n) s) = r @ drop (Suc n) s" by simp
    then have "drop (length ?h + 1) s = r @ drop (Suc n) s" using s by metis
    then show ?thesis using line [of ?h] assms True h s by (auto simp: read_slice_def Let_def)
  next
    case False
    then have "?h = ?t" by (metis length_takeWhile_le linorder_neqE_nat not_less takeWhile_eq_take take_all)
    then have t: "newline \<notin> set ?t" using h by argo
    show ?thesis
    proof (cases "Suc n \<le> length s")
      case full': True
      then have "?t \<noteq> []" by (cases s) auto
      then show ?thesis using full full' assms False t by (auto simp: read_slice_def Let_def)
    next
      case short: False
      then show ?thesis using eof assms False t by (auto simp: read_slice_def Let_def)
    qed
  qed
qed

lemma emit_too_long: "limit + 2 < length raw \<Longrightarrow> emit_line limit visit emitted raw = Inl (LineTooLong (length emitted + 1))"
  by (auto simp: emit_line_def split_ending_def Let_def)

lemma emit_longer:
  assumes "limit + 2 < length l" "newline \<notin> set l"
  shows "emit_line limit visit emitted (l @ x) = Inl (LineTooLong (length emitted + 1))"
  using assms(1) by (intro emit_too_long) simp

text \<open>The raw lines of a text whose first line began with \<open>b\<close>.\<close>

lemma raw_lines_prefix:
  "newline \<notin> set b \<Longrightarrow> raw_lines (split_on newline (b @ s)) =
     (case raw_lines (split_on newline s) of [] \<Rightarrow> [] | r # rs \<Rightarrow> (b @ r) # rs)"
proof (induction b)
  case Nil
  show ?case by (cases "raw_lines (split_on newline s)") simp_all
next
  case (Cons x b)
  obtain l ls where l: "split_on newline (b @ s) = l # ls" using split_on_ne by (cases "split_on newline (b @ s)") auto
  show ?case using Cons l by (cases ls; cases "raw_lines (split_on newline s)") auto
qed

lemma raw_lines_ne: "ls \<noteq> [] \<Longrightarrow> raw_lines ls \<noteq> []"
  by (cases ls rule: raw_lines.cases) auto

lemma raw_lines_split_ne [simp]: "raw_lines (split_on c s) \<noteq> []"
  by (rule raw_lines_ne) simp

lemma raw_lines_line: "newline \<notin> set l \<Longrightarrow> raw_lines (split_on newline (l @ newline # s)) = (l @ [newline]) # raw_lines (split_on newline s)"
  by (cases "split_on newline s") (simp_all add: split_on_append)

lemma endedWithNewline_emit: "emit_line limit visit emitted (l @ [newline]) = Inr emitted' \<Longrightarrow> endedWithNewline emitted' \<and> emitted' \<noteq> []"
  by (auto simp: emit_line_def split_ending_def endedWithNewline_def Let_def split: if_splits option.splits prod.splits)

lemma visit_head_too_long:
  assumes "limit + 2 < length b" "newline \<notin> set b"
  shows "visit_lines limit visit readErr emitted (raw_lines (split_on newline (b @ s))) = (emitted, Some (LineTooLong (length emitted + 1)))"
proof -
  obtain r rs where r: "raw_lines (split_on newline s) = r # rs"
    using raw_lines_ne [of "split_on newline s"] by (cases "raw_lines (split_on newline s)") auto
  show ?thesis using assms(1) emit_longer [OF assms, of visit emitted r] by (simp add: raw_lines_prefix [OF assms(2)] r)
qed

lemma scanLoop_exact:
  "newline \<notin> set lineBuffer \<Longrightarrow> lineBuffer = [] \<longrightarrow> emitted = [] \<or> endedWithNewline emitted \<Longrightarrow> length lineBuffer \<le> limit + 2 \<Longrightarrow>
   scanLoop size' limit visit readErr emitted lineBuffer s =
     visit_lines limit visit readErr emitted (raw_lines (split_on newline (lineBuffer @ s)))"
proof (induction size' limit visit readErr emitted lineBuffer s rule: scanLoop.induct)
  case (1 size' limit visit readErr emitted lineBuffer s)
  obtain fragment status rest where r: "read_slice (Suc size') s = (fragment, status, rest)" by (cases "read_slice (Suc size') s") auto
  note IH = 1(1,2) [OF r [symmetric] refl refl]
  note step = scanLoop.simps [of size' limit visit readErr emitted lineBuffer s, unfolded r prod.case Let_def]
  from r show ?case
  proof (cases rule: read_slice_cases)
    case (line l)
    let ?b = "lineBuffer @ l"
    have b: "newline \<notin> set ?b" using line(2) "1.prems"(1) by simp
    have rhs: "visit_lines limit visit readErr emitted (raw_lines (split_on newline (lineBuffer @ s))) =
        visit_lines limit visit readErr emitted ((?b @ [newline]) # raw_lines (split_on newline rest))"
      using raw_lines_line [OF b, of rest] by (simp add: line(4))
    show ?thesis
    proof (cases "length (?b @ [newline]) > limit + 2")
      case True
      then show ?thesis unfolding step rhs using emit_too_long [OF True, of visit emitted] by (simp add: line(3))
    next
      case False
      show ?thesis
      proof (cases "emit_line limit visit emitted (?b @ [newline])")
        case (Inl e)
        then show ?thesis unfolding step rhs using False by (simp add: line(1,3))
      next
        case (Inr emitted')
        have "scanLoop size' limit visit readErr emitted' [] rest =
            visit_lines limit visit readErr emitted' (raw_lines (split_on newline ([] @ rest)))"
          using IH(1) [of emitted'] False Inr endedWithNewline_emit [OF Inr] by (simp add: line(1,3))
        then show ?thesis unfolding step rhs using False Inr by (simp add: line(1,3))
      qed
    qed
  next
    case full
    let ?b = "lineBuffer @ fragment"
    have b: "newline \<notin> set ?b" using full(2) "1.prems"(1) by simp
    show ?thesis
    proof (cases "length ?b > limit + 2")
      case True
      then show ?thesis unfolding step using visit_head_too_long [OF True b, of visit readErr emitted rest] full by simp
    next
      case False
      then have "scanLoop size' limit visit readErr emitted ?b rest =
          visit_lines limit visit readErr emitted (raw_lines (split_on newline (?b @ rest)))"
        using IH(2) full b by simp
      then show ?thesis unfolding step using False full by simp
    qed
  next
    case eof
    let ?b = "lineBuffer @ s"
    have b: "newline \<notin> set ?b" using eof(2) "1.prems"(1) by simp
    have rhs: "visit_lines limit visit readErr emitted (raw_lines (split_on newline ?b)) =
        (if readErr \<noteq> None
         then (emitted, Some (if limit + 2 < length ?b then LineTooLong (length emitted + 1) else ReadError (the readErr)))
         else (case emit_line limit visit emitted ?b of Inl e \<Rightarrow> (emitted, Some e) | Inr emitted' \<Rightarrow> (emitted', None)))"
      by (simp add: split_on_clean [OF b] split: sum.splits)
    show ?thesis
    proof (cases "s \<noteq> [] \<and> length ?b > limit + 2")
      case True
      then show ?thesis unfolding step rhs using emit_too_long [of limit ?b visit emitted] eof by simp
    next
      case False
      then show ?thesis unfolding step rhs using "1.prems"(2,3) eof by auto
    qed
  qed
qed

subsection \<open>Nothing is lost\<close>

definition line_text :: "text_line \<Rightarrow> bytes" where "line_text l = lineData l @ lineEnding l"

lemma concat_raw_lines: "concat (raw_lines ls) = join_with [newline] ls"
  by (induction ls rule: raw_lines.induct) simp_all

lemma split_ending_text: "split_ending raw = (d, e) \<Longrightarrow> d @ e = raw"
  by (cases raw rule: rev_cases; cases "butlast raw" rule: rev_cases) (auto simp: split_ending_def Let_def butlast_append split: if_splits)

lemma emit_line_text:
  assumes "emit_line limit visit emitted raw = Inr emitted'"
  obtains l where "emitted' = emitted @ [l]" "line_text l = raw" "lineNumber l = Suc (length emitted)"
    "length (lineData l) \<le> limit"
proof -
  obtain d e where "split_ending raw = (d, e)" by (cases "split_ending raw") auto
  then show ?thesis
    using assms split_ending_text [of raw d e] that [of "\<lparr>lineNumber = Suc (length emitted), lineData = d, lineEnding = e\<rparr>"]
    by (auto simp: emit_line_def line_text_def Let_def split: if_splits option.splits)
qed

lemma visit_lines_text:
  assumes "visit_lines limit visit readErr emitted raws = (lines, None)"
  shows "\<exists>new. lines = emitted @ new \<and> map line_text new = raws \<and>
    map lineNumber new = [Suc (length emitted)..<Suc (length lines)] \<and> (\<forall>l \<in> set new. length (lineData l) \<le> limit)"
  using assms
proof (induction raws arbitrary: emitted)
  case Nil
  then show ?case by simp
next
  case (Cons raw raws)
  obtain emitted' where e: "emit_line limit visit emitted raw = Inr emitted'"
      "visit_lines limit visit readErr emitted' raws = (lines, None)"
    using Cons.prems by (auto split: sum.splits if_splits)
  obtain l where l: "emitted' = emitted @ [l]" "line_text l = raw" "lineNumber l = Suc (length emitted)"
      "length (lineData l) \<le> limit"
    using e(1) by (rule emit_line_text)
  obtain new where new: "lines = emitted' @ new" "map line_text new = raws"
      "map lineNumber new = [Suc (length emitted')..<Suc (length lines)]" "\<forall>l \<in> set new. length (lineData l) \<le> limit"
    using Cons.IH [OF e(2)] by blast
  show ?case
    by (rule exI [of _ "l # new"]) (use l new in \<open>simp add: upt_conv_Cons del: upt_Suc\<close>)
qed

text \<open>A scan that ends without error has delivered every byte of the text, in lines numbered from one and within
  the limit.\<close>

lemma scan_lines_text:
  assumes "ScanLines visit maxLineBytes s readErr = (lines, None)"
  shows "concat (map line_text lines) = s \<and> map lineNumber lines = [1..<Suc (length lines)] \<and>
    (\<forall>l \<in> set lines. int (length (lineData l)) \<le> (if maxLineBytes \<le> 0 then DefaultMaxLineBytes else maxLineBytes))"
proof -
  let ?limit = "if maxLineBytes \<le> 0 then DefaultMaxLineBytes else maxLineBytes"
  have "visit_lines (nat ?limit) visit readErr [] (raw_lines (split_on newline s)) = (lines, None)"
    using assms unfolding ScanLines_def Let_def by (subst (asm) scanLoop_exact) simp_all
  moreover have "0 \<le> ?limit" by (simp add: DefaultMaxLineBytes_def)
  ultimately show ?thesis
    using visit_lines_text [of "nat ?limit" visit readErr "[]" "raw_lines (split_on newline s)" lines]
    by (auto simp: concat_raw_lines join_split le_nat_iff simp del: upt_Suc)
qed

subsection \<open>The cut of a text into lines\<close>

text \<open>
  A text cut into pairs of a line and its ending, said without the functions of the code: the pairs put
  together are the text, no line holds a newline, every line but the last ends in CRLF or in a newline
  with no carriage return in front of it, and the last has no ending.
\<close>

definition text_cut :: "bytes \<Rightarrow> (bytes \<times> bytes) list \<Rightarrow> bool" where
  "text_cut s ls \<longleftrightarrow> ls \<noteq> [] \<and> concat (map (\<lambda>(d, e). d @ e) ls) = s
     \<and> (\<forall>(d, e) \<in> set ls. newline \<notin> set d)
     \<and> (\<forall>(d, e) \<in> set (butlast ls). e = [0x0D, 0x0A] \<or> e = [0x0A] \<and> (d = [] \<or> last d \<noteq> 0x0D))
     \<and> snd (last ls) = []"

text \<open>The lines handed to the visitor one by one, up to the first that is too long or that it refuses; when the
  reader failed, the unfinished last line is only looked at for its length.\<close>

fun deliver ::
  "nat \<Rightarrow> (text_line list \<Rightarrow> text_line \<Rightarrow> 'e option) \<Rightarrow> 'e option \<Rightarrow> text_line list \<Rightarrow> (bytes \<times> bytes) list
    \<Rightarrow> text_line list \<times> 'e scan_error option"
where
  "deliver limit visit readErr emitted [] = (emitted, None)"
| "deliver limit visit readErr emitted ((d, e) # ls) =
     (if ls = [] \<and> readErr \<noteq> None
      then (emitted, Some (if length d > limit + 2 then LineTooLong (length emitted + 1) else ReadError (the readErr)))
      else if length d > limit then (emitted, Some (LineTooLong (length emitted + 1)))
      else (case visit emitted \<lparr>lineNumber = length emitted + 1, lineData = d, lineEnding = e\<rparr> of
          Some x \<Rightarrow> (emitted, Some (VisitError x))
        | None \<Rightarrow> deliver limit visit readErr
            (emitted @ [\<lparr>lineNumber = length emitted + 1, lineData = d, lineEnding = e\<rparr>]) ls))"

lemma text_cut_simps [simp]:
  "text_cut s [p] \<longleftrightarrow> p = (s, []) \<and> newline \<notin> set s"
  "text_cut s ((d, e) # p # ls) \<longleftrightarrow> newline \<notin> set d
     \<and> (e = [0x0D, 0x0A] \<or> e = [0x0A] \<and> (d = [] \<or> last d \<noteq> 0x0D))
     \<and> (\<exists>rest. s = d @ e @ rest \<and> text_cut rest (p # ls))"
  by (cases p; auto simp: text_cut_def)+

lemma split_ending_simps:
  "newline \<notin> set d \<Longrightarrow> split_ending d = (d, [])"
  "split_ending (d @ [0x0D, newline]) = (d, [0x0D, newline])"
  "d = [] \<or> last d \<noteq> 0x0D \<Longrightarrow> split_ending (d @ [newline]) = (d, [newline])"
proof -
  show "newline \<notin> set d \<Longrightarrow> split_ending d = (d, [])"
    using last_in_set [of d] unfolding split_ending_def by metis
  show "split_ending (d @ [0x0D, newline]) = (d, [0x0D, newline])"
    by (simp add: split_ending_def butlast_append)
qed (auto simp: split_ending_def)

lemma text_cut_unique: "text_cut s ls \<Longrightarrow> ls = map split_ending (raw_lines (split_on newline s))"
proof (induction ls arbitrary: s rule: induct_list012)
  case 1
  then show ?case by (simp add: text_cut_def)
next
  case (2 p)
  then show ?case by (simp add: split_on_clean split_ending_simps)
next
  case (3 p q ls)
  obtain d e where p: "p = (d, e)" by (cases p)
  from 3(3) obtain rest where d: "newline \<notin> set d" and rest: "s = d @ e @ rest" "text_cut rest (q # ls)"
    and e: "e = [0x0D, 0x0A] \<or> e = [0x0A] \<and> (d = [] \<or> last d \<noteq> 0x0D)" unfolding p text_cut_simps by blast
  note IH = 3(2) [OF rest(2)]
  from e show ?case
  proof
    assume e: "e = [0x0D, 0x0A]"
    have "newline \<notin> set (d @ [0x0D])" using d by simp
    from raw_lines_line [OF this, of rest] show ?thesis
      using IH split_ending_simps(2) [of d] by (simp add: p rest(1) e)
  next
    assume e: "e = [0x0A] \<and> (d = [] \<or> last d \<noteq> 0x0D)"
    from raw_lines_line [OF d, of rest] show ?thesis
      using IH split_ending_simps(3) [of d] e by (simp add: p rest(1))
  qed
qed

lemma split_ending_line:
  assumes "newline \<notin> set l" "split_ending (l @ [newline]) = (d, e)"
  shows "d @ e = l @ [newline] \<and> newline \<notin> set d \<and> (e = [0x0D, 0x0A] \<or> e = [0x0A] \<and> (d = [] \<or> last d \<noteq> 0x0D))"
  using assms by (cases l rule: rev_cases) (auto simp: split_ending_def butlast_append Let_def split: if_splits)

lemma text_cut_exists:
  "ls \<noteq> [] \<Longrightarrow> \<forall>l \<in> set ls. newline \<notin> set l \<Longrightarrow> text_cut (join_with [newline] ls) (map split_ending (raw_lines ls))"
proof (induction ls rule: raw_lines.induct)
  case (3 l m ls)
  obtain d e where de: "split_ending (l @ [newline]) = (d, e)" by (cases "split_ending (l @ [newline])")
  obtain q qs where q: "map split_ending (raw_lines (m # ls)) = q # qs"
    using raw_lines_ne [of "m # ls"] by (cases "map split_ending (raw_lines (m # ls))") auto
  have "text_cut (join_with [newline] (m # ls)) (q # qs)" using 3 unfolding q by simp
  then show ?case using split_ending_line [OF _ de] 3(3) q by (auto simp: de)
qed (simp_all add: split_ending_simps)

lemma visit_lines_deliver:
  "raws = [] \<or> newline \<notin> set (last raws) \<Longrightarrow>
   visit_lines limit visit readErr emitted raws = deliver limit visit readErr emitted (map split_ending raws)"
proof (induction raws arbitrary: emitted)
  case step: (Cons raw raws)
  obtain d e where de: "split_ending raw = (d, e)" by (cases "split_ending raw")
  show ?case
  proof (cases raws)
    case Nil
    then show ?thesis using step.prems split_ending_simps(1) [of raw] by (auto simp: emit_line_def split: option.splits)
  next
    case (Cons r rs)
    then show ?thesis using step de by (auto simp: emit_line_def split: option.splits)
  qed
qed simp

lemma raw_lines_last: "\<forall>l \<in> set ls. newline \<notin> set l \<Longrightarrow> ls \<noteq> [] \<Longrightarrow> newline \<notin> set (last (raw_lines ls))"
  by (induction ls rule: raw_lines.induct) (auto simp: raw_lines_ne)

lemma scanLoop_delivers:
  "scanLoop size' limit visit readErr [] [] s = deliver limit visit readErr [] (map split_ending (raw_lines (split_on newline s)))"
proof -
  have "newline \<notin> set (last (raw_lines (split_on newline s)))"
    using split_on_lines_clean [of _ newline s] by (intro raw_lines_last) auto
  then show ?thesis by (subst scanLoop_exact) (simp_all add: visit_lines_deliver)
qed

text \<open>C18: every text has exactly one cut into lines, each with its ending, newline or carriage return and
  newline; scanning hands these lines to the visitor, in order and numbered from one, and stops at the first
  line longer than the limit, naming its number, or at the first the visitor refuses; after a read error
  the unfinished line is not delivered. This holds of \<^verbatim>\<open>ScanLines\<close>, whose read buffer has 65536 bytes, and of its
  loop with a read buffer of any other positive size: where the buffer ends in a line makes no difference,
  nor does the early test on the part of a line read so far.\<close>

theorem scan_lines_exact:
  "\<exists>ls. {c. text_cut s c} = {ls}
    \<and> (\<forall>size' limit. scanLoop size' limit visit readErr [] [] s = deliver limit visit readErr [] ls)
    \<and> ScanLines visit maxLineBytes s readErr =
        deliver (nat (if maxLineBytes \<le> 0 then DefaultMaxLineBytes else maxLineBytes)) visit readErr [] ls"
proof -
  let ?ls = "map split_ending (raw_lines (split_on newline s))"
  have "text_cut s ?ls"
    using text_cut_exists [of "split_on newline s"] split_on_lines_clean [of _ newline s] by (auto simp: join_split)
  then have "{c. text_cut s c} = {?ls}" using text_cut_unique by blast
  then show ?thesis by (intro exI [of _ ?ls]) (simp add: scanLoop_delivers ScanLines_def)
qed

end
