(* ===== verification/Spec2Isabelle.thy ===== *)
theory Spec2Isabelle
  imports Prelude_Base Go_Utf8 Line_Endings Transform Unicode_Validators Table_Search Single_Byte
    Multibyte Tcvn Gb18030 Iso2022 Response_Store Ordered_Processing Task_Logs Task_Store
    Task_Worker Task_Executor Task_System Task_Scheduling Text_Endings_Correct Edit_Patch Edit_Fuzzy Edit_File Diff_Window
    Go_Chunks Deferred_Store Deferred_Lifecycle Deferred_Runs Deferred_Results Deferred_Samples
    Go_Path Path_Validation Path_Confined Text_Lines
begin

text \<open>
  A model of the core of \<^verbatim>\<open>scripthold\<close>, a server that gives a language model controlled access to
  files and to commands on the user's machine, written in Go. All paths below are under \<^verbatim>\<open>src/\<close>.

  \<^bold>\<open>The program.\<close> A tool call enters through \<^verbatim>\<open>filetoolsserver/\<close>. Every path it names is confined to the
  allowed directories (\<^verbatim>\<open>internal/security\<close>). Texts are read through decoders and validators of many
  charsets (\<^verbatim>\<open>internal/encoding\<close>) and a line-ending converter (\<^verbatim>\<open>internal/textstream\<close>), edited by exact,
  flexible and fuzzy replacement or by a patch (\<^verbatim>\<open>filetoolsserver/handler\<close>), and shown back as a bounded
  diff. Many files are processed at once with results in order (\<^verbatim>\<open>internal/concurrency\<close>). An answer too
  long for one message is kept and handed out in chunks (\<^verbatim>\<open>internal/responsecontinuation\<close>); a call that
  takes too long is handed to a detached process that outlives the server
  (\<^verbatim>\<open>internal/deferredoperation\<close>); commands run as durable tasks with a worker, executors and logs
  (\<^verbatim>\<open>internal/taskstore\<close>).

  \<^bold>\<open>The theories\<close>, in the order in which they build on each other.

  \<^item> \<^verbatim>\<open>Prelude_Base\<close>: bytes, words, sums as results, the shared rewrite rules. \<^verbatim>\<open>Go_Utf8\<close>, \<^verbatim>\<open>Go_Hex\<close>, \<^verbatim>\<open>Go_Json\<close>,
    \<^verbatim>\<open>Go_Strings\<close>, \<^verbatim>\<open>Go_Chunks\<close>, \<^verbatim>\<open>Go_Path\<close>: what the code uses of Go's \<^verbatim>\<open>unicode/utf8\<close>, \<^verbatim>\<open>encoding/hex\<close>,
    \<^verbatim>\<open>encoding/json\<close> (what becomes of a string that is written and read), \<^verbatim>\<open>strings\<close>, \<^verbatim>\<open>strconv\<close> and \<^verbatim>\<open>path/filepath\<close> (Unix), with the inverse laws, the character boundaries of
    a text and the canonical form of cleaned paths.
  \<^item> \<^verbatim>\<open>Path_Validation\<close>, \<^verbatim>\<open>Path_Confined\<close>: \<^verbatim>\<open>security/pathvalidation.go\<close>, function by function. Containment is
    prefixing of path elements; the walk to the nearest existing ancestor ends, projects only elements
    that \<^verbatim>\<open>lstat\<close> does not find, and refuses links that are there but do not resolve; an accepted path lies below a root, up to characters that normalising trims.
  \<^item> \<^verbatim>\<open>Line_Endings\<close>: the reader of \<^verbatim>\<open>textstream/line_endings.go\<close> as a record of its buffers and flags, one
    function per method; it refines a conversion defined on the whole text, for single-byte, multibyte,
    UTF-16, UTF-32 and HZ texts. The locale \<^verbatim>\<open>ending_machine\<close> states what the unit machines share and is
    interpreted on the three of them.
  \<^item> \<^verbatim>\<open>Text_Lines\<close>: the line scanner of \<^verbatim>\<open>textstream/lines.go\<close> over a buffer of any size, which delivers the
    one cut of the whole text into lines with their endings; a scan without error has delivered every byte.
  \<^item> \<^verbatim>\<open>Transform\<close>, \<^verbatim>\<open>Unicode_Validators\<close>: every transformer is a step function run by one loop with a bounded
    destination. The locales \<^verbatim>\<open>stream_step\<close>, \<^verbatim>\<open>bounded_step\<close> and \<^verbatim>\<open>copying_step\<close> give the laws of the steps
    and prove once that cutting source and destination anywhere does not change the output; they are
    interpreted on the strict UTF-8, UTF-16, UTF-32, replacement, single-byte and GB18030 transformers.
  \<^item> \<^verbatim>\<open>Table_Search\<close>, \<^verbatim>\<open>Single_Byte\<close>, \<^verbatim>\<open>Multibyte\<close>, \<^verbatim>\<open>Tcvn\<close>, \<^verbatim>\<open>Gb18030\<close>, \<^verbatim>\<open>Iso2022\<close>: construction, decoders and
    encoders of the charsets (\<^verbatim>\<open>singlebyte.go\<close>, \<^verbatim>\<open>multibyte_table.go\<close>, \<^verbatim>\<open>tcvn.go\<close>, \<^verbatim>\<open>strict_gb18030.go\<close>,
    \<^verbatim>\<open>gb18030_2022.go\<close>, \<^verbatim>\<open>iso2022_generated.go\<close>). Tables are arguments whose order and validity the
    construction checks. The locale \<^verbatim>\<open>item_reader\<close> is interpreted on the six ISO-2022 variants.
  \<^item> \<^verbatim>\<open>Response_Store\<close>: \<^verbatim>\<open>responsecontinuation/store.go\<close>; its bounds are an invariant of all reachable stores
    and its chunks make up the response.
  \<^item> \<^verbatim>\<open>Ordered_Processing\<close>: \<^verbatim>\<open>concurrency/ordered.go\<close> as a step relation of the main loop, the workers and the
    context; commits in order, progress, termination and the outcome.
  \<^item> \<^verbatim>\<open>Task_Logs\<close>, \<^verbatim>\<open>Task_Store\<close>, \<^verbatim>\<open>Task_Worker\<close>, \<^verbatim>\<open>Task_Executor\<close>: \<^verbatim>\<open>taskstore/{logs,store,types,worker,executor}.go\<close>.
    A task is a directory: its request, state files, markers and times; a request is read back under the
    bound on its file, so that one whose record is too long is admitted and never started. \<^verbatim>\<open>Task_System\<close> interleaves front
    ends, the worker and the executors, each single read or write being a step and every process able to
    die between two; \<^verbatim>\<open>executions\<close>, \<^verbatim>\<open>born\<close>, \<^verbatim>\<open>births\<close>, \<^verbatim>\<open>counted\<close>, \<^verbatim>\<open>claim\<close> and \<^verbatim>\<open>lostReap\<close> record what happened
    and are read by no step; there, too, a repeated submission is followed over any later run. \<^verbatim>\<open>Task_Scheduling\<close> orders the starts and the retention.
  \<^item> \<^verbatim>\<open>Text_Endings\<close>, \<^verbatim>\<open>Text_Endings_Correct\<close>, \<^verbatim>\<open>Edit_Patch\<close>, \<^verbatim>\<open>Edit_Fuzzy\<close>, \<^verbatim>\<open>Edit_File\<close>, \<^verbatim>\<open>Diff_Window\<close>:
    \<^verbatim>\<open>handler/{line_endings,text_document,edit_patch,edit_fuzzy,edit_file}.go\<close>: parsing and applying
    patches, the bounded edit distance and the search for the best window, the three kinds of match,
    and the window a diff is computed in.
  \<^item> \<^verbatim>\<open>Deferred_Store\<close>: \<^verbatim>\<open>deferredoperation/{store,types,recovery,engine,executor}.go\<close>; operations on a
    directory, lifted to the store; requests are read back under the bound on their file, and a process
    may die between the writes of a claim or a cancellation. \<^verbatim>\<open>Deferred_Lifecycle\<close>: each of them keeps the
    invariant of a directory and only develops it. \<^verbatim>\<open>Deferred_Runs\<close>: sequences of actions of any processes; claims, final
    outcomes, histories, capacity. \<^verbatim>\<open>Deferred_Results\<close>: chunks and the end of an execution.
    \<^verbatim>\<open>Deferred_Samples\<close>: concrete runs, among them one that uses up the revisions of an operation and
    one in which a claim dies after its marker.

  \<^bold>\<open>Conventions.\<close> Structs are records and enumerations are datatypes with the source's names, errors are the
  left of a sum, a nil pointer or a missing file is \<^term>\<open>None\<close>. Go's \<^verbatim>\<open>int\<close> is \<^typ>\<open>int\<close> or, where it is never
  negative, \<^typ>\<open>nat\<close>, and bytes, UTF-16 units and packed table keys are words of their width. Times are
  integers (nanoseconds or seconds); clocks and random bytes are arguments. An operation under a lock is
  one step. Directory listings are association lists.

  \<^bold>\<open>Loops and fuel.\<close> Loops are structural recursions or functions with a measure: the text that is left,
  the height of a path, the elements of a list. Where a client follows offsets (\<^verbatim>\<open>read_response\<close>,
  \<^verbatim>\<open>read_result\<close>, the log readers and the pages of a listing) the number of requests is an argument, and
  the property says how many are enough: one more than there are bytes or entries. Reachability of the
  concurrent parts is inductive and has no bound; \<^verbatim>\<open>ProcessOrdered\<close> has a bound on its steps.

  \<^bold>\<open>Arguments of the model\<close>, in place of what is not under \<^verbatim>\<open>src/\<close> or is only data: the codecs of
  \<^verbatim>\<open>golang.org/x/text\<close> that the strict validators wrap, the generated charset tables, JSON validity, the
  JSON text of a request record and the size of a directory, SHA-256 fingerprints, the third-party differ, the floating-point similarity
  limit of the fuzzy match, and what the file system answers about a path.

  \<^bold>\<open>Not modelled.\<close> The analyzers of \<^verbatim>\<open>internal/sourceintelligence\<close> and the generated tables are by far the
  largest part of the source: they are heuristics and data for some sixty languages and charsets with no
  contract to prove short of their own text. The statistical detection of encodings rests on
  floating-point scores of a library. \<^verbatim>\<open>internal/markdownintelligence\<close> works on the syntax tree of a
  third-party parser. \<^verbatim>\<open>internal/{backupstore,filesystempackage,filesystem,updater,releasearchive,execution}\<close> are
  sequences of system calls (links, renames, locks, permissions, archives, processes) whose meaning is that
  of the operating system; \<^verbatim>\<open>httptransport\<close>, \<^verbatim>\<open>diagnostics\<close>, \<^verbatim>\<open>config\<close> and the tool handlers are decoding,
  encoding and wiring. In the modelled parts, failures of the file system are left out except where they
  are a branch of the protocol, as are deaths inside operations of the deferred store other than claims and
  cancellations, Windows builds, permissions of files and process groups. The checks
  of paths that the deferred operations make are an argument of theirs, independent of \<^verbatim>\<open>Path_Validation\<close>.
\<close>

end
